(* ===== verification/Tac_Prelude.thy ===== *)
theory Tac_Prelude
  imports Main "HOL-Library.Word"
begin

text \<open>
  Shared vocabulary of the development: what a Go function can do besides returning a value
  (an error result, or a run-time panic), slice indexing with its bounds check, and the generic
  facts about lists and outcomes that the component theories use.
\<close>

section \<open>Outcomes of Go functions\<close>

text \<open>
  A Go function returns a value, returns a non-nil error, or panics (an index out of range, a
  write to a nil map). The three are kept apart, so that "never panics" is a statement.
\<close>

datatype ('e, 'a) outcome = Ok (the_ok: 'a) | Err 'e | Panic

named_theorems outcome_simps \<open>sequencing of outcomes\<close>
named_theorems go_slice \<open>checked slice access in range\<close>

primrec obind :: "('e, 'a) outcome \<Rightarrow> ('a \<Rightarrow> ('e, 'b) outcome) \<Rightarrow> ('e, 'b) outcome" where
  "obind (Ok x) f = f x"
| "obind (Err e) f = Err e"
| "obind Panic f = Panic"

lemma obind_eq_Ok [outcome_simps]: "obind m f = Ok y \<longleftrightarrow> (\<exists>x. m = Ok x \<and> f x = Ok y)"
  by (cases m) auto

lemma obind_eq_Panic [outcome_simps]:
  "obind m f = Panic \<longleftrightarrow> m = Panic \<or> (\<exists>x. m = Ok x \<and> f x = Panic)"
  by (cases m) auto

lemma obind_eq_Err [outcome_simps]:
  "obind m f = Err e \<longleftrightarrow> m = Err e \<or> (\<exists>x. m = Ok x \<and> f x = Err e)"
  by (cases m) auto

lemma obind_cong [fundef_cong]:
  "m = m' \<Longrightarrow> (\<And>x. m' = Ok x \<Longrightarrow> f x = f' x) \<Longrightarrow> obind m f = obind m' f'"
  by (cases m') auto

lemma obind_assoc: "obind (obind m f) g = obind m (\<lambda>x. obind (f x) g)"
  by (cases m) auto

section \<open>Checked slice access\<close>

text \<open>Reading or writing \<^verbatim>\<open>xs[i]\<close> panics when \<open>i\<close> is out of range.\<close>

definition slice_get :: "'a list \<Rightarrow> nat \<Rightarrow> ('e, 'a) outcome" where
  "slice_get xs i = (if i < length xs then Ok (xs ! i) else Panic)"

definition slice_set :: "'a list \<Rightarrow> nat \<Rightarrow> 'a \<Rightarrow> ('e, 'a list) outcome" where
  "slice_set xs i v = (if i < length xs then Ok (xs[i := v]) else Panic)"

lemma slice_get_ok [go_slice]: "i < length xs \<Longrightarrow> slice_get xs i = Ok (xs ! i)"
  by (simp add: slice_get_def)

lemma slice_set_ok [go_slice]: "i < length xs \<Longrightarrow> slice_set xs i v = Ok (xs[i := v])"
  by (simp add: slice_set_def)

lemma slice_get_eq_Ok [simp]: "slice_get xs i = Ok v \<longleftrightarrow> i < length xs \<and> v = xs ! i"
  by (auto simp: slice_get_def)

lemma slice_get_not_Err [simp]: "slice_get xs i \<noteq> Err e"
  by (simp add: slice_get_def)

section \<open>Options\<close>

text \<open>Marshalling the elements of a slice: one that fails makes the whole fail.\<close>

fun all_some :: "'a option list \<Rightarrow> 'a list option" where
  "all_some [] = Some []"
| "all_some (x # xs) = Option.bind x (\<lambda>y. map_option ((#) y) (all_some xs))"

lemma all_some_map:
  assumes "\<forall>x \<in> set xs. \<exists>v. f x = Some v \<and> P x v"
  shows "\<exists>vs. all_some (map f xs) = Some vs \<and> list_all2 P xs vs"
  using assms by (induction xs) auto

lemma all_some_all: "\<forall>x \<in> set xs. \<exists>v. f x = Some v \<and> P v \<Longrightarrow> \<exists>vs. all_some (map f xs) = Some vs \<and> list_all P vs"
  by (induction xs) auto

section \<open>Lists\<close>

lemma map_of_zip_nth_distinct:
  assumes "distinct ks" and "length ks = length vs" and "i < length ks"
  shows "map_of (zip ks vs) (ks ! i) = Some (vs ! i)"
  using assms by (simp add: map_of_zip_nth)

lemma map_of_zip_update:
  assumes "distinct ks" and "length ks = length vs" and "i < length ks"
  shows "map_of (zip ks (vs[i := v])) = (map_of (zip ks vs))(ks ! i \<mapsto> v)"
proof
  fix k
  show "map_of (zip ks (vs[i := v])) k = ((map_of (zip ks vs))(ks ! i \<mapsto> v)) k"
  proof (cases "k \<in> set ks")
    case True
    then obtain j where j: "j < length ks" "k = ks ! j"
      by (auto simp: in_set_conv_nth)
    with assms show ?thesis
      by (auto simp: map_of_zip_nth_distinct nth_list_update nth_eq_iff_index_eq)
  next
    case False
    then have "k \<noteq> ks ! i"
      using assms(3) by auto
    moreover have "map_of (zip ks (vs[i := v])) k = None" "map_of (zip ks vs) k = None"
      using False by (auto simp: map_of_eq_None_iff dest: set_zip_leftD)
    ultimately show ?thesis by simp
  qed
qed

lemma takeWhile_append_stop:
  assumes "\<forall>x \<in> set xs. P x" and "ys = [] \<or> \<not> P (hd ys)"
  shows "takeWhile P (xs @ ys) = xs" and "dropWhile P (xs @ ys) = ys"
  using assms by (cases ys; simp)+

lemma sint_inject: "sint (v :: 'a::len word) = sint w \<longleftrightarrow> v = w"
  by (auto dest: arg_cong [where f = "of_int :: int \<Rightarrow> 'a word"])

lemma length_takeWhile_dropWhile: "length (takeWhile P xs) + length (dropWhile P xs) = length xs"
  by (metis length_append takeWhile_dropWhile_id)

end
