(* ===== verification/Go_Float.thy ===== *)
theory Go_Float
  imports Complex_Main Tac_Prelude "HOL-Library.Log_Nat"
begin

text \<open>
  Go's \<^verbatim>\<open>float64\<close>: IEEE 754 binary64 values, their comparisons, and the arithmetic the program uses,
  each operation being the exact rational result rounded to nearest, ties to even. A finite
  non-zero value is carried as the rational number it denotes; negative zero is a value of its
  own, because \<^verbatim>\<open>strconv\<close> and \<^verbatim>\<open>encoding/json\<close> can produce it.
\<close>

datatype float64 = NaN | PosInf | NegInf | NegZero | Fin rat

named_theorems f64_cmp \<open>comparisons of floating-point values\<close>

fun f64_val :: "float64 \<Rightarrow> rat" where
  "f64_val (Fin q) = q"
| "f64_val _ = 0"

fun IsNaN :: "float64 \<Rightarrow> bool" where
  "IsNaN NaN = True"
| "IsNaN _ = False"

text \<open>\<^verbatim>\<open>math.IsInf(v, 0)\<close>: either infinity.\<close>

fun IsInf :: "float64 \<Rightarrow> bool" where
  "IsInf PosInf = True"
| "IsInf NegInf = True"
| "IsInf _ = False"

definition f64_finite :: "float64 \<Rightarrow> bool" where
  "f64_finite x \<longleftrightarrow> \<not> IsNaN x \<and> \<not> IsInf x"

text \<open>Go's \<^verbatim>\<open><\<close>, \<^verbatim>\<open><=\<close> and \<^verbatim>\<open>==\<close>: false whenever an operand is NaN, and the two zeros are equal.\<close>

fun f64_lt :: "float64 \<Rightarrow> float64 \<Rightarrow> bool" where
  "f64_lt NaN _ = False"
| "f64_lt _ NaN = False"
| "f64_lt _ NegInf = False"
| "f64_lt NegInf _ = True"
| "f64_lt PosInf _ = False"
| "f64_lt _ PosInf = True"
| "f64_lt x y = (f64_val x < f64_val y)"

fun f64_eq :: "float64 \<Rightarrow> float64 \<Rightarrow> bool" where
  "f64_eq NaN _ = False"
| "f64_eq _ NaN = False"
| "f64_eq PosInf y = (y = PosInf)"
| "f64_eq x PosInf = False"
| "f64_eq NegInf y = (y = NegInf)"
| "f64_eq x NegInf = False"
| "f64_eq x y = (f64_val x = f64_val y)"

definition f64_le :: "float64 \<Rightarrow> float64 \<Rightarrow> bool" where
  "f64_le x y \<longleftrightarrow> f64_lt x y \<or> f64_eq x y"

lemma f64_finite_cases:
  assumes "f64_finite x"
  obtains (NegZero) "x = NegZero" | (Fin) q where "x = Fin q"
  using assms by (cases x) (auto simp: f64_finite_def)

lemma f64_finite_simps [simp]:
  "f64_finite (Fin q)" "f64_finite NegZero" "\<not> f64_finite NaN"
  "\<not> f64_finite PosInf" "\<not> f64_finite NegInf"
  by (simp_all add: f64_finite_def)

lemma f64_lt_finite [f64_cmp]:
  "f64_finite x \<Longrightarrow> f64_finite y \<Longrightarrow> f64_lt x y \<longleftrightarrow> f64_val x < f64_val y"
  by (auto elim!: f64_finite_cases)

lemma f64_eq_finite [f64_cmp]:
  "f64_finite x \<Longrightarrow> f64_finite y \<Longrightarrow> f64_eq x y \<longleftrightarrow> f64_val x = f64_val y"
  by (auto elim!: f64_finite_cases)

lemma f64_le_finite [f64_cmp]:
  "f64_finite x \<Longrightarrow> f64_finite y \<Longrightarrow> f64_le x y \<longleftrightarrow> f64_val x \<le> f64_val y"
  by (auto simp: f64_le_def f64_lt_finite f64_eq_finite)

lemma f64_eq_refl: "f64_eq x x \<longleftrightarrow> x \<noteq> NaN"
  by (cases x) auto

lemma f64_eq_sym: "f64_eq x y \<longleftrightarrow> f64_eq y x"
  by (cases x; cases y) auto

lemma f64_lt_trans: "f64_lt x y \<Longrightarrow> f64_lt y z \<Longrightarrow> f64_lt x z"
  by (cases x; cases y; cases z) auto

section \<open>Rounding\<close>

definition round_even :: "rat \<Rightarrow> int" where
  "round_even q =
     (let f = \<lfloor>q\<rfloor>; r = q - of_int f
      in if r < 1 / 2 then f else if r > 1 / 2 then f + 1 else if even f then f else f + 1)"

text \<open>\<open>floor_log2 q\<close> is the exponent \<open>k\<close> with \<open>2^k \<le> \<bar>q\<bar> < 2^(k+1)\<close>.\<close>

definition floor_log2 :: "rat \<Rightarrow> int" where
  "floor_log2 q =
     (let (n, d) = quotient_of \<bar>q\<bar>; l = bitlen n - bitlen d
      in if \<bar>q\<bar> < 2 powi l then l - 1 else l)"

text \<open>The exponent of the last place: 53 significant bits, but never below the subnormal step.\<close>

definition ulp_exp :: "rat \<Rightarrow> int" where
  "ulp_exp q = max (floor_log2 q - 52) (- 1074)"

definition round_rat :: "rat \<Rightarrow> rat" where
  "round_rat q =
     (if q = 0 then 0 else of_int (round_even (q / 2 powi ulp_exp q)) * 2 powi ulp_exp q)"

text \<open>\<open>f64_of_rat neg q\<close> rounds \<open>q\<close>; \<open>neg\<close> is the sign a zero result takes.\<close>

definition f64_of_rat :: "bool \<Rightarrow> rat \<Rightarrow> float64" where
  "f64_of_rat neg q =
     (let r = round_rat q
      in if r = 0 then (if neg then NegZero else Fin 0)
         else if 2 ^ 1024 \<le> r then PosInf
         else if r \<le> - (2 ^ 1024) then NegInf
         else Fin r)"

definition f64_neg :: "float64 \<Rightarrow> bool" where
  "f64_neg x \<longleftrightarrow> (case x of NegZero \<Rightarrow> True | NegInf \<Rightarrow> True | Fin q \<Rightarrow> q < 0 | _ \<Rightarrow> False)"

subsection \<open>Properties of rounding\<close>

lemma round_even_bounds: "\<lfloor>q\<rfloor> \<le> round_even q" "round_even q \<le> \<lceil>q\<rceil>"
  by (auto simp: round_even_def Let_def ceiling_altdef)

lemma round_even_le_int: "q \<le> of_int m \<Longrightarrow> round_even q \<le> m"
  using round_even_bounds(2)[of q] by (meson ceiling_le_iff order_trans)

lemma int_le_round_even: "of_int m \<le> q \<Longrightarrow> m \<le> round_even q"
  using round_even_bounds(1)[of q] by (meson le_floor_iff order_trans)

lemma round_even_of_int [simp]: "round_even (of_int m) = m"
  by (simp add: round_even_def)

lemma round_even_mono:
  assumes "p \<le> q" shows "round_even p \<le> round_even q"
proof (cases "\<lfloor>p\<rfloor> = \<lfloor>q\<rfloor>")
  case True
  with assms show ?thesis by (auto simp: round_even_def Let_def)
next
  case False
  with assms have lt: "\<lfloor>p\<rfloor> < \<lfloor>q\<rfloor>" by (meson floor_mono order_le_neq_trans)
  have "round_even p \<le> \<lfloor>p\<rfloor> + 1" by (auto simp: round_even_def Let_def)
  also have "\<dots> \<le> \<lfloor>q\<rfloor>" using lt by simp
  also have "\<dots> \<le> round_even q" by (rule round_even_bounds)
  finally show ?thesis .
qed

lemma round_even_minus: "round_even (- q) = - round_even q"
proof (cases "q = of_int \<lfloor>q\<rfloor>")
  case True
  then obtain m where "q = of_int m" by blast
  then show ?thesis by (metis of_int_minus round_even_of_int)
next
  case False
  then have "q \<noteq> of_int \<lceil>q\<rceil>" by (metis floor_of_int)
  then have f: "\<lfloor>- q\<rfloor> = - \<lfloor>q\<rfloor> - 1"
    using False by (simp add: floor_minus ceiling_altdef)
  have eq: "- q - of_int \<lfloor>- q\<rfloor> = 1 - (q - of_int \<lfloor>q\<rfloor>)" using f by simp
  define r where "r = q - of_int \<lfloor>q\<rfloor>"
  have "round_even (- q) =
      (if 1 - r < 1 / 2 then - \<lfloor>q\<rfloor> - 1 else if 1 - r > 1 / 2 then - \<lfloor>q\<rfloor>
       else if even (- \<lfloor>q\<rfloor> - 1) then - \<lfloor>q\<rfloor> - 1 else - \<lfloor>q\<rfloor>)"
    unfolding round_even_def Let_def eq r_def[symmetric] by (simp add: f)
  also have "\<dots> = - round_even q"
    unfolding round_even_def Let_def r_def[symmetric] by auto
  finally show ?thesis .
qed

lemma bitlen_rat_bounds:
  assumes "0 < n" shows "(2::rat) powi (bitlen n - 1) \<le> of_int n" "of_int n < (2::rat) powi bitlen n"
proof -
  have b: "2 ^ nat (bitlen n - 1) \<le> n" "n < 2 ^ nat (bitlen n)"
    using bitlen_bounds[OF assms] by auto
  have pos: "0 < bitlen n" using b(2) assms by (cases "bitlen n \<le> 0") auto
  have "(2::rat) powi (bitlen n - 1) = of_int (2 ^ nat (bitlen n - 1))"
    "(2::rat) powi bitlen n = of_int (2 ^ nat (bitlen n))"
    using pos by (simp_all add: power_int_def)
  then show "(2::rat) powi (bitlen n - 1) \<le> of_int n" "of_int n < (2::rat) powi bitlen n"
    using b by (metis of_int_le_iff, metis of_int_less_iff)
qed

lemma floor_log2_bounds:
  assumes "q \<noteq> 0"
  shows "2 powi floor_log2 q \<le> \<bar>q\<bar>" and "\<bar>q\<bar> < 2 powi (floor_log2 q + 1)"
proof -
  obtain n d where nd: "quotient_of \<bar>q\<bar> = (n, d)" by force
  have d: "0 < d" by (rule quotient_of_denom_pos[OF nd])
  have eq: "\<bar>q\<bar> = of_int n / of_int d" by (rule quotient_of_div[OF nd])
  have n: "0 < n" using assms eq d
    by (metis not_less_iff_gr_or_eq of_int_0_less_iff zero_less_abs_iff zero_less_divide_iff)
  let ?l = "bitlen n - bitlen d"
  note bn = bitlen_rat_bounds[OF n] and bd = bitlen_rat_bounds[OF d]
  have dpos: "(0::rat) < of_int d" using d by simp
  have "(2::rat) powi (?l - 1) * of_int d \<le> 2 powi (?l - 1) * 2 powi bitlen d"
    using bd(2) by (intro mult_left_mono) auto
  also have "\<dots> = 2 powi (bitlen n - 1)" by (simp flip: power_int_add)
  also have "\<dots> \<le> of_int n" by (rule bn)
  finally have lo: "2 powi (?l - 1) \<le> \<bar>q\<bar>" using dpos by (simp add: eq pos_le_divide_eq)
  have "of_int n < (2::rat) powi bitlen n" by (rule bn)
  also have "\<dots> = 2 powi (?l + 1) * 2 powi (bitlen d - 1)" by (simp flip: power_int_add)
  also have "\<dots> \<le> 2 powi (?l + 1) * of_int d"
    using bd(1) by (intro mult_left_mono) auto
  finally have hi: "\<bar>q\<bar> < 2 powi (?l + 1)" using dpos by (simp add: eq pos_divide_less_eq)
  show "2 powi floor_log2 q \<le> \<bar>q\<bar>" and "\<bar>q\<bar> < 2 powi (floor_log2 q + 1)"
    using lo hi by (auto simp: floor_log2_def nd Let_def)
qed

text \<open>A rational number that 53 bits of significand and the subnormal step can express.\<close>

definition representable :: "rat \<Rightarrow> bool" where
  "representable r \<longleftrightarrow> (\<exists>m e. r = of_int m * 2 powi e \<and> \<bar>m\<bar> < 2 ^ 53 \<and> - 1074 \<le> e)"

lemma ulp_exp_upper: "q \<noteq> 0 \<Longrightarrow> \<bar>q\<bar> < 2 powi (ulp_exp q + 53)"
proof -
  assume "q \<noteq> 0"
  then have "\<bar>q\<bar> < 2 powi (floor_log2 q + 1)" by (rule floor_log2_bounds)
  also have "(2::rat) powi (floor_log2 q + 1) \<le> 2 powi (ulp_exp q + 53)"
    by (rule power_int_increasing) (auto simp: ulp_exp_def)
  finally show ?thesis .
qed

lemma ulp_exp_lower: "q \<noteq> 0 \<Longrightarrow> ulp_exp q > - 1074 \<Longrightarrow> 2 powi (ulp_exp q + 52) \<le> \<bar>q\<bar>"
  using floor_log2_bounds(1)[of q] by (auto simp: ulp_exp_def max_def split: if_splits)

lemma ulp_exp_ge: "- 1074 \<le> ulp_exp q"
  by (simp add: ulp_exp_def)

lemma ulp_exp_minus [simp]: "ulp_exp (- q) = ulp_exp q"
  by (simp add: ulp_exp_def floor_log2_def)

lemma round_rat_0 [simp]: "round_rat 0 = 0"
  by (simp add: round_rat_def)

lemma round_rat_minus: "round_rat (- q) = - round_rat q"
  by (simp add: round_rat_def round_even_minus)

lemma powi_split: "(2::rat) powi (a + b) = 2 powi a * 2 powi b"
  by (simp add: power_int_add)

lemma pow2_pos [simp]: "(0::rat) < 2 powi e"
  by (simp add: zero_less_power_int)

lemma representable_multiple:
  assumes r: "representable r" and e: "e = - 1074 \<or> 2 powi (e + 52) \<le> r"
  shows "\<exists>k. r = of_int k * 2 powi e"
proof -
  from r obtain m f where mf: "r = of_int m * 2 powi f" "\<bar>m\<bar> < 2 ^ 53" "- 1074 \<le> f"
    by (auto simp: representable_def)
  show ?thesis
  proof (cases "e \<le> f")
    case True
    then have "(2::rat) powi f = 2 powi (f - e) * 2 powi e" by (simp flip: power_int_add)
    also have "(2::rat) powi (f - e) = of_int (2 ^ nat (f - e))"
      using True by (simp add: power_int_def)
    finally have "r = of_int (m * 2 ^ nat (f - e)) * 2 powi e" using mf by simp
    then show ?thesis by blast
  next
    case False
    then have lo: "2 powi (e + 52) \<le> r" using mf(3) e by auto
    have "of_int m < (2::rat) ^ 53" using mf(2)
      by (metis abs_less_iff of_int_less_numeral_power_cancel_iff)
    then have "r < 2 ^ 53 * 2 powi f" unfolding mf(1) by (intro mult_strict_right_mono) auto
    then have "r < 2 powi (f + 53)" by (simp add: powi_split mult.commute)
    also have "(2::rat) powi (f + 53) \<le> 2 powi (e + 52)"
      using False by (intro power_int_increasing) auto
    finally show ?thesis using lo by simp
  qed
qed

lemma ulp_exp_bound_or_min: "0 < q \<Longrightarrow> ulp_exp q = - 1074 \<or> 2 powi (ulp_exp q + 52) \<le> q"
  using ulp_exp_lower[of q] ulp_exp_ge[of q] by fastforce

lemma round_rat_le_pos:
  assumes r: "representable r" and q: "0 < q" "q \<le> r"
  shows "round_rat q \<le> r"
proof -
  let ?e = "ulp_exp q"
  obtain k where k: "r = of_int k * 2 powi ?e"
    using representable_multiple[OF r] ulp_exp_bound_or_min[OF q(1)] q(2) order_trans by blast
  have "q / 2 powi ?e \<le> of_int k" using q(2) k by (simp add: pos_divide_le_eq)
  then have "round_even (q / 2 powi ?e) \<le> k" by (rule round_even_le_int)
  then show ?thesis using q(1) k by (simp add: round_rat_def mult_right_mono)
qed

lemma round_rat_nonneg: "0 \<le> q \<Longrightarrow> 0 \<le> round_rat q"
proof -
  assume "0 \<le> q"
  then have "0 \<le> round_even (q / 2 powi ulp_exp q)"
    by (intro int_le_round_even) (simp add: divide_nonneg_pos)
  then show ?thesis by (simp add: round_rat_def)
qed

lemma le_round_rat_pos:
  assumes r: "representable r" and q: "0 < q" "r \<le> q"
  shows "r \<le> round_rat q"
proof (cases "ulp_exp q = - 1074 \<or> 2 powi (ulp_exp q + 52) \<le> r")
  case True
  let ?e = "ulp_exp q"
  obtain k where k: "r = of_int k * 2 powi ?e" using representable_multiple[OF r True] by blast
  have "of_int k \<le> q / 2 powi ?e" using q(2) k by (simp add: pos_le_divide_eq)
  then have "k \<le> round_even (q / 2 powi ?e)" by (rule int_le_round_even)
  then show ?thesis using q(1) k by (simp add: round_rat_def mult_right_mono)
next
  case False
  let ?e = "ulp_exp q"
  have "2 powi (?e + 52) \<le> q" using False ulp_exp_bound_or_min[OF q(1)] by blast
  then have "of_int (2 ^ 52) \<le> q / 2 powi ?e"
    by (simp add: pos_le_divide_eq powi_split mult.commute)
  then have "2 ^ 52 \<le> round_even (q / 2 powi ?e)" by (rule int_le_round_even)
  then have "of_int (2 ^ 52) * 2 powi ?e \<le> of_int (round_even (q / 2 powi ?e)) * (2::rat) powi ?e"
    by (intro mult_right_mono) (auto simp del: of_int_power of_int_numeral)
  then have "2 powi (?e + 52) \<le> round_rat q"
    using q(1) by (simp add: round_rat_def powi_split mult.commute)
  then show ?thesis using False by simp
qed

lemma representable_minus: "representable (- r) \<longleftrightarrow> representable r"
proof -
  have "representable (- r)" if "representable r" for r
  proof -
    from that obtain m e where "r = of_int m * 2 powi e" "\<bar>m\<bar> < 2 ^ 53" "- 1074 \<le> e"
      by (auto simp: representable_def)
    then have "- r = of_int (- m) * 2 powi e" "\<bar>- m\<bar> < 2 ^ 53" by simp_all
    with \<open>- 1074 \<le> e\<close> show ?thesis unfolding representable_def by blast
  qed
  from this[of r] this[of "- r"] show ?thesis by auto
qed

lemma representable_0 [simp]: "representable 0"
  unfolding representable_def by (rule exI[of _ 0], rule exI[of _ 0]) simp

text \<open>
  Rounding never crosses a representable number. Together with monotonicity this is all that
  the range proofs of the components need.
\<close>

lemma round_rat_le: "representable r \<Longrightarrow> q \<le> r \<Longrightarrow> round_rat q \<le> r"
proof (cases "0 < q")
  case False
  assume r: "representable r" "q \<le> r"
  show ?thesis
  proof (cases "q = 0")
    case True then show ?thesis using r by simp
  next
    case nz: False
    then have "- r \<le> round_rat (- q)"
      using False r by (intro le_round_rat_pos) (auto simp: representable_minus)
    then show ?thesis by (simp add: round_rat_minus)
  qed
qed (rule round_rat_le_pos)

lemma le_round_rat: "representable r \<Longrightarrow> r \<le> q \<Longrightarrow> r \<le> round_rat q"
  using round_rat_le[of "- r" "- q"] by (simp add: representable_minus round_rat_minus)

lemma round_rat_exact: "representable r \<Longrightarrow> round_rat r = r"
  by (simp add: antisym le_round_rat round_rat_le)

lemma representable_pow2: "- 1074 \<le> e \<Longrightarrow> representable (2 powi e)"
  unfolding representable_def by (rule exI[of _ 1], rule exI[of _ e]) simp

lemma representable_int: "\<bar>m\<bar> < 2 ^ 53 \<Longrightarrow> representable (of_int m)"
  unfolding representable_def by (rule exI[of _ m], rule exI[of _ 0]) simp

lemma round_rat_mono_pos:
  assumes "0 < p" "p \<le> q" shows "round_rat p \<le> round_rat q"
proof (cases "ulp_exp p = ulp_exp q")
  case True
  have "round_even (p / 2 powi ulp_exp q) \<le> round_even (q / 2 powi ulp_exp q)"
    using assms by (intro round_even_mono divide_right_mono) auto
  then show ?thesis using assms True by (simp add: round_rat_def mult_right_mono)
next
  case False
  have up: "p < 2 powi (ulp_exp p + 53)" using ulp_exp_upper[of p] assms by simp
  have "floor_log2 p \<le> floor_log2 q"
  proof (rule ccontr)
    assume "\<not> ?thesis"
    then have "(2::rat) powi (floor_log2 q + 1) \<le> 2 powi floor_log2 p"
      by (intro power_int_increasing) auto
    then show False using floor_log2_bounds[of p] floor_log2_bounds[of q] assms by simp
  qed
  then have lt: "ulp_exp p < ulp_exp q" using False by (auto simp: ulp_exp_def)
  let ?b = "2 powi (ulp_exp q + 52) :: rat"
  have rep: "representable ?b" using ulp_exp_ge[of q] by (intro representable_pow2) simp
  have "p \<le> ?b" using up power_int_increasing[of "ulp_exp p + 53" "ulp_exp q + 52" "2::rat"] lt by simp
  then have "round_rat p \<le> ?b" by (rule round_rat_le[OF rep])
  also have "?b \<le> round_rat q"
    using lt ulp_exp_ge[of p] ulp_exp_lower[of q] assms by (intro le_round_rat[OF rep]) simp
  finally show ?thesis .
qed

lemma round_rat_mono:
  assumes "p \<le> q" shows "round_rat p \<le> round_rat q"
proof -
  consider "0 < p" | "p \<le> 0" "0 \<le> q" | "q < 0" by linarith
  then show ?thesis
  proof cases
    case 1 then show ?thesis by (rule round_rat_mono_pos[OF _ assms])
  next
    case 2
    then have "round_rat p \<le> 0" "0 \<le> round_rat q"
      using round_rat_le[of 0 p] round_rat_nonneg[of q] by auto
    then show ?thesis by simp
  next
    case 3
    then have "round_rat (- q) \<le> round_rat (- p)" using assms by (intro round_rat_mono_pos) auto
    then show ?thesis by (simp add: round_rat_minus)
  qed
qed

lemma representable_round_rat: "representable (round_rat q)"
proof -
  have pos: "representable (round_rat q)" if "0 < q" for q
  proof -
    let ?e = "ulp_exp q" and ?m = "round_even (q / 2 powi ulp_exp q)"
    have eq: "round_rat q = of_int ?m * 2 powi ?e" using that by (simp add: round_rat_def)
    have "q / 2 powi ?e \<le> of_int (2 ^ 53)"
      using ulp_exp_upper[of q] that by (simp add: pos_divide_le_eq powi_split mult.commute)
    then have hi: "?m \<le> 2 ^ 53" by (rule round_even_le_int)
    have lo: "0 \<le> ?m" using that by (intro int_le_round_even) (simp add: divide_nonneg_pos)
    show ?thesis
    proof (cases "?m = 2 ^ 53")
      case True
      then have "round_rat q = 2 powi (?e + 53)" by (simp add: eq powi_split mult.commute)
      then show ?thesis using ulp_exp_ge[of q] by (simp add: representable_pow2)
    next
      case False
      then have "\<bar>?m\<bar> < 2 ^ 53" using hi lo by simp
      then show ?thesis unfolding representable_def using eq ulp_exp_ge[of q] by blast
    qed
  qed
  consider "0 < q" | "q = 0" | "0 < - q" by linarith
  then show ?thesis
    using pos[of q] pos[of "- q"] by cases (auto simp: round_rat_minus representable_minus)
qed

section \<open>Values and arithmetic\<close>

text \<open>The invariant of the type: the rational of a finite value is one that binary64 has.\<close>

fun is_float64 :: "float64 \<Rightarrow> bool" where
  "is_float64 (Fin q) \<longleftrightarrow> representable q \<and> \<bar>q\<bar> < 2 ^ 1024"
| "is_float64 _ \<longleftrightarrow> True"

lemma is_float64_of_rat: "is_float64 (f64_of_rat neg q)"
  using representable_round_rat[of q] by (auto simp: f64_of_rat_def Let_def abs_less_iff)

lemma f64_of_rat_not_NaN: "\<not> IsNaN (f64_of_rat neg q)"
  by (simp add: f64_of_rat_def Let_def)

lemma f64_of_rat_in_range:
  assumes "\<bar>q\<bar> \<le> of_int m" and "m < 2 ^ 53"
  shows "f64_finite (f64_of_rat neg q)" and "f64_val (f64_of_rat neg q) = round_rat q"
proof -
  have m0: "0 \<le> m" using assms(1) by (metis abs_ge_zero of_int_0_le_iff order_trans)
  then have rep: "representable (of_int m)" using assms(2) by (intro representable_int) simp
  have hi: "round_rat q \<le> of_int m" using assms(1) by (intro round_rat_le[OF rep]) linarith
  have "representable (- of_int m)" using rep by (simp add: representable_minus)
  then have lo: "- of_int m \<le> round_rat q" using assms(1) by (intro le_round_rat) linarith+
  have "(of_int m :: rat) < of_int (2 ^ 53)" using assms(2) by (simp only: of_int_less_iff)
  also have "(of_int (2 ^ 53) :: rat) < 2 ^ 1024" by simp
  finally have "(of_int m :: rat) < 2 ^ 1024" .
  then have "\<not> 2 ^ 1024 \<le> round_rat q" "\<not> round_rat q \<le> - (2 ^ 1024)" using hi lo by linarith+
  then show "f64_finite (f64_of_rat neg q)" "f64_val (f64_of_rat neg q) = round_rat q"
    by (auto simp: f64_of_rat_def Let_def)
qed

fun f64_minus :: "float64 \<Rightarrow> float64" where
  "f64_minus NaN = NaN"
| "f64_minus PosInf = NegInf"
| "f64_minus NegInf = PosInf"
| "f64_minus NegZero = Fin 0"
| "f64_minus (Fin q) = (if q = 0 then NegZero else Fin (- q))"

fun f64_add :: "float64 \<Rightarrow> float64 \<Rightarrow> float64" where
  "f64_add NaN _ = NaN"
| "f64_add _ NaN = NaN"
| "f64_add PosInf y = (if y = NegInf then NaN else PosInf)"
| "f64_add NegInf y = (if y = PosInf then NaN else NegInf)"
| "f64_add _ PosInf = PosInf"
| "f64_add _ NegInf = NegInf"
| "f64_add NegZero NegZero = NegZero"
| "f64_add x y = f64_of_rat False (f64_val x + f64_val y)"

definition f64_sub :: "float64 \<Rightarrow> float64 \<Rightarrow> float64" where
  "f64_sub x y = f64_add x (f64_minus y)"

definition f64_inf :: "bool \<Rightarrow> float64" where
  "f64_inf neg = (if neg then NegInf else PosInf)"

definition f64_mul :: "float64 \<Rightarrow> float64 \<Rightarrow> float64" where
  "f64_mul x y =
     (let neg = (f64_neg x \<noteq> f64_neg y)
      in if IsNaN x \<or> IsNaN y then NaN
         else if IsInf x \<or> IsInf y then
           (if f64_eq x (Fin 0) \<or> f64_eq y (Fin 0) then NaN else f64_inf neg)
         else f64_of_rat neg (f64_val x * f64_val y))"

definition f64_div :: "float64 \<Rightarrow> float64 \<Rightarrow> float64" where
  "f64_div x y =
     (let neg = (f64_neg x \<noteq> f64_neg y)
      in if IsNaN x \<or> IsNaN y then NaN
         else if IsInf x then (if IsInf y then NaN else f64_inf neg)
         else if IsInf y then (if neg then NegZero else Fin 0)
         else if f64_val y = 0 then (if f64_val x = 0 then NaN else f64_inf neg)
         else f64_of_rat neg (f64_val x / f64_val y))"

definition f64_of_int :: "int \<Rightarrow> float64" where
  "f64_of_int n = f64_of_rat False (of_int n)"

text \<open>\<^verbatim>\<open>math.Round\<close>: half away from zero.\<close>

definition round_away :: "rat \<Rightarrow> int" where
  "round_away q = (if q < 0 then - \<lfloor>1 / 2 - q\<rfloor> else \<lfloor>q + 1 / 2\<rfloor>)"

fun f64_Round :: "float64 \<Rightarrow> float64" where
  "f64_Round (Fin q) = (if round_away q = 0 \<and> q < 0 then NegZero else Fin (of_int (round_away q)))"
| "f64_Round x = x"

text \<open>
  The conversion \<^verbatim>\<open>int(x)\<close> truncates. Go leaves the result open when \<open>x\<close> is not finite or the
  truncated value does not fit 64 bits: that is \<^const>\<open>None\<close> here.
\<close>

definition f64_trunc :: "rat \<Rightarrow> int" where
  "f64_trunc q = (if q < 0 then \<lceil>q\<rceil> else \<lfloor>q\<rfloor>)"

definition f64_to_int :: "float64 \<Rightarrow> int option" where
  "f64_to_int x =
     (let n = f64_trunc (f64_val x)
      in if f64_finite x \<and> - (2 ^ 63) \<le> n \<and> n < 2 ^ 63 then Some n else None)"

lemma f64_sub_finite:
  assumes "f64_finite x" "f64_finite y" "\<bar>f64_val x - f64_val y\<bar> \<le> of_int m" "m < 2 ^ 53"
  shows "f64_finite (f64_sub x y)" and "f64_val (f64_sub x y) = round_rat (f64_val x - f64_val y)"
  using assms(1,2) f64_of_rat_in_range[OF assms(3,4), of False]
  by (auto elim!: f64_finite_cases simp: f64_sub_def)

lemma f64_div_finite:
  assumes "f64_finite x" "f64_finite y" "f64_val y \<noteq> 0"
    and "\<bar>f64_val x / f64_val y\<bar> \<le> of_int m" "m < 2 ^ 53"
  shows "f64_finite (f64_div x y)" and "f64_val (f64_div x y) = round_rat (f64_val x / f64_val y)"
  using assms(1-3) f64_of_rat_in_range[OF assms(4,5)]
  by (auto simp: f64_finite_def f64_div_def Let_def)

lemma f64_mul_finite:
  assumes "f64_finite x" "f64_finite y"
    and "\<bar>f64_val x * f64_val y\<bar> \<le> of_int m" "m < 2 ^ 53"
  shows "f64_finite (f64_mul x y)" and "f64_val (f64_mul x y) = round_rat (f64_val x * f64_val y)"
  using assms(1,2) f64_of_rat_in_range[OF assms(3,4)]
  by (auto simp: f64_finite_def f64_mul_def Let_def)

lemma f64_of_int_exact:
  assumes "\<bar>m\<bar> < 2 ^ 53"
  shows "f64_finite (f64_of_int m)" and "f64_val (f64_of_int m) = of_int m"
  using f64_of_rat_in_range[of "of_int m" "\<bar>m\<bar>" False] assms
    round_rat_exact[OF representable_int[OF assms]]
  by (auto simp: f64_of_int_def)

text \<open>
  Gradual underflow: two different finite values never have a difference that rounds to zero, so
  a quotient by the difference of two different values is never a division by zero.
\<close>

lemma round_rat_diff_pos:
  assumes "representable p" "representable q" "p < q"
  shows "0 < round_rat (q - p)"
proof -
  obtain j k where jk: "p = of_int j * 2 powi (- 1074)" "q = of_int k * 2 powi (- 1074)"
    using representable_multiple[of p "- 1074"] representable_multiple[of q "- 1074"] assms by blast
  then have eq: "q - p = of_int (k - j) * 2 powi (- 1074)" by (simp add: left_diff_distrib)
  have "0 < of_int (k - j) * (2::rat) powi (- 1074)" using assms(3) eq by simp
  then have "0 < (of_int (k - j) :: rat)" by (simp only: zero_less_mult_pos2[OF _ pow2_pos])
  then have "1 \<le> k - j" by simp
  then have "(1::rat) \<le> of_int (k - j)" by (metis of_int_1_le_iff)
  then have "1 * 2 powi (- 1074) \<le> of_int (k - j) * (2::rat) powi (- 1074)"
    by (intro mult_right_mono) auto
  then have "2 powi (- 1074) \<le> q - p" using eq by simp
  then have "2 powi (- 1074) \<le> round_rat (q - p)" by (intro le_round_rat representable_pow2) simp_all
  then show ?thesis using pow2_pos[of "- 1074"] by linarith
qed

end
