(* ===== verification/Go_Strings.thy ===== *)
theory Go_Strings
  imports Go_Float
begin

text \<open>
  Go strings are byte sequences: a \<^typ>\<open>string\<close> here, one \<^typ>\<open>char\<close> per byte. This theory holds the
  parts of \<^verbatim>\<open>strings\<close>, \<^verbatim>\<open>strconv\<close> and \<^verbatim>\<open>unicode/utf8\<close> that the program calls, on byte strings.
\<close>

abbreviation byte_of :: "char \<Rightarrow> nat" where
  "byte_of c \<equiv> of_char c"

lemma byte_of_less [simp]: "byte_of c < 256"
  using nat_of_char_less_256 by simp

section \<open>strings\<close>

definition HasPrefix :: "string \<Rightarrow> string \<Rightarrow> bool" where
  "HasPrefix s p \<longleftrightarrow> take (length p) s = p"

definition TrimPrefix :: "string \<Rightarrow> string \<Rightarrow> string" where
  "TrimPrefix s p = (if HasPrefix s p then drop (length p) s else s)"

definition HasSuffix :: "string \<Rightarrow> string \<Rightarrow> bool" where
  "HasSuffix s p \<longleftrightarrow> length p \<le> length s \<and> drop (length s - length p) s = p"

definition TrimSuffix :: "string \<Rightarrow> string \<Rightarrow> string" where
  "TrimSuffix s p = (if HasSuffix s p then take (length s - length p) s else s)"

text \<open>\<^verbatim>\<open>strings.ContainsAny\<close> with an ASCII set of characters looks for one of these bytes.\<close>

definition ContainsAny :: "string \<Rightarrow> string \<Rightarrow> bool" where
  "ContainsAny s cs \<longleftrightarrow> list_ex (\<lambda>c. c \<in> set cs) s"

text \<open>\<^verbatim>\<open>strings.IndexByte\<close>: \<^const>\<open>None\<close> is Go's \<^verbatim>\<open>-1\<close>.\<close>

fun IndexByte :: "string \<Rightarrow> char \<Rightarrow> nat option" where
  "IndexByte [] c = None"
| "IndexByte (x # xs) c = (if x = c then Some 0 else map_option Suc (IndexByte xs c))"

text \<open>\<^verbatim>\<open>strings.ReplaceAll\<close> of a one-byte pattern.\<close>

definition ReplaceByte :: "string \<Rightarrow> char \<Rightarrow> string \<Rightarrow> string" where
  "ReplaceByte s c r = concat (map (\<lambda>x. if x = c then r else [x]) s)"

lemma HasPrefix_append [simp]: "HasPrefix (p @ s) p"
  by (simp add: HasPrefix_def)

lemma HasPrefix_iff: "HasPrefix s p \<longleftrightarrow> (\<exists>t. s = p @ t)"
  unfolding HasPrefix_def by (metis append_eq_conv_conj)

lemma TrimPrefix_append [simp]: "TrimPrefix (p @ s) p = s"
  by (simp add: TrimPrefix_def)

lemma IndexByte_SomeD: "IndexByte s c = Some i \<Longrightarrow> i < length s \<and> s ! i = c \<and> c \<notin> set (take i s)"
  by (induction s c arbitrary: i rule: IndexByte.induct) (auto split: if_splits)

lemma IndexByte_first: "c \<notin> set p \<Longrightarrow> IndexByte (p @ c # s) c = Some (length p)"
  by (induction p) auto

lemma IndexByte_None: "IndexByte s c = None \<longleftrightarrow> c \<notin> set s"
  by (induction s c rule: IndexByte.induct) auto

section \<open>strconv\<close>

definition is_digit :: "char \<Rightarrow> bool" where
  "is_digit c \<longleftrightarrow> 48 \<le> byte_of c \<and> byte_of c \<le> 57"

definition digit_val :: "char \<Rightarrow> nat" where
  "digit_val c = byte_of c - 48"

definition dec_val :: "string \<Rightarrow> nat" where
  "dec_val ds = foldl (\<lambda>n c. 10 * n + digit_val c) 0 ds"

text \<open>
  \<^verbatim>\<open>strconv.ParseInt(s, 10, 64)\<close>: an optional sign and one or more decimal digits; \<^const>\<open>None\<close> is the
  syntax or the range error.
\<close>

fun split_sign :: "string \<Rightarrow> bool \<times> string" where
  "split_sign [] = (False, [])"
| "split_sign (c # cs) =
     (if c = CHR ''-'' then (True, cs) else if c = CHR ''+'' then (False, cs) else (False, c # cs))"

definition ParseInt64 :: "string \<Rightarrow> 64 word option" where
  "ParseInt64 s =
     (let (neg, ds) = split_sign s; n = (if neg then - int (dec_val ds) else int (dec_val ds))
      in if ds = [] \<or> \<not> list_all is_digit ds then None
         else if n < - (2 ^ 63) \<or> 2 ^ 63 \<le> n then None
         else Some (word_of_int n))"

text \<open>
  \<^verbatim>\<open>strconv.ParseFloat(s, 64)\<close> on a sign, digits, a point and digits: the exact decimal value,
  correctly rounded; \<^const>\<open>None\<close> is the syntax error or the range error of an infinite result.
\<close>

definition decimal_rat :: "bool \<Rightarrow> string \<Rightarrow> string \<Rightarrow> rat" where
  "decimal_rat neg ip fp =
     (let q = of_nat (dec_val (ip @ fp)) / 10 ^ length fp in if neg then - q else q)"

definition ParseDecimal :: "string \<Rightarrow> float64 option" where
  "ParseDecimal s =
     (let (neg, ds) = split_sign s; ip = takeWhile is_digit ds; fp = drop (length ip + 1) ds;
          v = f64_of_rat neg (decimal_rat neg ip fp)
      in if ip = [] \<or> fp = [] \<or> \<not> list_all is_digit fp \<or> ds \<noteq> ip @ CHR ''.'' # fp then None
         else if IsInf v then None else Some v)"

text \<open>\<^verbatim>\<open>strconv.Itoa\<close> and \<^verbatim>\<open>strconv.FormatInt(n, 10)\<close>.\<close>

definition digit_char :: "nat \<Rightarrow> char" where
  "digit_char d = char_of (48 + d)"

fun nat_digits :: "nat \<Rightarrow> string" where
  "nat_digits n = (if n < 10 then [digit_char n] else nat_digits (n div 10) @ [digit_char (n mod 10)])"

declare nat_digits.simps [simp del]

definition Itoa :: "int \<Rightarrow> string" where
  "Itoa n = (if n < 0 then CHR ''-'' # nat_digits (nat (- n)) else nat_digits (nat n))"

lemma digit_char_props:
  assumes "d < 10"
  shows "is_digit (digit_char d)" and "digit_val (digit_char d) = d"
  using assms by (auto simp: is_digit_def digit_val_def digit_char_def of_char_of)

lemma nat_digits_all: "list_all is_digit (nat_digits n)"
  by (induction n rule: nat_digits.induct) (subst nat_digits.simps, auto simp: digit_char_props)

lemma nat_digits_nonempty [simp]: "nat_digits n \<noteq> []"
  by (subst nat_digits.simps) simp

lemma dec_val_snoc: "dec_val (ds @ [c]) = 10 * dec_val ds + digit_val c"
  by (simp add: dec_val_def)

lemma dec_val_nat_digits [simp]: "dec_val (nat_digits n) = n"
proof (induction n rule: nat_digits.induct)
  case (1 n)
  show ?case
  proof (cases "n < 10")
    case True
    then show ?thesis
      by (subst nat_digits.simps) (simp add: dec_val_def digit_char_props)
  next
    case False
    then have "dec_val (nat_digits (n div 10)) = n div 10" by (rule "1.IH")
    with False show ?thesis
      by (subst nat_digits.simps) (simp add: dec_val_snoc digit_char_props)
  qed
qed

lemma digit_not_sign: "is_digit c \<Longrightarrow> c \<noteq> CHR ''-'' \<and> c \<noteq> CHR ''+'' \<and> c \<noteq> CHR ''.''"
  by (auto simp: is_digit_def)

lemma split_sign_digits:
  assumes "list_all is_digit ds" shows "split_sign ds = (False, ds)"
  using assms digit_not_sign by (cases ds) auto

lemma ParseInt64_Itoa:
  assumes "- (2 ^ 63) \<le> n" "n < 2 ^ 63"
  shows "ParseInt64 (Itoa n) = Some (word_of_int n)"
  using assms nat_digits_all[of "nat n"] nat_digits_all[of "nat (- n)"]
  by (auto simp: ParseInt64_def Itoa_def split_sign_digits)

lemma ParseInt64_word: "ParseInt64 (Itoa (sint w)) = Some (w :: 64 word)"
  using sint_greater_eq[of w] sint_less[of w] by (subst ParseInt64_Itoa) auto

lemma ParseInt64_sint:
  assumes "- (2 ^ 63) \<le> n" "n < 2 ^ 63"
  shows "map_option sint (ParseInt64 (Itoa n)) = Some n"
  using assms by (subst ParseInt64_Itoa) (auto simp: int_word_sint)

section \<open>unicode/utf8\<close>

text \<open>One rune from the front: its code point and its width; \<^const>\<open>None\<close> for an invalid sequence.\<close>

definition utf8_decode1 :: "string \<Rightarrow> (nat \<times> nat) option" where
  "utf8_decode1 s =
     (let b = (\<lambda>i. byte_of (s ! i)); n = length s; b0 = b 0;
          ok = (\<lambda>i lo hi. i < n \<and> lo \<le> b i \<and> b i \<le> hi);
          lo1 = (if b0 = 0xE0 then 0xA0 else if b0 = 0xF0 then 0x90 else 0x80);
          hi1 = (if b0 = 0xED then 0x9F else if b0 = 0xF4 then 0x8F else 0xBF)
      in if s = [] then None
         else if b0 < 0x80 then Some (b0, 1)
         else if 0xC2 \<le> b0 \<and> b0 \<le> 0xDF then
           (if ok 1 0x80 0xBF then Some ((b0 - 0xC0) * 64 + (b 1 - 0x80), 2) else None)
         else if 0xE0 \<le> b0 \<and> b0 \<le> 0xEF then
           (if ok 1 lo1 hi1 \<and> ok 2 0x80 0xBF
            then Some ((b0 - 0xE0) * 4096 + (b 1 - 0x80) * 64 + (b 2 - 0x80), 3) else None)
         else if 0xF0 \<le> b0 \<and> b0 \<le> 0xF4 then
           (if ok 1 lo1 hi1 \<and> ok 2 0x80 0xBF \<and> ok 3 0x80 0xBF
            then Some ((b0 - 0xF0) * 262144 + (b 1 - 0x80) * 4096 + (b 2 - 0x80) * 64 + (b 3 - 0x80), 4)
            else None)
         else None)"

lemma utf8_decode1_width: "utf8_decode1 s = Some (r, w) \<Longrightarrow> 1 \<le> w \<and> w \<le> length s"
  by (cases s) (auto simp: utf8_decode1_def Let_def Suc_le_eq split: if_splits)

text \<open>\<^verbatim>\<open>utf8.Valid\<close>.\<close>

function utf8_valid :: "string \<Rightarrow> bool" where
  "utf8_valid s =
     (if s = [] then True
      else case utf8_decode1 s of None \<Rightarrow> False | Some (r, w) \<Rightarrow> utf8_valid (drop w s))"
  by pat_completeness auto
termination
  by (relation "measure length") (auto dest: utf8_decode1_width)

declare utf8_valid.simps [simp del]

text \<open>A string as \<^verbatim>\<open>range\<close> walks it: each rune with its bytes; an invalid byte is U+FFFD of width 1.\<close>

function utf8_runes :: "string \<Rightarrow> (nat \<times> string) list" where
  "utf8_runes s =
     (if s = [] then []
      else case utf8_decode1 s of
             None \<Rightarrow> (0xFFFD, take 1 s) # utf8_runes (drop 1 s)
           | Some (r, w) \<Rightarrow> (r, take w s) # utf8_runes (drop w s))"
  by pat_completeness auto
termination
  by (relation "measure length") (auto dest: utf8_decode1_width)

declare utf8_runes.simps [simp del]

text \<open>\<^verbatim>\<open>unicode.IsSpace\<close>.\<close>

definition IsSpace :: "nat \<Rightarrow> bool" where
  "IsSpace r \<longleftrightarrow> 9 \<le> r \<and> r \<le> 13 \<or> r = 32 \<or> r = 0x85 \<or> r = 0xA0 \<or> r = 0x1680
     \<or> 0x2000 \<le> r \<and> r \<le> 0x200A \<or> r = 0x2028 \<or> r = 0x2029 \<or> r = 0x202F \<or> r = 0x205F \<or> r = 0x3000"

definition TrimSpace :: "string \<Rightarrow> string" where
  "TrimSpace s =
     (let sp = (\<lambda>(r, _). IsSpace r)
      in concat (map snd (rev (dropWhile sp (rev (dropWhile sp (utf8_runes s)))))))"

lemma utf8_runes_concat: "concat (map snd (utf8_runes s)) = s"
proof (induction s rule: utf8_runes.induct)
  case (1 s)
  then show ?case
    by (subst utf8_runes.simps) (auto split: option.splits prod.splits simp: append_take_drop_id)
qed

text \<open>\<^verbatim>\<open>utf8.AppendRune\<close>: surrogates and numbers that are no code point become U+FFFD.\<close>

definition utf8_encode1 :: "nat \<Rightarrow> string" where
  "utf8_encode1 r =
     (let r = (if 0x10FFFF < r \<or> 0xD800 \<le> r \<and> r \<le> 0xDFFF then 0xFFFD else r); c = (\<lambda>n. char_of n) in
      if r < 0x80 then [c r]
      else if r < 0x800 then [c (0xC0 + r div 64), c (0x80 + r mod 64)]
      else if r < 0x10000 then [c (0xE0 + r div 4096), c (0x80 + r div 64 mod 64), c (0x80 + r mod 64)]
      else [c (0xF0 + r div 262144), c (0x80 + r div 4096 mod 64), c (0x80 + r div 64 mod 64), c (0x80 + r mod 64)])"

text \<open>
  \<^verbatim>\<open>strings.ToUpper\<close>: bytes of an ASCII string one by one, otherwise rune by rune. The Unicode case
  table for runes outside ASCII, data of the Unicode standard, is the argument \<open>upper\<close>.
\<close>

definition upper_ascii :: "nat \<Rightarrow> nat" where
  "upper_ascii r = (if 97 \<le> r \<and> r \<le> 122 then r - 32 else r)"

definition ToUpper :: "(nat \<Rightarrow> nat) \<Rightarrow> string \<Rightarrow> string" where
  "ToUpper upper s =
     (if list_all (\<lambda>c. byte_of c < 0x80) s then map (\<lambda>c. char_of (upper_ascii (byte_of c))) s
      else concat (map (\<lambda>(r, _). utf8_encode1 (if r < 0x80 then upper_ascii r else upper r)) (utf8_runes s)))"

lemma utf8_runes_ascii: "list_all (\<lambda>c. byte_of c < 0x80) s \<Longrightarrow> utf8_runes s = map (\<lambda>c. (byte_of c, [c])) s"
  by (induction s) (subst utf8_runes.simps, simp add: utf8_decode1_def Let_def)+

lemma TrimSpace_no_space:
  assumes "\<forall>x \<in> set (utf8_runes s). \<not> IsSpace (fst x)"
  shows "TrimSpace s = s"
proof -
  have d: "dropWhile (\<lambda>(r, _). IsSpace r) rs = rs" if "\<forall>x \<in> set rs. \<not> IsSpace (fst x)" for rs :: "(nat \<times> string) list"
    using that by (cases rs) auto
  have "TrimSpace s = concat (map snd (utf8_runes s))"
    using d[OF assms] d[of "rev (utf8_runes s)"] assms by (simp add: TrimSpace_def Let_def)
  then show ?thesis by (simp add: utf8_runes_concat)
qed

lemma TrimSpace_ascii:
  assumes "list_all (\<lambda>c. byte_of c < 0x80 \<and> \<not> IsSpace (byte_of c)) s"
  shows "TrimSpace s = s"
proof (rule TrimSpace_no_space)
  have "list_all (\<lambda>c. byte_of c < 0x80) s" using assms by (simp add: list_all_iff)
  then show "\<forall>x \<in> set (utf8_runes s). \<not> IsSpace (fst x)" using assms by (auto simp: utf8_runes_ascii list_all_iff)
qed

text \<open>A word of capital letters is left alone by trimming and upper-casing.\<close>

lemma command_word:
  assumes "list_all (\<lambda>c. 65 \<le> byte_of c \<and> byte_of c \<le> 95) s"
  shows "ToUpper upper (TrimSpace s) = s"
proof -
  have "byte_of c < 0x80 \<and> \<not> IsSpace (byte_of c)" if "65 \<le> byte_of c" "byte_of c \<le> 95" for c :: char
    using that by (simp add: IsSpace_def)
  then have "TrimSpace s = s" using assms by (intro TrimSpace_ascii) (auto simp: list_all_iff)
  moreover have "map (\<lambda>c. char_of (upper_ascii (byte_of c))) s = s"
    using assms by (intro map_idI) (auto simp: list_all_iff upper_ascii_def)
  ultimately show ?thesis using assms by (auto simp: ToUpper_def list_all_iff)
qed

end
