(* ===== verification/Go_Bufio.thy ===== *)
theory Go_Bufio
  imports Go_Strings
begin

text \<open>
  \<^verbatim>\<open>bufio.Scanner\<close> with its default \<^verbatim>\<open>ScanLines\<close> split function and a maximal buffer size. What it
  yields depends on the bytes of the stream only, not on how reads cut them: the lines, each without
  its newline and one trailing carriage return, a last unterminated line at the end of the stream
  included, up to the first line that does not fit the buffer with its newline (\<^verbatim>\<open>ErrTooLong\<close>).
\<close>

abbreviation newline :: char where "newline \<equiv> CHR 0x0A"
abbreviation carriage_return :: char where "carriage_return \<equiv> CHR 0x0D"

definition dropCR :: "string \<Rightarrow> string" where
  "dropCR s = TrimSuffix s [carriage_return]"

function scan_lines :: "nat \<Rightarrow> string \<Rightarrow> string list \<times> bool" where
  "scan_lines limit s =
     (if s = [] then ([], False)
      else let l = takeWhile (\<lambda>c. c \<noteq> newline) s
           in if limit \<le> length l then ([], True)
              else case dropWhile (\<lambda>c. c \<noteq> newline) s of
                     [] \<Rightarrow> ([dropCR l], False)
                   | _ # rest \<Rightarrow> let (ls, e) = scan_lines limit rest in (dropCR l # ls, e))"
  by pat_completeness auto
termination
proof (relation "measure (\<lambda>(_, s). length s)")
  fix limit :: nat and s l c rest
  assume "dropWhile (\<lambda>c. c \<noteq> newline) s = c # rest"
  then have "length (c # rest) \<le> length s" by (metis length_dropWhile_le)
  then show "((limit, rest), (limit, s)) \<in> measure (\<lambda>(_, s). length s)" by simp
qed simp

declare scan_lines.simps [simp del]

lemma TrimSuffix_one: "TrimSuffix s [c] = (if s \<noteq> [] \<and> last s = c then butlast s else s)"
proof (cases s rule: rev_cases)
  case (snoc xs x)
  then show ?thesis by (auto simp: TrimSuffix_def HasSuffix_def)
qed (simp add: TrimSuffix_def HasSuffix_def)

lemma set_dropCR: "set (dropCR s) \<subseteq> set s"
  by (auto simp: dropCR_def TrimSuffix_one dest: in_set_butlastD)

lemma length_dropCR: "length (dropCR s) \<le> length s"
  by (auto simp: dropCR_def TrimSuffix_one)

lemma dropCR_id: "s = [] \<or> last s \<noteq> carriage_return \<Longrightarrow> dropCR s = s"
  by (auto simp: dropCR_def TrimSuffix_one)

text \<open>No scanned line has a newline in it, and each is shorter than the limit.\<close>

lemma scan_lines_line:
  "l \<in> set (fst (scan_lines limit s)) \<Longrightarrow> newline \<notin> set l \<and> length l < limit"
proof (induction limit s rule: scan_lines.induct)
  case (1 limit s)
  have "newline \<notin> set (takeWhile (\<lambda>c. c \<noteq> newline) s)" by (auto dest: set_takeWhileD)
  then have dc: "newline \<notin> set (dropCR (takeWhile (\<lambda>c. c \<noteq> newline) s))" using set_dropCR by blast
  show ?case
    using 1 dc length_dropCR[of "takeWhile (\<lambda>c. c \<noteq> newline) s"]
    by (subst (asm) (2) scan_lines.simps) (auto simp: Let_def split: if_splits list.splits prod.splits)
qed

lemma newline_split:
  assumes "newline \<notin> set l"
  shows "takeWhile (\<lambda>c. c \<noteq> newline) (l @ newline # rest) = l"
    and "dropWhile (\<lambda>c. c \<noteq> newline) (l @ newline # rest) = newline # rest"
proof -
  have "\<forall>x \<in> set l. x \<noteq> newline" using assms by auto
  then show "takeWhile (\<lambda>c. c \<noteq> newline) (l @ newline # rest) = l"
    "dropWhile (\<lambda>c. c \<noteq> newline) (l @ newline # rest) = newline # rest"
    by (simp_all add: takeWhile_append_stop)
qed

text \<open>A line that fits is scanned back, whatever follows it.\<close>

lemma scan_lines_Cons:
  assumes "newline \<notin> set l" "length l < limit" "l = [] \<or> last l \<noteq> carriage_return"
  shows "scan_lines limit (l @ newline # rest) = (l # fst (scan_lines limit rest), snd (scan_lines limit rest))"
  using assms by (subst scan_lines.simps) (simp add: newline_split dropCR_id split_def Let_def)

lemma scan_lines_all:
  assumes "\<forall>l \<in> set ls. newline \<notin> set l \<and> length l < limit \<and> (l = [] \<or> last l \<noteq> carriage_return)"
  shows "scan_lines limit (concat (map (\<lambda>l. l @ [newline]) ls)) = (ls, False)"
  using assms
proof (induction ls)
  case (Cons l ls)
  then show ?case using scan_lines_Cons[of l limit "concat (map (\<lambda>l. l @ [newline]) ls)"] by simp
qed (simp add: scan_lines.simps)

section \<open>ReadSlice\<close>

text \<open>
  \<^verbatim>\<open>bufio.Reader.ReadSlice\<close> up to a newline, with a buffer of the given size: the line with its newline and the
  rest of the stream, or a full buffer without newline, or the bytes before the end of the stream.
\<close>

datatype slice_read = Line string string | BufferFull | AtEOF string

definition ReadSlice :: "nat \<Rightarrow> string \<Rightarrow> slice_read" where
  "ReadSlice limit s =
     (let l = takeWhile (\<lambda>c. c \<noteq> newline) s
      in if limit \<le> length l then BufferFull
         else case dropWhile (\<lambda>c. c \<noteq> newline) s of [] \<Rightarrow> AtEOF l | _ # rest \<Rightarrow> Line (l @ [newline]) rest)"

lemma ReadSlice_Line:
  assumes "ReadSlice limit s = Line l rest"
  shows "s = l @ rest" "\<exists>l'. l = l' @ [newline] \<and> newline \<notin> set l' \<and> length l \<le> limit"
proof -
  let ?t = "takeWhile (\<lambda>c. c \<noteq> newline) s" and ?d = "dropWhile (\<lambda>c. c \<noteq> newline) s"
  obtain c where c: "?d = c # rest" "l = ?t @ [newline]" "length ?t < limit"
    using assms by (auto simp: ReadSlice_def Let_def split: if_splits list.splits)
  have "c = newline" using c(1) by (metis (mono_tags, lifting) dropWhile_eq_Cons_conv)
  then show "s = l @ rest" using c takeWhile_dropWhile_id[of "\<lambda>c. c \<noteq> newline" s] by simp
  have "newline \<notin> set ?t" by (auto dest: set_takeWhileD)
  then show "\<exists>l'. l = l' @ [newline] \<and> newline \<notin> set l' \<and> length l \<le> limit" using c by (intro exI[of _ ?t]) simp
qed

lemma ReadSlice_shorter: "ReadSlice limit s = Line l rest \<Longrightarrow> length rest < length s"
  using ReadSlice_Line[of limit s l rest] by auto

lemma ReadSlice_append:
  assumes "newline \<notin> set l" "length l < limit"
  shows "ReadSlice limit (l @ newline # rest) = Line (l @ [newline]) rest"
  using assms by (simp add: ReadSlice_def newline_split)

end
