(* ===== verification/Broker.thy ===== *)
theory Broker
  imports Go_Bufio
begin

text \<open>
  \<^verbatim>\<open>broker/main.go\<close>. A client is the identity of its connection, a number. The subscriber table, the
  command parser of \<^verbatim>\<open>handle\<close> and the operations under the broker's lock are functions; the goroutines
  (one handler per connection, one delivery per recipient) are a step relation whose steps are the
  operations that are atomic in the code: those under \<^verbatim>\<open>b.mu\<close> and one \<^verbatim>\<open>send\<close> under \<^verbatim>\<open>writeMu\<close>.
\<close>

type_synonym client = nat
type_synonym broker = "string \<rightharpoonup> client set"

definition newBroker :: broker where
  "newBroker = Map.empty"

definition validTopic :: "string \<Rightarrow> bool" where
  "validTopic topic \<longleftrightarrow> topic \<noteq> [] \<and> \<not> ContainsAny topic [CHR '' '', CHR 0x09, CHR 0x0D, CHR 0x0A]"

definition subscribe :: "broker \<Rightarrow> client \<Rightarrow> string \<Rightarrow> broker" where
  "subscribe b c topic =
     (let b = (if b topic = None then b(topic \<mapsto> {}) else b) in b(topic \<mapsto> insert c (the (b topic))))"

text \<open>The range loop visits every topic once; each visit concerns its own entry only.\<close>

definition remove :: "broker \<Rightarrow> client \<Rightarrow> broker" where
  "remove b c = (\<lambda>topic. case b topic of
      None \<Rightarrow> None
    | Some clients \<Rightarrow> if clients - {c} = {} then None else Some (clients - {c}))"

definition recipients :: "broker \<Rightarrow> string \<Rightarrow> client set" where
  "recipients b topic = (case b topic of None \<Rightarrow> {} | Some clients \<Rightarrow> clients)"

definition msg_line :: "string \<Rightarrow> string \<Rightarrow> string" where
  "msg_line topic payload = ''MSG '' @ topic @ '' '' @ payload"

text \<open>What one scanned line makes \<^verbatim>\<open>handle\<close> do, lines 102 to 121.\<close>

datatype command = Subscribe string | Publish string string | Ignore

definition handle_line :: "string \<Rightarrow> command" where
  "handle_line scanned =
     (let line = TrimSuffix scanned [carriage_return] in
      if HasPrefix line ''SUB '' then
        let topic = TrimPrefix line ''SUB '' in if validTopic topic then Subscribe topic else Ignore
      else if HasPrefix line ''PUB '' then
        let rest = TrimPrefix line ''PUB '' in
        case IndexByte rest (CHR '' '') of
          None \<Rightarrow> Ignore
        | Some separator \<Rightarrow>
            if separator < 1 then Ignore
            else let topic = take separator rest; payload = drop (separator + 1) rest
                 in if validTopic topic \<and> payload \<noteq> [] then Publish topic payload else Ignore
      else Ignore)"

definition scan_limit :: nat where
  "scan_limit = 1024 * 1024"

section \<open>The concurrent broker\<close>

text \<open>
  A handler is not started, reading with the lines it has still to scan, publishing (a message, the
  recipients still to be sent to, those whose send failed, those whose connection is closed but which
  are not removed yet, and the lines behind), in its deferred function before and after \<^verbatim>\<open>remove\<close>, or
  finished.
\<close>

datatype handler =
    NoConn
  | Reading "string list"
  | Publishing string "client set" "client set" "client set" "string list"
  | Leaving
  | Closing
  | Gone

record system =
  subscribers :: broker
  handlers :: "client \<Rightarrow> handler"
  closed :: "client set"
  stream :: "client \<Rightarrow> string"

definition init_system :: system where
  "init_system = \<lparr>subscribers = newBroker, handlers = (\<lambda>_. NoConn), closed = {}, stream = (\<lambda>_. [])\<rparr>"

definition set_handler :: "client \<Rightarrow> handler \<Rightarrow> system \<Rightarrow> system" where
  "set_handler c h s = s\<lparr>handlers := (handlers s)(c := h)\<rparr>"

definition append_stream :: "client \<Rightarrow> string \<Rightarrow> system \<Rightarrow> system" where
  "append_stream c bytes s = s\<lparr>stream := (stream s)(c := stream s c @ bytes)\<rparr>"

text \<open>What happened, for the trace of an execution.\<close>

datatype event =
    Accepted client
  | Subscribed client string
  | Published client string string "client set"
  | Ignored client
  | Sent client client string
  | Failed client client string
  | Closed client
  | Removed client
  | Done client
  | Left client

text \<open>One iteration of the scan loop.\<close>

definition handle_step :: "client \<Rightarrow> string \<Rightarrow> string list \<Rightarrow> system \<Rightarrow> event \<times> system" where
  "handle_step c l ls s = (case handle_line l of
      Ignore \<Rightarrow> (Ignored c, set_handler c (Reading ls) s)
    | Subscribe topic \<Rightarrow> (Subscribed c topic,
        set_handler c (Reading ls) (s\<lparr>subscribers := subscribe (subscribers s) c topic\<rparr>))
    | Publish topic payload \<Rightarrow>
        let cs = recipients (subscribers s) topic
        in (Published c topic payload cs, set_handler c (Publishing (msg_line topic payload) cs {} {} ls) s))"

text \<open>
  The steps. A send writes the whole line, or fails after some proper prefix of it; on a closed
  connection it fails at once. The scanner may stop at any time with a read error.
\<close>

inductive step :: "system \<Rightarrow> event \<Rightarrow> system \<Rightarrow> bool" where
  accept: "handlers s c = NoConn \<Longrightarrow>
     step s (Accepted c) (set_handler c (Reading (fst (scan_lines scan_limit input))) s)"
| line: "handlers s c = Reading (l # ls) \<Longrightarrow> handle_step c l ls s = (e, s') \<Longrightarrow> step s e s'"
| send: "handlers s p = Publishing m todo failed dropped ls \<Longrightarrow> c \<in> todo \<Longrightarrow> c \<notin> closed s \<Longrightarrow>
     step s (Sent p c m)
       (set_handler p (Publishing m (todo - {c}) failed dropped ls) (append_stream c (m @ [newline]) s))"
| send_fail: "handlers s p = Publishing m todo failed dropped ls \<Longrightarrow> c \<in> todo \<Longrightarrow>
     n \<le> length m \<Longrightarrow> (c \<in> closed s \<longrightarrow> n = 0) \<Longrightarrow>
     step s (Failed p c (take n m))
       (set_handler p (Publishing m (todo - {c}) (insert c failed) dropped ls) (append_stream c (take n m) s))"
| close: "handlers s p = Publishing m todo failed dropped ls \<Longrightarrow> c \<in> failed \<Longrightarrow>
     step s (Closed c)
       (set_handler p (Publishing m todo (failed - {c}) (insert c dropped) ls) (s\<lparr>closed := insert c (closed s)\<rparr>))"
| drop: "handlers s p = Publishing m todo failed dropped ls \<Longrightarrow> c \<in> dropped \<Longrightarrow>
     step s (Removed c)
       (set_handler p (Publishing m todo failed (dropped - {c}) ls) (s\<lparr>subscribers := remove (subscribers s) c\<rparr>))"
| published: "handlers s p = Publishing m {} {} {} ls \<Longrightarrow> step s (Done p) (set_handler p (Reading ls) s)"
| finish: "handlers s c = Reading ls \<Longrightarrow> step s (Left c) (set_handler c Leaving s)"
| leave: "handlers s c = Leaving \<Longrightarrow>
     step s (Removed c) (set_handler c Closing (s\<lparr>subscribers := remove (subscribers s) c\<rparr>))"
| gone: "handlers s c = Closing \<Longrightarrow>
     step s (Closed c) (set_handler c Gone (s\<lparr>closed := insert c (closed s)\<rparr>))"

text \<open>\<open>run es s\<close>: the events \<open>es\<close> lead from a fresh broker to \<open>s\<close>.\<close>

inductive run :: "event list \<Rightarrow> system \<Rightarrow> bool" where
  init: "run [] init_system"
| more: "run es s \<Longrightarrow> step s e s' \<Longrightarrow> run (es @ [e]) s'"

section \<open>The subscriber table\<close>

definition subscribed :: "broker \<Rightarrow> client \<Rightarrow> string \<Rightarrow> bool" where
  "subscribed b c topic \<longleftrightarrow> c \<in> recipients b topic"

definition wf_broker :: "broker \<Rightarrow> bool" where
  "wf_broker b \<longleftrightarrow> (\<forall>topic clients. b topic = Some clients \<longrightarrow> clients \<noteq> {} \<and> validTopic topic)"

lemma subscribed_subscribe:
  "subscribed (subscribe b c topic) c' topic' \<longleftrightarrow> c' = c \<and> topic' = topic \<or> subscribed b c' topic'"
  by (auto simp: subscribed_def recipients_def subscribe_def Let_def split: option.splits)

lemma subscribed_remove: "subscribed (remove b c) c' topic \<longleftrightarrow> c' \<noteq> c \<and> subscribed b c' topic"
  by (auto simp: subscribed_def recipients_def remove_def split: option.splits)

lemma wf_subscribe: "wf_broker b \<Longrightarrow> validTopic topic \<Longrightarrow> wf_broker (subscribe b c topic)"
  by (auto simp: wf_broker_def subscribe_def Let_def split: if_splits)

lemma wf_remove: "wf_broker b \<Longrightarrow> wf_broker (remove b c)"
  by (auto simp: wf_broker_def remove_def split: option.splits if_splits)

lemma wf_broker_extensional:
  assumes "wf_broker a" "wf_broker b" "\<And>c topic. subscribed a c topic \<longleftrightarrow> subscribed b c topic"
  shows "a = b"
proof
  fix topic
  have "recipients a topic = recipients b topic" using assms(3) by (auto simp: subscribed_def)
  then show "a topic = b topic"
    using assms(1,2) by (auto simp: recipients_def wf_broker_def split: option.splits)
qed

section \<open>The line protocol\<close>

lemma validTopic_no_space: "validTopic t \<Longrightarrow> CHR '' '' \<notin> set t"
  by (auto simp: validTopic_def ContainsAny_def list_ex_iff)

lemma handle_line_Subscribe:
  "handle_line l = Subscribe t \<longleftrightarrow> TrimSuffix l [carriage_return] = ''SUB '' @ t \<and> validTopic t"
  by (auto simp: handle_line_def Let_def HasPrefix_iff TrimPrefix_def split: option.splits if_splits)

lemma handle_line_Publish:
  "handle_line l = Publish t p \<longleftrightarrow>
     TrimSuffix l [carriage_return] = ''PUB '' @ t @ '' '' @ p \<and> validTopic t \<and> p \<noteq> []" (is "_ \<longleftrightarrow> ?R")
proof
  assume h: "handle_line l = Publish t p"
  let ?r = "TrimPrefix (TrimSuffix l [carriage_return]) ''PUB ''"
  obtain n where n: "HasPrefix (TrimSuffix l [carriage_return]) ''PUB ''" "IndexByte ?r (CHR '' '') = Some n"
    "t = take n ?r" "p = drop (n + 1) ?r" "validTopic t" "p \<noteq> []"
    using h by (auto simp: handle_line_def Let_def split: option.splits if_splits)
  have "?r = t @ '' '' @ p" using IndexByte_SomeD[OF n(2)] n(3,4) id_take_nth_drop[of n ?r] by simp
  then show ?R using n(1,5,6) by (auto simp: HasPrefix_iff TrimPrefix_def)
next
  assume r: ?R
  have "IndexByte (t @ CHR '' '' # p) (CHR '' '') = Some (length t)"
    using r validTopic_no_space by (intro IndexByte_first) blast
  moreover have "t \<noteq> []" using r by (auto simp: validTopic_def)
  ultimately show "handle_line l = Publish t p"
    using r by (simp add: handle_line_def HasPrefix_def TrimPrefix_def Suc_le_eq)
qed

lemma set_TrimSuffix: "set (TrimSuffix s p) \<subseteq> set s" and length_TrimSuffix: "length (TrimSuffix s p) \<le> length s"
  by (auto simp: TrimSuffix_def dest: in_set_takeD)

text \<open>A published line is as long as the line it is delivered as, and as free of newlines.\<close>

lemma published_line:
  assumes "handle_line l = Publish t p" "newline \<notin> set l" "length l < n"
  shows "newline \<notin> set (msg_line t p)" "length (msg_line t p) < n"
proof -
  have l: "TrimSuffix l [carriage_return] = ''PUB '' @ t @ '' '' @ p" using assms(1) by (simp add: handle_line_Publish)
  have "set (''PUB '' @ t @ '' '' @ p) \<subseteq> set l" using set_TrimSuffix[of l "[carriage_return]"] unfolding l .
  then have "newline \<notin> set (''PUB '' @ t @ '' '' @ p)" using assms(2) by blast
  then show "newline \<notin> set (msg_line t p)" by (simp add: msg_line_def)
  have "length (''PUB '' @ t @ '' '' @ p) < n" using assms(3) l length_TrimSuffix[of l "[carriage_return]"] by simp
  then show "length (msg_line t p) < n" by (simp add: msg_line_def)
qed

section \<open>Invariant of the concurrent broker\<close>

fun live :: "handler \<Rightarrow> bool" where
  "live (Reading _) = True"
| "live (Publishing _ _ _ _ _) = True"
| "live Leaving = True"
| "live _ = False"

definition good_line :: "string \<Rightarrow> bool" where
  "good_line l \<longleftrightarrow> newline \<notin> set l \<and> length l < scan_limit"

text \<open>The recipients one publication has dealt with, oldest first, and its events so far.\<close>

fun handled :: "client \<Rightarrow> event list \<Rightarrow> client list" where
  "handled p [] = []"
| "handled p (Sent q c m # es) = (if q = p then c # handled p es else handled p es)"
| "handled p (Failed q c m # es) = (if q = p then c # handled p es else handled p es)"
| "handled p (e # es) = handled p es"

definition publishing_since :: "client \<Rightarrow> string \<Rightarrow> string \<Rightarrow> client set \<Rightarrow> event list \<Rightarrow> event list \<Rightarrow> event list \<Rightarrow> bool" where
  "publishing_since p t pl cs es before after \<longleftrightarrow>
     es = before @ Published p t pl cs # after \<and> Done p \<notin> set after \<and> (\<forall>t' pl' cs'. Published p t' pl' cs' \<notin> set after)"

text \<open>
  What is true of a handler: its lines are scanned lines; a publication was started by a well-formed
  PUB with the subscribers of that moment, has dealt with each recipient once, and still has to deal
  with exactly the others.
\<close>

fun handler_inv :: "event list \<Rightarrow> client \<Rightarrow> handler \<Rightarrow> bool" where
  "handler_inv es p (Reading ls) = list_all good_line ls"
| "handler_inv es p (Publishing m todo failed dropped ls) =
     (list_all good_line ls \<and> good_line m \<and>
       (\<exists>t pl cs before after. publishing_since p t pl cs es before after \<and> m = msg_line t pl \<and> validTopic t \<and> pl \<noteq> []
          \<and> (\<forall>c \<in> cs. Subscribed c t \<in> set before)
          \<and> distinct (handled p after) \<and> todo \<subseteq> cs \<and> set (handled p after) = cs - todo))"
| "handler_inv es p _ = True"

definition system_inv :: "event list \<Rightarrow> system \<Rightarrow> bool" where
  "system_inv es s \<longleftrightarrow> wf_broker (subscribers s)
     \<and> (\<forall>c t. subscribed (subscribers s) c t \<longrightarrow> live (handlers s c) \<and> Subscribed c t \<in> set es)
     \<and> (\<forall>p. handler_inv es p (handlers s p))"

lemma handled_append: "handled p (es @ fs) = handled p es @ handled p fs"
  by (induction p es rule: handled.induct) auto

definition others_event :: "client \<Rightarrow> event \<Rightarrow> bool" where
  "others_event p e \<longleftrightarrow> handled p [e] = [] \<and> e \<noteq> Done p \<and> (\<forall>t pl cs. e \<noteq> Published p t pl cs)"

lemma publishing_since_more:
  "publishing_since p t pl cs es b a \<Longrightarrow> e \<noteq> Done p \<Longrightarrow> (\<And>t pl cs. e \<noteq> Published p t pl cs) \<Longrightarrow>
     publishing_since p t pl cs (es @ [e]) b (a @ [e])"
  by (auto simp: publishing_since_def)

lemma handler_inv_other: "handler_inv es p h \<Longrightarrow> others_event p e \<Longrightarrow> handler_inv (es @ [e]) p h"
proof (cases h)
  case (Publishing m todo failed dropped ls)
  assume h: "handler_inv es p h" and e: "others_event p e"
  then obtain t pl cs b a where i: "publishing_since p t pl cs es b a" "m = msg_line t pl" "validTopic t" "pl \<noteq> []"
    "\<forall>c \<in> cs. Subscribed c t \<in> set b" "distinct (handled p a)" "todo \<subseteq> cs" "set (handled p a) = cs - todo"
    "list_all good_line ls" "good_line m"
    using Publishing by auto
  have "publishing_since p t pl cs (es @ [e]) b (a @ [e])" "handled p (a @ [e]) = handled p a"
    using e publishing_since_more[OF i(1)] by (auto simp: others_event_def handled_append)
  then show ?thesis using i Publishing by (simp del: handled.simps) metis
qed auto

lemma system_invI:
  assumes inv: "system_inv es s" and h: "handlers s' = (handlers s)(p := h)"
    and o: "\<And>q. q \<noteq> p \<Longrightarrow> others_event q e" and hp: "handler_inv (es @ [e]) p h"
    and w: "wf_broker (subscribers s')"
    and sub: "\<And>c t. subscribed (subscribers s') c t \<Longrightarrow>
      subscribed (subscribers s) c t \<and> (c = p \<longrightarrow> live h) \<or> c = p \<and> live h \<and> e = Subscribed c t"
  shows "system_inv (es @ [e]) s'"
  unfolding system_inv_def
proof (intro conjI allI impI)
  fix c t assume c: "subscribed (subscribers s') c t"
  show "live (handlers s' c)" "Subscribed c t \<in> set (es @ [e])"
    using sub[OF c] inv h by (auto simp: system_inv_def)
next
  fix q
  show "handler_inv (es @ [e]) q (handlers s' q)"
    using handler_inv_other[OF _ o] inv hp h by (cases "q = p") (simp_all add: system_inv_def)
qed (rule w)

lemma system_invD:
  assumes "system_inv es s"
  shows "wf_broker (subscribers s)" and "subscribed (subscribers s) c t \<Longrightarrow> live (handlers s c)"
    and "subscribed (subscribers s) c t \<Longrightarrow> Subscribed c t \<in> set es" and "handler_inv es p (handlers s p)"
  using assms by (auto simp: system_inv_def)

lemma handlers_simps [simp]:
  "handlers (set_handler c h s) = (handlers s)(c := h)" "subscribers (set_handler c h s) = subscribers s"
  "closed (set_handler c h s) = closed s" "stream (set_handler c h s) = stream s"
  "handlers (append_stream c m s) = handlers s" "subscribers (append_stream c m s) = subscribers s"
  "closed (append_stream c m s) = closed s" "stream (append_stream c m s) = (stream s)(c := stream s c @ m)"
  by (simp_all add: set_handler_def append_stream_def)

lemma scanned_good: "list_all good_line (fst (scan_lines scan_limit input))"
  by (auto simp: list_all_iff good_line_def dest: scan_lines_line)

lemma line_preserves:
  assumes inv: "system_inv es s" and r: "handlers s c = Reading (l # ls)" and h: "handle_step c l ls s = (e, s')"
  shows "system_inv (es @ [e]) s'"
proof -
  have l: "good_line l" "list_all good_line ls" using system_invD(4)[OF inv, of c] r by simp_all
  show ?thesis
  proof (cases "handle_line l")
    case (Subscribe t)
    have e: "e = Subscribed c t" "s' = set_handler c (Reading ls) (s\<lparr>subscribers := subscribe (subscribers s) c t\<rparr>)"
      using h Subscribe by (simp_all add: handle_step_def)
    have t: "validTopic t" using Subscribe by (simp add: handle_line_Subscribe)
    show ?thesis
      by (rule system_invI[OF inv, of s' c "Reading ls"])
         (use e t l system_invD(1)[OF inv] in \<open>auto simp: others_event_def wf_subscribe subscribed_subscribe\<close>)
  next
    case (Publish t pl)
    let ?cs = "recipients (subscribers s) t"
    have e: "e = Published c t pl ?cs" "s' = set_handler c (Publishing (msg_line t pl) ?cs {} {} ls) s"
      using h Publish by (simp_all add: handle_step_def Let_def)
    have t: "validTopic t" "pl \<noteq> []" using Publish by (simp_all add: handle_line_Publish)
    have g: "good_line (msg_line t pl)" using published_line[OF Publish, of scan_limit] l(1) by (simp add: good_line_def)
    have subs: "\<forall>x \<in> ?cs. Subscribed x t \<in> set es" using system_invD(3)[OF inv] by (simp add: subscribed_def)
    have "publishing_since c t pl ?cs (es @ [e]) es []" by (simp add: publishing_since_def e)
    then have "handler_inv (es @ [e]) c (Publishing (msg_line t pl) ?cs {} {} ls)"
      using t g subs l(2) by (simp, intro exI conjI) (assumption | simp)+
    then show ?thesis using system_invD(1)[OF inv]
      by (intro system_invI[OF inv, of s' c]) (auto simp: e others_event_def simp del: handler_inv.simps)
  next
    case Ignore
    then have e: "e = Ignored c" "s' = set_handler c (Reading ls) s" using h by (simp_all add: handle_step_def)
    show ?thesis
      by (rule system_invI[OF inv, of s' c "Reading ls"])
         (use e l system_invD(1)[OF inv] in \<open>auto simp: others_event_def\<close>)
  qed
qed

lemma handled_preserves:
  assumes inv: "handler_inv es p (Publishing m todo failed dropped ls)" and c: "c \<in> todo"
    and e: "e = Sent p c m \<or> e = Failed p c x"
  shows "handler_inv (es @ [e]) p (Publishing m (todo - {c}) failed' dropped' ls)"
proof -
  from inv obtain t pl cs b a where i: "publishing_since p t pl cs es b a" "m = msg_line t pl" "validTopic t" "pl \<noteq> []"
    "\<forall>c \<in> cs. Subscribed c t \<in> set b" "distinct (handled p a)" "todo \<subseteq> cs" "set (handled p a) = cs - todo"
    "list_all good_line ls" "good_line m" by auto
  have s: "publishing_since p t pl cs (es @ [e]) b (a @ [e])" using e by (intro publishing_since_more[OF i(1)]) auto
  have h: "handled p (a @ [e]) = handled p a @ [c]" using e by (auto simp: handled_append)
  have "distinct (handled p (a @ [e]))" "set (handled p (a @ [e])) = cs - (todo - {c})" "todo - {c} \<subseteq> cs"
    using i(6-8) c unfolding h by auto
  then show ?thesis using i s by (simp only: handler_inv.simps) blast
qed

lemma other_preserves:
  assumes "system_inv es s" "handlers s p = Publishing m todo failed dropped ls" "others_event p e"
  shows "handler_inv (es @ [e]) p (Publishing m todo failed' dropped' ls)"
  using handler_inv_other[OF system_invD(4)[OF assms(1), of p] assms(3)] assms(2) by simp

lemma step_preserves: "step s e s' \<Longrightarrow> system_inv es s \<Longrightarrow> system_inv (es @ [e]) s'"
proof (induction rule: step.induct)
  case (accept s c input)
  then show ?case using scanned_good system_invD(1)[OF accept(2)]
    by (intro system_invI[OF accept(2), of _ c]) (auto simp: others_event_def)
next
  case (line s c l ls e s')
  then show ?case by (intro line_preserves)
next
  case (send s p m todo failed dropped ls c)
  have "handler_inv es p (Publishing m todo failed dropped ls)" using system_invD(4)[OF send(4), of p] send(1) by simp
  from handled_preserves[OF this send(2), of "Sent p c m"] show ?case
    using send(1) system_invD(1)[OF send(4)]
    by (intro system_invI[OF send(4), of _ p]) (auto simp: others_event_def simp del: handler_inv.simps)
next
  case (send_fail s p m todo failed dropped ls c n)
  have "handler_inv es p (Publishing m todo failed dropped ls)" using system_invD(4)[OF send_fail(5), of p] send_fail(1) by simp
  from handled_preserves[OF this send_fail(2), of "Failed p c (take n m)"] show ?case
    using send_fail(1) system_invD(1)[OF send_fail(5)]
    by (intro system_invI[OF send_fail(5), of _ p]) (auto simp: others_event_def simp del: handler_inv.simps)
next
  case (close s p m todo failed dropped ls c)
  have o: "others_event q (Closed c)" for q by (simp add: others_event_def)
  show ?case using o system_invD(1)[OF close(3)] other_preserves[OF close(3,1) o] close(1)
    by (intro system_invI[OF close(3), of _ p]) (auto simp: others_event_def simp del: handler_inv.simps)
next
  case (drop s p m todo failed dropped ls c)
  have o: "others_event q (Removed c)" for q by (simp add: others_event_def)
  show ?case using o system_invD(1)[OF drop(3)] other_preserves[OF drop(3,1) o] drop(1)
    by (intro system_invI[OF drop(3), of _ p]) (auto simp: wf_remove subscribed_remove simp del: handler_inv.simps)
next
  case (published s p m ls)
  show ?case
    by (rule system_invI[OF published(2), of _ p])
       (use published system_invD(4)[OF published(2), of p] system_invD(1)[OF published(2)] in \<open>auto simp: others_event_def\<close>)
next
  case (finish s c ls)
  show ?case
    by (rule system_invI[OF finish(2), of _ c])
       (use finish system_invD(1)[OF finish(2)] in \<open>auto simp: others_event_def\<close>)
next
  case (leave s c)
  show ?case
    by (rule system_invI[OF leave(2), of _ c])
       (use leave system_invD(1)[OF leave(2)] in \<open>auto simp: others_event_def wf_remove subscribed_remove\<close>)
next
  case (gone s c)
  show ?case
    by (rule system_invI[OF gone(2), of _ c])
       (use gone system_invD(1,2)[OF gone(2)] in \<open>auto simp: others_event_def dest: system_invD(2)[OF gone(2)]\<close>)
qed

lemma run_inv: "run es s \<Longrightarrow> system_inv es s"
proof (induction rule: run.induct)
  case init
  then show ?case
    by (simp add: system_inv_def init_system_def newBroker_def wf_broker_def subscribed_def recipients_def)
next
  case (more es s e s')
  then show ?case by (intro step_preserves)
qed

section \<open>What a client receives\<close>

fun sent_to :: "client \<Rightarrow> event list \<Rightarrow> string list" where
  "sent_to c [] = []"
| "sent_to c (Sent p d m # es) = (if d = c then m # sent_to c es else sent_to c es)"
| "sent_to c (e # es) = sent_to c es"

text \<open>No send to \<open>c\<close> failed after writing a part of its line.\<close>

definition no_partial :: "client \<Rightarrow> event list \<Rightarrow> bool" where
  "no_partial c es \<longleftrightarrow> (\<forall>p x. Failed p c x \<in> set es \<longrightarrow> x = [])"

lemma sent_to_append: "sent_to c (es @ fs) = sent_to c es @ sent_to c fs"
  by (induction c es rule: sent_to.induct) auto

lemma run_stream:
  "run es s \<Longrightarrow> no_partial c es \<Longrightarrow> stream s c = concat (map (\<lambda>m. m @ [newline]) (sent_to c es))"
proof (induction rule: run.induct)
  case (more es s e s')
  then have IH: "stream s c = concat (map (\<lambda>m. m @ [newline]) (sent_to c es))" and np: "no_partial c [e]"
    by (auto simp: no_partial_def)
  from more.hyps(2) have "stream s' c = stream s c @ concat (map (\<lambda>m. m @ [newline]) (sent_to c [e]))"
    using np by (cases rule: step.cases)
       (auto simp: no_partial_def handle_step_def Let_def split: command.splits)
  then show ?case using IH by (simp add: sent_to_append)
qed (simp add: init_system_def)

lemma sent_good: "run es s \<Longrightarrow> m \<in> set (sent_to c es) \<Longrightarrow> good_line m"
proof (induction rule: run.induct)
  case (more es s e s')
  have "m \<in> set (sent_to c [e]) \<Longrightarrow> good_line m"
    using more.hyps(2)
  proof (cases rule: step.cases)
    case (send p m' todo failed dropped ls d)
    then show "m \<in> set (sent_to c [e]) \<Longrightarrow> good_line m"
      using system_invD(4)[OF run_inv[OF more.hyps(1)], of p] by (auto split: if_splits)
  qed (auto simp: handle_step_def Let_def split: command.splits)
  then show ?case using more by (auto simp: sent_to_append)
qed simp

lemma scan_lines_lines:
  assumes "\<forall>l \<in> set ls. newline \<notin> set l \<and> length l < limit"
  shows "scan_lines limit (concat (map (\<lambda>l. l @ [newline]) ls)) = (map dropCR ls, False)"
  using assms
proof (induction ls)
  case (Cons l ls)
  then have "\<forall>x \<in> set l. x \<noteq> newline" by auto
  then have "takeWhile (\<lambda>c. c \<noteq> newline) (l @ newline # rest) = l"
    "dropWhile (\<lambda>c. c \<noteq> newline) (l @ newline # rest) = newline # rest" for rest
    by (simp_all add: takeWhile_append_stop)
  then show ?case using Cons by (subst scan_lines.simps) (simp add: Let_def)
qed (simp add: scan_lines.simps)

text \<open>Every delivery of an execution goes back to a publication and a subscription.\<close>

lemma sent_origin:
  "run es s \<Longrightarrow> Sent p c m \<in> set es \<Longrightarrow>
     \<exists>t pl cs before after. es = before @ Published p t pl cs # after \<and> Sent p c m \<in> set after
       \<and> m = msg_line t pl \<and> c \<in> cs \<and> Subscribed c t \<in> set before"
proof (induction rule: run.induct)
  case (more es s e s')
  show ?case
  proof (cases "Sent p c m \<in> set es")
    case True
    then obtain t pl cs b a where "es = b @ Published p t pl cs # a" "Sent p c m \<in> set a"
       "m = msg_line t pl" "c \<in> cs" "Subscribed c t \<in> set b" using more by blast
    then show ?thesis by (intro exI[of _ t] exI[of _ pl] exI[of _ cs] exI[of _ b] exI[of _ "a @ [e]"]) simp
  next
    case False
    then have e: "e = Sent p c m" using more.prems by simp
    from more.hyps(2) e obtain todo failed dropped ls where h: "handlers s p = Publishing m todo failed dropped ls" "c \<in> todo"
      by (cases rule: step.cases) (auto simp: handle_step_def Let_def split: command.splits)
    then obtain t pl cs b a where "publishing_since p t pl cs es b a" "m = msg_line t pl"
      "\<forall>c \<in> cs. Subscribed c t \<in> set b" "todo \<subseteq> cs"
      using system_invD(4)[OF run_inv[OF more.hyps(1)], of p] by auto
    then show ?thesis using h(2) e
      by (intro exI[of _ t] exI[of _ pl] exI[of _ cs] exI[of _ b] exI[of _ "a @ [e]"]) (auto simp: publishing_since_def)
  qed
qed simp

lemma publication_done:
  assumes "run es s" "step s (Done p) s'"
  shows "\<exists>t pl cs before after. publishing_since p t pl cs es before after
     \<and> distinct (handled p after) \<and> set (handled p after) = cs"
proof -
  from assms(2) obtain m ls where "handlers s p = Publishing m {} {} {} ls"
    by (cases rule: step.cases) (auto simp: handle_step_def Let_def split: command.splits)
  then show ?thesis using system_invD(4)[OF run_inv[OF assms(1)], of p] by auto
qed

section \<open>A sample execution\<close>

text \<open>Client 0 subscribes to topic \<open>a\<close>; clients 1 and 2 each publish \<open>x\<close> on it.\<close>

definition sub_line :: string where "sub_line = ''SUB a''"
definition pub_line :: string where "pub_line = ''PUB a x''"
definition sample_msg :: string where "sample_msg = ''MSG a x''"

lemma scan_sample:
  "fst (scan_lines scan_limit (sub_line @ [newline])) = [sub_line]"
  "fst (scan_lines scan_limit (pub_line @ [newline])) = [pub_line]"
  using scan_lines_Cons[of sub_line scan_limit "[]"] scan_lines_Cons[of pub_line scan_limit "[]"]
  by (simp_all add: sub_line_def pub_line_def scan_limit_def scan_lines.simps[of _ "[]"])

lemma handle_sample:
  "handle_line sub_line = Subscribe ''a''" "handle_line pub_line = Publish ''a'' ''x''"
  by code_simp+

lemma msg_sample: "msg_line ''a'' ''x'' = sample_msg"
  by (simp add: msg_line_def sample_msg_def)

definition sample_sys :: "broker \<Rightarrow> handler \<Rightarrow> handler \<Rightarrow> handler \<Rightarrow> string \<Rightarrow> system" where
  "sample_sys b x y z out = \<lparr>subscribers = b,
     handlers = (\<lambda>i. if i = 0 then x else if i = 1 then y else if i = 2 then z else NoConn), closed = {},
     stream = (\<lambda>i. if i = 0 then out else [])\<rparr>"

lemma sample_sys_simps [simp]:
  "subscribers (sample_sys b x y z out) = b" "closed (sample_sys b x y z out) = {}"
  "handlers (sample_sys b x y z out) 0 = x" "handlers (sample_sys b x y z out) 1 = y"
  "handlers (sample_sys b x y z out) (Suc 0) = y"
  "handlers (sample_sys b x y z out) 2 = z" "stream (sample_sys b x y z out) 0 = out"
  "set_handler 0 h (sample_sys b x y z out) = sample_sys b h y z out"
  "set_handler 1 h (sample_sys b x y z out) = sample_sys b x h z out"
  "set_handler (Suc 0) h (sample_sys b x y z out) = sample_sys b x h z out"
  "set_handler 2 h (sample_sys b x y z out) = sample_sys b x y h out"
  "(sample_sys b x y z out)\<lparr>subscribers := b'\<rparr> = sample_sys b' x y z out"
  "append_stream 0 m (sample_sys b x y z out) = sample_sys b x y z (out @ m)"
  by (auto simp: sample_sys_def set_handler_def append_stream_def fun_eq_iff)

abbreviation sample_topic :: broker where "sample_topic \<equiv> [''a'' \<mapsto> {0}]"

lemma sample_subscribe: "subscribe Map.empty 0 ''a'' = sample_topic" "recipients sample_topic ''a'' = {0}"
  by (simp_all add: subscribe_def recipients_def)

lemma sample_started:
  "run [Accepted 0, Accepted 1, Accepted 2, Subscribed 0 ''a'', Published 1 ''a'' ''x'' {0}]
     (sample_sys sample_topic (Reading []) (Publishing sample_msg {0} {} {} []) (Reading [pub_line]) [])"
proof -
  have i: "init_system = sample_sys Map.empty NoConn NoConn NoConn []"
    by (auto simp: init_system_def sample_sys_def newBroker_def fun_eq_iff)
  have "run [Accepted 0] (sample_sys Map.empty (Reading [sub_line]) NoConn NoConn [])"
    using run.more[OF run.init[unfolded i] accept[of _ 0 "sub_line @ [newline]"]] by (simp add: scan_sample)
  from run.more[OF this accept[of _ 1 "pub_line @ [newline]"]]
  have "run [Accepted 0, Accepted 1] (sample_sys Map.empty (Reading [sub_line]) (Reading [pub_line]) NoConn [])"
    by (simp add: scan_sample)
  from run.more[OF this accept[of _ 2 "pub_line @ [newline]"]]
  have "run [Accepted 0, Accepted 1, Accepted 2]
      (sample_sys Map.empty (Reading [sub_line]) (Reading [pub_line]) (Reading [pub_line]) [])"
    by (simp add: scan_sample)
  from run.more[OF this line[of _ 0 sub_line "[]"]]
  have "run [Accepted 0, Accepted 1, Accepted 2, Subscribed 0 ''a'']
      (sample_sys sample_topic (Reading []) (Reading [pub_line]) (Reading [pub_line]) [])"
    by (simp add: handle_step_def handle_sample sample_subscribe)
  from run.more[OF this line[of _ 1 pub_line "[]"]]
  show ?thesis by (simp add: handle_step_def handle_sample sample_subscribe msg_sample Let_def)
qed

lemma sample_sent:
  "run [Accepted 0, Accepted 1, Accepted 2, Subscribed 0 ''a'', Published 1 ''a'' ''x'' {0}, Sent 1 0 sample_msg]
     (sample_sys sample_topic (Reading []) (Publishing sample_msg {} {} {} []) (Reading [pub_line]) (sample_msg @ [newline]))"
  using run.more[OF sample_started send[of _ 1 sample_msg "{0}" "{}" "{}" "[]" 0]] by simp

section \<open>Properties\<close>

text \<open>C13: In every reachable state of the broker, however its goroutines interleave, the subscriber table has
  no empty topic and only valid topics, and a client is in it only while its handler is still
  running and after that client sent SUB for the topic. So no subscription outlives its connection's
  handler, although a failed delivery may remove a client while its handler goes on subscribing.\<close>

theorem broker_table_inv:
  assumes "run es s"
  shows "wf_broker (subscribers s)
     \<and> (\<forall>c t. subscribed (subscribers s) c t \<longrightarrow> live (handlers s c) \<and> Subscribed c t \<in> set es)"
  using run_inv[OF assms] by (auto simp: system_inv_def)

lemma broker_table_inv_witness:
  "run [Accepted 0, Accepted 1, Accepted 2, Subscribed 0 ''a'', Published 1 ''a'' ''x'' {0}]
     (sample_sys sample_topic (Reading []) (Publishing sample_msg {0} {} {} []) (Reading [pub_line]) [])
   \<and> wf_broker sample_topic"
  using broker_table_inv[OF sample_started] sample_started by simp

text \<open>C5: Nothing is delivered that was not published to a subscriber: every line sent to a client in an
  execution is the MSG line of an earlier PUB by the publisher that sends it, and the client had sent
  SUB for that topic before.\<close>

theorem broker_delivery_sound:
  assumes "run es s" and "Sent p c m \<in> set es"
  shows "\<exists>t pl cs before after. es = before @ Published p t pl cs # after \<and> Sent p c m \<in> set after
       \<and> m = msg_line t pl \<and> c \<in> cs \<and> Subscribed c t \<in> set before"
  by (rule sent_origin[OF assms])

lemma broker_delivery_sound_witness:
  "\<exists>t pl cs before after. [Accepted 0, Accepted 1, Accepted 2, Subscribed 0 ''a'', Published 1 ''a'' ''x'' {0},
       Sent 1 0 sample_msg] = before @ Published 1 t pl cs # after \<and> Sent 1 0 sample_msg \<in> set after
       \<and> sample_msg = msg_line t pl \<and> 0 \<in> cs \<and> Subscribed 0 t \<in> set before"
  by (rule broker_delivery_sound[OF sample_sent]) simp

text \<open>When \<open>publish\<close> returns, it has dealt with each subscriber it saw exactly once: the recipients for
  which a send succeeded or failed since the publication began are, without repetition, the
  subscribers of the topic at that moment.\<close>

theorem broker_publish_once:
  assumes "run es s" and "step s (Done p) s'"
  shows "\<exists>t pl cs before after. publishing_since p t pl cs es before after
     \<and> distinct (handled p after) \<and> set (handled p after) = cs"
  by (rule publication_done[OF assms])

lemma broker_publish_once_witness:
  "\<exists>t pl cs before after. publishing_since 1 t pl cs [Accepted 0, Accepted 1, Accepted 2, Subscribed 0 ''a'',
       Published 1 ''a'' ''x'' {0}, Sent 1 0 sample_msg] before after
     \<and> distinct (handled 1 after) \<and> set (handled 1 after) = cs"
  by (rule broker_publish_once[OF sample_sent published]) simp

text \<open>A subscriber to which no send failed half-way scans exactly the lines sent to it, in order, with
  the same line limit as the broker: no delivered line is split, merged or too long.\<close>

theorem broker_stream_lines:
  assumes "run es s" and "no_partial c es"
  shows "scan_lines scan_limit (stream s c) = (map dropCR (sent_to c es), False)"
  unfolding run_stream[OF assms]
  using sent_good[OF assms(1)] by (intro scan_lines_lines) (auto simp: good_line_def)

lemma broker_stream_lines_witness:
  "scan_lines scan_limit (sample_msg @ [newline]) = ([sample_msg], False)"
  using broker_stream_lines[OF sample_sent, of 0] by (simp add: no_partial_def sample_msg_def dropCR_id)

text \<open>The line protocol of the broker is exactly SUB with a valid topic, and PUB with a valid topic,
  one space and a non-empty payload that reaches to the end of the line; a trailing carriage return is dropped.\<close>

theorem broker_commands:
  "(handle_line l = Subscribe t \<longleftrightarrow> TrimSuffix l [carriage_return] = ''SUB '' @ t \<and> validTopic t)
   \<and> (handle_line l = Publish t p \<longleftrightarrow>
        TrimSuffix l [carriage_return] = ''PUB '' @ t @ '' '' @ p \<and> validTopic t \<and> p \<noteq> [])"
  by (simp only: handle_line_Subscribe handle_line_Publish)

text \<open>A send that fails after a part of its line, followed by another publisher's send before the
  connection is closed, leaves a line on the stream that nobody published.\<close>

theorem broker_torn_line:
  "\<exists>es s c l. run es s \<and> l \<in> set (fst (scan_lines scan_limit (stream s c))) \<and> l \<notin> dropCR ` set (sent_to c es)"
proof -
  let ?es = "[Accepted 0, Accepted 1, Accepted 2, Subscribed 0 ''a'', Published 1 ''a'' ''x'' {0}, Failed 1 0 ''M'']"
  have "run ?es (sample_sys sample_topic (Reading []) (Publishing sample_msg {} {0} {} []) (Reading [pub_line]) ''M'')"
    using run.more[OF sample_started send_fail[of _ 1 sample_msg "{0}" "{}" "{}" "[]" 0 1]] by (simp add: sample_msg_def)
  from run.more[OF this line[of _ 2 pub_line "[]"]]
  have "run (?es @ [Published 2 ''a'' ''x'' {0}])
      (sample_sys sample_topic (Reading []) (Publishing sample_msg {} {0} {} []) (Publishing sample_msg {0} {} {} []) ''M'')"
    by (simp add: handle_step_def handle_sample sample_subscribe msg_sample Let_def)
  from run.more[OF this send[of _ 2 sample_msg "{0}" "{}" "{}" "[]" 0]]
  have r: "run (?es @ [Published 2 ''a'' ''x'' {0}, Sent 2 0 sample_msg])
      (sample_sys sample_topic (Reading []) (Publishing sample_msg {} {0} {} []) (Publishing sample_msg {} {} {} [])
        (''MMSG a x'' @ [newline]))"
    by (simp add: sample_msg_def)
  have "fst (scan_lines scan_limit (''MMSG a x'' @ [newline])) = [''MMSG a x'']"
    using scan_lines_Cons[of "''MMSG a x''" scan_limit "[]"] by (simp add: scan_limit_def scan_lines.simps[of _ "[]"])
  then show ?thesis using r by (intro exI[of _ "0::nat"] exI conjI) (assumption | simp add: sample_msg_def dropCR_id)+
qed

end
