(* ===== verification/Go_Json.thy ===== *)
theory Go_Json
  imports Go_Strings
begin

text \<open>
  \<^verbatim>\<open>encoding/json\<close> of Go 1.22 as the program uses it: the syntax check and decoding of a value
  (\<^verbatim>\<open>json.Unmarshal\<close>), the token stream of \<^verbatim>\<open>json.Decoder\<close>, decoding into struct fields, and the compact
  output of \<^verbatim>\<open>json.Marshal\<close>. Numbers stay literals until a field asks for an integer or a float.
\<close>

datatype json = JNull | JBool bool | JNum string | JStr string | JArr "json list" | JObj "(string \<times> json) list"

section \<open>Scanning\<close>

definition json_space :: "char \<Rightarrow> bool" where
  "json_space c \<longleftrightarrow> c = CHR '' '' \<or> c = CHR 0x09 \<or> c = CHR 0x0D \<or> c = CHR 0x0A"

definition skip_ws :: "string \<Rightarrow> string" where
  "skip_ws s = dropWhile json_space s"

subsection \<open>Numbers\<close>

fun num_int :: "string \<Rightarrow> (string \<times> string) option" where
  "num_int [] = None"
| "num_int (c # cs) = (if c = CHR ''0'' then Some ([c], cs)
     else if is_digit c then Some (takeWhile is_digit (c # cs), dropWhile is_digit (c # cs)) else None)"

fun num_frac :: "string \<Rightarrow> (string \<times> string) option" where
  "num_frac [] = Some ([], [])"
| "num_frac (c # cs) = (if c \<noteq> CHR ''.'' then Some ([], c # cs)
     else if takeWhile is_digit cs = [] then None
     else Some (c # takeWhile is_digit cs, dropWhile is_digit cs))"

fun exp_sign :: "string \<Rightarrow> string \<times> string" where
  "exp_sign [] = ([], [])"
| "exp_sign (c # cs) = (if c = CHR ''+'' \<or> c = CHR ''-'' then ([c], cs) else ([], c # cs))"

fun num_exp :: "string \<Rightarrow> (string \<times> string) option" where
  "num_exp [] = Some ([], [])"
| "num_exp (c # cs) = (if c \<noteq> CHR ''e'' \<and> c \<noteq> CHR ''E'' then Some ([], c # cs)
     else let (sg, ds) = exp_sign cs
          in if takeWhile is_digit ds = [] then None
             else Some (c # sg @ takeWhile is_digit ds, dropWhile is_digit ds))"

fun num_sign :: "string \<Rightarrow> string \<times> string" where
  "num_sign [] = ([], [])"
| "num_sign (c # cs) = (if c = CHR ''-'' then ([c], cs) else ([], c # cs))"

definition scan_number :: "string \<Rightarrow> (string \<times> string) option" where
  "scan_number s =
     (let (sg, s1) = num_sign s in
      Option.bind (num_int s1) (\<lambda>(ip, s2).
      Option.bind (num_frac s2) (\<lambda>(fp, s3).
      map_option (\<lambda>(ep, s4). (sg @ ip @ fp @ ep, s4)) (num_exp s3))))"

subsection \<open>Strings\<close>

definition hex_val :: "char \<Rightarrow> nat option" where
  "hex_val c = (let b = byte_of c in
     if 48 \<le> b \<and> b \<le> 57 then Some (b - 48) else if 97 \<le> b \<and> b \<le> 102 then Some (b - 87)
     else if 65 \<le> b \<and> b \<le> 70 then Some (b - 55) else None)"

text \<open>\<^verbatim>\<open>getu4\<close>, after the backslash and the \<open>u\<close>.\<close>

definition hex4 :: "string \<Rightarrow> nat option" where
  "hex4 s = (case map hex_val (take 4 s) of
      [Some a, Some b, Some c, Some d] \<Rightarrow> Some (4096 * a + 256 * b + 16 * c + d)
    | _ \<Rightarrow> None)"

definition replacement :: string where
  "replacement = [CHR 0xEF, CHR 0xBF, CHR 0xBD]"

text \<open>One \<open>\u\<close> escape: the decoded bytes and how many bytes after the \<open>u\<close> it used.\<close>

definition unicode_escape :: "string \<Rightarrow> (string \<times> nat) option" where
  "unicode_escape s = (case hex4 s of
      None \<Rightarrow> None
    | Some r \<Rightarrow>
        if 0xD800 \<le> r \<and> r \<le> 0xDFFF then
          (case (if take 2 (drop 4 s) = [CHR 0x5C, CHR ''u''] then hex4 (drop 6 s) else None) of
             Some r1 \<Rightarrow> if r \<le> 0xDBFF \<and> 0xDC00 \<le> r1 \<and> r1 \<le> 0xDFFF
               then Some (utf8_encode1 (0x10000 + (r - 0xD800) * 1024 + (r1 - 0xDC00)), 10)
               else Some (replacement, 4)
           | None \<Rightarrow> Some (replacement, 4))
        else Some (utf8_encode1 r, 4))"

definition simple_escape :: "char \<Rightarrow> char option" where
  "simple_escape c =
     (if c = CHR 0x22 \<or> c = CHR 0x5C \<or> c = CHR ''/'' then Some c
      else if c = CHR ''b'' then Some (CHR 0x08) else if c = CHR ''f'' then Some (CHR 0x0C)
      else if c = CHR ''n'' then Some (CHR 0x0A) else if c = CHR ''r'' then Some (CHR 0x0D)
      else if c = CHR ''t'' then Some (CHR 0x09) else None)"

text \<open>
  A string after its opening quote: the unquoted bytes and the rest. A byte below 0x20 is a syntax
  error; invalid UTF-8 and lone surrogates become U+FFFD.
\<close>

abbreviation prepend :: "string \<Rightarrow> (string \<times> string) option \<Rightarrow> (string \<times> string) option" where
  "prepend p r \<equiv> map_option (\<lambda>(d, rest). (p @ d, rest)) r"

function scan_string :: "string \<Rightarrow> (string \<times> string) option" where
  "scan_string [] = None"
| "scan_string (c # cs) =
     (if c = CHR 0x22 then Some ([], cs)
      else if c = CHR 0x5C then
        (case cs of
           [] \<Rightarrow> None
         | e # es \<Rightarrow>
             if e = CHR ''u'' then
               (case unicode_escape es of
                  None \<Rightarrow> None
                | Some (d, n) \<Rightarrow> prepend d (scan_string (drop n es)))
             else (case simple_escape e of None \<Rightarrow> None | Some d \<Rightarrow> prepend [d] (scan_string es)))
      else if byte_of c < 0x20 then None
      else (case utf8_decode1 (c # cs) of
              None \<Rightarrow> prepend replacement (scan_string cs)
            | Some (r, w) \<Rightarrow> prepend (take w (c # cs)) (scan_string (drop w (c # cs)))))"
  by pat_completeness auto
termination
  by (relation "measure length") (auto dest: utf8_decode1_width simp: less_Suc_eq_le)

declare scan_string.simps(2) [simp del]

lemma scan_string_next:
  assumes "scan_string (c # cs) = Some (d, rest)"
  shows "rest = cs \<or> (\<exists>n d'. scan_string (drop n cs) = Some (d', rest))"
proof (cases "c = CHR 0x22 \<or> c = CHR 0x5C")
  case True
  then show ?thesis using assms
    by (subst (asm) scan_string.simps(2))
       (auto split: if_splits option.splits list.splits intro: exI[of _ "Suc n" for n] simp del: drop_drop,
        (metis drop_Suc_Cons drop0)+)
next
  case False
  show ?thesis
  proof (cases "utf8_decode1 (c # cs)")
    case None
    then show ?thesis using assms False
      by (subst (asm) scan_string.simps(2)) (auto split: if_splits intro: exI[of _ 0])
  next
    case (Some rw)
    then obtain r w where w: "utf8_decode1 (c # cs) = Some (r, Suc w)"
      using utf8_decode1_width[of "c # cs"] by (cases rw; cases "snd rw") auto
    then show ?thesis using assms False
      by (subst (asm) scan_string.simps(2)) (auto split: if_splits)
  qed
qed

lemma scan_string_shorter: "scan_string s = Some (d, rest) \<Longrightarrow> length rest < length s"
proof (induction s arbitrary: d rule: measure_induct_rule[of length])
  case (less s)
  then obtain c cs where s: "s = c # cs" by (cases s) auto
  from scan_string_next[of c cs d rest] less.prems s consider "rest = cs" | n d' where "scan_string (drop n cs) = Some (d', rest)"
    by auto
  then show ?case
  proof cases
    case 2
    then have "length rest < length (drop n cs)" using less.IH[of "drop n cs"] s by simp
    then show ?thesis using s by simp
  qed (simp add: s)
qed

subsection \<open>Values\<close>

definition json_literal :: "string \<Rightarrow> (json \<times> string) option" where
  "json_literal s =
     (if HasPrefix s ''true'' then Some (JBool True, drop 4 s)
      else if HasPrefix s ''false'' then Some (JBool False, drop 5 s)
      else if HasPrefix s ''null'' then Some (JNull, drop 4 s)
      else map_option (\<lambda>(n, r). (JNum n, r)) (scan_number s))"

text \<open>
  A value after optional white space, with at most \<open>d\<close> open brackets; the scanner allows 10000. The tests
  on lengths always hold (the lemma below) and make the recursion evident.
\<close>

function parse_value :: "nat \<Rightarrow> string \<Rightarrow> (json \<times> string) option"
  and parse_elements :: "nat \<Rightarrow> string \<Rightarrow> (json list \<times> string) option"
  and parse_members :: "nat \<Rightarrow> string \<Rightarrow> ((string \<times> json) list \<times> string) option" where
  "parse_value d s = (case skip_ws s of
      [] \<Rightarrow> None
    | c # cs \<Rightarrow>
        if c = CHR ''{'' then
          (if d = 0 \<or> length s \<le> length cs then None
           else if HasPrefix (skip_ws cs) ''}'' then Some (JObj [], tl (skip_ws cs))
           else map_option (\<lambda>(ms, r). (JObj ms, r)) (parse_members (d - 1) cs))
        else if c = CHR ''['' then
          (if d = 0 \<or> length s \<le> length cs then None
           else if HasPrefix (skip_ws cs) '']'' then Some (JArr [], tl (skip_ws cs))
           else map_option (\<lambda>(vs, r). (JArr vs, r)) (parse_elements (d - 1) cs))
        else if c = CHR 0x22 then map_option (\<lambda>(x, r). (JStr x, r)) (scan_string cs)
        else json_literal (c # cs))"
| "parse_elements d s = (case parse_value d s of
      None \<Rightarrow> None
    | Some (v, r) \<Rightarrow>
        (case skip_ws r of
           [] \<Rightarrow> None
         | c # cs \<Rightarrow>
             if c = CHR '']'' then Some ([v], cs)
             else if c = CHR '','' \<and> length cs < length s
             then map_option (\<lambda>(vs, t). (v # vs, t)) (parse_elements d cs) else None))"
| "parse_members d s = (case skip_ws s of
      [] \<Rightarrow> None
    | q # qs \<Rightarrow>
        if q \<noteq> CHR 0x22 then None
        else case scan_string qs of
               None \<Rightarrow> None
             | Some (k, r) \<Rightarrow>
                 (case skip_ws r of
                    [] \<Rightarrow> None
                  | c # cs \<Rightarrow>
                      if c \<noteq> CHR '':'' \<or> length s \<le> length cs then None
                      else case parse_value d cs of
                             None \<Rightarrow> None
                           | Some (v, r1) \<Rightarrow>
                               (case skip_ws r1 of
                                  [] \<Rightarrow> None
                                | e # es \<Rightarrow>
                                    if e = CHR ''}'' then Some ([(k, v)], es)
                                    else if e = CHR '','' \<and> length es < length s
                                    then map_option (\<lambda>(ms, t). ((k, v) # ms, t)) (parse_members d es) else None)))"
  by pat_completeness auto
termination
  by (relation "measure (\<lambda>x. case x of Inl (d, s) \<Rightarrow> 2 * length s | Inr (Inl (d, s)) \<Rightarrow> 2 * length s + 1 | Inr (Inr (d, s)) \<Rightarrow> 2 * length s + 1)")
     auto

declare parse_value.simps [simp del] parse_elements.simps [simp del] parse_members.simps [simp del]

definition max_depth :: nat where "max_depth = 10000"

text \<open>A whole document: one value and white space.\<close>

definition json_parse :: "string \<Rightarrow> json option" where
  "json_parse s = (case parse_value max_depth s of Some (v, r) \<Rightarrow> if skip_ws r = [] then Some v else None | None \<Rightarrow> None)"

end
