(* ===== verification/Go_Json_Print.thy ===== *)
theory Go_Json_Print
  imports Go_Json
begin

text \<open>
  The output side of \<^verbatim>\<open>encoding/json\<close> and the round trip: what \<^verbatim>\<open>json.Marshal\<close> prints parses back to the same
  value.
\<close>

section \<open>Printing\<close>

definition hex_digit :: "nat \<Rightarrow> char" where
  "hex_digit n = char_of (if n < 10 then 48 + n else 87 + n)"

text \<open>\<^verbatim>\<open>appendString\<close> with HTML escaping, the default of \<^verbatim>\<open>Marshal\<close> and \<^verbatim>\<open>Encode\<close>.\<close>

definition escape_ascii :: "char \<Rightarrow> string" where
  "escape_ascii c =
     (if c = CHR 0x22 \<or> c = CHR 0x5C then [CHR 0x5C, c]
      else if c = CHR 0x08 then [CHR 0x5C, CHR ''b''] else if c = CHR 0x0C then [CHR 0x5C, CHR ''f'']
      else if c = CHR 0x0A then [CHR 0x5C, CHR ''n''] else if c = CHR 0x0D then [CHR 0x5C, CHR ''r'']
      else if c = CHR 0x09 then [CHR 0x5C, CHR ''t'']
      else if byte_of c < 0x20 \<or> c = CHR ''<'' \<or> c = CHR ''>'' \<or> c = CHR ''&''
      then [CHR 0x5C, CHR ''u'', CHR ''0'', CHR ''0'', hex_digit (byte_of c div 16), hex_digit (byte_of c mod 16)]
      else [c])"

function escape :: "string \<Rightarrow> string" where
  "escape [] = []"
| "escape (c # cs) =
     (if byte_of c < 0x80 then escape_ascii c @ escape cs
      else case utf8_decode1 (c # cs) of
             None \<Rightarrow> [CHR 0x5C] @ ''ufffd'' @ escape cs
           | Some (r, w) \<Rightarrow>
               (if r = 0x2028 then [CHR 0x5C] @ ''u2028'' else if r = 0x2029 then [CHR 0x5C] @ ''u2029'' else take w (c # cs))
               @ escape (drop w (c # cs)))"
  by pat_completeness auto
termination
  by (relation "measure length") (auto dest: utf8_decode1_width)

declare escape.simps(2) [simp del]

definition json_string :: "string \<Rightarrow> string" where
  "json_string s = [CHR 0x22] @ escape s @ [CHR 0x22]"

fun comma_join :: "string list \<Rightarrow> string" where
  "comma_join [] = []"
| "comma_join [x] = x"
| "comma_join (x # y # ys) = x @ CHR '','' # comma_join (y # ys)"

fun json_print :: "json \<Rightarrow> string" where
  "json_print JNull = ''null''"
| "json_print (JBool b) = (if b then ''true'' else ''false'')"
| "json_print (JNum n) = n"
| "json_print (JStr s) = json_string s"
| "json_print (JArr vs) = CHR ''['' # comma_join (map json_print vs) @ '']''"
| "json_print (JObj ms) = CHR ''{'' # comma_join (map (\<lambda>(k, v). json_string k @ CHR '':'' # json_print v) ms) @ ''}''"

section \<open>Runes\<close>

lemma utf8_decode1_cases:
  assumes "utf8_decode1 s = Some (r, w)"
  obtains (one) a t where "s = a # t" "byte_of a < 0x80" "r = byte_of a" "w = 1"
  | (two) a b t where "s = a # b # t" "0xC2 \<le> byte_of a" "byte_of a \<le> 0xDF" "0x80 \<le> byte_of b" "byte_of b \<le> 0xBF"
      "r = (byte_of a - 0xC0) * 64 + (byte_of b - 0x80)" "w = 2"
  | (three) a b c t where "s = a # b # c # t" "0xE0 \<le> byte_of a" "byte_of a \<le> 0xEF"
      "(if byte_of a = 0xE0 then 0xA0 else 0x80) \<le> byte_of b" "byte_of b \<le> (if byte_of a = 0xED then 0x9F else 0xBF)"
      "0x80 \<le> byte_of c" "byte_of c \<le> 0xBF"
      "r = (byte_of a - 0xE0) * 4096 + (byte_of b - 0x80) * 64 + (byte_of c - 0x80)" "w = 3"
  | (four) a b c d t where "s = a # b # c # d # t" "0xF0 \<le> byte_of a" "byte_of a \<le> 0xF4"
      "(if byte_of a = 0xF0 then 0x90 else 0x80) \<le> byte_of b" "byte_of b \<le> (if byte_of a = 0xF4 then 0x8F else 0xBF)"
      "0x80 \<le> byte_of c" "byte_of c \<le> 0xBF" "0x80 \<le> byte_of d" "byte_of d \<le> 0xBF"
      "r = (byte_of a - 0xF0) * 262144 + (byte_of b - 0x80) * 4096 + (byte_of c - 0x80) * 64 + (byte_of d - 0x80)" "w = 4"
proof -
  have cons: "\<exists>a t. xs = a # t" if "0 < length xs" for xs :: string using that by (cases xs) auto
  have two: "\<exists>a b t. xs = a # b # t" if "1 < length xs" for xs :: string
    using that by (cases xs; cases "tl xs") auto
  have three: "\<exists>a b c t. xs = a # b # c # t" if "2 < length xs" for xs :: string
    using that by (cases xs; cases "tl xs"; cases "tl (tl xs)") auto
  have four: "\<exists>a b c d t. xs = a # b # c # d # t" if "3 < length xs" for xs :: string
    using that by (cases xs; cases "tl xs"; cases "tl (tl xs)"; cases "tl (tl (tl xs))") auto
  obtain a t where s: "s = a # t" using assms cons[of s] by (cases s) (auto simp: utf8_decode1_def)
  consider "byte_of a < 0x80" | "0xC2 \<le> byte_of a" "byte_of a \<le> 0xDF" | "0xE0 \<le> byte_of a" "byte_of a \<le> 0xEF"
    | "0xF0 \<le> byte_of a" "byte_of a \<le> 0xF4"
    using assms s by (auto simp: utf8_decode1_def Let_def split: if_splits)
  then show thesis
  proof cases
    case 1
    then show thesis using one assms s by (auto simp: utf8_decode1_def Let_def)
  next
    case 2
    then have "1 < length s" using assms s by (auto simp: utf8_decode1_def Let_def split: if_splits)
    then obtain a b t where "s = a # b # t" using two by blast
    then show thesis using two[of s] that(2) 2 assms s by (auto simp: utf8_decode1_def Let_def split: if_splits)
  next
    case 3
    then have "2 < length s" using assms s by (auto simp: utf8_decode1_def Let_def split: if_splits)
    then obtain a' b c t' where "s = a' # b # c # t'" using three by blast
    then show thesis using that(3) 3 assms s
      by (cases "byte_of a = 0xE0"; cases "byte_of a = 0xED") (auto simp: utf8_decode1_def Let_def split: if_splits)
  next
    case 4
    then have "3 < length s" using assms s by (auto simp: utf8_decode1_def Let_def split: if_splits)
    then obtain a' b c d t' where "s = a' # b # c # d # t'" using four by blast
    then show thesis using that(4) 4 assms s
      by (cases "byte_of a = 0xF0"; cases "byte_of a = 0xF4") (auto simp: utf8_decode1_def Let_def split: if_splits)
  qed
qed

lemma utf8_decode1_local:
  assumes "utf8_decode1 s = Some (r, w)"
  shows "utf8_decode1 (take w s @ t) = Some (r, w)"
  using assms by (cases rule: utf8_decode1_cases) (auto simp: utf8_decode1_def Let_def split: if_splits)

lemma base64_digit: "y < 64 \<Longrightarrow> (x * 64 + y) div 64 = (x :: nat) \<and> (x * 64 + y) mod 64 = y"
  by simp

lemma utf8_encode_two: "2 \<le> x \<Longrightarrow> x < 32 \<Longrightarrow> y < 64 \<Longrightarrow> utf8_encode1 (x * 64 + y) = [char_of (0xC0 + x), char_of (0x80 + y)]"
  by (simp add: utf8_encode1_def)

lemma utf8_encode_three: "x < 16 \<Longrightarrow> y < 64 \<Longrightarrow> z < 64 \<Longrightarrow> (x = 0 \<longrightarrow> 32 \<le> y) \<Longrightarrow> (x = 13 \<longrightarrow> y < 32) \<Longrightarrow>
   utf8_encode1 (x * 4096 + y * 64 + z) = [char_of (0xE0 + x), char_of (0x80 + y), char_of (0x80 + z)]"
proof -
  assume a: "x < 16" "y < 64" "z < 64" "x = 0 \<longrightarrow> 32 \<le> y" "x = 13 \<longrightarrow> y < 32"
  define r where "r = x * 4096 + y * 64 + z"
  have n: "r = (x * 64 + y) * 64 + z" by (simp add: r_def algebra_simps)
  have d: "r div 64 = x * 64 + y" "r mod 64 = z" using base64_digit[OF a(3), of "x * 64 + y"] unfolding n by auto
  have "r div 4096 = r div 64 div 64" by (simp add: div_mult2_eq[symmetric])
  then have e: "r div 4096 = x" using d a by simp
  have f: "0x800 \<le> r" "r < 0x10000" using a by (cases "x = 0"; simp add: r_def)+
  have g: "\<not> (0xD800 \<le> r \<and> r \<le> 0xDFFF)"
  proof (cases "x < 13")
    case False
    then show ?thesis using a by (cases "x = 13") (auto simp: r_def)
  qed (use a in \<open>auto simp: r_def\<close>)
  show ?thesis unfolding r_def[symmetric] using d e f g a by (auto simp: utf8_encode1_def)
qed

lemma utf8_encode_four: "x \<le> 4 \<Longrightarrow> y < 64 \<Longrightarrow> z < 64 \<Longrightarrow> u < 64 \<Longrightarrow> (x = 0 \<longrightarrow> 16 \<le> y) \<Longrightarrow> (x = 4 \<longrightarrow> y < 16) \<Longrightarrow>
   utf8_encode1 (x * 262144 + y * 4096 + z * 64 + u) = [char_of (0xF0 + x), char_of (0x80 + y), char_of (0x80 + z), char_of (0x80 + u)]"
proof -
  assume a: "x \<le> 4" "y < 64" "z < 64" "u < 64" "x = 0 \<longrightarrow> 16 \<le> y" "x = 4 \<longrightarrow> y < 16"
  define r where "r = x * 262144 + y * 4096 + z * 64 + u"
  have n: "r = ((x * 64 + y) * 64 + z) * 64 + u" by (simp add: r_def algebra_simps)
  have d: "r div 64 = (x * 64 + y) * 64 + z" "r mod 64 = u" using base64_digit[OF a(4), of "(x * 64 + y) * 64 + z"] unfolding n by auto
  have "r div 4096 = r div 64 div 64" "r div 262144 = r div 64 div 64 div 64" by (simp_all add: div_mult2_eq[symmetric])
  then have e: "r div 4096 = x * 64 + y" "r div 262144 = x" using d a by simp_all
  have f: "0x10000 \<le> r" "r \<le> 0x10FFFF" using a by (cases "x = 0"; cases "x = 4"; simp add: r_def)+
  have m: "r div 64 mod 64 = z" "r div 4096 mod 64 = y"
    using base64_digit[OF a(3), of "x * 64 + y"] base64_digit[OF a(2), of x] by (simp_all add: d e)
  show ?thesis unfolding r_def[symmetric] using d(2) e(2) m f by (simp add: utf8_encode1_def)
qed

lemma byte_offset: "n \<le> byte_of a \<Longrightarrow> \<exists>x. byte_of a = n + x \<and> a = char_of (n + x)"
  by (metis char_of_char le_Suc_ex)

lemma utf8_encode_decode:
  assumes "utf8_decode1 s = Some (r, w)"
  shows "utf8_encode1 r = take w s"
  using assms
proof (cases rule: utf8_decode1_cases)
  case (one a t)
  then show ?thesis by (simp add: utf8_encode1_def)
next
  case (two a b t)
  obtain x y where b: "byte_of a = 0xC0 + x" "a = char_of (0xC0 + x)" "byte_of b = 0x80 + y" "b = char_of (0x80 + y)"
    using two(2,4) byte_offset[of "0xC0" a] byte_offset[of "0x80" b] by auto
  have "r = x * 64 + y" "2 \<le> x" "x < 32" "y < 64" using two(2-6) unfolding b(1,3) by simp_all
  then show ?thesis using utf8_encode_two[of x y] two(1,7) b(2,4) by simp
next
  case (three a b c t)
  have "0x80 \<le> byte_of b" using three(4) by (simp split: if_splits)
  then obtain x y z where b: "byte_of a = 0xE0 + x" "a = char_of (0xE0 + x)" "byte_of b = 0x80 + y" "b = char_of (0x80 + y)"
      "byte_of c = 0x80 + z" "c = char_of (0x80 + z)"
    using three(2,6) byte_offset[of "0xE0" a] byte_offset[of "0x80" b] byte_offset[of "0x80" c] by auto
  have "r = x * 4096 + y * 64 + z" "x < 16" "y < 64" "z < 64" "x = 0 \<longrightarrow> 32 \<le> y" "x = 13 \<longrightarrow> y < 32"
    using three(3-8) unfolding b(1,3,5) by (simp_all split: if_splits)
  then show ?thesis using utf8_encode_three[of x y z] three(1,9) b(2,4,6) by simp
next
  case (four a b c d t)
  have "0x80 \<le> byte_of b" using four(4) by (simp split: if_splits)
  then obtain x y z u where b: "byte_of a = 0xF0 + x" "a = char_of (0xF0 + x)" "byte_of b = 0x80 + y" "b = char_of (0x80 + y)"
      "byte_of c = 0x80 + z" "c = char_of (0x80 + z)" "byte_of d = 0x80 + u" "d = char_of (0x80 + u)"
    using four(2,6,8) byte_offset[of "0xF0" a] byte_offset[of "0x80" b] byte_offset[of "0x80" c] byte_offset[of "0x80" d] by auto
  have "r = x * 262144 + y * 4096 + z * 64 + u" "x \<le> 4" "y < 64" "z < 64" "u < 64" "x = 0 \<longrightarrow> 16 \<le> y" "x = 4 \<longrightarrow> y < 16"
    using four(3-10) unfolding b(1,3,5,7) by (simp_all split: if_splits)
  then show ?thesis using utf8_encode_four[of x y z u] four(1,11) b(2,4,6,8) by simp
qed

section \<open>Strings come back\<close>

lemma hex_val_digit: "n < 16 \<Longrightarrow> hex_val (hex_digit n) = Some n"
  by (auto simp: hex_val_def hex_digit_def of_char_of)

lemma hex4_low: "b < 256 \<Longrightarrow> hex4 (CHR ''0'' # CHR ''0'' # hex_digit (b div 16) # hex_digit (b mod 16) # t) = Some b"
  by (simp add: hex4_def hex_val_digit) (simp add: hex_val_def)

lemma utf8_decode1_ascii: "byte_of c < 0x80 \<Longrightarrow> utf8_decode1 (c # t) = Some (byte_of c, 1)"
  by (simp add: utf8_decode1_def Let_def)

lemma scan_backslash:
  "scan_string (CHR 0x5C # CHR ''u'' # es) = (case unicode_escape es of None \<Rightarrow> None | Some (d, n) \<Rightarrow> prepend d (scan_string (drop n es)))"
  "e \<noteq> CHR ''u'' \<Longrightarrow> scan_string (CHR 0x5C # e # es) = (case simple_escape e of None \<Rightarrow> None | Some d \<Rightarrow> prepend [d] (scan_string es))"
  by (simp_all add: scan_string.simps(2))

lemma scan_other:
  assumes "c \<noteq> CHR 0x22" "c \<noteq> CHR 0x5C" "\<not> byte_of c < 0x20"
  shows "scan_string (c # cs) = (case utf8_decode1 (c # cs) of
      None \<Rightarrow> prepend replacement (scan_string cs)
    | Some (r, w) \<Rightarrow> prepend (take w (c # cs)) (scan_string (drop w (c # cs))))"
  using assms by (subst scan_string.simps(2)) (simp only: if_False)

lemma scan_plain_byte:
  assumes "c \<noteq> CHR 0x22" "c \<noteq> CHR 0x5C" "\<not> byte_of c < 0x20" "byte_of c < 0x80"
  shows "scan_string (c # t) = prepend [c] (scan_string t)"
proof -
  have "scan_string (c # t) = (case Some (byte_of c, 1) of
      None \<Rightarrow> prepend replacement (scan_string t)
    | Some (r, w) \<Rightarrow> prepend (take w (c # t)) (scan_string (drop w (c # t))))"
    using scan_other[OF assms(1-3), of t] unfolding utf8_decode1_ascii[OF assms(4), of t] .
  then show ?thesis by (simp only: option.case prod.case take_Suc_Cons take0 drop_Suc_Cons drop0 One_nat_def)
qed

lemma low_chars:
  "byte_of (CHR 0x08) < 0x20" "byte_of (CHR 0x0C) < 0x20" "byte_of (CHR 0x0A) < 0x20" "byte_of (CHR 0x0D) < 0x20" "byte_of (CHR 0x09) < 0x20"
  by simp_all

lemma scan_escape_ascii:
  assumes "byte_of c < 0x80"
  shows "scan_string (escape_ascii c @ t) = prepend [c] (scan_string t)"
proof (cases "byte_of c < 0x20 \<or> c \<in> {CHR 0x22, CHR 0x5C, CHR ''<'', CHR ''>'', CHR ''&''}")
  case False
  have n: "c \<noteq> CHR 0x08" "c \<noteq> CHR 0x0C" "c \<noteq> CHR 0x0A" "c \<noteq> CHR 0x0D" "c \<noteq> CHR 0x09" using False low_chars by blast+
  have m: "c \<noteq> CHR 0x22" "c \<noteq> CHR 0x5C" "\<not> byte_of c < 0x20" "c \<noteq> CHR ''<''" "c \<noteq> CHR ''>''" "c \<noteq> CHR ''&''"
    using False by blast+
  have "escape_ascii c = [c]" unfolding escape_ascii_def using n m by (simp only: if_False simp_thms)
  then show ?thesis using scan_plain_byte[OF m(1-3) assms] by simp
next
  case True
  have u: "scan_string (CHR 0x5C # CHR ''u'' # CHR ''0'' # CHR ''0'' # hex_digit (byte_of c div 16) # hex_digit (byte_of c mod 16) # t)
      = prepend [c] (scan_string t)"
    using assms by (simp add: scan_backslash unicode_escape_def hex4_low utf8_encode1_def)
  show ?thesis
  proof (cases "c \<in> {CHR 0x22, CHR 0x5C, CHR 0x08, CHR 0x0C, CHR 0x0A, CHR 0x0D, CHR 0x09}")
    case True
    then consider "c = CHR 0x22" | "c = CHR 0x5C" | "c = CHR 0x08" | "c = CHR 0x0C" | "c = CHR 0x0A" | "c = CHR 0x0D" | "c = CHR 0x09"
      by blast
    then show ?thesis by cases (simp_all add: escape_ascii_def scan_backslash simple_escape_def)
  next
    case False
    then have n: "c \<noteq> CHR 0x22" "c \<noteq> CHR 0x5C" "c \<noteq> CHR 0x08" "c \<noteq> CHR 0x0C" "c \<noteq> CHR 0x0A" "c \<noteq> CHR 0x0D" "c \<noteq> CHR 0x09"
      by blast+
    have m: "byte_of c < 0x20 \<or> c = CHR ''<'' \<or> c = CHR ''>'' \<or> c = CHR ''&''" using True n by blast
    have "escape_ascii c = [CHR 0x5C, CHR ''u'', CHR ''0'', CHR ''0'', hex_digit (byte_of c div 16), hex_digit (byte_of c mod 16)]"
      unfolding escape_ascii_def using n m by (simp only: if_False if_True simp_thms)
    then show ?thesis using u by simp
  qed
qed

lemma scan_rune:
  assumes "utf8_decode1 s = Some (r, w)" "\<not> byte_of (hd s) < 0x80"
  shows "scan_string (take w s @ t) = prepend (take w s) (scan_string t)"
proof -
  obtain c cs where c: "take w s = c # cs" "byte_of c = byte_of (hd s)"
    using assms utf8_decode1_width[OF assms(1)] by (cases s; cases w) auto
  have n: "length (take w s) = w" using utf8_decode1_width[OF assms(1)] by simp
  have "c \<noteq> CHR 0x22" "c \<noteq> CHR 0x5C" "\<not> byte_of c < 0x20" using c(2) assms(2) by auto
  then have "scan_string (take w s @ t) = (case utf8_decode1 (take w s @ t) of
        None \<Rightarrow> prepend replacement (scan_string (cs @ t))
      | Some (r, w') \<Rightarrow> prepend (take w' (take w s @ t)) (scan_string (drop w' (take w s @ t))))"
    unfolding c(1) append_Cons by (rule scan_other)
  then show ?thesis using n by (simp add: utf8_decode1_local[OF assms(1)])
qed

lemma hex4_separators: "hex4 (''2028'' @ t) = Some 0x2028" "hex4 (''2029'' @ t) = Some 0x2029"
  by (simp_all add: hex4_def hex_val_def)

lemma scan_separators:
  "scan_string ((CHR 0x5C # ''u2028'') @ t) = prepend (utf8_encode1 0x2028) (scan_string t)"
  "scan_string ((CHR 0x5C # ''u2029'') @ t) = prepend (utf8_encode1 0x2029) (scan_string t)"
  using hex4_separators[of t] by (simp_all add: scan_backslash unicode_escape_def)

lemma scan_escape: "utf8_valid s \<Longrightarrow> scan_string (escape s @ CHR 0x22 # rest) = Some (s, rest)"
proof (induction s rule: measure_induct_rule[of length])
  case (less s)
  show ?case
  proof (cases s)
    case Nil
    then show ?thesis by (simp add: scan_string.simps(2))
  next
    case (Cons c cs)
    then obtain r w where d: "utf8_decode1 s = Some (r, w)" "utf8_valid (drop w s)"
      using less.prems by (subst (asm) utf8_valid.simps) (auto split: option.splits)
    have w: "1 \<le> w" "w \<le> length s" using utf8_decode1_width[OF d(1)] by auto
    have ih: "scan_string (escape (drop w s) @ CHR 0x22 # rest) = Some (drop w s, rest)"
      using less.IH[of "drop w s"] d(2) w Cons by auto
    show ?thesis
    proof (cases "byte_of c < 0x80")
      case True
      then have "w = 1" using d(1) Cons by (simp add: utf8_decode1_ascii)
      then show ?thesis using Cons True ih by (simp add: escape.simps(2) scan_escape_ascii)
    next
      case False
      note e = utf8_encode_decode[OF d(1)]
      have "escape s = (if r = 0x2028 then CHR 0x5C # ''u2028'' else if r = 0x2029 then CHR 0x5C # ''u2029'' else take w s) @ escape (drop w s)"
        using False d(1) Cons by (simp add: escape.simps(2))
      moreover have "scan_string ((if r = 0x2028 then CHR 0x5C # ''u2028'' else if r = 0x2029 then CHR 0x5C # ''u2029'' else take w s) @ t)
          = prepend (take w s) (scan_string t)" for t
        using scan_separators[of t] scan_rune[OF d(1)] False Cons e by (auto simp del: append_Cons)
      ultimately show ?thesis using ih by (simp del: append_Cons)
    qed
  qed
qed

section \<open>Values come back\<close>

definition json_number :: "string \<Rightarrow> bool" where
  "json_number n \<longleftrightarrow> scan_number n = Some (n, [])"

text \<open>What may follow a number without becoming part of it.\<close>

definition stops :: "string \<Rightarrow> bool" where
  "stops rest \<longleftrightarrow> rest = [] \<or> \<not> is_digit (hd rest) \<and> hd rest \<notin> {CHR ''.'', CHR ''e'', CHR ''E''}"

fun wf_json :: "nat \<Rightarrow> json \<Rightarrow> bool" where
  "wf_json d (JNum n) = json_number n"
| "wf_json d (JStr s) = utf8_valid s"
| "wf_json d (JArr vs) = (0 < d \<and> (\<forall>v \<in> set vs. wf_json (d - 1) v))"
| "wf_json d (JObj ms) = (0 < d \<and> (\<forall>m \<in> set ms. utf8_valid (fst m) \<and> wf_json (d - 1) (snd m)))"
| "wf_json d _ = True"

lemma digits_stop:
  assumes "stops rest" "dropWhile is_digit ds = []"
  shows "takeWhile is_digit (ds @ rest) = ds" "dropWhile is_digit (ds @ rest) = rest"
proof -
  have "\<forall>x \<in> set ds. is_digit x" "rest = [] \<or> \<not> is_digit (hd rest)" using assms by (auto simp: stops_def)
  then show "takeWhile is_digit (ds @ rest) = ds" "dropWhile is_digit (ds @ rest) = rest" by (rule takeWhile_append_stop)+
qed

lemma digits_append:
  assumes "dropWhile is_digit ds \<noteq> [] \<or> stops rest"
  shows "takeWhile is_digit (ds @ rest) = takeWhile is_digit ds" "dropWhile is_digit (ds @ rest) = dropWhile is_digit ds @ rest"
proof -
  have "takeWhile is_digit (ds @ rest) = takeWhile is_digit ds \<and> dropWhile is_digit (ds @ rest) = dropWhile is_digit ds @ rest"
  proof (cases "dropWhile is_digit ds = []")
    case True
    then have "takeWhile is_digit ds = ds" by (metis append_Nil2 takeWhile_dropWhile_id)
    moreover have "stops rest" using True assms by blast
    ultimately show ?thesis using True digits_stop[of rest ds] by (metis append_Nil)
  next
    case False
    then obtain x where "x \<in> set ds" "\<not> is_digit x" by (meson dropWhile_eq_Nil_conv)
    then show ?thesis by (simp add: takeWhile_append1 dropWhile_append1)
  qed
  then show "takeWhile is_digit (ds @ rest) = takeWhile is_digit ds" "dropWhile is_digit (ds @ rest) = dropWhile is_digit ds @ rest" by auto
qed

lemma num_int_append: "num_int s = Some (ip, r) \<Longrightarrow> r \<noteq> [] \<or> stops rest \<Longrightarrow> num_int (s @ rest) = Some (ip, r @ rest)"
proof (cases s)
  case (Cons c cs)
  assume a: "num_int s = Some (ip, r)" "r \<noteq> [] \<or> stops rest"
  show ?thesis using a Cons digits_append[of cs rest] by (cases "c = CHR ''0''") (auto split: if_splits)
qed simp

lemma num_frac_append: "num_frac s = Some (fp, r) \<Longrightarrow> r \<noteq> [] \<or> stops rest \<Longrightarrow> num_frac (s @ rest) = Some (fp, r @ rest)"
proof (cases s)
  case Nil
  assume "num_frac s = Some (fp, r)" "r \<noteq> [] \<or> stops rest"
  then show ?thesis using Nil by (cases rest) (auto simp: stops_def)
next
  case (Cons c cs)
  assume a: "num_frac s = Some (fp, r)" "r \<noteq> [] \<or> stops rest"
  show ?thesis using a Cons digits_append[of cs rest] by (cases "c = CHR ''.''") (auto split: if_splits)
qed

lemma num_exp_append: "num_exp s = Some (ep, r) \<Longrightarrow> stops rest \<Longrightarrow> num_exp (s @ rest) = Some (ep, r @ rest)"
proof (cases s)
  case Nil
  assume "num_exp s = Some (ep, r)" "stops rest"
  then show ?thesis using Nil by (cases rest) (auto simp: stops_def)
next
  case (Cons c cs)
  assume a: "num_exp s = Some (ep, r)" "stops rest"
  obtain sg ds where sd: "exp_sign cs = (sg, ds)" by fastforce
  show ?thesis
  proof (cases "c = CHR ''e'' \<or> c = CHR ''E''")
    case True
    then have t: "takeWhile is_digit ds \<noteq> []" "ep = c # sg @ takeWhile is_digit ds" "r = dropWhile is_digit ds"
      using a(1) Cons sd by (auto split: if_splits)
    then have "cs \<noteq> []" using sd by (cases cs) auto
    then have "exp_sign (cs @ rest) = (sg, ds @ rest)" using sd by (cases cs) (auto split: if_splits)
    then show ?thesis using True Cons t digits_append[of ds rest] a(2) by auto
  qed (use a Cons in auto)
qed

lemma scan_number_append:
  assumes "json_number n" "stops rest"
  shows "scan_number (n @ rest) = Some (n, rest)"
proof -
  obtain sg s1 where sg: "num_sign n = (sg, s1)" by fastforce
  obtain ip s2 fp s3 ep where n: "num_int s1 = Some (ip, s2)" "num_frac s2 = Some (fp, s3)" "num_exp s3 = Some (ep, [])"
      "n = sg @ ip @ fp @ ep"
    using assms(1) sg by (auto simp: json_number_def scan_number_def bind_eq_Some_conv)
  have "n \<noteq> []" using sg n(1) by (cases n) auto
  then have s: "num_sign (n @ rest) = (sg, s1 @ rest)" using sg by (cases n) (auto split: if_splits)
  have "num_int (s1 @ rest) = Some (ip, s2 @ rest)" "num_frac (s2 @ rest) = Some (fp, s3 @ rest)"
    using num_int_append[OF n(1)] num_frac_append[OF n(2)] assms(2) by auto
  then show ?thesis using s num_exp_append[OF n(3) assms(2)] n(4) by (simp add: scan_number_def)
qed

lemma json_number_head: "json_number n \<Longrightarrow> \<exists>c cs. n = c # cs \<and> (is_digit c \<or> c = CHR ''-'')"
proof -
  assume a: "json_number n"
  obtain sg s1 where sg: "num_sign n = (sg, s1)" by fastforce
  obtain ip s2 where "num_int s1 = Some (ip, s2)" using a sg by (auto simp: json_number_def scan_number_def bind_eq_Some_conv)
  then show ?thesis using sg by (cases n; cases s1) (auto simp: is_digit_def split: if_splits)
qed

lemma skip_ws_head [simp]: "\<not> json_space c \<Longrightarrow> skip_ws (c # cs) = c # cs"
  by (simp add: skip_ws_def)

lemma not_space:
  "\<not> json_space CHR ''{''" "\<not> json_space CHR ''}''" "\<not> json_space CHR ''[''" "\<not> json_space CHR '']''" "\<not> json_space CHR '',''"
  "\<not> json_space CHR '':''" "\<not> json_space CHR 0x22" "\<not> json_space CHR ''t''" "\<not> json_space CHR ''f''" "\<not> json_space CHR ''n''"
  "\<not> json_space CHR ''-''"
  by (simp_all add: json_space_def)

lemma digit_not_space: "is_digit c \<Longrightarrow> \<not> json_space c"
  by (auto simp: is_digit_def json_space_def)

lemma stops_punct [simp]: "stops (CHR '','' # t)" "stops (CHR '']'' # t)" "stops (CHR ''}'' # t)" "stops []"
  by (simp_all add: stops_def is_digit_def)

lemma parse_string: "utf8_valid s \<Longrightarrow> parse_value d (json_string s @ rest) = Some (JStr s, rest)"
  by (subst parse_value.simps) (simp add: json_string_def not_space scan_escape)

lemma json_literal_number:
  assumes "json_number n" "stops rest"
  shows "json_literal (n @ rest) = Some (JNum n, rest)"
proof -
  obtain c cs where c: "n = c # cs" "is_digit c \<or> c = CHR ''-''" using json_number_head[OF assms(1)] by blast
  then have "\<not> HasPrefix (n @ rest) ''true''" "\<not> HasPrefix (n @ rest) ''false''" "\<not> HasPrefix (n @ rest) ''null''"
    by (auto simp: HasPrefix_def is_digit_def)
  then show ?thesis using scan_number_append[OF assms] by (simp add: json_literal_def)
qed

lemma parse_number:
  assumes "json_number n" "stops rest"
  shows "parse_value d (n @ rest) = Some (JNum n, rest)"
proof -
  obtain c cs where c: "n = c # cs" "is_digit c \<or> c = CHR ''-''" using json_number_head[OF assms(1)] by blast
  then have k: "\<not> json_space c" "c \<noteq> CHR ''{''" "c \<noteq> CHR ''[''" "c \<noteq> CHR 0x22"
    using digit_not_space[of c] by (auto simp: is_digit_def json_space_def)
  have "parse_value d (n @ rest) = json_literal (n @ rest)"
    using k c(1) by (subst parse_value.simps) simp
  then show ?thesis using json_literal_number[OF assms] by simp
qed

lemma parse_words:
  "parse_value d (''null'' @ rest) = Some (JNull, rest)" "parse_value d (''true'' @ rest) = Some (JBool True, rest)"
  "parse_value d (''false'' @ rest) = Some (JBool False, rest)"
  by (subst parse_value.simps, simp add: not_space json_literal_def HasPrefix_def)+

lemma parse_elements_print:
  assumes "vs \<noteq> []" "\<And>v rest. v \<in> set vs \<Longrightarrow> stops rest \<Longrightarrow> parse_value d (json_print v @ rest) = Some (v, rest)"
  shows "parse_elements d (comma_join (map json_print vs) @ CHR '']'' # rest) = Some (vs, rest)"
  using assms
proof (induction vs)
  case (Cons v vs)
  show ?case
  proof (cases vs)
    case Nil
    then show ?thesis using Cons.prems(2)[of v "CHR '']'' # rest"]
      by (subst parse_elements.simps) (simp add: not_space)
  next
    case (Cons u us)
    let ?t = "comma_join (map json_print vs) @ CHR '']'' # rest"
    have s: "comma_join (map json_print (v # vs)) @ CHR '']'' # rest = json_print v @ CHR '','' # ?t"
      using Cons by simp
    have v: "parse_value d (json_print v @ CHR '','' # ?t) = Some (v, CHR '','' # ?t)"
      using Cons.prems(2)[of v "CHR '','' # ?t"] by simp
    have "parse_elements d ?t = Some (vs, rest)" using Cons.IH Cons.prems(2) Cons by simp
    then show ?thesis unfolding s using v by (subst parse_elements.simps) (simp add: not_space)
  qed
qed simp

abbreviation print_member :: "string \<times> json \<Rightarrow> string" where
  "print_member m \<equiv> (case m of (k, v) \<Rightarrow> json_string k @ CHR '':'' # json_print v)"

lemma parse_member_head:
  assumes "utf8_valid k" "parse_value d (json_print v @ t) = Some (v, t)" "skip_ws t = e # es" "e \<noteq> CHR '','' \<or> length es < length (json_print v @ t)"
  shows "parse_members d (print_member (k, v) @ t) =
     (if e = CHR ''}'' then Some ([(k, v)], es)
      else if e = CHR '','' then map_option (\<lambda>(ms, r). ((k, v) # ms, r)) (parse_members d es) else None)"
  using assms by (subst parse_members.simps) (auto simp: json_string_def not_space scan_escape)

lemma parse_members_print:
  assumes "ms \<noteq> []" "\<And>k v. (k, v) \<in> set ms \<Longrightarrow> utf8_valid k"
    and "\<And>k v rest. (k, v) \<in> set ms \<Longrightarrow> stops rest \<Longrightarrow> parse_value d (json_print v @ rest) = Some (v, rest)"
  shows "parse_members d (comma_join (map print_member ms) @ CHR ''}'' # rest) = Some (ms, rest)"
  using assms
proof (induction ms)
  case (Cons m ms)
  obtain k v where m: "m = (k, v)" by fastforce
  show ?case
  proof (cases ms)
    case Nil
    then show ?thesis using Cons.prems m parse_member_head[of k d v "CHR ''}'' # rest" "CHR ''}''" rest]
      by (simp add: not_space)
  next
    case (Cons u us)
    let ?t = "comma_join (map print_member ms) @ CHR ''}'' # rest"
    have s: "comma_join (map print_member (m # ms)) @ CHR ''}'' # rest = print_member (k, v) @ CHR '','' # ?t"
      using Cons m by (cases u) simp
    have "parse_value d (json_print v @ CHR '','' # ?t) = Some (v, CHR '','' # ?t)"
      using Cons.prems(3)[of k v "CHR '','' # ?t"] m by simp
    moreover have "utf8_valid k" using Cons.prems(2)[of k v] m by simp
    moreover have "parse_members d ?t = Some (ms, rest)"
    proof (rule Cons.IH)
      show "ms \<noteq> []" using Cons by simp
      show "utf8_valid k'" if "(k', v') \<in> set ms" for k' v' using Cons.prems(2)[of k' v'] that by simp
      show "parse_value d (json_print v' @ t) = Some (v', t)" if "(k', v') \<in> set ms" "stops t" for k' v' t
        using Cons.prems(3)[of k' v' t] that by simp
    qed
    ultimately show ?thesis unfolding s
      using parse_member_head[of k d v "CHR '','' # ?t" "CHR '',''" ?t] m by (simp add: not_space)
  qed
qed simp

lemma comma_join_head: "xs \<noteq> [] \<Longrightarrow> \<exists>t. comma_join xs = hd xs @ t"
  by (cases xs rule: comma_join.cases) auto

lemma print_head: "wf_json d v \<Longrightarrow> \<exists>c cs. json_print v = c # cs \<and> \<not> json_space c \<and> c \<noteq> CHR '']''"
proof (cases v)
  case (JNum n)
  assume "wf_json d v"
  then obtain c cs where "n = c # cs" "is_digit c \<or> c = CHR ''-''" using JNum json_number_head[of n] by auto
  then show ?thesis using JNum digit_not_space[of c] by (auto simp: not_space is_digit_def)
qed (auto simp: not_space json_string_def)

lemma parse_print: "wf_json d v \<Longrightarrow> stops rest \<Longrightarrow> parse_value d (json_print v @ rest) = Some (v, rest)"
proof (induction v arbitrary: d rest)
  case (JArr vs)
  then obtain e where e: "d = Suc e" "\<forall>v \<in> set vs. wf_json e v" by (cases d) auto
  show ?case
  proof (cases "vs = []")
    case True
    then show ?thesis using e(1) by (subst parse_value.simps) (simp add: not_space HasPrefix_def)
  next
    case False
    have p: "parse_elements e (comma_join (map json_print vs) @ CHR '']'' # rest) = Some (vs, rest)"
      using parse_elements_print[OF False] JArr.IH e(2) by simp
    obtain t c cs where h: "comma_join (map json_print vs) = (c # cs) @ t" "\<not> json_space c" "c \<noteq> CHR '']''"
      using comma_join_head[of "map json_print vs"] print_head[of e "hd vs"] False e(2) by (auto simp: hd_map)
    show ?thesis using p h e(1) by (subst parse_value.simps) (simp add: not_space HasPrefix_def)
  qed
next
  case (JObj ms)
  then obtain e where e: "d = Suc e" "\<forall>m \<in> set ms. utf8_valid (fst m) \<and> wf_json e (snd m)" by (cases d) auto
  show ?case
  proof (cases "ms = []")
    case True
    then show ?thesis using e(1) by (subst parse_value.simps) (simp add: not_space HasPrefix_def)
  next
    case False
    have p: "parse_members e (comma_join (map print_member ms) @ CHR ''}'' # rest) = Some (ms, rest)"
      by (rule parse_members_print[OF False]) (use JObj.IH e(2) in fastforce)+
    obtain t where h: "comma_join (map print_member ms) = CHR 0x22 # t"
      using comma_join_head[of "map print_member ms"] False by (cases "hd ms") (auto simp: hd_map json_string_def)
    show ?thesis using p h e(1) by (subst parse_value.simps) (simp add: not_space HasPrefix_def)
  qed
qed (simp_all add: parse_words[simplified] parse_number parse_string)

text \<open>The round trip of a document, also with the newline that \<^verbatim>\<open>Encode\<close> adds.\<close>

lemma json_parse_print:
  assumes "wf_json max_depth v" "list_all json_space ws"
  shows "json_parse (json_print v @ ws) = Some v"
proof -
  have "stops ws" using assms(2) by (cases ws) (auto simp: stops_def json_space_def is_digit_def)
  moreover have "skip_ws ws = []" using assms(2) by (simp add: skip_ws_def list_all_iff)
  ultimately show ?thesis using parse_print[OF assms(1)] by (simp add: json_parse_def)
qed

section \<open>Printed values are clean lines\<close>

text \<open>Valid UTF-8 without control characters: in particular without a newline.\<close>

lemma utf8_valid_step: "utf8_decode1 s = Some (r, w) \<Longrightarrow> utf8_valid s = utf8_valid (drop w s)"
  using utf8_decode1_width[of s r w] by (subst utf8_valid.simps) auto

lemma utf8_valid_Nil [simp]: "utf8_valid []"
  by (simp add: utf8_valid.simps)

lemma utf8_valid_append: "utf8_valid s \<Longrightarrow> utf8_valid t \<Longrightarrow> utf8_valid (s @ t)"
proof (induction s rule: utf8_valid.induct)
  case (1 s)
  show ?case
  proof (cases "s = []")
    case False
    then obtain r w where d: "utf8_decode1 s = Some (r, w)" "utf8_valid (drop w s)"
      using "1.prems"(1) by (subst (asm) utf8_valid.simps) (auto split: option.splits)
    have w: "w \<le> length s" using utf8_decode1_width[OF d(1)] by simp
    have "utf8_valid (drop w s @ t)" using "1.IH"[OF False d(1) refl] d(2) "1.prems"(2) by simp
    moreover have "utf8_decode1 (s @ t) = Some (r, w)" using utf8_decode1_local[OF d(1), of "drop w s @ t"] by (simp flip: append_assoc)
    ultimately show ?thesis using utf8_valid_step[of "s @ t" r w] w by simp
  qed (use "1.prems" in simp)
qed

definition clean :: "string \<Rightarrow> bool" where
  "clean s \<longleftrightarrow> utf8_valid s \<and> (\<forall>c \<in> set s. 0x20 \<le> byte_of c)"

definition printable :: "char \<Rightarrow> bool" where
  "printable c \<longleftrightarrow> 0x20 \<le> byte_of c \<and> byte_of c < 0x80"

lemma clean_append: "clean s \<Longrightarrow> clean t \<Longrightarrow> clean (s @ t)"
  by (auto simp: clean_def utf8_valid_append)

lemma clean_Nil [simp]: "clean []"
  by (simp add: clean_def)

lemma clean_Cons: "printable c \<Longrightarrow> clean t \<Longrightarrow> clean (c # t)"
  using utf8_valid_step[of "c # t" "byte_of c" 1] by (auto simp: clean_def printable_def utf8_decode1_def Let_def)

lemma clean_printable: "\<forall>c \<in> set s. printable c \<Longrightarrow> clean s"
  by (induction s) (auto intro: clean_Cons)

lemma clean_no_newline: "clean s \<Longrightarrow> CHR 0x0A \<notin> set s \<and> CHR 0x0D \<notin> set s"
  by (force simp: clean_def)

lemma digit_printable: "is_digit c \<Longrightarrow> printable c"
  by (simp add: is_digit_def printable_def)

lemma printable_punctuation:
  "printable CHR ''-''" "printable CHR ''+''" "printable CHR ''.''" "printable CHR ''e''" "printable CHR ''E''" "printable CHR ''0''"
  "printable CHR ''{''" "printable CHR ''}''" "printable CHR ''[''" "printable CHR '']''" "printable CHR '',''" "printable CHR '':''"
  "printable CHR 0x22" "printable CHR 0x5C" "printable CHR ''u''"
  by (simp_all add: printable_def)

lemma digits_printable: "c \<in> set (takeWhile is_digit s) \<Longrightarrow> printable c"
  by (auto dest: set_takeWhileD intro: digit_printable)

lemma num_int_printable: "num_int s = Some (p, r) \<Longrightarrow> c \<in> set p \<Longrightarrow> printable c"
  by (cases s rule: num_int.cases) (metis (no_types, lifting) num_int.simps digits_printable list.set_cases list.distinct(1) option.inject option.distinct(1) prod.inject printable_punctuation(6) empty_iff set_ConsD list.set(1))+

lemma num_frac_printable: "num_frac s = Some (p, r) \<Longrightarrow> c \<in> set p \<Longrightarrow> printable c"
  using digits_printable[of c] by (cases s) (force simp: printable_punctuation split: if_splits)+

lemma num_exp_printable: "num_exp s = Some (p, r) \<Longrightarrow> c \<in> set p \<Longrightarrow> printable c"
proof (cases s)
  case (Cons a as)
  assume n: "num_exp s = Some (p, r)" "c \<in> set p"
  obtain sg ds where sg: "exp_sign as = (sg, ds)" by fastforce
  then have "\<forall>x \<in> set sg. printable x" by (cases as) (auto simp: printable_punctuation split: if_splits)
  then show ?thesis using n Cons sg digits_printable[of c ds] by (auto simp: printable_punctuation split: if_splits)
qed simp

lemma num_sign_printable: "num_sign s = (p, r) \<Longrightarrow> c \<in> set p \<Longrightarrow> printable c"
  by (cases s) (auto simp: printable_punctuation split: if_splits)

lemma json_number_printable: "json_number n \<Longrightarrow> \<forall>c \<in> set n. printable c"
proof -
  assume a: "json_number n"
  obtain sg s1 where sg: "num_sign n = (sg, s1)" by fastforce
  obtain ip s2 fp s3 ep where n: "num_int s1 = Some (ip, s2)" "num_frac s2 = Some (fp, s3)" "num_exp s3 = Some (ep, [])"
      "n = sg @ ip @ fp @ ep"
    using a sg by (auto simp: json_number_def scan_number_def bind_eq_Some_conv)
  show ?thesis unfolding n(4) set_append Un_iff ball_Un
    using num_sign_printable[OF sg] num_int_printable[OF n(1)] num_frac_printable[OF n(2)] num_exp_printable[OF n(3)] by blast
qed

lemma hex_digit_printable: "n < 16 \<Longrightarrow> printable (hex_digit n)"
  by (auto simp: hex_digit_def printable_def)

lemma escape_ascii_clean: "byte_of c < 0x80 \<Longrightarrow> clean (escape_ascii c)"
proof (rule clean_printable)
  assume c: "byte_of c < 0x80"
  then have h: "printable (hex_digit (byte_of c div 16))" "printable (hex_digit (byte_of c mod 16))"
    by (auto intro!: hex_digit_printable)
  show "\<forall>x \<in> set (escape_ascii c). printable x"
    using c h by (simp add: escape_ascii_def printable_punctuation) (simp add: printable_def)
qed

lemma decode1_clean:
  assumes "utf8_decode1 s = Some (r, w)" "0x80 \<le> byte_of (hd s)"
  shows "clean (take w s)"
proof -
  have "utf8_decode1 (take w s) = Some (r, w)" using utf8_decode1_local[OF assms(1), of "[]"] by simp
  then have "utf8_valid (take w s)" using utf8_valid_step[of "take w s" r w] by simp
  moreover have "\<forall>c \<in> set (take w s). 0x20 \<le> byte_of c"
    using assms by (cases rule: utf8_decode1_cases) (auto split: if_splits)
  ultimately show ?thesis by (simp add: clean_def)
qed

lemma escape_clean: "clean (escape s)"
proof (induction s rule: escape.induct)
  case (2 c cs)
  have u: "clean ([CHR 0x5C] @ ''ufffd'')" "clean ([CHR 0x5C] @ ''u2028'')" "clean ([CHR 0x5C] @ ''u2029'')"
    by (auto intro!: clean_printable simp: printable_def)
  show ?case
  proof (cases "byte_of c < 0x80")
    case True
    then show ?thesis using 2(1) by (subst escape.simps) (simp add: clean_append escape_ascii_clean)
  next
    case False
    show ?thesis
    proof (cases "utf8_decode1 (c # cs)")
      case None
      then show ?thesis using False 2(2) u(1) clean_append[OF u(1)] by (subst escape.simps) simp
    next
      case (Some rw)
      obtain r w where rw: "utf8_decode1 (c # cs) = Some (r, w)" using Some by (cases rw) simp
      have "clean (escape (drop w (c # cs)))" using 2(3) False rw by simp
      have "clean (take w (c # cs))" using decode1_clean[OF rw] False by simp
      then show ?thesis using False rw u clean_append[OF _ \<open>clean (escape (drop w (c # cs)))\<close>] by (subst escape.simps) simp
    qed
  qed
qed simp

lemma json_string_clean: "clean (json_string s)"
  unfolding json_string_def by (intro clean_append escape_clean clean_printable) (simp_all add: printable_punctuation)

lemma comma_join_clean: "\<forall>x \<in> set xs. clean x \<Longrightarrow> clean (comma_join xs)"
  by (induction xs rule: comma_join.induct) (auto intro!: clean_append clean_Cons simp: printable_punctuation)

lemma json_print_clean: "wf_json d v \<Longrightarrow> clean (json_print v)"
proof (induction v arbitrary: d)
  case (JNum n)
  then show ?case by (simp add: clean_printable json_number_printable)
next
  case (JArr vs)
  then have "\<forall>x \<in> set (map json_print vs). clean x" by fastforce
  then show ?case by (auto intro!: clean_Cons clean_append comma_join_clean simp: printable_punctuation)
next
  case (JObj ms)
  have "clean (json_print v)" if "(k, v) \<in> set ms" for k v
    using JObj.IH[of "(k, v)" v "d - 1"] JObj.prems that by fastforce
  then have "\<forall>x \<in> set (map (\<lambda>(k, v). json_string k @ CHR '':'' # json_print v) ms). clean x"
    by (auto intro!: clean_append clean_Cons simp: printable_punctuation json_string_clean)
  then have "clean (comma_join (map (\<lambda>(k, v). json_string k @ CHR '':'' # json_print v) ms))" by (rule comma_join_clean)
  then show ?case by (auto intro!: clean_Cons clean_append simp: printable_punctuation)
qed (auto intro!: clean_printable simp: printable_def json_string_clean)

end
