(* ===== verification/Go_Format.thy ===== *)
theory Go_Format
  imports Go_Json_Print
begin

text \<open>
  \<^verbatim>\<open>strconv\<close> on floating-point numbers: parsing of the number literals of JSON, and the shortest decimal
  that reads back as the same number, as \<^verbatim>\<open>FormatFloat\<close> with precision -1 and \<^verbatim>\<open>json.Marshal\<close> print it.
\<close>

section \<open>Parsing\<close>

definition exp_val :: "string \<Rightarrow> int" where
  "exp_val ep = (case ep of [] \<Rightarrow> 0 | _ # cs \<Rightarrow>
     (let (sg, ds) = exp_sign cs in if sg = ''-'' then - int (dec_val ds) else int (dec_val ds)))"

text \<open>The exact value of a literal, then one rounding; an infinite result is a range error.\<close>

definition literal_rat :: "string \<Rightarrow> string \<Rightarrow> string \<Rightarrow> rat" where
  "literal_rat ip fp ep = of_nat (dec_val (ip @ tl fp)) * 10 powi (exp_val ep - int (length (tl fp)))"

definition ParseFloat :: "string \<Rightarrow> float64 option" where
  "ParseFloat n =
     (let (sg, s1) = num_sign n in
      Option.bind (num_int s1) (\<lambda>(ip, s2).
      Option.bind (num_frac s2) (\<lambda>(fp, s3).
      Option.bind (num_exp s3) (\<lambda>(ep, s4).
        let q = literal_rat ip fp ep; x = f64_of_rat (sg \<noteq> []) (if sg \<noteq> [] then - q else q)
        in if s4 \<noteq> [] \<or> IsInf x then None else Some x))))"

section \<open>The shortest decimal\<close>

text \<open>A decimal \<open>(m, k)\<close> stands for \<open>m * 10 ^ k\<close>.\<close>

definition floor_log10 :: "rat \<Rightarrow> int" where
  "floor_log10 q =
     (let (a, b) = quotient_of q; l = int (length (nat_digits (nat a))) - int (length (nat_digits (nat b)))
      in if q < 10 powi l then l - 1 else l)"

definition dec_rat :: "nat \<times> int \<Rightarrow> rat" where
  "dec_rat d = of_nat (fst d) * 10 powi snd d"

text \<open>
  The decimal with \<open>n\<close> digits that rounds to \<open>q\<close> and is closest to it, on a tie the even one: one of the
  two neighbours of \<open>q\<close>, if there is any.
\<close>

definition with_digits :: "rat \<Rightarrow> nat \<Rightarrow> (nat \<times> int) option" where
  "with_digits q n =
     (let k = floor_log10 q - int n + 1; lo = nat \<lfloor>q / 10 powi k\<rfloor>; fr = q / 10 powi k - of_nat lo;
          back = (\<lambda>m. round_rat (dec_rat (m, k)) = q)
      in if back lo \<and> (\<not> back (lo + 1) \<or> fr < 1 / 2 \<or> fr = 1 / 2 \<and> even lo) then Some (lo, k)
         else if back (lo + 1) then Some (lo + 1, k) else None)"

fun first_some :: "('a \<Rightarrow> 'b option) \<Rightarrow> 'a list \<Rightarrow> 'b option" where
  "first_some f [] = None"
| "first_some f (x # xs) = (case f x of Some y \<Rightarrow> Some y | None \<Rightarrow> first_some f xs)"

definition exact_places :: nat where "exact_places = 1074"

text \<open>Seventeen digits are always enough; the exact decimal stands behind them.\<close>

definition shortest :: "rat \<Rightarrow> nat \<times> int" where
  "shortest q = (case first_some (with_digits q) [1..<18] of
      Some d \<Rightarrow> d
    | None \<Rightarrow> (nat \<lfloor>q * 10 ^ exact_places\<rfloor>, - int exact_places))"

text \<open>The digits without trailing zeros, and the position of the decimal point relative to the first one.\<close>

definition strip_zeros :: "string \<Rightarrow> string" where
  "strip_zeros ds = rev (dropWhile (\<lambda>c. c = CHR ''0'') (rev ds))"

definition digits_of :: "nat \<times> int \<Rightarrow> string \<times> int" where
  "digits_of d = (strip_zeros (nat_digits (fst d)), int (length (nat_digits (fst d))) + snd d)"

section \<open>Formatting\<close>

definition fmt_f :: "string \<Rightarrow> int \<Rightarrow> string" where
  "fmt_f ds dp =
     (if dp \<le> 0 then ''0.'' @ replicate (nat (- dp)) CHR ''0'' @ ds
      else if nat dp < length ds then take (nat dp) ds @ CHR ''.'' # drop (nat dp) ds
      else ds @ replicate (nat dp - length ds) CHR ''0'')"

definition fmt_e :: "bool \<Rightarrow> string \<Rightarrow> int \<Rightarrow> string" where
  "fmt_e pad ds dp =
     (let e = nat \<bar>dp - 1\<bar>; es = nat_digits e
      in take 1 ds @ (if length ds = 1 then [] else CHR ''.'' # drop 1 ds) @ CHR ''e''
         # (if dp - 1 < 0 then CHR ''-'' else CHR ''+'') # (if pad \<and> e < 10 then CHR ''0'' # es else es))"

text \<open>The number encoder of \<^verbatim>\<open>encoding/json\<close>: \<^verbatim>\<open>%f\<close>, or \<^verbatim>\<open>%e\<close> without the padding of the exponent.\<close>

definition format_magnitude :: "rat \<Rightarrow> string" where
  "format_magnitude q =
     (let (ds, dp) = digits_of (shortest q)
      in if q < 1 / 10 ^ 6 \<or> 10 ^ 21 \<le> q then fmt_e False ds dp else fmt_f ds dp)"

definition json_float :: "float64 \<Rightarrow> string option" where
  "json_float x = (case x of
      Fin q \<Rightarrow> Some (if q = 0 then ''0'' else if q < 0 then CHR ''-'' # format_magnitude (- q) else format_magnitude q)
    | NegZero \<Rightarrow> Some ''-0''
    | _ \<Rightarrow> None)"

text \<open>\<^verbatim>\<open>FormatFloat(x, 'g', -1, 64)\<close>: \<^verbatim>\<open>%e\<close> when the exponent is below -4 or above 5.\<close>

definition g_magnitude :: "rat \<Rightarrow> string" where
  "g_magnitude q =
     (let (ds, dp) = digits_of (shortest q)
      in if dp - 1 < - 4 \<or> 6 \<le> dp - 1 then fmt_e True ds dp else fmt_f ds dp)"

definition FormatFloat_g :: "float64 \<Rightarrow> string" where
  "FormatFloat_g x = (case x of
      Fin q \<Rightarrow> (if q = 0 then ''0'' else if q < 0 then CHR ''-'' # g_magnitude (- q) else g_magnitude q)
    | NegZero \<Rightarrow> ''-0'' | NaN \<Rightarrow> ''NaN'' | PosInf \<Rightarrow> ''+Inf'' | NegInf \<Rightarrow> ''-Inf'')"

section \<open>The shortest decimal reads back\<close>

lemma first_some_Some: "first_some f xs = Some y \<Longrightarrow> \<exists>x. f x = Some y"
  by (induction xs) (auto split: option.splits)

lemma exact_decimal_at:
  assumes "q = of_int m * 2 powi e" "- int n \<le> e" "0 < q"
  shows "dec_rat (nat \<lfloor>q * 10 ^ n\<rfloor>, - int n) = q"
proof -
  have "(2::rat) powi e * 2 ^ n = 2 powi (e + int n)" using power_int_add[of "2::rat" e "int n"] by simp
  moreover have "(10::rat) ^ n = 2 ^ n * 5 ^ n" by (simp flip: power_mult_distrib)
  ultimately have "(2::rat) powi e * 10 ^ n = 2 powi (e + int n) * 5 ^ n" by (metis mult.assoc)
  also have "\<dots> = of_int (2 ^ nat (e + int n) * 5 ^ n)" using assms(2) by (simp add: power_int_def)
  finally have "q * 10 ^ n = of_int (m * (2 ^ nat (e + int n) * 5 ^ n))" unfolding assms(1) by (simp only: of_int_mult mult.assoc)
  then obtain z :: int where z: "q * 10 ^ n = of_int z" by blast
  have "0 < q * (10::rat) ^ n" using assms(3) by simp
  then have "0 < (of_int z :: rat)" unfolding z .
  then have "of_nat (nat \<lfloor>q * 10 ^ n\<rfloor>) = q * 10 ^ n" unfolding z by simp
  then show ?thesis by (simp add: dec_rat_def power_int_minus)
qed

lemma exact_decimal:
  assumes "representable q" "0 < q"
  shows "dec_rat (nat \<lfloor>q * 10 ^ exact_places\<rfloor>, - int exact_places) = q"
proof -
  obtain m e where "q = of_int m * 2 powi e" "- 1074 \<le> e" using assms(1) by (auto simp: representable_def)
  then show ?thesis using assms(2) by (intro exact_decimal_at) (simp_all add: exact_places_def)
qed

lemma with_digits_rounds:
  assumes "with_digits q n = Some d"
  shows "round_rat (dec_rat d) = q"
proof -
  define k where "k = floor_log10 q - int n + 1"
  define lo where "lo = nat \<lfloor>q / 10 powi k\<rfloor>"
  define fr where "fr = q / 10 powi k - of_nat lo"
  have w: "with_digits q n =
      (if round_rat (dec_rat (lo, k)) = q \<and> (\<not> round_rat (dec_rat (lo + 1, k)) = q \<or> fr < 1 / 2 \<or> fr = 1 / 2 \<and> even lo) then Some (lo, k)
       else if round_rat (dec_rat (lo + 1, k)) = q then Some (lo + 1, k) else None)"
    unfolding with_digits_def Let_def k_def[symmetric] lo_def[symmetric] fr_def[symmetric] ..
  show ?thesis
  proof (cases "d = (lo, k)")
    case True
    then show ?thesis using assms unfolding w by (metis add_cancel_right_right fst_conv option.inject option.distinct(1) zero_neq_one)
  next
    case False
    then show ?thesis using assms unfolding w by (metis option.inject option.distinct(1))
  qed
qed

lemma shortest_rounds:
  assumes "representable q" "0 < q"
  shows "round_rat (dec_rat (shortest q)) = q"
proof (cases "first_some (with_digits q) [1..<18]")
  case None
  then show ?thesis using exact_decimal[OF assms] round_rat_exact[OF assms(1)] by (simp only: shortest_def option.case)
next
  case (Some d)
  from first_some_Some[OF Some] obtain n where "with_digits q n = Some d" ..
  then have "round_rat (dec_rat d) = q" by (rule with_digits_rounds)
  then show ?thesis unfolding shortest_def Some option.case .
qed

lemma dec_rat_pos:
  assumes "round_rat (dec_rat d) = q" "0 < q"
  shows "0 < fst d"
  using assms by (cases "fst d") (auto simp: dec_rat_def)

section \<open>Digits\<close>

lemma dec_val_append: "dec_val (xs @ ys) = dec_val xs * 10 ^ length ys + dec_val ys"
proof (induction ys rule: rev_induct)
  case (snoc y ys)
  then show ?case using dec_val_snoc[of "xs @ ys" y] dec_val_snoc[of ys y] by (simp add: algebra_simps)
qed (simp add: dec_val_def)

lemma dec_val_zeros [simp]: "dec_val (replicate n CHR ''0'') = 0"
proof (induction n)
  case (Suc n)
  then show ?case using dec_val_snoc[of "replicate n CHR ''0''" "CHR ''0''"]
    by (simp add: replicate_append_same[symmetric] digit_val_def)
qed (simp add: dec_val_def)

lemma strip_zeros_split: "\<exists>j. ds = strip_zeros ds @ replicate j CHR ''0''"
proof -
  let ?t = "takeWhile (\<lambda>c. c = CHR ''0'') (rev ds)"
  have "rev ds = ?t @ dropWhile (\<lambda>c. c = CHR ''0'') (rev ds)" by simp
  then have "ds = strip_zeros ds @ rev ?t" by (metis rev_append rev_rev_ident strip_zeros_def)
  moreover have "?t = replicate (length ?t) CHR ''0''"
    by (metis (full_types) replicate_length_same set_takeWhileD)
  ultimately show ?thesis by (metis rev_replicate)
qed

lemma nat_digits_head: "0 < m \<Longrightarrow> hd (nat_digits m) \<noteq> CHR ''0''"
proof (induction m rule: nat_digits.induct)
  case (1 n)
  show ?case
  proof (cases "n < 10")
    case True
    then have "digit_val (digit_char n) = n" by (rule digit_char_props)
    then have "digit_char n \<noteq> CHR ''0''" using "1.prems" by (auto simp: digit_val_def)
    then show ?thesis using True by (subst nat_digits.simps) simp
  next
    case False
    then show ?thesis using "1.IH" by (subst nat_digits.simps) simp
  qed
qed

text \<open>Digits that can be printed: not empty, no leading zero.\<close>

definition wf_digits :: "string \<Rightarrow> bool" where
  "wf_digits ds \<longleftrightarrow> ds \<noteq> [] \<and> list_all is_digit ds \<and> hd ds \<noteq> CHR ''0''"

lemma digits_of_sound:
  assumes "digits_of d = (ds, dp)" "0 < fst d"
  shows "wf_digits ds" "dec_rat d = of_nat (dec_val ds) * 10 powi (dp - int (length ds))"
proof -
  let ?m = "nat_digits (fst d)"
  obtain j where j: "?m = strip_zeros ?m @ replicate j CHR ''0''" using strip_zeros_split by blast
  have ds: "ds = strip_zeros ?m" "dp = int (length ?m) + snd d" using assms(1) by (auto simp: digits_of_def)
  have ne: "ds \<noteq> []"
  proof
    assume "ds = []"
    then have "?m = replicate j CHR ''0''" using j ds by simp
    then have "dec_val ?m = 0" by (metis dec_val_zeros)
    then show False using assms(2) by simp
  qed
  have "hd ds = hd ?m" using ne j ds by (metis hd_append)
  moreover have "list_all is_digit ds" using nat_digits_all[of "fst d"] j ds by (metis list_all_append)
  ultimately show "wf_digits ds" using ne nat_digits_head[OF assms(2)] by (simp add: wf_digits_def)
  have "fst d = dec_val ds * 10 ^ j" using arg_cong[OF j, of dec_val] unfolding ds(1)[symmetric] by (simp add: dec_val_append)
  moreover have "int (length ?m) = int (length ds) + int j" using arg_cong[OF j, of length] ds by simp
  ultimately show "dec_rat d = of_nat (dec_val ds) * 10 powi (dp - int (length ds))"
    using ds(2) by (simp add: dec_rat_def power_int_add)
qed

section \<open>Literals of a known shape\<close>

definition int_part :: "string \<Rightarrow> bool" where
  "int_part ip \<longleftrightarrow> ip = ''0'' \<or> wf_digits ip"

definition frac_part :: "string \<Rightarrow> bool" where
  "frac_part fp \<longleftrightarrow> fp = [] \<or> (\<exists>f. fp = CHR ''.'' # f \<and> f \<noteq> [] \<and> list_all is_digit f)"

definition exp_part :: "string \<Rightarrow> bool" where
  "exp_part ep \<longleftrightarrow> ep = [] \<or> (\<exists>sg x. ep = CHR ''e'' # sg # x \<and> sg \<in> {CHR ''+'', CHR ''-''} \<and> x \<noteq> [] \<and> list_all is_digit x)"

lemma digits_all: "list_all is_digit ds \<Longrightarrow> t = [] \<or> \<not> is_digit (hd t) \<Longrightarrow> takeWhile is_digit (ds @ t) = ds \<and> dropWhile is_digit (ds @ t) = t"
  using takeWhile_append_stop[of ds is_digit t] by (simp add: list_all_iff)

lemma not_digits: "\<not> is_digit CHR ''.''" "\<not> is_digit CHR ''e''" "\<not> is_digit CHR ''-''" "\<not> is_digit CHR ''+''"
  by (simp_all add: is_digit_def)

lemma num_exp_part: "exp_part ep \<Longrightarrow> num_exp ep = Some (ep, [])"
proof (cases "ep = []")
  case False
  assume "exp_part ep"
  with False obtain sg x where x: "ep = CHR ''e'' # sg # x" "sg \<in> {CHR ''+'', CHR ''-''}" "x \<noteq> []" "list_all is_digit x"
    by (auto simp: exp_part_def)
  have "takeWhile is_digit (x @ []) = x" "dropWhile is_digit (x @ []) = []" using digits_all[OF x(4), of "[]"] by blast+
  then have t: "takeWhile is_digit x = x" "dropWhile is_digit x = []" unfolding append_Nil2 .
  have "exp_sign (sg # x) = ([sg], x)" using x(2) by auto
  then show ?thesis using x(3) by (simp add: x(1) t del: takeWhile_eq_all_conv dropWhile_eq_Nil_conv)
qed simp

lemma num_frac_part: "frac_part fp \<Longrightarrow> exp_part ep \<Longrightarrow> num_frac (fp @ ep) = Some (fp, ep)"
proof -
  assume a: "frac_part fp" "exp_part ep"
  have e: "ep = [] \<or> \<not> is_digit (hd ep)" "ep = [] \<or> hd ep \<noteq> CHR ''.''" using a(2) by (auto simp: exp_part_def not_digits)
  show ?thesis
  proof (cases "fp = []")
    case True
    then show ?thesis using e(2) by (cases ep) auto
  next
    case False
    then obtain f where f: "fp = CHR ''.'' # f" "f \<noteq> []" "list_all is_digit f" using a(1) by (auto simp: frac_part_def)
    then show ?thesis using digits_all[OF f(3) e(1)] by simp
  qed
qed

lemma num_int_part:
  assumes "int_part ip" "frac_part fp" "exp_part ep"
  shows "num_int (ip @ fp @ ep) = Some (ip, fp @ ep)"
proof -
  have t: "fp @ ep = [] \<or> \<not> is_digit (hd (fp @ ep))"
    using assms(2,3) by (auto simp: frac_part_def exp_part_def not_digits)
  show ?thesis
  proof (cases "ip = ''0''")
    case False
    then obtain c cs where c: "ip = c # cs" "c \<noteq> CHR ''0''" "is_digit c" "list_all is_digit ip"
      using assms(1) by (cases ip) (auto simp: int_part_def wf_digits_def)
    then show ?thesis using digits_all[OF c(4) t] by simp
  qed simp
qed

lemma parse_literal:
  assumes "int_part ip" "frac_part fp" "exp_part ep" "n = (if neg then ''-'' else []) @ ip @ fp @ ep"
  shows "json_number n"
    and "ParseFloat n = (let q = literal_rat ip fp ep; x = f64_of_rat neg (if neg then - q else q) in if IsInf x then None else Some x)"
proof -
  obtain c cs where c: "ip = c # cs" "is_digit c"
    using assms(1) by (cases ip) (auto simp: int_part_def wf_digits_def is_digit_def)
  then have sg: "num_sign n = (if neg then ''-'' else [], ip @ fp @ ep)" using assms(4) by (auto simp: is_digit_def)
  note parts = num_int_part[OF assms(1-3)] num_frac_part[OF assms(2,3)] num_exp_part[OF assms(3)]
  show "json_number n" using sg parts assms(4) by (simp add: json_number_def scan_number_def)
  show "ParseFloat n = (let q = literal_rat ip fp ep; x = f64_of_rat neg (if neg then - q else q) in if IsInf x then None else Some x)"
    using sg parts by (simp add: ParseFloat_def Let_def)
qed

section \<open>Printed floats read back\<close>

lemma powi_10_add: "(10::rat) powi (a + b) = 10 powi a * 10 powi b"
  by (simp add: power_int_add)

lemma fmt_f_literal:
  assumes ds: "wf_digits ds"
  obtains ip fp where "fmt_f ds dp = ip @ fp" "int_part ip" "frac_part fp"
    "literal_rat ip fp [] = of_nat (dec_val ds) * 10 powi (dp - int (length ds))"
proof (cases "dp \<le> 0")
  case True
  let ?z = "replicate (nat (- dp)) CHR ''0''"
  have "dec_val (''0'' @ ?z @ ds) = dec_val ds" using dec_val_append[of "''0'' @ ?z" ds] dec_val_zeros[of "Suc (nat (- dp))"] by simp
  then have "literal_rat ''0'' (CHR ''.'' # ?z @ ds) [] = of_nat (dec_val ds) * 10 powi (dp - int (length ds))"
    using True by (simp add: literal_rat_def exp_val_def)
  moreover have "frac_part (CHR ''.'' # ?z @ ds)"
    using ds by (auto simp: frac_part_def wf_digits_def list_all_iff is_digit_def)
  ultimately show thesis using True that[of "''0''" "CHR ''.'' # ?z @ ds"] by (simp add: fmt_f_def int_part_def)
next
  case False
  show thesis
  proof (cases "nat dp < length ds")
    case True
    let ?i = "take (nat dp) ds" and ?f = "drop (nat dp) ds"
    have "list_all is_digit ?i" using ds by (auto simp: wf_digits_def list_all_iff dest: in_set_takeD)
    moreover have "hd ?i = hd ds" "?i \<noteq> []" using ds False by (auto simp: wf_digits_def hd_take)
    ultimately have "int_part ?i" using ds by (simp add: int_part_def wf_digits_def)
    moreover have "frac_part (CHR ''.'' # ?f)" using ds True by (auto simp: frac_part_def wf_digits_def list_all_iff dest: in_set_dropD)
    moreover have "literal_rat ?i (CHR ''.'' # ?f) [] = of_nat (dec_val ds) * 10 powi (dp - int (length ds))"
      using True False by (simp add: literal_rat_def exp_val_def of_nat_diff)
    ultimately show thesis using True False that[of ?i "CHR ''.'' # ?f"] by (simp add: fmt_f_def)
  next
    case long: False
    let ?i = "ds @ replicate (nat dp - length ds) CHR ''0''"
    have "int_part ?i" using ds by (auto simp: int_part_def wf_digits_def list_all_iff is_digit_def)
    moreover have "literal_rat ?i [] [] = of_nat (dec_val ds) * 10 powi (dp - int (length ds))"
      using long False by (simp add: literal_rat_def exp_val_def dec_val_append power_int_def nat_diff_distrib)
    ultimately show thesis using long False that[of ?i "[]"] by (simp add: fmt_f_def frac_part_def)
  qed
qed

lemma fmt_e_literal:
  assumes ds: "wf_digits ds"
  obtains ip fp ep where "fmt_e pad ds dp = ip @ fp @ ep" "int_part ip" "frac_part fp" "exp_part ep"
    "literal_rat ip fp ep = of_nat (dec_val ds) * 10 powi (dp - int (length ds))"
proof -
  obtain c cs where c: "ds = c # cs" using ds by (cases ds) (auto simp: wf_digits_def)
  let ?fp = "if cs = [] then [] else CHR ''.'' # cs"
  define x where "x = (if pad \<and> nat \<bar>dp - 1\<bar> < 10 then CHR ''0'' # nat_digits (nat \<bar>dp - 1\<bar>) else nat_digits (nat \<bar>dp - 1\<bar>))"
  let ?ep = "CHR ''e'' # (if dp - 1 < 0 then CHR ''-'' else CHR ''+'') # x"
  have x: "x \<noteq> []" "list_all is_digit x" "dec_val x = nat \<bar>dp - 1\<bar>"
    using nat_digits_all[of "nat \<bar>dp - 1\<bar>"] dec_val_append[of "''0''" "nat_digits (nat \<bar>dp - 1\<bar>)"] dec_val_zeros[of 1]
    by (auto simp: x_def is_digit_def)
  have "fmt_e pad ds dp = [c] @ ?fp @ ?ep" by (simp add: fmt_e_def Let_def c x_def)
  moreover have "int_part [c]" using ds c by (simp add: int_part_def wf_digits_def)
  moreover have "frac_part ?fp" using ds c by (auto simp: frac_part_def wf_digits_def)
  moreover have "exp_part ?ep" using x by (simp add: exp_part_def)
  moreover have "literal_rat [c] ?fp ?ep = of_nat (dec_val ds) * 10 powi (dp - int (length ds))"
    using x(3) by (simp add: literal_rat_def exp_val_def c diff_diff_eq)
  ultimately show thesis using that by blast
qed

lemma f64_of_round:
  assumes "round_rat q = r" "0 < r" "r < 2 ^ 1024"
  shows "f64_of_rat neg q = Fin r" "f64_of_rat neg (- q) = Fin (- r)"
  using assms by (auto simp: f64_of_rat_def Let_def round_rat_minus)

lemma magnitude_reads_back:
  assumes q: "representable q" "0 < q" "q < 2 ^ 1024"
    and n: "digits_of (shortest q) = (ds, dp)" "n = fmt_f ds dp \<or> n = fmt_e pad ds dp"
  shows "json_number n" "ParseFloat n = Some (Fin q)"
    and "json_number (CHR ''-'' # n)" "ParseFloat (CHR ''-'' # n) = Some (Fin (- q))"
proof -
  have r: "round_rat (dec_rat (shortest q)) = q" by (rule shortest_rounds[OF q(1,2)])
  note d = digits_of_sound[OF n(1) dec_rat_pos[OF r q(2)]]
  obtain ip fp ep where l: "n = ip @ fp @ ep" "int_part ip" "frac_part fp" "exp_part ep"
    "literal_rat ip fp ep = dec_rat (shortest q)"
    using n(2) fmt_f_literal[OF d(1), of dp] fmt_e_literal[OF d(1), of pad dp] d(2)
    by (metis append_Nil2 exp_part_def)
  note v = f64_of_round[OF r q(2,3)]
  show "json_number n" "ParseFloat n = Some (Fin q)"
    using parse_literal[OF l(2-4), of n False] l(1,5) v by (simp_all add: Let_def)
  show "json_number (CHR ''-'' # n)" "ParseFloat (CHR ''-'' # n) = Some (Fin (- q))"
    using parse_literal[OF l(2-4), of "CHR ''-'' # n" True] l(1,5) v by (simp_all add: Let_def)
qed

lemma json_float_reads_back:
  assumes "is_float64 x" "json_float x = Some n"
  shows "json_number n" "ParseFloat n = Some x"
proof -
  have zero: "json_number ''0'' \<and> ParseFloat ''0'' = Some (Fin 0)" "json_number ''-0'' \<and> ParseFloat ''-0'' = Some NegZero"
    using parse_literal[of "''0''" "[]" "[]" _ False] parse_literal[of "''0''" "[]" "[]" _ True]
    by (simp_all add: int_part_def frac_part_def exp_part_def literal_rat_def Let_def f64_of_rat_def dec_val_def digit_val_def)
  have fm: "format_magnitude q = fmt_f ds dp \<or> format_magnitude q = fmt_e False ds dp" if "digits_of (shortest q) = (ds, dp)" for q ds dp
    using that by (simp add: format_magnitude_def)
  have "json_number n \<and> ParseFloat n = Some x"
  proof (cases x)
    case (Fin q)
    then have q: "representable q" "\<bar>q\<bar> < 2 ^ 1024" using assms(1) by (simp_all only: is_float64.simps)
    consider "q = 0" | "0 < q" | "q < 0" by linarith
    then show ?thesis
    proof cases
      case 1 then show ?thesis using zero Fin assms(2) by (simp add: json_float_def)
    next
      case 2
      obtain ds dp where d: "digits_of (shortest q) = (ds, dp)" by fastforce
      show ?thesis using magnitude_reads_back(1,2)[OF q(1) 2 _ d fm[OF d]] 2 q(2) Fin assms(2) by (simp add: json_float_def)
    next
      case 3
      then have m: "representable (- q)" "0 < - q" using q by (simp_all add: representable_minus)
      obtain ds dp where d: "digits_of (shortest (- q)) = (ds, dp)" by fastforce
      show ?thesis using magnitude_reads_back(3,4)[OF m _ d fm[OF d]] 3 q(2) Fin assms(2) by (simp add: json_float_def)
    qed
  qed (use zero assms(2) in \<open>auto simp: json_float_def\<close>)
  then show "json_number n" "ParseFloat n = Some x" by simp_all
qed

lemma json_number_Itoa: "json_number (Itoa n)"
proof -
  have "int_part (nat_digits m)" for m
    using nat_digits_head[of m] nat_digits_all[of m] by (cases "m = 0") (auto simp: int_part_def wf_digits_def nat_digits.simps digit_char_def)
  then show ?thesis
    using parse_literal(1)[of "nat_digits (nat n)" "[]" "[]" "Itoa n" False] parse_literal(1)[of "nat_digits (nat (- n))" "[]" "[]" "Itoa n" True]
    by (auto simp: Itoa_def frac_part_def exp_part_def)
qed

lemma json_float_finite: "f64_finite x \<Longrightarrow> \<exists>n. json_float x = Some n"
  by (auto elim!: f64_finite_cases simp: json_float_def)

lemma ParseFloat_one: "ParseFloat ''1'' = Some (Fin 1)"
proof -
  have "round_rat 1 = 1" using round_rat_exact[OF representable_int[of 1]] by simp
  then have "f64_of_rat False 1 = Fin 1" by (simp add: f64_of_rat_def)
  then show ?thesis by (simp add: ParseFloat_def is_digit_def literal_rat_def dec_val_def digit_val_def exp_val_def)
qed

end
