(* ===== verification/Go_Json_Decode.thy ===== *)
theory Go_Json_Decode
  imports Go_Format
begin

text \<open>
  The two ways the program reads JSON: the token stream of \<^verbatim>\<open>json.Decoder\<close> over a byte slice, and the decoding
  of a parsed value into the fields of a struct (\<^verbatim>\<open>json.Unmarshal\<close>). The token stream is shown to accept
  an object exactly when the parser does.
\<close>

section \<open>The token stream\<close>

datatype tokenState = tokenTopValue | tokenArrayStart | tokenArrayValue | tokenArrayComma
  | tokenObjectStart | tokenObjectKey | tokenObjectColon | tokenObjectValue | tokenObjectComma

record decoder =
  buf :: string
  state :: tokenState
  stack :: "tokenState list"

datatype json_token = Delim char | TString string | TValue json

text \<open>The end of the input is kept apart from all other errors, because the callers test for it.\<close>

datatype json_error = JEOF | JSyntax | JType

definition NewDecoder :: "string \<Rightarrow> decoder" where
  "NewDecoder s = \<lparr>buf = s, state = tokenTopValue, stack = []\<rparr>"

definition tokenValueAllowed :: "tokenState \<Rightarrow> bool" where
  "tokenValueAllowed st \<longleftrightarrow> st \<in> {tokenTopValue, tokenArrayStart, tokenArrayValue, tokenObjectValue}"

definition tokenValueEnd :: "tokenState \<Rightarrow> tokenState" where
  "tokenValueEnd st = (if st = tokenArrayStart \<or> st = tokenArrayValue then tokenArrayComma
     else if st = tokenObjectValue then tokenObjectComma else st)"

text \<open>\<^verbatim>\<open>More\<close>: another element of the current array or object.\<close>

definition More :: "decoder \<Rightarrow> bool" where
  "More dec = (case skip_ws (buf dec) of [] \<Rightarrow> False | c # _ \<Rightarrow> c \<noteq> CHR '']'' \<and> c \<noteq> CHR ''}'')"

text \<open>\<^verbatim>\<open>readValue\<close> and \<^verbatim>\<open>tokenValueEnd\<close>: one complete value.\<close>

definition decode_here :: "decoder \<Rightarrow> (json_error, json \<times> decoder) outcome" where
  "decode_here dec =
     (if \<not> tokenValueAllowed (state dec) then Err JSyntax
      else case parse_value max_depth (buf dec) of
             None \<Rightarrow> Err (if skip_ws (buf dec) = [] then JEOF else JSyntax)
           | Some (v, r) \<Rightarrow> Ok (v, dec\<lparr>buf := r, state := tokenValueEnd (state dec)\<rparr>))"

text \<open>\<^verbatim>\<open>tokenPrepareForDecode\<close>: a pending comma or colon is consumed first.\<close>

definition prepare :: "decoder \<Rightarrow> (json_error, decoder) outcome" where
  "prepare dec =
     (let expect = (\<lambda>c st. case skip_ws (buf dec) of
          [] \<Rightarrow> Err JEOF
        | x # xs \<Rightarrow> if x \<noteq> c then Err JSyntax else Ok (dec\<lparr>buf := xs, state := st\<rparr>))
      in case state dec of
           tokenArrayComma \<Rightarrow> expect CHR '','' tokenArrayValue
         | tokenObjectColon \<Rightarrow> expect CHR '':'' tokenObjectValue
         | _ \<Rightarrow> Ok dec)"

definition Decode :: "decoder \<Rightarrow> (json_error, json \<times> decoder) outcome" where
  "Decode dec = obind (prepare dec) decode_here"

definition pop_state :: "decoder \<Rightarrow> tokenState \<times> tokenState list" where
  "pop_state dec = (case stack dec of [] \<Rightarrow> (tokenTopValue, []) | st # sts \<Rightarrow> (st, sts))"

definition close_bracket :: "decoder \<Rightarrow> char \<Rightarrow> string \<Rightarrow> (json_error, json_token \<times> decoder) outcome" where
  "close_bracket dec c rest =
     (let (st, sts) = pop_state dec in Ok (Delim c, dec\<lparr>buf := rest, state := tokenValueEnd st, stack := sts\<rparr>))"

definition open_bracket :: "decoder \<Rightarrow> char \<Rightarrow> string \<Rightarrow> tokenState \<Rightarrow> (json_error, json_token \<times> decoder) outcome" where
  "open_bracket dec c rest st =
     (if tokenValueAllowed (state dec)
      then Ok (Delim c, dec\<lparr>buf := rest, state := st, stack := state dec # stack dec\<rparr>) else Err JSyntax)"

text \<open>A value token: a string is kept as a string, other values as they are.\<close>

definition value_token :: "json \<Rightarrow> json_token" where
  "value_token v = (case v of JStr s \<Rightarrow> TString s | _ \<Rightarrow> TValue v)"

text \<open>A number decoded into \<^verbatim>\<open>any\<close> becomes a float, which fails out of range.\<close>

definition scalar_token :: "json \<Rightarrow> decoder \<Rightarrow> (json_error, json_token \<times> decoder) outcome" where
  "scalar_token v dec = (case v of
      JNum n \<Rightarrow> if ParseFloat n \<noteq> None then Ok (TValue v, dec) else Err JType
    | _ \<Rightarrow> Ok (value_token v, dec))"

function Token :: "decoder \<Rightarrow> (json_error, json_token \<times> decoder) outcome" where
  "Token dec = (case skip_ws (buf dec) of
      [] \<Rightarrow> Err JEOF
    | c # cs \<Rightarrow>
        if c = CHR ''['' then open_bracket dec c cs tokenArrayStart
        else if c = CHR '']'' then
          (if state dec = tokenArrayStart \<or> state dec = tokenArrayComma then close_bracket dec c cs else Err JSyntax)
        else if c = CHR ''{'' then open_bracket dec c cs tokenObjectStart
        else if c = CHR ''}'' then
          (if state dec = tokenObjectStart \<or> state dec = tokenObjectComma then close_bracket dec c cs else Err JSyntax)
        else if c = CHR '':'' then
          (if state dec = tokenObjectColon \<and> length cs < length (buf dec)
           then Token (dec\<lparr>buf := cs, state := tokenObjectValue\<rparr>) else Err JSyntax)
        else if c = CHR '','' then
          (if state dec = tokenArrayComma \<and> length cs < length (buf dec)
           then Token (dec\<lparr>buf := cs, state := tokenArrayValue\<rparr>)
           else if state dec = tokenObjectComma \<and> length cs < length (buf dec)
           then Token (dec\<lparr>buf := cs, state := tokenObjectKey\<rparr>) else Err JSyntax)
        else if c = CHR 0x22 \<and> (state dec = tokenObjectStart \<or> state dec = tokenObjectKey) then
          obind (decode_here (dec\<lparr>state := tokenTopValue\<rparr>)) (\<lambda>(v, dec').
            Ok (value_token v, dec'\<lparr>state := tokenObjectColon\<rparr>))
        else obind (decode_here dec) (\<lambda>(v, dec'). scalar_token v dec'))"
  by pat_completeness auto
termination
  by (relation "measure (length \<circ> buf)") auto

declare Token.simps [simp del]

section \<open>Struct fields\<close>

text \<open>
  A key selects the field of that name, or else the first one equal up to case. Folding maps a rune to
  the smallest one of its orbit; the only runes outside ASCII whose orbit has an ASCII letter are
  U+017F (long s) and U+212A (Kelvin sign), and the field names are ASCII.
\<close>

definition fold_rune :: "nat \<Rightarrow> nat" where
  "fold_rune r = (if r = 0x17F then 83 else if r = 0x212A then 75 else upper_ascii r)"

definition fold_name :: "string \<Rightarrow> nat list" where
  "fold_name s = map (fold_rune \<circ> fst) (utf8_runes s)"

type_synonym 'r field = "string \<times> (json \<Rightarrow> 'r \<Rightarrow> 'r option)"

definition field_for :: "'r field list \<Rightarrow> string \<Rightarrow> 'r field option" where
  "field_for fs key = (case find (\<lambda>f. fst f = key) fs of
      Some f \<Rightarrow> Some f
    | None \<Rightarrow> find (\<lambda>f. fold_name (fst f) = fold_name key) fs)"

text \<open>
  An object sets its fields in order, unknown keys are skipped and \<^verbatim>\<open>null\<close> changes nothing. A value of the
  wrong type makes \<^verbatim>\<open>Unmarshal\<close> return an error at the end; every caller then drops the value.
\<close>

fun set_members :: "'r field list \<Rightarrow> (string \<times> json) list \<Rightarrow> 'r \<Rightarrow> 'r option" where
  "set_members fs [] r = Some r"
| "set_members fs ((k, v) # ms) r = (case field_for fs k of
      None \<Rightarrow> set_members fs ms r
    | Some f \<Rightarrow> Option.bind (snd f v r) (set_members fs ms))"

definition decode_struct :: "'r field list \<Rightarrow> json \<Rightarrow> 'r \<Rightarrow> 'r option" where
  "decode_struct fs v r = (case v of
      JObj ms \<Rightarrow> set_members fs ms r
    | JNull \<Rightarrow> Some r
    | _ \<Rightarrow> None)"

definition Unmarshal_struct :: "'r field list \<Rightarrow> string \<Rightarrow> 'r \<Rightarrow> (json_error, 'r) outcome" where
  "Unmarshal_struct fs s r = (case json_parse s of
      None \<Rightarrow> Err JSyntax
    | Some v \<Rightarrow> (case decode_struct fs v r of None \<Rightarrow> Err JType | Some r' \<Rightarrow> Ok r'))"

text \<open>Fields by their Go type.\<close>

definition string_field :: "string \<Rightarrow> (string \<Rightarrow> 'r \<Rightarrow> 'r) \<Rightarrow> 'r field" where
  "string_field name upd = (name, \<lambda>v r. case v of JStr s \<Rightarrow> Some (upd s r) | JNull \<Rightarrow> Some r | _ \<Rightarrow> None)"

definition bool_ptr_field :: "string \<Rightarrow> (bool option \<Rightarrow> 'r \<Rightarrow> 'r) \<Rightarrow> 'r field" where
  "bool_ptr_field name upd = (name, \<lambda>v r. case v of JBool b \<Rightarrow> Some (upd (Some b) r) | JNull \<Rightarrow> Some (upd None r) | _ \<Rightarrow> None)"

definition bool_field :: "string \<Rightarrow> (bool \<Rightarrow> 'r \<Rightarrow> 'r) \<Rightarrow> 'r field" where
  "bool_field name upd = (name, \<lambda>v r. case v of JBool b \<Rightarrow> Some (upd b r) | JNull \<Rightarrow> Some r | _ \<Rightarrow> None)"

definition int_field :: "string \<Rightarrow> (int \<Rightarrow> 'r \<Rightarrow> 'r) \<Rightarrow> 'r field" where
  "int_field name upd = (name, \<lambda>v r. case v of
      JNum n \<Rightarrow> map_option (\<lambda>w. upd (sint w) r) (ParseInt64 n) | JNull \<Rightarrow> Some r | _ \<Rightarrow> None)"

definition int_ptr_field :: "string \<Rightarrow> (int option \<Rightarrow> 'r \<Rightarrow> 'r) \<Rightarrow> 'r field" where
  "int_ptr_field name upd = (name, \<lambda>v r. case v of
      JNum n \<Rightarrow> map_option (\<lambda>w. upd (Some (sint w)) r) (ParseInt64 n) | JNull \<Rightarrow> Some (upd None r) | _ \<Rightarrow> None)"

definition ParseUint8 :: "string \<Rightarrow> 8 word option" where
  "ParseUint8 s = (if s \<noteq> [] \<and> list_all is_digit s \<and> dec_val s < 256 then Some (word_of_nat (dec_val s)) else None)"

definition uint8_field :: "string \<Rightarrow> (8 word \<Rightarrow> 'r \<Rightarrow> 'r) \<Rightarrow> 'r field" where
  "uint8_field name upd = (name, \<lambda>v r. case v of
      JNum n \<Rightarrow> map_option (\<lambda>w. upd w r) (ParseUint8 n) | JNull \<Rightarrow> Some r | _ \<Rightarrow> None)"

definition float_field :: "string \<Rightarrow> (float64 \<Rightarrow> 'r \<Rightarrow> 'r) \<Rightarrow> 'r field" where
  "float_field name upd = (name, \<lambda>v r. case v of
      JNum n \<Rightarrow> map_option (\<lambda>x. upd x r) (ParseFloat n) | JNull \<Rightarrow> Some r | _ \<Rightarrow> None)"

section \<open>The token stream follows the parser\<close>

text \<open>The members of an object, one at a time.\<close>

definition member_step :: "nat \<Rightarrow> string \<Rightarrow> (string \<times> json) list \<Rightarrow> string \<Rightarrow> bool" where
  "member_step d s ms t \<longleftrightarrow> (\<exists>qs k r0 cs v r1. skip_ws s = CHR 0x22 # qs \<and> scan_string qs = Some (k, r0)
     \<and> skip_ws r0 = CHR '':'' # cs \<and> length cs < length s \<and> parse_value d cs = Some (v, r1)
     \<and> (skip_ws r1 = CHR ''}'' # t \<and> ms = [(k, v)]
        \<or> (\<exists>es ms'. skip_ws r1 = CHR '','' # es \<and> length es < length s \<and> parse_members d es = Some (ms', t) \<and> ms = (k, v) # ms')))"

lemma parse_members_step: "parse_members d s = Some (ms, t) \<longleftrightarrow> member_step d s ms t"
proof
  assume a: "parse_members d s = Some (ms, t)"
  from a obtain qs where q: "skip_ws s = CHR 0x22 # qs"
    by (subst (asm) parse_members.simps) (auto split: list.splits if_splits)
  from a q obtain k r0 where k: "scan_string qs = Some (k, r0)"
    by (subst (asm) parse_members.simps) (auto split: option.splits)
  from a q k obtain cs where c: "skip_ws r0 = CHR '':'' # cs" "length cs < length s"
    by (subst (asm) parse_members.simps) (auto split: list.splits if_splits)
  from a q k c obtain v r1 where v: "parse_value d cs = Some (v, r1)"
    by (subst (asm) parse_members.simps) (auto split: option.splits)
  from a q k c v have "skip_ws r1 = CHR ''}'' # t \<and> ms = [(k, v)]
        \<or> (\<exists>es ms'. skip_ws r1 = CHR '','' # es \<and> length es < length s \<and> parse_members d es = Some (ms', t) \<and> ms = (k, v) # ms')"
    by (subst (asm) parse_members.simps) (auto split: list.splits if_splits)
  with q k c v show "member_step d s ms t" unfolding member_step_def by blast
next
  assume "member_step d s ms t"
  then show "parse_members d s = Some (ms, t)"
    unfolding member_step_def by (subst parse_members.simps) auto
qed

lemma parse_depth_mono:
  "parse_value d s = Some x \<Longrightarrow> parse_value (d + k) s = Some x"
  "parse_elements d s = Some y \<Longrightarrow> parse_elements (d + k) s = Some y"
  "parse_members d s = Some z \<Longrightarrow> parse_members (d + k) s = Some z"
proof (induction d s and d s and d s arbitrary: x and y and z rule: parse_value_parse_elements_parse_members.induct)
  case (1 d s)
  then show ?case
    by (subst parse_value.simps, subst (asm) parse_value.simps) (fastforce split: list.splits if_splits)
next
  case (2 d s)
  from "2.prems" obtain v r where v: "parse_value d s = Some (v, r)"
    by (subst (asm) parse_elements.simps) (auto split: option.splits)
  from "2.prems" v obtain c cs where c: "skip_ws r = c # cs"
    by (subst (asm) parse_elements.simps) (auto split: list.splits)
  have v': "parse_value (d + k) s = Some (v, r)" using "2.IH"(1) v by simp
  show ?case
  proof (cases "c = CHR '']''")
    case True
    then show ?thesis using "2.prems" v v' c by (simp add: parse_elements.simps)
  next
    case False
    then obtain w where w: "c = CHR '',''" "length cs < length s" "parse_elements d cs = Some w" "y = (v # fst w, snd w)"
      using "2.prems" v c by (subst (asm) parse_elements.simps) (auto split: if_splits)
    then have "parse_elements (d + k) cs = Some w" using "2.IH"(2) v c by simp
    then show ?thesis using w v' c by (subst parse_elements.simps) (simp add: case_prod_unfold)
  qed
next
  case (3 d s)
  obtain ms t where z: "z = (ms, t)" by (cases z)
  from "3.prems" have "member_step d s ms t" by (simp add: z parse_members_step)
  then obtain qs key r0 cs v r1 where m: "skip_ws s = CHR 0x22 # qs" "scan_string qs = Some (key, r0)"
     "skip_ws r0 = CHR '':'' # cs" "length cs < length s" "parse_value d cs = Some (v, r1)"
    and tail: "skip_ws r1 = CHR ''}'' # t \<and> ms = [(key, v)]
        \<or> (\<exists>es ms'. skip_ws r1 = CHR '','' # es \<and> length es < length s \<and> parse_members d es = Some (ms', t) \<and> ms = (key, v) # ms')"
    unfolding member_step_def by blast
  have v: "parse_value (d + k) cs = Some (v, r1)" using "3.IH"(1) m by simp
  have "parse_members (d + k) es = Some (ms', t)"
    if "skip_ws r1 = CHR '','' # es" "length es < length s" "parse_members d es = Some (ms', t)" for es ms'
    using "3.IH"(2) m that by simp
  with tail have "member_step (d + k) s ms t" unfolding member_step_def using m v by blast
  then show ?case by (simp add: z parse_members_step)
qed

lemma skip_ws_idem [simp]: "skip_ws (skip_ws s) = skip_ws s"
  by (simp add: skip_ws_def)

lemma parse_value_max: "parse_value d s = Some x \<Longrightarrow> d \<le> max_depth \<Longrightarrow> parse_value max_depth s = Some x"
  using parse_depth_mono(1)[of d s x "max_depth - d"] by simp

text \<open>The decoder inside an object at the top level.\<close>

abbreviation in_object :: "string \<Rightarrow> tokenState \<Rightarrow> decoder" where
  "in_object b st \<equiv> \<lparr>buf = b, state = st, stack = [tokenTopValue]\<rparr>"

lemma scalar_token_result: "scalar_token v dec \<noteq> Err JEOF" "scalar_token v dec \<noteq> Ok (Delim c, dec')"
  by (cases v; simp add: scalar_token_def value_token_def)+

lemma Token_open:
  "skip_ws s = CHR ''{'' # cs \<Longrightarrow> Token (NewDecoder s) = Ok (Delim CHR ''{'', in_object cs tokenObjectStart)"
  by (simp add: Token.simps NewDecoder_def open_bracket_def tokenValueAllowed_def)

lemma Token_other:
  "skip_ws s = [] \<or> hd (skip_ws s) \<noteq> CHR ''{'' \<Longrightarrow> Token (NewDecoder s) \<noteq> Ok (Delim CHR ''{'', dec)"
  by (subst Token.simps)
     (auto simp: NewDecoder_def open_bracket_def scalar_token_result outcome_simps split: list.splits if_splits)

lemma Token_key:
  assumes "skip_ws b = CHR 0x22 # qs" "scan_string qs = Some (k, r)" "st = tokenObjectStart \<or> st = tokenObjectKey"
  shows "Token (in_object b st) = Ok (TString k, in_object r tokenObjectColon)"
  using assms
  by (simp add: Token.simps decode_here_def tokenValueAllowed_def parse_value.simps value_token_def tokenValueEnd_def)

lemma Token_next_key:
  assumes "skip_ws b = CHR '','' # es" "skip_ws es = CHR 0x22 # qs" "scan_string qs = Some (k, r)"
  shows "Token (in_object b tokenObjectComma) = Ok (TString k, in_object r tokenObjectColon)"
proof -
  have "length es < length b" using length_dropWhile_le[of json_space b] assms(1) by (simp add: skip_ws_def)
  then show ?thesis using assms(1) Token_key[OF assms(2,3), of tokenObjectKey] by (subst Token.simps) simp
qed

lemma Decode_member:
  assumes "skip_ws b = CHR '':'' # cs" "parse_value max_depth cs = Some (v, r)"
  shows "Decode (in_object b tokenObjectColon) = Ok (v, in_object r tokenObjectComma)"
  using assms by (simp add: Decode_def prepare_def decode_here_def tokenValueAllowed_def tokenValueEnd_def)

lemma Token_close:
  assumes "skip_ws b = CHR ''}'' # t" "st = tokenObjectStart \<or> st = tokenObjectComma"
  shows "Token (in_object b st) = Ok (Delim CHR ''}'', NewDecoder t)"
  using assms by (auto simp: Token.simps close_bracket_def pop_state_def tokenValueEnd_def NewDecoder_def)

lemma Token_end: "Token (NewDecoder t) = Err JEOF \<longleftrightarrow> skip_ws t = []"
proof
  assume a: "Token (NewDecoder t) = Err JEOF"
  show "skip_ws t = []"
  proof (rule ccontr)
    assume "skip_ws t \<noteq> []"
    with a show False
      by (subst (asm) Token.simps)
         (auto simp: NewDecoder_def open_bracket_def decode_here_def tokenValueAllowed_def scalar_token_result outcome_simps
           split: list.splits if_splits option.splits)
  qed
qed (simp add: Token.simps NewDecoder_def)

lemma More_object: "skip_ws b = c # cs \<Longrightarrow> More (in_object b st) \<longleftrightarrow> c \<noteq> CHR '']'' \<and> c \<noteq> CHR ''}''"
  by (simp add: More_def)

text \<open>What a document is, seen from its first byte.\<close>

lemma skip_ws_length: "skip_ws s = c # cs \<Longrightarrow> length cs < length s"
  using length_dropWhile_le[of json_space s] by (simp add: skip_ws_def)

lemma parse_value_object:
  assumes "skip_ws s = CHR ''{'' # cs" "0 < d"
  shows "parse_value d s = (if HasPrefix (skip_ws cs) ''}'' then Some (JObj [], tl (skip_ws cs))
           else map_option (\<lambda>(ms, r). (JObj ms, r)) (parse_members (d - 1) cs))"
  using skip_ws_length[OF assms(1)] assms by (subst parse_value.simps) simp

lemma members_start: "parse_members d s = Some (ms, t) \<Longrightarrow> ms \<noteq> [] \<and> \<not> HasPrefix (skip_ws s) ''}''"
  by (drule parse_members_step[THEN iffD1]) (auto simp: member_step_def HasPrefix_def)

lemma json_literal_not_object: "json_literal s \<noteq> Some (JObj ms, r)"
  by (auto simp: json_literal_def)

lemma json_parse_object:
  "json_parse s = Some (JObj ms) \<longleftrightarrow> (\<exists>cs t. skip_ws s = CHR ''{'' # cs \<and> skip_ws t = []
     \<and> (skip_ws cs = CHR ''}'' # t \<and> ms = [] \<or> parse_members (max_depth - 1) cs = Some (ms, t)))"
  (is "?l = ?r")
proof (cases "\<exists>cs. skip_ws s = CHR ''{'' # cs")
  case True
  then obtain cs where cs: "skip_ws s = CHR ''{'' # cs" ..
  have p: "parse_value max_depth s = (if HasPrefix (skip_ws cs) ''}'' then Some (JObj [], tl (skip_ws cs))
           else map_option (\<lambda>(ms, r). (JObj ms, r)) (parse_members (max_depth - 1) cs))"
    using parse_value_object[OF cs] by (simp add: max_depth_def)
  show ?thesis
  proof (cases "HasPrefix (skip_ws cs) ''}''")
    case True
    then obtain t where "skip_ws cs = CHR ''}'' # t" by (cases "skip_ws cs") (auto simp: HasPrefix_def)
    then show ?thesis using True cs p members_start[of "max_depth - 1" cs ms] by (auto simp: json_parse_def split: if_splits)
  next
    case False
    then have "skip_ws cs \<noteq> CHR ''}'' # t" for t by (auto simp: HasPrefix_def)
    then show ?thesis using False cs p by (auto simp: json_parse_def split: option.splits)
  qed
next
  case False
  then have "parse_value max_depth s \<noteq> Some (JObj ms, t)" for t
    using json_literal_not_object by (subst parse_value.simps) (auto split: list.splits)
  then show ?thesis using False by (auto simp: json_parse_def split: option.splits if_splits)
qed

lemma json_parse_not_object:
  assumes "json_parse s = Some v" "\<nexists>ms. v = JObj ms"
  shows "skip_ws s = [] \<or> hd (skip_ws s) \<noteq> CHR ''{''"
  using assms by (subst (asm) json_parse_def, subst (asm) parse_value.simps) (auto split: option.splits list.splits if_splits)

lemma Decode_top: "Decode (NewDecoder s) = (case parse_value max_depth s of
     None \<Rightarrow> Err (if skip_ws s = [] then JEOF else JSyntax) | Some (v, r) \<Rightarrow> Ok (v, NewDecoder r))"
  by (simp add: Decode_def prepare_def decode_here_def NewDecoder_def tokenValueAllowed_def tokenValueEnd_def split: option.splits)

lemma Decode_eof: "Decode (NewDecoder s) = Err JEOF \<longleftrightarrow> skip_ws s = []"
proof -
  have "parse_value max_depth s = None" if "skip_ws s = []" using that by (subst parse_value.simps) simp
  then show ?thesis by (auto simp: Decode_top split: option.splits)
qed

end
