(* ===== verification/Target_Service.thy ===== *)
theory Target_Service
  imports Go_Json_Decode Go_Bufio
begin

text \<open>
  The Target Service, \<^verbatim>\<open>target-service/main.go\<close>: parsing of an observation, the store of the latest
  observation per target, and the loop over the lines the Broker sends.
\<close>

section \<open>Observations\<close>

record ts_Observation =
  ts_TargetID :: string
  ts_ObserverID :: string
  ts_Latitude :: float64
  ts_Longitude :: float64
  ts_Confidence :: float64
  ts_Timestamp :: int

datatype ts_error = InvalidJSON | NotSixFields | MissingField string | InvalidFieldType | EmptyIDs
  | CoordinatesOutOfRange | ConfidenceOutOfRange | BadTimestamp

definition ts_names :: "string list" where
  "ts_names = [''targetId'', ''observerId'', ''latitude'', ''longitude'', ''confidence'', ''timestamp'']"

definition ts_fields :: "ts_Observation field list" where
  "ts_fields =
     [string_field ''targetId'' (\<lambda>x ob. ob\<lparr>ts_TargetID := x\<rparr>), string_field ''observerId'' (\<lambda>x ob. ob\<lparr>ts_ObserverID := x\<rparr>),
      float_field ''latitude'' (\<lambda>x ob. ob\<lparr>ts_Latitude := x\<rparr>), float_field ''longitude'' (\<lambda>x ob. ob\<lparr>ts_Longitude := x\<rparr>),
      float_field ''confidence'' (\<lambda>x ob. ob\<lparr>ts_Confidence := x\<rparr>), int_field ''timestamp'' (\<lambda>x ob. ob\<lparr>ts_Timestamp := x\<rparr>)]"

definition ts_zero :: ts_Observation where
  "ts_zero = \<lparr>ts_TargetID = [], ts_ObserverID = [], ts_Latitude = Fin 0, ts_Longitude = Fin 0, ts_Confidence = Fin 0, ts_Timestamp = 0\<rparr>"

text \<open>
  Decoding into \<^verbatim>\<open>map[string]json.RawMessage\<close>: the keys of an object, none for \<^verbatim>\<open>null\<close>, an error for other
  values. A key that is repeated counts once.
\<close>

definition Unmarshal_keys :: "string \<Rightarrow> string list option" where
  "Unmarshal_keys payload = (case json_parse payload of
      Some (JObj ms) \<Rightarrow> Some (remdups (map fst ms))
    | Some JNull \<Rightarrow> Some []
    | _ \<Rightarrow> None)"

definition check_observation :: "ts_Observation \<Rightarrow> (ts_error, unit) outcome" where
  "check_observation ob =
     (if TrimSpace (ts_TargetID ob) = [] \<or> TrimSpace (ts_ObserverID ob) = [] then Err EmptyIDs
      else if IsNaN (ts_Latitude ob) \<or> f64_lt (ts_Latitude ob) (Fin (- 90)) \<or> f64_lt (Fin 90) (ts_Latitude ob)
        \<or> IsNaN (ts_Longitude ob) \<or> f64_lt (ts_Longitude ob) (Fin (- 180)) \<or> f64_lt (Fin 180) (ts_Longitude ob)
      then Err CoordinatesOutOfRange
      else if IsNaN (ts_Confidence ob) \<or> f64_lt (ts_Confidence ob) (Fin 0) \<or> f64_lt (Fin 1) (ts_Confidence ob)
      then Err ConfidenceOutOfRange
      else if ts_Timestamp ob \<le> 0 then Err BadTimestamp
      else Ok ())"

definition ts_parseObservation :: "string \<Rightarrow> (ts_error, ts_Observation) outcome" where
  "ts_parseObservation payload = (case Unmarshal_keys payload of
      None \<Rightarrow> Err InvalidJSON
    | Some raw \<Rightarrow>
        if length raw \<noteq> 6 then Err NotSixFields
        else (case find (\<lambda>key. key \<notin> set raw) ts_names of
                Some key \<Rightarrow> Err (MissingField key)
              | None \<Rightarrow>
                  (case Unmarshal_struct ts_fields payload ts_zero of
                     Ok ob \<Rightarrow> obind (check_observation ob) (\<lambda>_. Ok ob)
                   | Err _ \<Rightarrow> Err InvalidFieldType
                   | Panic \<Rightarrow> Panic)))"

section \<open>The store and the loop\<close>

type_synonym Store = "string \<rightharpoonup> ts_Observation"

definition newStore :: Store where "newStore = Map.empty"

definition save :: "Store \<Rightarrow> ts_Observation \<Rightarrow> Store" where
  "save st ob = st(ts_TargetID ob \<mapsto> ob)"

datatype ts_log = LogUnexpected string | LogInvalid ts_error | LogStored ts_Observation nat

definition observations_prefix :: string where "observations_prefix = ''MSG observations ''"

definition handleMessage :: "string \<Rightarrow> Store \<Rightarrow> Store \<times> ts_log list" where
  "handleMessage line st =
     (if \<not> HasPrefix line observations_prefix then (st, [LogUnexpected line])
      else case ts_parseObservation (TrimPrefix line observations_prefix) of
             Err e \<Rightarrow> (st, [LogInvalid e])
           | Panic \<Rightarrow> (st, [])
           | Ok ob \<Rightarrow> let st' = save st ob in (st', [LogStored ob (card (dom st'))]))"

fun handle_lines :: "string list \<Rightarrow> Store \<Rightarrow> Store \<times> ts_log list" where
  "handle_lines [] st = (st, [])"
| "handle_lines (l # ls) st =
     (let (st1, log1) = handleMessage (TrimSuffix l [carriage_return]) st; (st2, log2) = handle_lines ls st1
      in (st2, log1 @ log2))"

datatype run_result = Cancelled | SubscribeError | ReadError | Disconnected

definition ts_limit :: nat where "ts_limit = 1024 * 1024"

text \<open>
  \<^verbatim>\<open>run\<close> on an established connection: the subscription, the lines of the stream and how it ends.
  \<open>cancelled\<close> says whether the context ended by then, \<open>failed\<close> whether the stream ended with a read error.
\<close>

definition run :: "bool \<Rightarrow> string \<Rightarrow> bool \<Rightarrow> bool \<Rightarrow> run_result \<times> Store \<times> ts_log list" where
  "run subscribed stream failed cancelled =
     (if \<not> subscribed then (SubscribeError, newStore, [])
      else let (ls, tooLong) = scan_lines ts_limit stream; (st, lg) = handle_lines ls newStore
           in (if cancelled then Cancelled else if tooLong \<or> failed then ReadError else Disconnected, st, lg))"

section \<open>Facts\<close>

lemma Unmarshal_no_panic: "Unmarshal_struct fs s r \<noteq> Panic"
  by (auto simp: Unmarshal_struct_def split: option.splits)

lemma check_observation_no_panic: "check_observation ob \<noteq> Panic"
  by (simp add: check_observation_def)

lemma ts_parse_no_panic: "ts_parseObservation payload \<noteq> Panic"
  by (auto simp: ts_parseObservation_def outcome_simps Unmarshal_no_panic check_observation_no_panic split: option.splits outcome.splits)

definition line_observation :: "string \<Rightarrow> ts_Observation option" where
  "line_observation l =
     (let line = TrimSuffix l [carriage_return]
      in if \<not> HasPrefix line observations_prefix then None
         else case ts_parseObservation (TrimPrefix line observations_prefix) of Ok ob \<Rightarrow> Some ob | _ \<Rightarrow> None)"

definition accepted :: "string list \<Rightarrow> ts_Observation list" where
  "accepted ls = List.map_filter line_observation ls"

lemma handleMessage_store:
  "fst (handleMessage (TrimSuffix l [carriage_return]) st) = (case line_observation l of None \<Rightarrow> st | Some ob \<Rightarrow> save st ob)"
  by (auto simp: handleMessage_def line_observation_def Let_def split: outcome.splits)

lemma handle_lines_store: "fst (handle_lines ls st) = foldl save st (accepted ls)"
proof (induction ls arbitrary: st)
  case (Cons l ls)
  have "fst (handle_lines (l # ls) st) = fst (handle_lines ls (fst (handleMessage (TrimSuffix l [carriage_return]) st)))"
    by (simp add: Let_def split_def)
  then show ?case using Cons.IH
    by (simp add: handleMessage_store accepted_def map_filter_simps split: option.splits)
qed (simp add: accepted_def map_filter_simps)

lemma foldl_save:
  "foldl save st obs k = (case filter (\<lambda>ob. ts_TargetID ob = k) obs of [] \<Rightarrow> st k | xs \<Rightarrow> Some (last xs))"
  by (induction obs rule: rev_induct) (auto simp: save_def split: list.splits)

lemma ts_parse_checked: "ts_parseObservation p = Ok ob \<Longrightarrow> check_observation ob = Ok ()"
  by (auto simp: ts_parseObservation_def outcome_simps split: option.splits if_splits outcome.splits)

lemma line_observation_checked: "line_observation l = Some ob \<Longrightarrow> check_observation ob = Ok ()"
  unfolding line_observation_def Let_def using ts_parse_checked by (auto split: if_splits outcome.splits)

lemma accepted_checked: "ob \<in> set (accepted ls) \<Longrightarrow> check_observation ob = Ok ()"
  using line_observation_checked by (auto simp: accepted_def map_filter_def)

definition in_range :: "ts_Observation \<Rightarrow> bool" where
  "in_range ob \<longleftrightarrow> TrimSpace (ts_TargetID ob) \<noteq> [] \<and> TrimSpace (ts_ObserverID ob) \<noteq> [] \<and> 0 < ts_Timestamp ob
     \<and> f64_finite (ts_Latitude ob) \<and> \<bar>f64_val (ts_Latitude ob)\<bar> \<le> 90 \<and> f64_finite (ts_Longitude ob) \<and> \<bar>f64_val (ts_Longitude ob)\<bar> \<le> 180
     \<and> f64_finite (ts_Confidence ob) \<and> 0 \<le> f64_val (ts_Confidence ob) \<and> f64_val (ts_Confidence ob) \<le> 1"

lemma f64_between:
  "\<not> IsNaN x \<and> \<not> f64_lt x (Fin a) \<and> \<not> f64_lt (Fin b) x \<longleftrightarrow> f64_finite x \<and> a \<le> f64_val x \<and> f64_val x \<le> b"
  by (cases x) (auto simp: f64_finite_def not_less)

lemma check_observation_Ok: "check_observation ob = Ok u \<longleftrightarrow> in_range ob"
proof -
  have "check_observation ob = Ok u \<longleftrightarrow> TrimSpace (ts_TargetID ob) \<noteq> [] \<and> TrimSpace (ts_ObserverID ob) \<noteq> [] \<and> 0 < ts_Timestamp ob
     \<and> (\<not> IsNaN (ts_Latitude ob) \<and> \<not> f64_lt (ts_Latitude ob) (Fin (- 90)) \<and> \<not> f64_lt (Fin 90) (ts_Latitude ob))
     \<and> (\<not> IsNaN (ts_Longitude ob) \<and> \<not> f64_lt (ts_Longitude ob) (Fin (- 180)) \<and> \<not> f64_lt (Fin 180) (ts_Longitude ob))
     \<and> (\<not> IsNaN (ts_Confidence ob) \<and> \<not> f64_lt (ts_Confidence ob) (Fin 0) \<and> \<not> f64_lt (Fin 1) (ts_Confidence ob))"
    unfolding check_observation_def by auto
  then show ?thesis unfolding f64_between by (auto simp: in_range_def abs_le_iff)
qed

lemma run_store:
  "fst (snd (run True stream failed cancelled)) = foldl save newStore (accepted (fst (scan_lines ts_limit stream)))"
  using handle_lines_store[of "fst (scan_lines ts_limit stream)" newStore]
  by (simp add: run_def split_def Let_def)

section \<open>Properties\<close>

text \<open>C9: Whatever the Broker sends and however the connection ends, the store holds for each target exactly the
  last valid observation of that target that arrived, and every stored observation has nonempty identifiers,
  coordinates and confidence in range and a positive timestamp.\<close>

theorem store_latest:
  "let st = fst (snd (run True stream failed cancelled));
       obs = List.map_filter line_observation (fst (scan_lines ts_limit stream))
   in (\<forall>k. st k = (case filter (\<lambda>ob. ts_TargetID ob = k) obs of [] \<Rightarrow> None | xs \<Rightarrow> Some (last xs)))
      \<and> ran st \<subseteq> Collect in_range"
proof -
  let ?obs = "accepted (fst (scan_lines ts_limit stream))"
  let ?st = "foldl save newStore ?obs"
  have look: "?st k = (case filter (\<lambda>ob. ts_TargetID ob = k) ?obs of [] \<Rightarrow> None | xs \<Rightarrow> Some (last xs))" for k
    unfolding foldl_save[of newStore ?obs k] by (simp add: newStore_def split: list.split)
  have "ob \<in> set ?obs" if "?st k = Some ob" for k ob
    using that last_in_set[of "filter (\<lambda>ob. ts_TargetID ob = k) ?obs"] by (auto simp: look split: list.splits if_splits)
  then have "ran ?st \<subseteq> Collect in_range" using accepted_checked check_observation_Ok by (auto simp: ran_def)
  then show ?thesis using look by (simp add: run_store Let_def accepted_def)
qed

end
