(* ===== verification/Dbms_Value.thy ===== *)
theory Dbms_Value
  imports Go_Strings
begin

text \<open>
  \<^verbatim>\<open>server/dbms/value.go\<close>: SQL types, typed values, query results and query errors.
\<close>

datatype Type = Integer | Real | Text

record Value =
  typeID :: Type
  integer_of :: "64 word"
  real_of :: float64
  text_of :: string

definition zero_Value :: Value where
  "zero_Value = \<lparr>typeID = Integer, integer_of = 0, real_of = Fin 0, text_of = []\<rparr>"

definition Value_Integer :: "Value \<Rightarrow> 64 word \<times> bool" where
  "Value_Integer v = (integer_of v, typeID v = Integer)"

definition Value_Real :: "Value \<Rightarrow> float64 \<times> bool" where
  "Value_Real v = (real_of v, typeID v = Real)"

definition Value_Text :: "Value \<Rightarrow> string \<times> bool" where
  "Value_Text v = (text_of v, typeID v = Text)"

text \<open>Go's \<^verbatim>\<open>==\<close> on the struct: all fields, the floating-point one by IEEE equality.\<close>

definition Value_eq :: "Value \<Rightarrow> Value \<Rightarrow> bool" where
  "Value_eq v w \<longleftrightarrow> typeID v = typeID w \<and> integer_of v = integer_of w
     \<and> f64_eq (real_of v) (real_of w) \<and> text_of v = text_of w"

record Result =
  Columns :: "string list"
  Types :: "Type list"
  Rows :: "Value list list"

definition empty_Result :: Result where
  "empty_Result = \<lparr>Columns = [], Types = [], Rows = []\<rparr>"

record QueryError =
  Message :: string
  Position :: nat

definition queryError :: "nat \<Rightarrow> string \<Rightarrow> QueryError" where
  "queryError position message = \<lparr>Message = message, Position = position\<rparr>"

section \<open>What a value means\<close>

text \<open>
  The fields are private "to prevent invalid values": a value the parser builds sets the field of
  its own type only, and a real is finite.
\<close>

fun wf_Value :: "Value \<Rightarrow> bool" where
  "wf_Value v \<longleftrightarrow>
     (typeID v \<noteq> Integer \<longrightarrow> integer_of v = 0)
   \<and> (if typeID v = Real then f64_finite (real_of v) \<and> is_float64 (real_of v) else real_of v = Fin 0)
   \<and> (typeID v \<noteq> Text \<longrightarrow> text_of v = [])"

text \<open>The abstract SQL values: a 64-bit integer, a finite double, a byte string.\<close>

datatype sql_value = VInt int | VReal rat | VText string

definition abs_Value :: "Value \<Rightarrow> sql_value" where
  "abs_Value v = (case typeID v of
      Integer \<Rightarrow> VInt (sint (integer_of v))
    | Real \<Rightarrow> VReal (f64_val (real_of v))
    | Text \<Rightarrow> VText (text_of v))"

fun sql_type_of :: "sql_value \<Rightarrow> Type" where
  "sql_type_of (VInt _) = Integer"
| "sql_type_of (VReal _) = Real"
| "sql_type_of (VText _) = Text"

lemma sql_type_abs_Value [simp]: "sql_type_of (abs_Value v) = typeID v"
  by (cases "typeID v") (simp_all add: abs_Value_def)

text \<open>On such values Go's struct comparison is equality of the SQL values.\<close>

lemma Value_eq_abs:
  assumes "wf_Value v" "wf_Value w"
  shows "Value_eq v w \<longleftrightarrow> abs_Value v = abs_Value w"
  using assms
  by (cases "typeID v"; cases "typeID w")
     (auto simp: Value_eq_def abs_Value_def f64_eq_finite sint_inject split: if_splits)

end
