(* ===== verification/Dbms_Lexer.thy ===== *)
theory Dbms_Lexer
  imports Dbms_Value
begin

text \<open>
  \<^verbatim>\<open>server/dbms/lexer.go\<close>. The index \<open>i\<close> into the source is carried together with the bytes from
  \<open>i\<close> on, so \<^verbatim>\<open>source[i]\<close> is the head of that suffix and \<^verbatim>\<open>i == len(source)\<close> is an empty suffix.
\<close>

datatype kind = word_k | integerLiteral | realLiteral | textLiteral | leftParen | rightParen
  | comma | equal_k | star | semicolon | end_k

record token =
  tok_kind :: kind
  tok_text :: string
  tok_pos :: nat

definition mk_token :: "kind \<Rightarrow> string \<Rightarrow> nat \<Rightarrow> token" where
  "mk_token k s p = \<lparr>tok_kind = k, tok_text = s, tok_pos = p\<rparr>"

definition digit :: "char \<Rightarrow> bool" where
  "digit c \<longleftrightarrow> byte_of CHR ''0'' \<le> byte_of c \<and> byte_of c \<le> byte_of CHR ''9''"

definition letter :: "char \<Rightarrow> bool" where
  "letter c \<longleftrightarrow> byte_of CHR ''A'' \<le> byte_of c \<and> byte_of c \<le> byte_of CHR ''Z''
     \<or> byte_of CHR ''a'' \<le> byte_of c \<and> byte_of c \<le> byte_of CHR ''z'' \<or> c = CHR ''_''"

definition whitespace :: "char \<Rightarrow> bool" where
  "whitespace c \<longleftrightarrow> c = CHR '' '' \<or> c = CHR 0x09 \<or> c = CHR 0x0D \<or> c = CHR 0x0A \<or> c = CHR 0x0C \<or> c = CHR 0x0B"

definition quote :: char where
  "quote = CHR 0x27"

text \<open>A numeric literal that starts at \<open>start\<close>: lines 47 to 70.\<close>

definition lex_number :: "nat \<Rightarrow> string \<Rightarrow> (QueryError, token \<times> nat \<times> string) outcome" where
  "lex_number start s =
     (let neg = (hd s = CHR ''-''); i = (if neg then 1 else 0); s1 = drop i s
      in if neg \<and> (s1 = [] \<or> \<not> digit (hd s1)) then Err (queryError start (''Expected digits after '' @ [quote, CHR ''-'', quote]))
         else
           let j = i + length (takeWhile digit s1); s2 = drop j s
           in if s2 \<noteq> [] \<and> hd s2 = CHR ''.'' then
                let s3 = drop (j + 1) s
                in if s3 = [] \<or> \<not> digit (hd s3)
                   then Err (queryError (start + j + 1) ''Expected digits after decimal point'')
                   else
                     let k = j + 1 + length (takeWhile digit s3)
                     in Ok (mk_token realLiteral (take k s) start, start + k, drop k s)
              else Ok (mk_token integerLiteral (take j s) start, start + j, drop j s))"

text \<open>The body of a TEXT literal after its opening quote: lines 72 to 90. \<^const>\<open>None\<close>: not closed.\<close>

fun lex_text :: "string \<Rightarrow> nat \<Rightarrow> string \<Rightarrow> (string \<times> nat \<times> string) option" where
  "lex_text decoded i [] = None"
| "lex_text decoded i [c] = (if c \<noteq> quote then None else Some (decoded, i + 1, []))"
| "lex_text decoded i (c # d # cs) =
     (if c \<noteq> quote then lex_text (decoded @ [c]) (i + 1) (d # cs)
      else if d = quote then lex_text (decoded @ [quote]) (i + 2) cs
      else Some (decoded, i + 1, d # cs))"

definition punctuation :: "char \<Rightarrow> kind option" where
  "punctuation c =
     (if c = CHR ''('' then Some leftParen else if c = CHR '')'' then Some rightParen
      else if c = CHR '','' then Some comma else if c = CHR ''='' then Some equal_k
      else if c = CHR ''*'' then Some star else if c = CHR '';'' then Some semicolon else None)"

lemma lex_number_shorter:
  assumes "lex_number start s = Ok (t, i, rest)" "s \<noteq> []" "digit (hd s) \<or> hd s = CHR ''-''"
  shows "length rest < length s"
  using assms
  by (cases s) (auto simp: lex_number_def Let_def split: if_splits)

lemma lex_text_shorter: "lex_text d i s = Some (d', j, rest) \<Longrightarrow> length rest < length s"
  by (induction d i s rule: lex_text.induct) (auto split: if_splits)

lemma lex_text_len_bound: "lex_text d i s = Some (d', j, rest) \<Longrightarrow> length rest < Suc (length s)"
  using lex_text_shorter by fastforce

definition cons_token :: "token \<Rightarrow> (QueryError, token list) outcome \<Rightarrow> (QueryError, token list) outcome" where
  "cons_token t r = obind r (\<lambda>ts. Ok (t # ts))"

function lex_loop :: "nat \<Rightarrow> string \<Rightarrow> (QueryError, token list) outcome" where
  "lex_loop i [] = Ok [mk_token end_k [] i]"
| "lex_loop i (c # cs) =
     (if whitespace c then lex_loop (i + 1) cs
      else if letter c then
        let n = length (takeWhile (\<lambda>x. letter x \<or> digit x) (c # cs))
        in cons_token (mk_token word_k (take n (c # cs)) i) (lex_loop (i + n) (drop n (c # cs)))
      else if digit c \<or> c = CHR ''-'' then
        case lex_number i (c # cs) of
          Ok (t, j, rest) \<Rightarrow> cons_token t (lex_loop j rest)
        | Err e \<Rightarrow> Err e
        | Panic \<Rightarrow> Panic
      else if c = quote then
        case lex_text [] (i + 1) cs of
          None \<Rightarrow> Err (queryError i ''Unterminated TEXT literal'')
        | Some (decoded, j, rest) \<Rightarrow> cons_token (mk_token textLiteral decoded i) (lex_loop j rest)
      else
        case punctuation c of
          None \<Rightarrow> Err (queryError i ''Unsupported character'')
        | Some k \<Rightarrow> cons_token (mk_token k [c] i) (lex_loop (i + 1) cs))"
  by pat_completeness auto
termination
  by (relation "measure (\<lambda>(i, s). length s)")
     (auto dest: lex_number_shorter lex_text_len_bound)

declare lex_loop.simps(2) [simp del]

definition lex :: "string \<Rightarrow> (QueryError, token list) outcome" where
  "lex source = lex_loop 0 source"

section \<open>Tokens and their spelling\<close>

text \<open>What the text of a token can be, by its kind.\<close>

fun wf_number :: "string \<Rightarrow> bool" where
  "wf_number [] = False"
| "wf_number (c # cs) = (if c = CHR ''-'' then cs \<noteq> [] \<and> list_all digit cs else list_all digit (c # cs))"

fun wf_real :: "string \<Rightarrow> bool" where
  "wf_real s = (\<exists>a b. s = a @ CHR ''.'' # b \<and> wf_number a \<and> b \<noteq> [] \<and> list_all digit b)"

definition punct_text :: "kind \<Rightarrow> string" where
  "punct_text k = (case k of leftParen \<Rightarrow> ''('' | rightParen \<Rightarrow> '')'' | comma \<Rightarrow> '',''
     | equal_k \<Rightarrow> ''='' | star \<Rightarrow> ''*'' | semicolon \<Rightarrow> '';'' | _ \<Rightarrow> [])"

definition wf_word :: "string \<Rightarrow> bool" where
  "wf_word s \<longleftrightarrow> s \<noteq> [] \<and> letter (hd s) \<and> list_all (\<lambda>x. letter x \<or> digit x) s"

definition wf_token :: "kind \<Rightarrow> string \<Rightarrow> bool" where
  "wf_token k s = (case k of
      word_k \<Rightarrow> wf_word s
    | integerLiteral \<Rightarrow> wf_number s
    | realLiteral \<Rightarrow> wf_real s
    | textLiteral \<Rightarrow> True
    | _ \<Rightarrow> s = punct_text k)"

text \<open>How a token is spelled in a source text; a TEXT literal doubles its apostrophes.\<close>

definition quoted :: "string \<Rightarrow> string" where
  "quoted s = quote # ReplaceByte s quote [quote, quote] @ [quote]"

definition spell :: "kind \<Rightarrow> string \<Rightarrow> string" where
  "spell k s = (if k = textLiteral then quoted s else s)"

named_theorems char_class \<open>the character classes of the lexer\<close>

lemma digit_eq: "digit c \<longleftrightarrow> is_digit c"
  by (simp add: digit_def is_digit_def)

lemma letter_not:
  "letter c \<Longrightarrow> \<not> whitespace c"
  "letter c \<Longrightarrow> \<not> digit c"
  "letter c \<Longrightarrow> c \<noteq> CHR ''-''"
  "letter c \<Longrightarrow> c \<noteq> quote"
  by (auto simp: letter_def whitespace_def digit_def quote_def)

lemma digit_not:
  "digit c \<Longrightarrow> \<not> whitespace c"
  "digit c \<Longrightarrow> \<not> letter c"
  "digit c \<Longrightarrow> c \<noteq> CHR ''-''"
  "digit c \<Longrightarrow> c \<noteq> CHR ''.''"
  by (auto simp: letter_def whitespace_def digit_def quote_def)

lemma minus_not [char_class]:
  "\<not> whitespace CHR ''-''" "\<not> letter CHR ''-''" "\<not> digit CHR ''-''"
  by (auto simp: letter_def whitespace_def digit_def quote_def)

lemma dot_not [char_class]: "\<not> digit CHR ''.''"
  by (auto simp: digit_def)

lemma quote_not [char_class]:
  "\<not> whitespace quote" "\<not> letter quote" "\<not> digit quote" "quote \<noteq> CHR ''-''" "CHR ''-'' \<noteq> quote"
  by (auto simp: letter_def whitespace_def digit_def quote_def)

lemma whitespace_not:
  "whitespace c \<Longrightarrow> \<not> letter c" "whitespace c \<Longrightarrow> \<not> digit c"
  "whitespace c \<Longrightarrow> c \<noteq> quote" "whitespace c \<Longrightarrow> c \<noteq> CHR ''.''"
  by (auto simp: letter_def whitespace_def digit_def quote_def)

lemma space_whitespace [char_class]: "whitespace CHR '' ''"
  by (simp add: whitespace_def)

subsection \<open>Lexing the spelling of one token\<close>

text \<open>One equation of the loop per class of first byte.\<close>

lemma lex_loop_space: "whitespace c \<Longrightarrow> lex_loop i (c # cs) = lex_loop (i + 1) cs"
  by (simp add: lex_loop.simps(2))

lemma lex_loop_letter:
  "letter c \<Longrightarrow> lex_loop i (c # cs) =
     (let n = length (takeWhile (\<lambda>x. letter x \<or> digit x) (c # cs))
      in cons_token (mk_token word_k (take n (c # cs)) i) (lex_loop (i + n) (drop n (c # cs))))"
  using letter_not(1)[of c] by (subst lex_loop.simps(2)) (simp only: if_True if_False)

lemma lex_loop_digit:
  "digit c \<or> c = CHR ''-'' \<Longrightarrow> lex_loop i (c # cs) =
     (case lex_number i (c # cs) of
          Ok (t, j, rest) \<Rightarrow> cons_token t (lex_loop j rest) | Err e \<Rightarrow> Err e | Panic \<Rightarrow> Panic)"
  using digit_not(1,2)[of c] minus_not(1,2)
  by (subst lex_loop.simps(2)) (metis (no_types, lifting))

lemma lex_loop_quote:
  "lex_loop i (quote # cs) =
     (case lex_text [] (i + 1) cs of
          None \<Rightarrow> Err (queryError i ''Unterminated TEXT literal'')
        | Some (decoded, j, rest) \<Rightarrow> cons_token (mk_token textLiteral decoded i) (lex_loop j rest))"
  using quote_not by (subst lex_loop.simps(2)) (simp only: if_True if_False simp_thms)

lemma lex_text_spell:
  assumes "rest = [] \<or> hd rest \<noteq> quote"
  shows "lex_text d i (ReplaceByte s quote [quote, quote] @ quote # rest) =
           Some (d @ s, i + length (ReplaceByte s quote [quote, quote]) + 1, rest)"
proof (induction s arbitrary: d i)
  case Nil
  then show ?case using assms by (cases rest) (auto simp: ReplaceByte_def)
next
  case (Cons c cs)
  have ne: "ReplaceByte cs quote [quote, quote] @ quote # rest \<noteq> []" by simp
  then obtain x xs where xs: "ReplaceByte cs quote [quote, quote] @ quote # rest = x # xs"
    by (meson neq_Nil_conv)
  show ?case
  proof (cases "c = quote")
    case True
    then show ?thesis
      using Cons.IH[of "d @ [quote]" "i + 2"] by (simp add: ReplaceByte_def)
  next
    case False
    then have "ReplaceByte (c # cs) quote [quote, quote] = c # ReplaceByte cs quote [quote, quote]"
      by (simp add: ReplaceByte_def)
    then show ?thesis
      using Cons.IH[of "d @ [c]" "i + 1"] False xs by simp
  qed
qed

text \<open>A text that can follow a token without becoming part of it.\<close>

definition separated :: "string \<Rightarrow> bool" where
  "separated rest \<longleftrightarrow> rest = [] \<or>
     \<not> letter (hd rest) \<and> \<not> digit (hd rest) \<and> hd rest \<noteq> CHR ''.'' \<and> hd rest \<noteq> quote"

lemma separated_space [simp]: "separated (CHR '' '' # s)"
  using whitespace_not[OF space_whitespace] by (simp add: separated_def)

lemma lex_number_integer:
  assumes s: "wf_number s" and r: "separated rest"
  shows "lex_number i (s @ rest) = Ok (mk_token integerLiteral s i, i + length s, rest)"
proof -
  have stop: "rest = [] \<or> \<not> digit (hd rest)" "\<not> (rest \<noteq> [] \<and> hd rest = CHR ''.'')"
    using r by (auto simp: separated_def)
  from s obtain c cs where cs: "s = c # cs" by (cases s) auto
  show ?thesis
  proof (cases "c = CHR ''-''")
    case True
    then have d: "cs \<noteq> []" "\<forall>x \<in> set cs. digit x" using s cs by (auto simp: list_all_iff)
    have "takeWhile digit (cs @ rest) = cs" using takeWhile_append_stop(1)[OF d(2) stop(1)] .
    then show ?thesis using True d stop cs by (auto simp: lex_number_def Let_def hd_append)
  next
    case False
    then have d: "\<forall>x \<in> set s. digit x" using s cs by (auto simp: list_all_iff)
    have "takeWhile digit (s @ rest) = s" using takeWhile_append_stop(1)[OF d stop(1)] .
    then show ?thesis using False stop cs by (auto simp: lex_number_def Let_def)
  qed
qed

lemma lex_number_real:
  assumes a: "wf_number a" and b: "b \<noteq> []" "list_all digit b" and r: "separated rest"
  shows "lex_number i (a @ CHR ''.'' # b @ rest) =
           Ok (mk_token realLiteral (a @ CHR ''.'' # b) i, i + length (a @ CHR ''.'' # b), rest)"
proof -
  let ?dot = "CHR ''.'' # b @ rest"
  have stop: "?dot = [] \<or> \<not> digit (hd ?dot)" by (simp add: char_class)
  have stop': "rest = [] \<or> \<not> digit (hd rest)" using r by (auto simp: separated_def)
  have "\<forall>x \<in> set b. digit x" using b(2) by (simp add: list_all_iff)
  then have tw: "takeWhile digit (b @ rest) = b" using takeWhile_append_stop(1) stop' by blast
  have hb: "digit (hd (b @ rest))" "b @ rest \<noteq> []" using b by (cases b; simp)+
  from a obtain c cs where cs: "a = c # cs" by (cases a) auto
  show ?thesis
  proof (cases "c = CHR ''-''")
    case True
    then have d: "cs \<noteq> []" "\<forall>x \<in> set cs. digit x" using a cs by (auto simp: list_all_iff)
    have "takeWhile digit (cs @ ?dot) = cs" using takeWhile_append_stop(1)[OF d(2) stop] .
    moreover have "digit (hd (cs @ ?dot))" using d by (cases cs) auto
    ultimately show ?thesis using True d hb tw cs by (simp add: lex_number_def Let_def)
  next
    case False
    then have d: "\<forall>x \<in> set a. digit x" using a cs by (auto simp: list_all_iff)
    have "takeWhile digit (a @ ?dot) = a" using takeWhile_append_stop(1)[OF d stop] .
    then show ?thesis using False hb tw cs by (simp add: lex_number_def Let_def)
  qed
qed

lemma lex_loop_quoted:
  assumes "rest = [] \<or> hd rest \<noteq> quote"
  shows "lex_loop i (quoted s @ rest) =
           cons_token (mk_token textLiteral s i) (lex_loop (i + length (quoted s)) rest)"
  using lex_text_spell[OF assms, of "[]" "i + 1" s] by (simp add: quoted_def lex_loop_quote)

lemma lex_loop_word:
  assumes "wf_word s" "separated rest"
  shows "lex_loop i (s @ rest) = cons_token (mk_token word_k s i) (lex_loop (i + length s) rest)"
proof -
  let ?p = "\<lambda>x. letter x \<or> digit x"
  from assms(1) obtain c cs where c: "s = c # cs" "letter c" "\<forall>x \<in> set s. ?p x"
    by (cases s) (auto simp: wf_word_def list_all_iff)
  have "rest = [] \<or> \<not> ?p (hd rest)" using assms(2) by (auto simp: separated_def)
  then have "takeWhile ?p (s @ rest) = s" by (rule takeWhile_append_stop(1)[OF c(3)])
  then show ?thesis using c(1,2) by (simp add: lex_loop_letter)
qed

lemma lex_loop_numeric:
  assumes "lex_number i s = Ok (t, j, rest)" "s \<noteq> []" "digit (hd s) \<or> hd s = CHR ''-''"
  shows "lex_loop i s = cons_token t (lex_loop j rest)"
proof -
  from assms(2) obtain c cs where "s = c # cs" by (cases s) auto
  with assms show ?thesis by (simp add: lex_loop_digit)
qed

lemma wf_number_head: "wf_number s \<Longrightarrow> s \<noteq> [] \<and> (digit (hd s) \<or> hd s = CHR ''-'')"
  by (cases s) (auto split: if_splits)

lemma lex_loop_punct:
  assumes "punctuation c = Some k"
  shows "lex_loop i (c # rest) = cons_token (mk_token k [c] i) (lex_loop (i + 1) rest)"
  using assms
  by (auto simp: lex_loop.simps(2) punctuation_def whitespace_def letter_def digit_def quote_def
      split: if_splits)

lemma punct_text_spell:
  assumes "k \<notin> {word_k, integerLiteral, realLiteral, textLiteral, end_k}"
  obtains c where "punct_text k = [c]" "punctuation c = Some k"
  using assms by (cases k) (auto simp: punct_text_def punctuation_def)

text \<open>The lexer reads back the spelling of any token, and goes on behind it.\<close>

lemma lex_loop_spell:
  assumes w: "wf_token k s" and k: "k \<noteq> end_k" and r: "separated rest"
  shows "lex_loop i (spell k s @ rest) =
           cons_token (mk_token k s i) (lex_loop (i + length (spell k s)) rest)"
proof (cases "k \<in> {word_k, integerLiteral, realLiteral, textLiteral}")
  case False
  then obtain c where c: "punct_text k = [c]" "punctuation c = Some k"
    using punct_text_spell k by (metis insert_iff singletonD)
  have "s = [c]" using w c False k by (cases k) (auto simp: wf_token_def)
  then show ?thesis using False lex_loop_punct[OF c(2)] by (simp add: spell_def)
next
  case True
  then consider (w) "k = word_k" | (i) "k = integerLiteral" | (r) "k = realLiteral" | (t) "k = textLiteral"
    by auto
  then show ?thesis
  proof cases
    case w
    then show ?thesis using assms by (simp add: wf_token_def spell_def lex_loop_word)
  next
    case i
    then have n: "wf_number s" using w by (simp add: wf_token_def)
    then have "s @ rest \<noteq> []" "digit (hd (s @ rest)) \<or> hd (s @ rest) = CHR ''-''"
      using wf_number_head[OF n] by auto
    then show ?thesis using lex_loop_numeric[OF lex_number_integer[OF n r]] i by (simp add: spell_def)
  next
    case r
    then obtain a b where ab: "s = a @ CHR ''.'' # b" "wf_number a" "b \<noteq> []" "list_all digit b"
      using w by (auto simp: wf_token_def)
    then have "s @ rest \<noteq> []" "digit (hd (s @ rest)) \<or> hd (s @ rest) = CHR ''-''"
      using wf_number_head[OF ab(2)] by auto
    then show ?thesis
      using lex_loop_numeric[of i "s @ rest"] lex_number_real[OF ab(2-4) assms(3), of i] r ab(1)
      by (simp add: spell_def)
  next
    case t
    then show ?thesis using lex_loop_quoted[of rest] assms(3) by (auto simp: spell_def separated_def)
  qed
qed

section \<open>Printing a token list and lexing it back\<close>

fun unlex :: "(kind \<times> string) list \<Rightarrow> string" where
  "unlex [] = []"
| "unlex ((k, s) # ts) = spell k s @ CHR '' '' # unlex ts"

fun place :: "nat \<Rightarrow> (kind \<times> string) list \<Rightarrow> token list" where
  "place i [] = [mk_token end_k [] i]"
| "place i ((k, s) # ts) = mk_token k s i # place (i + length (spell k s) + 1) ts"

lemma lex_loop_unlex:
  assumes "\<forall>(k, s) \<in> set ts. wf_token k s \<and> k \<noteq> end_k"
  shows "lex_loop i (unlex ts) = Ok (place i ts)"
  using assms
proof (induction ts arbitrary: i rule: unlex.induct)
  case 1
  then show ?case by simp
next
  case (2 k s ts)
  have "lex_loop i (unlex ((k, s) # ts)) =
      cons_token (mk_token k s i) (lex_loop (i + length (spell k s)) (CHR '' '' # unlex ts))"
    using 2(2) lex_loop_spell[of k s "CHR '' '' # unlex ts"] by simp
  also have "lex_loop (i + length (spell k s)) (CHR '' '' # unlex ts) =
      Ok (place (i + length (spell k s) + 1) ts)"
    using 2 by (simp add: lex_loop_space space_whitespace)
  finally show ?case by (simp add: cons_token_def)
qed

section \<open>Lexing loses nothing\<close>

text \<open>
  The specification of a token list for a source text: tokens are spelled one after the other, with
  white space between them, each at its own position, and the end marker stands at the end.
\<close>

fun covers :: "nat \<Rightarrow> string \<Rightarrow> token list \<Rightarrow> bool" where
  "covers i s [] = False"
| "covers i s (t # ts) =
     (if ts = [] then list_all whitespace s \<and> t = mk_token end_k [] (i + length s)
      else \<exists>ws rest. s = ws @ spell (tok_kind t) (tok_text t) @ rest \<and> list_all whitespace ws
        \<and> tok_pos t = i + length ws \<and> wf_token (tok_kind t) (tok_text t) \<and> tok_kind t \<noteq> end_k
        \<and> covers (i + length ws + length (spell (tok_kind t) (tok_text t))) rest ts)"

lemma covers_not_Nil: "covers i s ts \<Longrightarrow> ts \<noteq> []"
  by (cases ts) auto

lemma covers_space: "whitespace c \<Longrightarrow> covers (i + 1) s ts \<Longrightarrow> covers i (c # s) ts"
proof (cases ts)
  case (Cons t ts')
  assume c: "whitespace c" and cov: "covers (i + 1) s ts"
  show ?thesis
  proof (cases "ts' = []")
    case True
    then show ?thesis using c cov Cons by simp
  next
    case False
    then obtain ws rest where h: "s = ws @ spell (tok_kind t) (tok_text t) @ rest"
      "list_all whitespace ws" "tok_pos t = i + 1 + length ws"
      "wf_token (tok_kind t) (tok_text t)" "tok_kind t \<noteq> end_k"
      "covers (i + 1 + length ws + length (spell (tok_kind t) (tok_text t))) rest ts'"
      using cov Cons by (auto simp: add.assoc)
    then have "covers i (c # s) (t # ts')"
      using False c by (simp, intro exI[of _ "c # ws"] exI[of _ rest]) simp
    then show ?thesis using Cons by simp
  qed
qed simp

lemma covers_token:
  assumes "wf_token k x" "k \<noteq> end_k" "covers (i + length (spell k x)) rest ts"
  shows "covers i (spell k x @ rest) (mk_token k x i # ts)"
  using assms covers_not_Nil[OF assms(3)]
  by (auto simp: mk_token_def intro!: exI[of _ "[]"] exI[of _ rest])

lemma lex_text_sound:
  "lex_text d i s = Some (d', j, rest) \<Longrightarrow>
     \<exists>t. d' = d @ t \<and> s = ReplaceByte t quote [quote, quote] @ quote # rest
       \<and> j = i + length (ReplaceByte t quote [quote, quote]) + 1"
proof (induction d i s rule: lex_text.induct)
  case (2 d i c)
  then show ?case by (intro exI[of _ "[]"]) (auto simp: ReplaceByte_def split: if_splits)
next
  case (3 d i c e cs)
  consider (plain) "c \<noteq> quote" | (double) "c = quote" "e = quote" | (stop) "c = quote" "e \<noteq> quote" by blast
  then show ?case
  proof cases
    case plain
    then obtain t where "d' = (d @ [c]) @ t" "e # cs = ReplaceByte t quote [quote, quote] @ quote # rest"
      "j = i + 1 + length (ReplaceByte t quote [quote, quote]) + 1" using 3 by auto
    then show ?thesis using plain by (intro exI[of _ "c # t"]) (simp add: ReplaceByte_def)
  next
    case double
    then obtain t where "d' = (d @ [quote]) @ t" "cs = ReplaceByte t quote [quote, quote] @ quote # rest"
      "j = i + 2 + length (ReplaceByte t quote [quote, quote]) + 1" using 3 by auto
    then show ?thesis using double by (intro exI[of _ "quote # t"]) (simp add: ReplaceByte_def)
  next
    case stop
    then show ?thesis using 3 by (intro exI[of _ "[]"]) (simp add: ReplaceByte_def)
  qed
qed simp

lemma takeWhile_digits: "list_all digit (takeWhile digit s)"
  by (auto simp: list_all_iff dest: set_takeWhileD)

lemma number_prefix:
  assumes s: "s \<noteq> []" "digit (hd s) \<or> hd s = CHR ''-''"
    and n: "n = (if hd s = CHR ''-'' then 1 else 0)"
    and guard: "hd s = CHR ''-'' \<longrightarrow> drop n s \<noteq> [] \<and> digit (hd (drop n s))"
    and a: "a = n + length (takeWhile digit (drop n s))"
  shows "wf_number (take a s)" and "a \<le> length s"
proof -
  have pre: "take a s = take n s @ takeWhile digit (drop n s)"
    unfolding a by (simp add: take_add flip: takeWhile_eq_take)
  show "wf_number (take a s)"
  proof (cases "hd s = CHR ''-''")
    case True
    then have "takeWhile digit (drop n s) \<noteq> []" using guard by (cases "drop n s") auto
    moreover have "take n s = [CHR ''-'']" using True s by (cases s) (auto simp: n)
    ultimately show ?thesis using pre takeWhile_digits by simp
  next
    case False
    then have z: "takeWhile digit s \<noteq> []" "take n s = []" "drop n s = s" "digit (hd s)"
      using s by (cases s; simp add: n)+
    then obtain c cs where c: "takeWhile digit s = c # cs" by (meson neq_Nil_conv)
    then have "c \<noteq> CHR ''-''" using False s by (cases s) (auto split: if_splits)
    then show ?thesis using pre takeWhile_digits[of s] z c by simp
  qed
  show "a \<le> length s"
    using length_takeWhile_le[of digit "drop n s"] s by (cases s) (auto simp: a n length_takeWhile_le)
qed

lemma lex_number_sound:
  assumes ok: "lex_number i s = Ok (t, j, rest)" and s: "s \<noteq> []" "digit (hd s) \<or> hd s = CHR ''-''"
  shows "\<exists>k x. t = mk_token k x i \<and> k \<in> {integerLiteral, realLiteral} \<and> wf_token k x
    \<and> s = x @ rest \<and> j = i + length x"
proof -
  define n where "n = (if hd s = CHR ''-'' then 1 else 0 :: nat)"
  define a where "a = n + length (takeWhile digit (drop n s))"
  have guard: "hd s = CHR ''-'' \<longrightarrow> drop n s \<noteq> [] \<and> digit (hd (drop n s))"
    using ok by (auto simp: lex_number_def Let_def n_def split: if_splits)
  note int = number_prefix[OF s n_def guard a_def]
  show ?thesis
  proof (cases "drop a s \<noteq> [] \<and> hd (drop a s) = CHR ''.''")
    case False
    then have "t = mk_token integerLiteral (take a s) i" "j = i + a" "rest = drop a s"
      using ok guard by (auto simp: lex_number_def Let_def n_def a_def split: if_splits)
    then show ?thesis using int
      by (intro exI[of _ integerLiteral] exI[of _ "take a s"]) (simp add: wf_token_def)
  next
    case True
    define f where "f = takeWhile digit (drop (a + 1) s)"
    have ok': "drop (a + 1) s \<noteq> []" "digit (hd (drop (a + 1) s))"
      "t = mk_token realLiteral (take (a + 1 + length f) s) i" "j = i + (a + 1 + length f)"
      "rest = drop (a + 1 + length f) s"
      using ok guard True
      by (auto simp: lex_number_def Let_def n_def a_def f_def split: if_splits)
    have dot: "take (a + 1) s = take a s @ [CHR ''.'']"
      using True hd_drop_conv_nth[of a s] by (auto simp: take_Suc_conv_app_nth)
    have x: "take (a + 1 + length f) s = take a s @ CHR ''.'' # f"
      unfolding take_add[of "a + 1"] dot f_def by (simp flip: takeWhile_eq_take)
    have "f \<noteq> []" using ok'(1,2) unfolding f_def by (cases "drop (a + 1) s") auto
    then have "wf_real (take a s @ CHR ''.'' # f)" using int(1) takeWhile_digits f_def by auto
    moreover have "length (take (a + 1 + length f) s) = a + 1 + length f"
      using arg_cong[OF x, of length] True by simp
    ultimately show ?thesis using ok' x append_take_drop_id[of "a + 1 + length f" s]
      by (intro exI[of _ realLiteral] exI[of _ "take a s @ CHR ''.'' # f"]) (simp add: wf_token_def)
  qed
qed

lemma cons_token_eq_Ok: "cons_token t r = Ok ts \<longleftrightarrow> (\<exists>us. r = Ok us \<and> ts = t # us)"
  by (auto simp: cons_token_def outcome_simps)

lemma word_prefix:
  assumes "letter c" and n: "n = length (takeWhile (\<lambda>x. letter x \<or> digit x) (c # cs))"
  shows "wf_word (take n (c # cs))" and "n \<le> length (c # cs)"
proof -
  have "take n (c # cs) = takeWhile (\<lambda>x. letter x \<or> digit x) (c # cs)"
    unfolding n by (simp only: takeWhile_eq_take[symmetric])
  then show "wf_word (take n (c # cs))"
    using assms(1) by (auto simp: wf_word_def list_all_iff dest: set_takeWhileD)
  show "n \<le> length (c # cs)" unfolding n by (rule length_takeWhile_le)
qed

lemma punctuation_token: "punctuation c = Some k \<Longrightarrow> wf_token k [c] \<and> k \<notin> {textLiteral, end_k}"
  by (auto simp: punctuation_def wf_token_def punct_text_def split: if_splits)

lemma lex_loop_covers: "lex_loop i s = Ok ts \<Longrightarrow> covers i s ts"
proof (induction i s arbitrary: ts rule: lex_loop.induct)
  case (1 i)
  then show ?case by auto
next
  case (2 i c cs)
  let ?n = "length (takeWhile (\<lambda>x. letter x \<or> digit x) (c # cs))"
  consider (ws) "whitespace c" | (wd) "\<not> whitespace c" "letter c"
    | (num) "\<not> whitespace c" "\<not> letter c" "digit c \<or> c = CHR ''-''"
    | (tx) "c = quote" | (pun) "\<not> whitespace c" "\<not> letter c" "\<not> (digit c \<or> c = CHR ''-'')" "c \<noteq> quote"
    by blast
  then show ?case
  proof cases
    case ws
    then show ?thesis using 2 by (simp add: lex_loop_space covers_space)
  next
    case wd
    then obtain us where us: "lex_loop (i + ?n) (drop ?n (c # cs)) = Ok us"
      "ts = mk_token word_k (take ?n (c # cs)) i # us"
      using "2.prems" by (auto simp only: lex_loop_letter Let_def cons_token_eq_Ok)
    have cov: "covers (i + ?n) (drop ?n (c # cs)) us" by (rule "2.IH"(2)[OF wd refl us(1)])
    note wp = word_prefix[OF wd(2) refl, of cs]
    have "covers i (spell word_k (take ?n (c # cs)) @ drop ?n (c # cs)) ts"
      unfolding us(2) using wp cov
      by (intro covers_token) (simp_all add: wf_token_def spell_def min_absorb2 del: takeWhile.simps)
    then show ?thesis by (simp only: spell_def append_take_drop_id kind.simps if_False)
  next
    case num
    then obtain t j rest us where h: "lex_number i (c # cs) = Ok (t, j, rest)"
      "lex_loop j rest = Ok us" "ts = t # us"
      using "2.prems" by (auto simp: lex_loop_digit cons_token_eq_Ok split: outcome.splits)
    then obtain k x where k: "t = mk_token k x i" "k \<in> {integerLiteral, realLiteral}" "wf_token k x"
      "c # cs = x @ rest" "j = i + length x"
      using lex_number_sound[OF h(1)] num by auto
    have "covers j rest us" using "2.IH"(3)[OF num(1-3) h(1)] h(2) by blast
    then have "covers i (spell k x @ rest) (mk_token k x i # us)"
      using k by (intro covers_token) (auto simp: spell_def)
    then show ?thesis using k h(3) by (auto simp: spell_def simp del: covers.simps)
  next
    case tx
    then obtain d j rest us where h: "lex_text [] (i + 1) cs = Some (d, j, rest)"
      "lex_loop j rest = Ok us" "ts = mk_token textLiteral d i # us"
      using "2.prems" by (auto simp: lex_loop_quote cons_token_eq_Ok split: option.splits)
    have cov: "covers j rest us" using "2.IH"(4)[of "(d, j, rest)" d "(j, rest)" j rest] tx h quote_not by simp
    have e: "c # cs = quoted d @ rest" "j = i + length (quoted d)"
      using lex_text_sound[OF h(1)] tx by (auto simp: quoted_def)
    have "covers i (spell textLiteral d @ rest) (mk_token textLiteral d i # us)"
      using cov e by (intro covers_token) (auto simp: spell_def wf_token_def)
    then show ?thesis using e h(3) by (simp add: spell_def del: covers.simps)
  next
    case pun
    then obtain k us where h: "punctuation c = Some k" "lex_loop (i + 1) cs = Ok us"
      "ts = mk_token k [c] i # us"
      using "2.prems" by (auto simp: lex_loop.simps(2) cons_token_eq_Ok split: option.splits)
    have cov: "covers (i + 1) cs us" using "2.IH"(5)[OF pun h(1,2)] .
    then have "covers i (spell k [c] @ cs) (mk_token k [c] i # us)"
      using punctuation_token[OF h(1)] by (intro covers_token) (auto simp: spell_def)
    then show ?thesis using punctuation_token[OF h(1)] h(3) by (simp add: spell_def del: covers.simps)
  qed
qed

subsection \<open>Consequences for the parser\<close>

lemma covers_ends:
  "covers i s ts \<Longrightarrow> \<exists>us. ts = us @ [mk_token end_k [] (i + length s)] \<and> list_all (\<lambda>t. tok_kind t \<noteq> end_k) us"
proof (induction i s ts rule: covers.induct)
  case (2 i s t ts)
  show ?case
  proof (cases "ts = []")
    case True
    then show ?thesis using 2 by (intro exI[of _ "[]"]) simp
  next
    case False
    then obtain ws rest where h: "s = ws @ spell (tok_kind t) (tok_text t) @ rest" "tok_kind t \<noteq> end_k"
      "covers (i + length ws + length (spell (tok_kind t) (tok_text t))) rest ts"
      using "2.prems" by auto
    from "2.IH"[OF False h(3)] obtain us where
      us: "ts = us @ [mk_token end_k [] (i + length s)]" "list_all (\<lambda>t. tok_kind t \<noteq> end_k) us"
      using h(1) by (auto simp: add.assoc)
    then show ?thesis using h(2) by (intro exI[of _ "t # us"]) simp
  qed
qed simp

lemma covers_positions:
  "covers i s ts \<Longrightarrow> t \<in> set ts \<Longrightarrow> tok_pos t \<le> i + length s"
proof (induction i s ts rule: covers.induct)
  case (2 i s u ts)
  show ?case
  proof (cases "ts = []")
    case True
    then show ?thesis using 2 by (simp add: mk_token_def)
  next
    case False
    then obtain ws rest where h: "s = ws @ spell (tok_kind u) (tok_text u) @ rest" "tok_pos u = i + length ws"
      "covers (i + length ws + length (spell (tok_kind u) (tok_text u))) rest ts"
      using "2.prems"(1) by auto
    then show ?thesis using "2.IH"[OF False h(3)] "2.prems"(2) by (cases "t = u") auto
  qed
qed simp

lemma covers_wf: "covers i s ts \<Longrightarrow> list_all (\<lambda>t. wf_token (tok_kind t) (tok_text t)) ts"
  by (induction i s ts rule: covers.induct)
     (auto simp: mk_token_def wf_token_def punct_text_def split: if_splits)

lemma lex_number_no_panic: "lex_number i s \<noteq> Panic"
  by (simp add: lex_number_def Let_def)

lemma lex_loop_no_panic: "lex_loop i s \<noteq> Panic"
proof (induction i s rule: lex_loop.induct)
  case (2 i c cs)
  then show ?case
    using lex_number_no_panic
    by (subst lex_loop.simps(2))
       (auto simp: cons_token_def outcome_simps Let_def split: outcome.split option.split)
qed simp

lemma lex_number_err_pos:
  "lex_number i s = Err e \<Longrightarrow> s \<noteq> [] \<Longrightarrow> Position e \<le> i + length s"
  by (auto simp: lex_number_def Let_def queryError_def split: if_splits)

lemma cons_token_eq_Err [simp]: "cons_token t r = Err e \<longleftrightarrow> r = Err e"
  by (auto simp: cons_token_def outcome_simps)

lemma lex_loop_err_pos: "lex_loop i s = Err e \<Longrightarrow> Position e \<le> i + length s"
proof (induction i s rule: lex_loop.induct)
  case (2 i c cs)
  let ?n = "length (takeWhile (\<lambda>x. letter x \<or> digit x) (c # cs))"
  consider (ws) "whitespace c" | (wd) "\<not> whitespace c" "letter c"
    | (num) "\<not> whitespace c" "\<not> letter c" "digit c \<or> c = CHR ''-''"
    | (tx) "c = quote" | (pun) "\<not> whitespace c" "\<not> letter c" "\<not> (digit c \<or> c = CHR ''-'')" "c \<noteq> quote"
    by blast
  then show ?case
  proof cases
    case ws
    then show ?thesis using 2 by (simp add: lex_loop_space)
  next
    case wd
    then have "lex_loop (i + ?n) (drop ?n (c # cs)) = Err e"
      using "2.prems" by (simp only: lex_loop_letter Let_def cons_token_eq_Err)
    then have "Position e \<le> i + ?n + length (drop ?n (c # cs))" by (rule "2.IH"(2)[OF wd refl])
    then show ?thesis using word_prefix(2)[OF wd(2) refl, of cs] by (simp only: length_drop)
  next
    case num
    show ?thesis
    proof (cases "lex_number i (c # cs)")
      case (Ok a)
      then obtain t j rest where h: "lex_number i (c # cs) = Ok (t, j, rest)" by (cases a) auto
      then have "lex_loop j rest = Err e" using "2.prems" num by (simp add: lex_loop_digit)
      then have "Position e \<le> j + length rest" using "2.IH"(3)[OF num(1-3) h] by blast
      then show ?thesis using lex_number_sound[OF h] num by (auto dest: arg_cong[where f = length])
    qed (use "2.prems" num lex_number_err_pos[of i "c # cs" e] in \<open>auto simp: lex_loop_digit\<close>)
  next
    case tx
    show ?thesis
    proof (cases "lex_text [] (i + 1) cs")
      case None
      then show ?thesis using "2.prems" tx by (auto simp: lex_loop_quote queryError_def)
    next
      case (Some a)
      then obtain d j rest where h: "lex_text [] (i + 1) cs = Some (d, j, rest)" by (cases a) auto
      then have "lex_loop j rest = Err e" using "2.prems" tx by (simp add: lex_loop_quote)
      then have "Position e \<le> j + length rest"
        using "2.IH"(4)[of "(d, j, rest)" d "(j, rest)" j rest] tx h quote_not by simp
      then show ?thesis using lex_text_sound[OF h] by auto
    qed
  next
    case pun
    then show ?thesis using 2
      by (auto simp: lex_loop.simps(2) queryError_def split: option.splits)
  qed
qed simp

section \<open>Properties\<close>

text \<open>C10: Lexing loses nothing. When \<open>lex\<close> accepts a source text, the text is exactly the spellings of
  its tokens, in order and each at its recorded position, with only whitespace between them, and the
  list ends with the end token at the length of the text. When it rejects one, the position of the
  error is inside the text, and it never panics.\<close>

theorem lex_lossless:
  "case lex source of
     Ok ts \<Rightarrow> covers 0 source ts \<and> last ts = mk_token end_k [] (length source)
   | Err e \<Rightarrow> Position e \<le> length source
   | Panic \<Rightarrow> False"
proof (cases "lex source")
  case (Ok ts)
  then have "covers 0 source ts" by (auto simp: lex_def dest: lex_loop_covers)
  then show ?thesis using Ok covers_ends by fastforce
next
  case (Err e)
  then show ?thesis using lex_loop_err_pos[of 0 source e] by (simp add: lex_def)
next
  case Panic
  then show ?thesis using lex_loop_no_panic[of 0 source] by (simp add: lex_def)
qed

text \<open>Any sequence of well-formed tokens, spelled one after the other with single spaces, lexes to
  exactly those tokens at the places where they were written.\<close>

theorem lex_unlex:
  assumes "\<forall>(k, s) \<in> set ts. wf_token k s \<and> k \<noteq> end_k"
  shows "lex (unlex ts) = Ok (place 0 ts)"
  using lex_loop_unlex[OF assms, of 0] by (simp add: lex_def)

lemma lex_unlex_witness:
  "lex (unlex [(word_k, ''a''), (textLiteral, [quote]), (semicolon, '';'')]) =
     Ok [mk_token word_k ''a'' 0, mk_token textLiteral [quote] 2, mk_token semicolon '';'' 7, mk_token end_k [] 9]"
proof -
  have "\<forall>(k, s) \<in> set [(word_k, ''a''), (textLiteral, [quote]), (semicolon, '';'')]. wf_token k s \<and> k \<noteq> end_k"
    by (simp add: wf_token_def wf_word_def letter_def punct_text_def)
  from lex_unlex[OF this] show ?thesis
    by (simp add: spell_def quoted_def ReplaceByte_def eval_nat_numeral)
qed

end
