(* ===== verification/Dbms_Parser.thy ===== *)
theory Dbms_Parser
  imports Dbms_Lexer
begin

text \<open>
  \<^verbatim>\<open>server/dbms/parser.go\<close>. The Go parser holds a token slice and an index that only moves forward;
  the state here is the slice from the index on. Reading the current token when there is none is
  the index panic of \<^verbatim>\<open>p.tokens[p.index]\<close>.
\<close>

record ident =
  id_name :: string
  id_pos :: nat

record literal =
  lit_value :: Value
  lit_pos :: nat

record columnDefinition =
  def_id :: ident
  def_type :: Type

record predicate =
  pred_column :: ident
  pred_literal :: literal

datatype operation = create_op | insert_op | selectRows_op | updateRows_op

record statement =
  operation :: operation
  table_id :: ident
  definitions :: "columnDefinition list"
  columns :: "ident list"
  vals :: "literal list"
  all_columns :: bool
  predicate :: "predicate option"

definition zero_identifier :: ident where
  "zero_identifier = \<lparr>id_name = [], id_pos = 0\<rparr>"

definition new_statement :: "operation \<Rightarrow> statement" where
  "new_statement opr = \<lparr>operation = opr, table_id = zero_identifier, definitions = [], columns = [],
     vals = [], all_columns = False, predicate = None\<rparr>"

type_synonym parser = "token list"
type_synonym 'a parse_result = "(QueryError, 'a \<times> parser) outcome"

section \<open>Token access\<close>

fun current :: "parser \<Rightarrow> (QueryError, token) outcome" where
  "current [] = Panic"
| "current (t # _) = Ok t"

definition fail :: "string \<Rightarrow> parser \<Rightarrow> (QueryError, 'a) outcome" where
  "fail message p = obind (current p) (\<lambda>t. Err (queryError (tok_pos t) message))"

definition take_tok :: "kind \<Rightarrow> parser \<Rightarrow> bool parse_result" where
  "take_tok k p = obind (current p) (\<lambda>t. if tok_kind t \<noteq> k then Ok (False, p) else Ok (True, tl p))"

text \<open>
  \<^verbatim>\<open>strings.EqualFold\<close> on ASCII operands: the text of a word token has letters, digits and
  underscores only, and the keywords are ASCII.
\<close>

definition fold_char :: "char \<Rightarrow> char" where
  "fold_char c = (if 65 \<le> byte_of c \<and> byte_of c \<le> 90 then char_of (byte_of c + 32) else c)"

definition EqualFold :: "string \<Rightarrow> string \<Rightarrow> bool" where
  "EqualFold s t \<longleftrightarrow> map fold_char s = map fold_char t"

definition takeKeyword :: "string \<Rightarrow> parser \<Rightarrow> bool parse_result" where
  "takeKeyword txt p =
     obind (current p) (\<lambda>t.
       if tok_kind t \<noteq> word_k \<or> \<not> EqualFold (tok_text t) txt then Ok (False, p) else Ok (True, tl p))"

definition require :: "kind \<Rightarrow> string \<Rightarrow> parser \<Rightarrow> unit parse_result" where
  "require k message p =
     obind (take_tok k p) (\<lambda>(ok, p). if \<not> ok then fail message p else Ok ((), p))"

definition requireKeyword :: "string \<Rightarrow> parser \<Rightarrow> unit parse_result" where
  "requireKeyword txt p =
     obind (takeKeyword txt p) (\<lambda>(ok, p). if \<not> ok then fail (''Expected keyword '' @ txt) p else Ok ((), p))"

definition p_identifier :: "parser \<Rightarrow> ident parse_result" where
  "p_identifier p =
     obind (current p) (\<lambda>t.
     obind (take_tok word_k p) (\<lambda>(ok, p).
       if \<not> ok then fail ''Expected an identifier'' p
       else Ok (\<lparr>id_name = tok_text t, id_pos = tok_pos t\<rparr>, p)))"

lemma take_tok_cases:
  "take_tok k p = Ok (b, p') \<longleftrightarrow>
     (\<exists>t ts. p = t # ts \<and> b = (tok_kind t = k) \<and> p' = (if b then ts else p))"
  by (cases p) (auto simp: take_tok_def)

lemma p_identifier_Ok:
  "p_identifier p = Ok (x, p') \<longleftrightarrow>
     (\<exists>t. p = t # p' \<and> tok_kind t = word_k \<and> x = \<lparr>id_name = tok_text t, id_pos = tok_pos t\<rparr>)"
  by (cases p) (auto simp: p_identifier_def take_tok_def fail_def)

section \<open>Lists and literals\<close>

function identifiers :: "parser \<Rightarrow> ident list parse_result" where
  "identifiers p =
     obind (p_identifier p) (\<lambda>(x, p1).
     obind (take_tok comma p1) (\<lambda>(more, p2).
       if \<not> more then Ok ([x], p2)
       else obind (identifiers p2) (\<lambda>(xs, p3). Ok (x # xs, p3))))"
  by pat_completeness auto
termination
  by (relation "measure length") (auto simp: p_identifier_Ok take_tok_cases)

declare identifiers.simps [simp del]

definition valueType :: "parser \<Rightarrow> Type parse_result" where
  "valueType p =
     obind (takeKeyword ''INTEGER'' p) (\<lambda>(ok, p). if ok then Ok (Integer, p) else
     obind (takeKeyword ''REAL'' p) (\<lambda>(ok, p). if ok then Ok (Real, p) else
     obind (takeKeyword ''TEXT'' p) (\<lambda>(ok, p). if ok then Ok (Text, p) else
       fail ''Expected type INTEGER, REAL or TEXT'' p)))"

definition literal :: "parser \<Rightarrow> literal parse_result" where
  "literal p =
     obind (current p) (\<lambda>t.
     obind (take_tok textLiteral p) (\<lambda>(ok, p). if ok then
       Ok (\<lparr>lit_value = zero_Value\<lparr>typeID := Text, text_of := tok_text t\<rparr>, lit_pos = tok_pos t\<rparr>, p) else
     obind (take_tok integerLiteral p) (\<lambda>(ok, p). if ok then
       (case ParseInt64 (tok_text t) of
          None \<Rightarrow> Err (queryError (tok_pos t) ''INTEGER literal is outside the signed 64-bit range'')
        | Some n \<Rightarrow> Ok (\<lparr>lit_value = zero_Value\<lparr>typeID := Integer, integer_of := n\<rparr>, lit_pos = tok_pos t\<rparr>, p)) else
     obind (take_tok realLiteral p) (\<lambda>(ok, p). if ok then
       (case ParseDecimal (tok_text t) of
          None \<Rightarrow> Err (queryError (tok_pos t) ''REAL literal is outside the finite double range'')
        | Some n \<Rightarrow>
            if IsInf n \<or> IsNaN n
            then Err (queryError (tok_pos t) ''REAL literal is outside the finite double range'')
            else Ok (\<lparr>lit_value = zero_Value\<lparr>typeID := Real, real_of := n\<rparr>, lit_pos = tok_pos t\<rparr>, p))
       else fail ''Expected an INTEGER, REAL or TEXT literal'' p))))"

text \<open>The value of a literal token, when it has one.\<close>

definition literal_value :: "token \<Rightarrow> Value option" where
  "literal_value t = (case tok_kind t of
      textLiteral \<Rightarrow> Some (zero_Value\<lparr>typeID := Text, text_of := tok_text t\<rparr>)
    | integerLiteral \<Rightarrow> map_option (\<lambda>n. zero_Value\<lparr>typeID := Integer, integer_of := n\<rparr>) (ParseInt64 (tok_text t))
    | realLiteral \<Rightarrow> map_option (\<lambda>n. zero_Value\<lparr>typeID := Real, real_of := n\<rparr>) (ParseDecimal (tok_text t))
    | _ \<Rightarrow> None)"

lemma ParseDecimal_SomeD:
  "ParseDecimal s = Some v \<Longrightarrow> \<not> IsInf v \<and> (\<exists>neg q. v = f64_of_rat neg q)"
  by (auto simp: ParseDecimal_def Let_def split: prod.splits if_splits)

lemma ParseDecimal_finite: "ParseDecimal s = Some v \<Longrightarrow> \<not> IsInf v \<and> \<not> IsNaN v \<and> is_float64 v"
  using ParseDecimal_SomeD f64_of_rat_not_NaN is_float64_of_rat by blast

lemma literal_Ok:
  "literal p = Ok (x, p') \<longleftrightarrow>
     (\<exists>t v. p = t # p' \<and> literal_value t = Some v \<and> x = \<lparr>lit_value = v, lit_pos = tok_pos t\<rparr>)"
proof (cases p)
  case (Cons t ts)
  show ?thesis
    by (cases "tok_kind t")
       (auto simp: Cons literal_def take_tok_def fail_def literal_value_def dest: ParseDecimal_finite
         split: option.splits)
qed (auto simp: literal_def)

section \<open>Statements\<close>


text \<open>The loop of \<^verbatim>\<open>create\<close>, lines 175 to 188.\<close>

lemma takeKeyword_cases:
  "takeKeyword w p = Ok (b, p') \<longleftrightarrow>
     (\<exists>t ts. p = t # ts \<and> b = (tok_kind t = word_k \<and> EqualFold (tok_text t) w) \<and> p' = (if b then ts else p))"
  by (cases p) (auto simp: takeKeyword_def)

definition type_keyword :: "Type \<Rightarrow> string" where
  "type_keyword ty = (case ty of Integer \<Rightarrow> ''INTEGER'' | Real \<Rightarrow> ''REAL'' | Text \<Rightarrow> ''TEXT'')"

definition is_kw :: "string \<Rightarrow> token \<Rightarrow> bool" where
  "is_kw w t \<longleftrightarrow> tok_kind t = word_k \<and> EqualFold (tok_text t) w"

lemma is_kw_type: "is_kw (type_keyword a) t \<Longrightarrow> is_kw (type_keyword b) t \<Longrightarrow> a = b"
  by (cases a; cases b) (auto simp: is_kw_def EqualFold_def type_keyword_def fold_char_def of_char_of dest!: arg_cong[where f = length])

lemma valueType_Ok: "valueType p = Ok (ty, p') \<longleftrightarrow> (\<exists>t. p = t # p' \<and> is_kw (type_keyword ty) t)"
proof (cases p)
  case (Cons t ts)
  have "valueType (t # ts) = Ok (ty, p') \<longleftrightarrow> p' = ts \<and>
    (if is_kw ''INTEGER'' t then ty = Integer else if is_kw ''REAL'' t then ty = Real
     else is_kw ''TEXT'' t \<and> ty = Text)"
    by (auto simp: valueType_def takeKeyword_def is_kw_def fail_def)
  moreover have "\<dots> \<longleftrightarrow> p' = ts \<and> is_kw (type_keyword ty) t"
    using is_kw_type[of Integer t Real] is_kw_type[of Integer t Text] is_kw_type[of Real t Text]
    by (cases ty) (auto simp: type_keyword_def)
  ultimately show ?thesis using Cons by auto
qed (auto simp: valueType_def takeKeyword_def)

function column_definitions :: "parser \<Rightarrow> columnDefinition list parse_result" where
  "column_definitions p =
     obind (p_identifier p) (\<lambda>(x, p).
     obind (valueType p) (\<lambda>(ty, p1).
     obind (take_tok comma p1) (\<lambda>(more, p2).
       if \<not> more then Ok ([\<lparr>def_id = x, def_type = ty\<rparr>], p2)
       else obind (column_definitions p2) (\<lambda>(ds, p3). Ok (\<lparr>def_id = x, def_type = ty\<rparr> # ds, p3)))))"
  by pat_completeness auto
termination
  by (relation "measure length") (auto simp: p_identifier_Ok valueType_Ok take_tok_cases)

declare column_definitions.simps [simp del]

text \<open>The loop of \<^verbatim>\<open>insert\<close>, lines 217 to 226.\<close>

function insert_values :: "parser \<Rightarrow> literal list parse_result" where
  "insert_values p =
     obind (literal p) (\<lambda>(v, p1).
     obind (take_tok comma p1) (\<lambda>(more, p2).
       if \<not> more then Ok ([v], p2)
       else obind (insert_values p2) (\<lambda>(vs, p3). Ok (v # vs, p3))))"
  by pat_completeness auto
termination
  by (relation "measure length") (auto simp: literal_Ok take_tok_cases)

declare insert_values.simps [simp del]

text \<open>The loop of \<^verbatim>\<open>updateStatement\<close>, lines 272 to 289.\<close>

lemma require_Ok: "require k m p = Ok (u, p') \<longleftrightarrow> (\<exists>t. p = t # p' \<and> tok_kind t = k)"
  by (cases p) (auto simp: require_def take_tok_def fail_def)

lemma requireKeyword_Ok: "requireKeyword w p = Ok (u, p') \<longleftrightarrow> (\<exists>t. p = t # p' \<and> is_kw w t)"
  by (cases p) (auto simp: requireKeyword_def takeKeyword_def fail_def is_kw_def)

function assignments :: "parser \<Rightarrow> (ident \<times> literal) list parse_result" where
  "assignments p =
     obind (p_identifier p) (\<lambda>(x, p).
     obind (require equal_k ''Expected '=' after UPDATE column'' p) (\<lambda>(_, p).
     obind (literal p) (\<lambda>(v, p1).
     obind (take_tok comma p1) (\<lambda>(more, p2).
       if \<not> more then Ok ([(x, v)], p2)
       else obind (assignments p2) (\<lambda>(as, p3). Ok ((x, v) # as, p3))))))"
  by pat_completeness auto
termination
  by (relation "measure length") (auto simp: p_identifier_Ok require_Ok literal_Ok take_tok_cases)

declare assignments.simps [simp del]

text \<open>The condition \<^verbatim>\<open>column = value\<close> behind WHERE, lines 246 to 257 and 293 to 304.\<close>

definition where_condition :: "parser \<Rightarrow> predicate parse_result" where
  "where_condition p =
     obind (p_identifier p) (\<lambda>(x, p).
     obind (require equal_k ''Only a single WHERE column = value condition is supported'' p) (\<lambda>(_, p).
     obind (literal p) (\<lambda>(v, p).
       Ok (\<lparr>pred_column = x, pred_literal = v\<rparr>, p))))"

definition create :: "parser \<Rightarrow> statement parse_result" where
  "create p =
     obind (requireKeyword ''TABLE'' p) (\<lambda>(_, p).
     obind (p_identifier p) (\<lambda>(tbl, p).
     obind (require leftParen ''Expected '(' before column definitions'' p) (\<lambda>(_, p).
     obind (column_definitions p) (\<lambda>(defs, p).
     obind (require rightParen ''Expected ')' after column definitions'' p) (\<lambda>(_, p).
       Ok ((new_statement create_op)\<lparr>table_id := tbl, definitions := defs\<rparr>, p))))))"

definition insert_stmt :: "parser \<Rightarrow> statement parse_result" where
  "insert_stmt p =
     obind (requireKeyword ''INTO'' p) (\<lambda>(_, p).
     obind (p_identifier p) (\<lambda>(tbl, p).
     obind (require leftParen ''Expected '(' before INSERT columns'' p) (\<lambda>(_, p).
     obind (identifiers p) (\<lambda>(cols, p).
     obind (require rightParen ''Expected ')' after INSERT columns'' p) (\<lambda>(_, p).
     obind (requireKeyword ''VALUES'' p) (\<lambda>(_, p).
     obind (require leftParen ''Expected '(' before INSERT values'' p) (\<lambda>(_, p).
     obind (insert_values p) (\<lambda>(vs, p).
     obind (require rightParen ''Expected ')' after INSERT values'' p) (\<lambda>(_, p).
       Ok ((new_statement insert_op)\<lparr>table_id := tbl, columns := cols, vals := vs\<rparr>, p))))))))))"

definition select_columns :: "parser \<Rightarrow> (bool \<times> ident list) parse_result" where
  "select_columns p =
     obind (take_tok star p) (\<lambda>(everything, p).
       if everything then Ok ((True, []), p)
       else obind (identifiers p) (\<lambda>(cols, p). Ok ((False, cols), p)))"

definition where_clause :: "parser \<Rightarrow> predicate option parse_result" where
  "where_clause p =
     obind (takeKeyword ''WHERE'' p) (\<lambda>(cond, p).
       if cond then obind (where_condition p) (\<lambda>(w, p). Ok (Some w, p)) else Ok (None, p))"

definition selectStatement :: "parser \<Rightarrow> statement parse_result" where
  "selectStatement p =
     obind (select_columns p) (\<lambda>((everything, cols), p).
     obind (requireKeyword ''FROM'' p) (\<lambda>(_, p).
     obind (p_identifier p) (\<lambda>(tbl, p).
     obind (where_clause p) (\<lambda>(w, p).
       Ok ((new_statement selectRows_op)\<lparr>all_columns := everything, columns := cols, table_id := tbl,
             predicate := w\<rparr>, p)))))"

definition updateStatement :: "parser \<Rightarrow> statement parse_result" where
  "updateStatement p =
     obind (p_identifier p) (\<lambda>(tbl, p).
     obind (requireKeyword ''SET'' p) (\<lambda>(_, p).
     obind (assignments p) (\<lambda>(as, p).
     obind (requireKeyword ''WHERE'' p) (\<lambda>(_, p).
     obind (where_condition p) (\<lambda>(w, p).
       Ok ((new_statement updateRows_op)\<lparr>table_id := tbl, columns := map fst as, vals := map snd as,
             predicate := Some w\<rparr>, p))))))"

definition parse_body :: "parser \<Rightarrow> statement parse_result" where
  "parse_body p =
     obind (takeKeyword ''CREATE'' p) (\<lambda>(ok, p). if ok then create p else
     obind (takeKeyword ''INSERT'' p) (\<lambda>(ok, p). if ok then insert_stmt p else
     obind (takeKeyword ''SELECT'' p) (\<lambda>(ok, p). if ok then selectStatement p else
     obind (takeKeyword ''UPDATE'' p) (\<lambda>(ok, p). if ok then updateStatement p else
       fail ''Expected CREATE, INSERT, SELECT or UPDATE; statement is unsupported'' p))))"

definition parse_tokens :: "token list \<Rightarrow> (QueryError, statement) outcome" where
  "parse_tokens ts =
     obind (parse_body ts) (\<lambda>(s, p).
     obind (require semicolon ''Expected ';' at the end of the statement'' p) (\<lambda>(_, p).
     obind (require end_k ''Expected end of input after one statement'' p) (\<lambda>(_, p).
       Ok s)))"

definition parse :: "string \<Rightarrow> (QueryError, statement) outcome" where
  "parse source = obind (lex source) parse_tokens"

section \<open>The grammar\<close>

text \<open>
  The specification of the parser: the shape of a statement is the list of conditions its tokens
  satisfy, one after the other.
\<close>

type_synonym shape = "(token \<Rightarrow> bool) list"

definition is_kind :: "kind \<Rightarrow> token \<Rightarrow> bool" where
  "is_kind k t \<longleftrightarrow> tok_kind t = k"

definition is_ident :: "ident \<Rightarrow> token \<Rightarrow> bool" where
  "is_ident x t \<longleftrightarrow> tok_kind t = word_k \<and> x = \<lparr>id_name = tok_text t, id_pos = tok_pos t\<rparr>"

definition is_lit :: "literal \<Rightarrow> token \<Rightarrow> bool" where
  "is_lit l t \<longleftrightarrow> literal_value t = Some (lit_value l) \<and> lit_pos l = tok_pos t"

fun sep :: "shape list \<Rightarrow> shape" where
  "sep [] = []"
| "sep [x] = x"
| "sep (x # y # xs) = x @ is_kind comma # sep (y # xs)"

definition matches :: "shape \<Rightarrow> token list \<Rightarrow> bool" where
  "matches sh ts \<longleftrightarrow> list_all2 (\<lambda>P t. P t) sh ts"

lemma matches_simps [simp]:
  "matches [] ts \<longleftrightarrow> ts = []"
  "matches (P # sh) ts \<longleftrightarrow> (\<exists>t us. ts = t # us \<and> P t \<and> matches sh us)"
  by (auto simp: matches_def list_all2_Cons1)

lemma matches_append: "matches (a @ b) ts \<longleftrightarrow> (\<exists>us vs. ts = us @ vs \<and> matches a us \<and> matches b vs)"
  unfolding matches_def list_all2_append1 by (metis list_all2_lengthD)

lemma matches_appendI: "matches a us \<Longrightarrow> matches b vs \<Longrightarrow> matches (a @ b) (us @ vs)"
  by (auto simp: matches_append)

lemma token_Ok:
  "p_identifier p = Ok (x, p') \<longleftrightarrow> (\<exists>t. p = t # p' \<and> is_ident x t)"
  "literal p = Ok (l, p') \<longleftrightarrow> (\<exists>t. p = t # p' \<and> is_lit l t)"
  "valueType p = Ok (ty, p') \<longleftrightarrow> (\<exists>t. p = t # p' \<and> is_kw (type_keyword ty) t)"
  "require k m p = Ok (u, p') \<longleftrightarrow> (\<exists>t. p = t # p' \<and> is_kind k t)"
  "requireKeyword w p = Ok (u, p') \<longleftrightarrow> (\<exists>t. p = t # p' \<and> is_kw w t)"
  by (auto simp: p_identifier_Ok is_ident_def literal_Ok is_lit_def valueType_Ok require_Ok
      requireKeyword_Ok is_kind_def)

lemma item_shapes:
  "p_identifier p = Ok (x, p') \<longleftrightarrow> (\<exists>us. p = us @ p' \<and> matches [is_ident x] us)"
  "literal p = Ok (l, p') \<longleftrightarrow> (\<exists>us. p = us @ p' \<and> matches [is_lit l] us)"
  by (auto simp: token_Ok)

text \<open>
  The four comma-separated loops of the parser share one contract: the item they repeat consumes
  exactly a token sequence of its shape.
\<close>

locale comma_loop =
  fixes item :: "parser \<Rightarrow> 'a parse_result"
    and loop :: "parser \<Rightarrow> 'a list parse_result"
    and shape_of :: "'a \<Rightarrow> shape"
  assumes item_Ok: "item p = Ok (x, p') \<longleftrightarrow> (\<exists>us. p = us @ p' \<and> matches (shape_of x) us)"
    and loop_eq: "loop p = obind (item p) (\<lambda>(x, p1). obind (take_tok comma p1) (\<lambda>(more, p2).
       if \<not> more then Ok ([x], p2) else obind (loop p2) (\<lambda>(xs, p3). Ok (x # xs, p3))))"
begin

lemma loop_Ok_one:
  "loop p = Ok (xs, p') \<longleftrightarrow>
     (\<exists>x us t r. p = us @ t # r \<and> matches (shape_of x) us \<and>
        (if tok_kind t = comma then \<exists>ys. loop r = Ok (ys, p') \<and> xs = x # ys
         else xs = [x] \<and> p' = t # r))"
  by (subst loop_eq) (fastforce simp: outcome_simps item_Ok take_tok_cases split: if_splits)

lemma loop_sound:
  "loop p = Ok (xs, p') \<Longrightarrow>
     xs \<noteq> [] \<and> (\<exists>us. p = us @ p' \<and> matches (sep (map shape_of xs)) us) \<and> p' \<noteq> [] \<and> tok_kind (hd p') \<noteq> comma"
proof (induction "length p" arbitrary: p xs rule: less_induct)
  case less
  from less.prems obtain x us t r where h: "p = us @ t # r" "matches (shape_of x) us"
    "if tok_kind t = comma then \<exists>ys. loop r = Ok (ys, p') \<and> xs = x # ys else xs = [x] \<and> p' = t # r"
    using loop_Ok_one[THEN iffD1] by blast
  show ?case
  proof (cases "tok_kind t = comma")
    case True
    then obtain ys where ys: "loop r = Ok (ys, p')" "xs = x # ys" using h(3) by auto
    have "length r < length p" using h(1) by simp
    from less.hyps[OF this ys(1)] obtain vs where vs: "ys \<noteq> []" "r = vs @ p'"
      "matches (sep (map shape_of ys)) vs" "p' \<noteq> []" "tok_kind (hd p') \<noteq> comma" by blast
    obtain y zs where yz: "ys = y # zs" using vs(1) by (cases ys) auto
    have "matches (sep (map shape_of xs)) (us @ t # vs)"
      using h(2) True vs(3) ys(2) yz by (auto simp: matches_append is_kind_def)
    then show ?thesis using h(1) ys(2) vs by auto
  next
    case False
    then show ?thesis using h by auto
  qed
qed

lemma loop_complete:
  "xs \<noteq> [] \<Longrightarrow> matches (sep (map shape_of xs)) us \<Longrightarrow> p' \<noteq> [] \<Longrightarrow> tok_kind (hd p') \<noteq> comma \<Longrightarrow>
     loop (us @ p') = Ok (xs, p')"
proof (induction xs arbitrary: us rule: induct_list012)
  case (2 x)
  then show ?case
    by (subst loop_Ok_one, intro exI[of _ x] exI[of _ us] exI[of _ "hd p'"] exI[of _ "tl p'"]) simp
next
  case (3 x y zs)
  then obtain vs t ws where h: "us = vs @ t # ws" "matches (shape_of x) vs" "tok_kind t = comma"
    "matches (sep (map shape_of (y # zs))) ws"
    by (auto simp: matches_append is_kind_def)
  then have "loop (ws @ p') = Ok (y # zs, p')" using 3 by simp
  then show ?case
    using h by (subst loop_Ok_one, intro exI[of _ x] exI[of _ vs] exI[of _ t] exI[of _ "ws @ p'"]) simp
qed simp

lemma loop_Ok:
  "loop p = Ok (xs, p') \<longleftrightarrow>
     xs \<noteq> [] \<and> (\<exists>us. p = us @ p' \<and> matches (sep (map shape_of xs)) us) \<and> p' \<noteq> [] \<and> tok_kind (hd p') \<noteq> comma"
  using loop_sound loop_complete by blast

end

interpretation ids: comma_loop p_identifier identifiers "\<lambda>x. [is_ident x]"
  by unfold_locales (rule item_shapes, rule identifiers.simps)

interpretation lits: comma_loop literal insert_values "\<lambda>l. [is_lit l]"
  by unfold_locales (rule item_shapes, rule insert_values.simps)

text \<open>The items of the other two loops consist of several calls.\<close>

definition column_item :: "parser \<Rightarrow> columnDefinition parse_result" where
  "column_item p = obind (p_identifier p) (\<lambda>(x, p). obind (valueType p) (\<lambda>(ty, p).
     Ok (\<lparr>def_id = x, def_type = ty\<rparr>, p)))"

definition assignment_item :: "parser \<Rightarrow> (ident \<times> literal) parse_result" where
  "assignment_item p = obind (p_identifier p) (\<lambda>(x, p).
     obind (require equal_k ''Expected '=' after UPDATE column'' p) (\<lambda>(_, p).
     obind (literal p) (\<lambda>(v, p). Ok ((x, v), p))))"

definition column_shape :: "columnDefinition \<Rightarrow> shape" where
  "column_shape d = [is_ident (def_id d), is_kw (type_keyword (def_type d))]"

definition assignment_shape :: "ident \<times> literal \<Rightarrow> shape" where
  "assignment_shape a = [is_ident (fst a), is_kind equal_k, is_lit (snd a)]"

interpretation defs: comma_loop column_item column_definitions column_shape
proof unfold_locales
  fix p x p'
  show "column_item p = Ok (x, p') \<longleftrightarrow> (\<exists>us. p = us @ p' \<and> matches (column_shape x) us)"
    by (cases x) (auto simp: column_item_def column_shape_def outcome_simps token_Ok)
  show "column_definitions p = obind (column_item p) (\<lambda>(x, p1). obind (take_tok comma p1) (\<lambda>(more, p2).
       if \<not> more then Ok ([x], p2) else obind (column_definitions p2) (\<lambda>(xs, p3). Ok (x # xs, p3))))"
    by (subst column_definitions.simps) (simp add: column_item_def obind_assoc split_def cong: if_cong)
qed

interpretation asgs: comma_loop assignment_item assignments assignment_shape
proof unfold_locales
  fix p x p'
  show "assignment_item p = Ok (x, p') \<longleftrightarrow> (\<exists>us. p = us @ p' \<and> matches (assignment_shape x) us)"
    by (cases x) (auto simp: assignment_item_def assignment_shape_def outcome_simps token_Ok)
  show "assignments p = obind (assignment_item p) (\<lambda>(x, p1). obind (take_tok comma p1) (\<lambda>(more, p2).
       if \<not> more then Ok ([x], p2) else obind (assignments p2) (\<lambda>(xs, p3). Ok (x # xs, p3))))"
    by (subst assignments.simps) (simp add: assignment_item_def obind_assoc split_def cong: if_cong)
qed

definition condition_shape :: "predicate \<Rightarrow> shape" where
  "condition_shape w = [is_ident (pred_column w), is_kind equal_k, is_lit (pred_literal w)]"

definition stmt_shape :: "statement \<Rightarrow> shape" where
  "stmt_shape s = (case operation s of
      create_op \<Rightarrow> [is_kw ''CREATE'', is_kw ''TABLE'', is_ident (table_id s), is_kind leftParen]
        @ sep (map column_shape (definitions s)) @ [is_kind rightParen]
    | insert_op \<Rightarrow> [is_kw ''INSERT'', is_kw ''INTO'', is_ident (table_id s), is_kind leftParen]
        @ sep (map (\<lambda>x. [is_ident x]) (columns s))
        @ [is_kind rightParen, is_kw ''VALUES'', is_kind leftParen]
        @ sep (map (\<lambda>l. [is_lit l]) (vals s)) @ [is_kind rightParen]
    | selectRows_op \<Rightarrow> is_kw ''SELECT''
        # (if all_columns s then [is_kind star] else sep (map (\<lambda>x. [is_ident x]) (columns s)))
        @ [is_kw ''FROM'', is_ident (table_id s)]
        @ (case predicate s of None \<Rightarrow> [] | Some w \<Rightarrow> is_kw ''WHERE'' # condition_shape w)
    | updateRows_op \<Rightarrow> [is_kw ''UPDATE'', is_ident (table_id s), is_kw ''SET'']
        @ sep (map assignment_shape (zip (columns s) (vals s)))
        @ is_kw ''WHERE'' # (case predicate s of None \<Rightarrow> [] | Some w \<Rightarrow> condition_shape w))"

text \<open>The statements the grammar has: the fields of the operation, and nothing in the others.\<close>

definition wf_stmt :: "statement \<Rightarrow> bool" where
  "wf_stmt s = (case operation s of
      create_op \<Rightarrow> definitions s \<noteq> []
        \<and> s = (new_statement create_op)\<lparr>table_id := table_id s, definitions := definitions s\<rparr>
    | insert_op \<Rightarrow> columns s \<noteq> [] \<and> vals s \<noteq> []
        \<and> s = (new_statement insert_op)\<lparr>table_id := table_id s, columns := columns s, vals := vals s\<rparr>
    | selectRows_op \<Rightarrow> (all_columns s \<longleftrightarrow> columns s = [])
        \<and> s = (new_statement selectRows_op)\<lparr>all_columns := all_columns s, columns := columns s,
                table_id := table_id s, predicate := predicate s\<rparr>
    | updateRows_op \<Rightarrow> columns s \<noteq> [] \<and> length (columns s) = length (vals s) \<and> predicate s \<noteq> None
        \<and> s = (new_statement updateRows_op)\<lparr>table_id := table_id s, columns := columns s,
                vals := vals s, predicate := predicate s\<rparr>)"

lemma wf_stmt_simps:
  "operation s = create_op \<Longrightarrow> wf_stmt s \<longleftrightarrow> definitions s \<noteq> []
     \<and> s = (new_statement create_op)\<lparr>table_id := table_id s, definitions := definitions s\<rparr>"
  "operation s = insert_op \<Longrightarrow> wf_stmt s \<longleftrightarrow> (columns s \<noteq> [] \<and> vals s \<noteq> [])
     \<and> s = (new_statement insert_op)\<lparr>table_id := table_id s, columns := columns s, vals := vals s\<rparr>"
  "operation s = selectRows_op \<Longrightarrow> wf_stmt s \<longleftrightarrow> (all_columns s \<longleftrightarrow> columns s = [])
     \<and> s = (new_statement selectRows_op)\<lparr>all_columns := all_columns s, columns := columns s,
                table_id := table_id s, predicate := predicate s\<rparr>"
  "operation s = updateRows_op \<Longrightarrow> wf_stmt s \<longleftrightarrow>
       (columns s \<noteq> [] \<and> length (columns s) = length (vals s) \<and> predicate s \<noteq> None)
     \<and> s = (new_statement updateRows_op)\<lparr>table_id := table_id s, columns := columns s,
                vals := vals s, predicate := predicate s\<rparr>"
  by (simp_all only: wf_stmt_def operation.case conj_assoc)

lemma is_kw_clash: "is_kw a t \<Longrightarrow> is_kw b t \<Longrightarrow> EqualFold a b"
  by (auto simp: is_kw_def EqualFold_def)

lemma keywords_differ:
  "\<not> EqualFold ''CREATE'' ''INSERT''" "\<not> EqualFold ''CREATE'' ''SELECT''"
  "\<not> EqualFold ''CREATE'' ''UPDATE''" "\<not> EqualFold ''INSERT'' ''SELECT''"
  "\<not> EqualFold ''INSERT'' ''UPDATE''" "\<not> EqualFold ''SELECT'' ''UPDATE''"
  by code_simp+

lemma where_condition_Ok:
  "where_condition p = Ok (w, p') \<longleftrightarrow> (\<exists>us. p = us @ p' \<and> matches (condition_shape w) us)"
  by (cases w) (auto simp: where_condition_def condition_shape_def outcome_simps token_Ok)

lemma create_Ok:
  "create p = Ok (s, p') \<longleftrightarrow> operation s = create_op \<and> wf_stmt s
     \<and> (\<exists>us. p = us @ p' \<and> matches (tl (stmt_shape s)) us)" (is "_ \<longleftrightarrow> ?R")
proof
  assume "create p = Ok (s, p')"
  then obtain tbl ds t1 t2 t3 p3 t4 where h: "p = t1 # t2 # t3 # p3" "is_kw ''TABLE'' t1"
    "is_ident tbl t2" "is_kind leftParen t3" "column_definitions p3 = Ok (ds, t4 # p')"
    "is_kind rightParen t4" "s = (new_statement create_op)\<lparr>table_id := tbl, definitions := ds\<rparr>"
    by (auto simp: create_def outcome_simps token_Ok)
  then obtain us where us: "ds \<noteq> []" "p3 = us @ t4 # p'" "matches (sep (map column_shape ds)) us"
    by (auto simp: defs.loop_Ok)
  then have "matches (tl (stmt_shape s)) (t1 # t2 # t3 # us @ [t4])"
    using h by (auto simp: stmt_shape_def new_statement_def intro!: matches_appendI)
  then show ?R using h us by (force simp: wf_stmt_def new_statement_def)
next
  assume r: ?R
  then obtain t1 t2 t3 us t4 where h: "p = t1 # t2 # t3 # us @ t4 # p'" "is_kw ''TABLE'' t1"
    "is_ident (table_id s) t2" "is_kind leftParen t3" "matches (sep (map column_shape (definitions s))) us"
    "is_kind rightParen t4"
    by (auto simp: stmt_shape_def matches_append)
  have "column_definitions (us @ t4 # p') = Ok (definitions s, t4 # p')"
    using r h wf_stmt_simps(1)[of s] by (intro defs.loop_complete) (auto simp: is_kind_def)
  moreover have "s = (new_statement create_op)\<lparr>table_id := table_id s, definitions := definitions s\<rparr>"
    using r wf_stmt_simps(1) by blast
  ultimately show "create p = Ok (s, p')"
    using h by (fastforce simp: create_def outcome_simps token_Ok)
qed

lemma insert_stmt_Ok:
  "insert_stmt p = Ok (s, p') \<longleftrightarrow> operation s = insert_op \<and> wf_stmt s
     \<and> (\<exists>us. p = us @ p' \<and> matches (tl (stmt_shape s)) us)" (is "_ \<longleftrightarrow> ?R")
proof
  assume "insert_stmt p = Ok (s, p')"
  then obtain tbl cs vs t1 t2 t3 p3 t4 t5 t6 p6 t7 where h: "p = t1 # t2 # t3 # p3" "is_kw ''INTO'' t1"
    "is_ident tbl t2" "is_kind leftParen t3" "identifiers p3 = Ok (cs, t4 # t5 # t6 # p6)"
    "is_kind rightParen t4" "is_kw ''VALUES'' t5" "is_kind leftParen t6"
    "insert_values p6 = Ok (vs, t7 # p')" "is_kind rightParen t7"
    "s = (new_statement insert_op)\<lparr>table_id := tbl, columns := cs, vals := vs\<rparr>"
    by (auto simp: insert_stmt_def outcome_simps token_Ok)
  then obtain us ws where us: "cs \<noteq> []" "p3 = us @ t4 # t5 # t6 # p6"
    "matches (sep (map (\<lambda>x. [is_ident x]) cs)) us" "vs \<noteq> []" "p6 = ws @ t7 # p'"
    "matches (sep (map (\<lambda>l. [is_lit l]) vs)) ws"
    by (auto simp: ids.loop_Ok lits.loop_Ok)
  then have "matches (tl (stmt_shape s)) (t1 # t2 # t3 # us @ [t4, t5, t6] @ ws @ [t7])"
    using h by (auto simp: stmt_shape_def new_statement_def intro!: matches_appendI)
  then show ?R using h us by (force simp: wf_stmt_def new_statement_def)
next
  assume r: ?R
  then obtain t1 t2 t3 us t4 t5 t6 vs t7 where h: "p = t1 # t2 # t3 # us @ t4 # t5 # t6 # vs @ t7 # p'"
    "is_kw ''INTO'' t1" "is_ident (table_id s) t2" "is_kind leftParen t3"
    "matches (sep (map (\<lambda>x. [is_ident x]) (columns s))) us" "is_kind rightParen t4" "is_kw ''VALUES'' t5"
    "is_kind leftParen t6" "matches (sep (map (\<lambda>l. [is_lit l]) (vals s))) vs" "is_kind rightParen t7"
    by (auto simp: stmt_shape_def matches_append)
  have "identifiers (us @ t4 # t5 # t6 # vs @ t7 # p') = Ok (columns s, t4 # t5 # t6 # vs @ t7 # p')"
    using r h wf_stmt_simps(2)[of s] by (intro ids.loop_complete) (auto simp: is_kind_def)
  moreover have "insert_values (vs @ t7 # p') = Ok (vals s, t7 # p')"
    using r h wf_stmt_simps(2)[of s] by (intro lits.loop_complete) (auto simp: is_kind_def)
  moreover have "s = (new_statement insert_op)\<lparr>table_id := table_id s, columns := columns s, vals := vals s\<rparr>"
    using r wf_stmt_simps(2) by blast
  ultimately show "insert_stmt p = Ok (s, p')"
    using h by (fastforce simp: insert_stmt_def outcome_simps token_Ok)
qed

lemma updateStatement_Ok:
  "updateStatement p = Ok (s, p') \<longleftrightarrow> operation s = updateRows_op \<and> wf_stmt s
     \<and> (\<exists>us. p = us @ p' \<and> matches (tl (stmt_shape s)) us)" (is "_ \<longleftrightarrow> ?R")
proof
  assume "updateStatement p = Ok (s, p')"
  then obtain tbl as t1 t2 p2 t3 us w where h: "p = t1 # t2 # p2" "is_ident tbl t1" "is_kw ''SET'' t2"
    "assignments p2 = Ok (as, t3 # us @ p')" "is_kw ''WHERE'' t3" "matches (condition_shape w) us"
    "s = (new_statement updateRows_op)\<lparr>table_id := tbl, columns := map fst as, vals := map snd as,
           predicate := Some w\<rparr>"
    by (auto simp: updateStatement_def outcome_simps token_Ok where_condition_Ok)
  then obtain vs where vs: "as \<noteq> []" "p2 = vs @ t3 # us @ p'" "matches (sep (map assignment_shape as)) vs"
    by (auto simp: asgs.loop_Ok)
  then have "matches (tl (stmt_shape s)) (t1 # t2 # vs @ t3 # us)"
    using h by (auto simp: stmt_shape_def new_statement_def zip_map_fst_snd intro!: matches_appendI)
  then show ?R using h vs by (force simp: wf_stmt_def new_statement_def)
next
  assume r: ?R
  note wf = wf_stmt_simps(4)[of s]
  from r obtain w where w: "predicate s = Some w" using wf by blast
  let ?as = "zip (columns s) (vals s)"
  from r w obtain t1 t2 us t3 vs where h: "p = t1 # t2 # us @ t3 # vs @ p'"
    "is_ident (table_id s) t1" "is_kw ''SET'' t2" "matches (sep (map assignment_shape ?as)) us"
    "is_kw ''WHERE'' t3" "matches (condition_shape w) vs"
    by (auto simp: stmt_shape_def matches_append)
  have len: "columns s \<noteq> []" "length (columns s) = length (vals s)" using r wf by blast+
  have "assignments (us @ t3 # vs @ p') = Ok (?as, t3 # vs @ p')"
    using len h by (intro asgs.loop_complete) (auto simp: is_kw_def)
  moreover have "where_condition (vs @ p') = Ok (w, p')" using h where_condition_Ok by blast
  moreover have "s = (new_statement updateRows_op)\<lparr>table_id := table_id s, columns := map fst ?as,
      vals := map snd ?as, predicate := Some w\<rparr>"
    using r w len wf by (metis map_fst_zip map_snd_zip)
  ultimately show "updateStatement p = Ok (s, p')"
    using h by (fastforce simp: updateStatement_def outcome_simps token_Ok)
qed

definition cols_shape :: "bool \<Rightarrow> ident list \<Rightarrow> shape" where
  "cols_shape everything cols =
     (if everything then [is_kind star] else sep (map (\<lambda>x. [is_ident x]) cols))"

definition where_shape :: "predicate option \<Rightarrow> shape" where
  "where_shape w = (case w of None \<Rightarrow> [] | Some w \<Rightarrow> is_kw ''WHERE'' # condition_shape w)"

text \<open>The column list of SELECT: a star, or names that are not followed by a comma.\<close>

lemma select_columns_Ok:
  "select_columns p = Ok ((e, cols), p') \<longleftrightarrow>
     (\<exists>us. p = us @ p' \<and> matches (cols_shape e cols) us) \<and> (e \<longleftrightarrow> cols = [])
       \<and> (\<not> e \<longrightarrow> p' \<noteq> [] \<and> tok_kind (hd p') \<noteq> comma)"
proof (cases e)
  case True
  have "select_columns p = Ok ((True, cols), p') \<longleftrightarrow> (\<exists>t. p = t # p' \<and> tok_kind t = star) \<and> cols = []"
    by (cases p) (auto simp: select_columns_def take_tok_def outcome_simps)
  moreover have "matches (cols_shape True cols) us \<longleftrightarrow> (\<exists>t. us = [t] \<and> tok_kind t = star)" for us
    by (simp add: cols_shape_def is_kind_def)
  ultimately show ?thesis using True by auto
next
  case False
  have "select_columns p = Ok ((e, cols), p') \<longleftrightarrow> identifiers p = Ok (cols, p')"
  proof (cases p)
    case (Cons t ts)
    then have "identifiers p = Ok (cols, p') \<Longrightarrow> tok_kind t = word_k"
      using ids.loop_Ok_one[THEN iffD1, of p cols p'] by (auto simp: is_ident_def Cons_eq_append_conv)
    then show ?thesis using False Cons
      by (auto simp: select_columns_def take_tok_def outcome_simps)
  qed (subst identifiers.simps, auto simp: select_columns_def take_tok_def p_identifier_def)
  then show ?thesis using False by (auto simp: ids.loop_Ok cols_shape_def)
qed

lemma where_clause_Ok:
  "where_clause p = Ok (w, p') \<longleftrightarrow>
     (\<exists>us. p = us @ p' \<and> matches (where_shape w) us) \<and> (w = None \<longrightarrow> p' \<noteq> [] \<and> \<not> is_kw ''WHERE'' (hd p'))"
proof (cases w)
  case None
  then show ?thesis
    by (cases p) (auto simp: where_clause_def takeKeyword_def outcome_simps where_shape_def is_kw_def)
next
  case (Some v)
  show ?thesis
  proof (cases p)
    case (Cons t ts)
    have "where_clause p = Ok (w, p') \<longleftrightarrow> is_kw ''WHERE'' t \<and> where_condition ts = Ok (v, p')"
      using Cons Some by (auto simp: where_clause_def takeKeyword_def outcome_simps is_kw_def)
    then show ?thesis using Cons Some
      by (auto simp: where_condition_Ok where_shape_def Cons_eq_append_conv)
  qed (use Some in \<open>auto simp: where_clause_def takeKeyword_def where_shape_def\<close>)
qed

lemma stmt_shape_select:
  "operation s = selectRows_op \<Longrightarrow> tl (stmt_shape s) = cols_shape (all_columns s) (columns s)
     @ [is_kw ''FROM'', is_ident (table_id s)] @ where_shape (predicate s)"
  by (simp add: stmt_shape_def cols_shape_def where_shape_def)

text \<open>A SELECT without condition looks one token ahead for WHERE.\<close>

definition where_follows :: "statement \<Rightarrow> parser \<Rightarrow> bool" where
  "where_follows s p \<longleftrightarrow> operation s = selectRows_op \<and> predicate s = None \<and> (p = [] \<or> is_kw ''WHERE'' (hd p))"

lemma selectStatement_Ok:
  "selectStatement p = Ok (s, p') \<longleftrightarrow> operation s = selectRows_op \<and> wf_stmt s
     \<and> (\<exists>us. p = us @ p' \<and> matches (tl (stmt_shape s)) us) \<and> \<not> where_follows s p'" (is "_ \<longleftrightarrow> ?R")
proof
  assume "selectStatement p = Ok (s, p')"
  then obtain e cols us t1 t2 vs tbl w where h: "p = us @ t1 # t2 # vs @ p'"
    "matches (cols_shape e cols) us" "e \<longleftrightarrow> cols = []" "is_kw ''FROM'' t1" "is_ident tbl t2"
    "matches (where_shape w) vs" "w = None \<longrightarrow> p' \<noteq> [] \<and> \<not> is_kw ''WHERE'' (hd p')"
    "s = (new_statement selectRows_op)\<lparr>all_columns := e, columns := cols, table_id := tbl, predicate := w\<rparr>"
    by (clarsimp simp: selectStatement_def outcome_simps select_columns_Ok where_clause_Ok token_Ok)
  then have s: "operation s = selectRows_op" "all_columns s = e" "columns s = cols" "table_id s = tbl"
    "predicate s = w" by (simp_all add: new_statement_def)
  have "wf_stmt s" unfolding h(8) wf_stmt_def new_statement_def using h(3) by simp
  moreover have "matches (tl (stmt_shape s)) (us @ [t1, t2] @ vs)"
    unfolding stmt_shape_select[OF s(1)] s using h by (intro matches_appendI) auto
  ultimately show ?R using h(1,7) s by (force simp: where_follows_def)
next
  assume r: ?R
  then have s: "operation s = selectRows_op" by blast
  from r obtain us t1 t2 vs where h: "p = us @ t1 # t2 # vs @ p'"
    "matches (cols_shape (all_columns s) (columns s)) us" "is_kw ''FROM'' t1" "is_ident (table_id s) t2"
    "matches (where_shape (predicate s)) vs"
    unfolding stmt_shape_select[OF s] by (auto simp: matches_append)
  have wf: "all_columns s \<longleftrightarrow> columns s = []" "s = (new_statement selectRows_op)\<lparr>all_columns := all_columns s,
      columns := columns s, table_id := table_id s, predicate := predicate s\<rparr>"
    using r wf_stmt_simps(3)[OF s] by blast+
  have nf: "predicate s = None \<longrightarrow> p' \<noteq> [] \<and> \<not> is_kw ''WHERE'' (hd p')"
    using r s by (auto simp: where_follows_def)
  have tail: "where_clause (vs @ p') = Ok (predicate s, p')" using h(5) nf by (auto simp: where_clause_Ok)
  have heads: "requireKeyword ''FROM'' (t1 # t2 # vs @ p') = Ok ((), t2 # vs @ p')"
    "p_identifier (t2 # vs @ p') = Ok (table_id s, vs @ p')" using h by (auto simp: token_Ok)
  have "select_columns p = Ok ((all_columns s, columns s), t1 # t2 # vs @ p')"
    using h wf(1) by (auto simp: select_columns_Ok is_kw_def)
  then show "selectStatement p = Ok (s, p')"
    using heads tail wf(2) by (simp add: selectStatement_def flip: wf(2))
qed

lemma takeKeyword_Cons: "takeKeyword w (t # ts) = Ok (if is_kw w t then (True, ts) else (False, t # ts))"
  by (simp add: takeKeyword_def is_kw_def)

lemma is_kw_excl:
  "is_kw ''INSERT'' t \<Longrightarrow> \<not> is_kw ''CREATE'' t" "is_kw ''SELECT'' t \<Longrightarrow> \<not> is_kw ''CREATE'' t"
  "is_kw ''UPDATE'' t \<Longrightarrow> \<not> is_kw ''CREATE'' t" "is_kw ''SELECT'' t \<Longrightarrow> \<not> is_kw ''INSERT'' t"
  "is_kw ''UPDATE'' t \<Longrightarrow> \<not> is_kw ''INSERT'' t" "is_kw ''UPDATE'' t \<Longrightarrow> \<not> is_kw ''SELECT'' t"
  using is_kw_clash keywords_differ by blast+

definition op_keyword :: "operation \<Rightarrow> string" where
  "op_keyword opr = (case opr of create_op \<Rightarrow> ''CREATE'' | insert_op \<Rightarrow> ''INSERT''
     | selectRows_op \<Rightarrow> ''SELECT'' | updateRows_op \<Rightarrow> ''UPDATE'')"

lemma stmt_shape_Cons: "stmt_shape s = is_kw (op_keyword (operation s)) # tl (stmt_shape s)"
  by (cases "operation s") (simp_all add: stmt_shape_def op_keyword_def)

lemma parse_body_Ok:
  "parse_body p = Ok (s, p') \<longleftrightarrow> wf_stmt s \<and> (\<exists>us. p = us @ p' \<and> matches (stmt_shape s) us)
     \<and> \<not> where_follows s p'"
proof (cases p)
  case Nil
  then show ?thesis by (subst stmt_shape_Cons) (auto simp: parse_body_def takeKeyword_def)
next
  case (Cons t ts)
  have "parse_body p = Ok (s, p') \<longleftrightarrow>
      is_kw ''CREATE'' t \<and> create ts = Ok (s, p') \<or> is_kw ''INSERT'' t \<and> insert_stmt ts = Ok (s, p')
    \<or> is_kw ''SELECT'' t \<and> selectStatement ts = Ok (s, p') \<or> is_kw ''UPDATE'' t \<and> updateStatement ts = Ok (s, p')"
    using is_kw_excl[of t]
    by (auto simp: Cons parse_body_def takeKeyword_Cons fail_def)
  also have "\<dots> \<longleftrightarrow> is_kw (op_keyword (operation s)) t \<and> wf_stmt s
      \<and> (\<exists>us. ts = us @ p' \<and> matches (tl (stmt_shape s)) us) \<and> \<not> where_follows s p'"
    unfolding create_Ok insert_stmt_Ok selectStatement_Ok updateStatement_Ok
    by (cases "operation s") (auto simp: op_keyword_def where_follows_def)
  also have "\<dots> \<longleftrightarrow> wf_stmt s \<and> (\<exists>us. p = us @ p' \<and> matches (stmt_shape s) us) \<and> \<not> where_follows s p'"
    by (subst (2) stmt_shape_Cons) (force simp: Cons)
  finally show ?thesis .
qed

lemma parse_tokens_Ok:
  "parse_tokens ts = Ok s \<longleftrightarrow> wf_stmt s \<and>
     (\<exists>us extra. ts = us @ extra \<and> matches (stmt_shape s @ [is_kind semicolon, is_kind end_k]) us)"
  (is "_ \<longleftrightarrow> ?R")
proof
  assume "parse_tokens ts = Ok s"
  then obtain us t1 t2 extra where "ts = us @ t1 # t2 # extra" "wf_stmt s" "matches (stmt_shape s) us"
    "is_kind semicolon t1" "is_kind end_k t2"
    by (auto simp: parse_tokens_def outcome_simps parse_body_Ok token_Ok)
  then show ?R
    by (intro conjI exI[of _ "us @ [t1, t2]"] exI[of _ extra]) (auto intro!: matches_appendI)
next
  assume ?R
  then obtain us t1 t2 extra where h: "ts = us @ t1 # t2 # extra" "wf_stmt s" "matches (stmt_shape s) us"
    "is_kind semicolon t1" "is_kind end_k t2"
    by (auto simp: matches_append)
  then have "parse_body ts = Ok (s, t1 # t2 # extra)"
    by (auto simp: parse_body_Ok where_follows_def is_kw_def is_kind_def)
  then show "parse_tokens ts = Ok s" using h by (auto simp: parse_tokens_def token_Ok outcome_simps)
qed

section \<open>The parser never reads behind the end marker\<close>

definition ended :: "parser \<Rightarrow> bool" where
  "ended p \<longleftrightarrow> p \<noteq> [] \<and> tok_kind (last p) = end_k"

text \<open>
  On tokens that end with the end marker, a parser function does not panic, reports errors at the
  position of one of the tokens, and leaves a suffix that still has the end marker.
\<close>

definition safe_result :: "parser \<Rightarrow> 'a parse_result \<Rightarrow> bool" where
  "safe_result p r = (case r of
      Ok (x, p') \<Rightarrow> ended p' \<and> set p' \<subseteq> set p
    | Err e \<Rightarrow> \<exists>t \<in> set p. Position e = tok_pos t
    | Panic \<Rightarrow> False)"

definition safe :: "(parser \<Rightarrow> 'a parse_result) \<Rightarrow> bool" where
  "safe f \<longleftrightarrow> (\<forall>p. ended p \<longrightarrow> safe_result p (f p))"

lemma ended_Cons: "ended (t # ts) \<longleftrightarrow> (if ts = [] then tok_kind t = end_k else ended ts)"
  by (simp add: ended_def)

lemma safe_result_mono: "safe_result p r \<Longrightarrow> set p \<subseteq> set q \<Longrightarrow> safe_result q r"
  by (auto simp: safe_result_def split: outcome.splits)

lemma safe_result_bind:
  assumes "safe_result p r" and "\<And>x p'. r = Ok (x, p') \<Longrightarrow> ended p' \<Longrightarrow> safe_result p' (g x p')"
  shows "safe_result p (obind r (\<lambda>(x, p). g x p))"
proof (cases r)
  case (Ok a)
  obtain x p' where a: "a = (x, p')" by force
  then have "ended p'" "set p' \<subseteq> set p" using assms(1) Ok by (simp_all add: safe_result_def)
  moreover then have "safe_result p' (g x p')" using assms(2) Ok a by simp
  ultimately show ?thesis using Ok a safe_result_mono by simp
qed (use assms(1) in \<open>simp_all add: safe_result_def\<close>)

lemma safe_bind:
  "safe f \<Longrightarrow> (\<And>x. safe (g x)) \<Longrightarrow> safe (\<lambda>p. obind (f p) (\<lambda>(x, p). g x p))"
  unfolding safe_def by (blast intro: safe_result_bind)

lemma safe_return: "safe (\<lambda>p. Ok (x, p))"
  by (simp add: safe_def safe_result_def)

lemma safe_split: "(\<And>a b. safe (h a b)) \<Longrightarrow> safe (case_prod h x)"
  by (cases x) simp

lemma safe_if: "safe f \<Longrightarrow> safe g \<Longrightarrow> safe (\<lambda>p. if b then f p else g p)"
  by (simp add: safe_def)

lemma safe_fail: "safe (fail m)"
  unfolding safe_def safe_result_def
proof (intro allI impI)
  fix p assume "ended p"
  then show "case fail m p of Ok (x, p') \<Rightarrow> ended p' \<and> set p' \<subseteq> set p
    | Err e \<Rightarrow> \<exists>t \<in> set p. Position e = tok_pos t | Panic \<Rightarrow> False"
    by (cases p) (auto simp: fail_def queryError_def ended_def)
qed

lemma safe_token:
  assumes "\<And>t ts. ended (t # ts) \<Longrightarrow> safe_result (t # ts) (f (t # ts))"
  shows "safe f"
  unfolding safe_def using assms by (metis ended_def neq_Nil_conv)

lemma safe_take_tok: "k \<noteq> end_k \<Longrightarrow> safe (take_tok k)"
  by (rule safe_token) (auto simp: take_tok_def safe_result_def ended_Cons split: if_splits)

lemma safe_takeKeyword: "safe (takeKeyword w)"
  by (rule safe_token) (auto simp: takeKeyword_def safe_result_def ended_Cons split: if_splits)

lemma safe_literal: "safe literal"
proof (rule safe_token)
  fix t ts assume e: "ended (t # ts)"
  then show "safe_result (t # ts) (literal (t # ts))"
    by (cases "tok_kind t")
       (auto simp: literal_def take_tok_def fail_def safe_result_def queryError_def ended_Cons
         split: option.splits if_splits)
qed

lemma safe_p_identifier: "safe p_identifier"
  by (rule safe_token)
     (auto simp: p_identifier_def take_tok_def fail_def safe_result_def queryError_def ended_Cons split: if_splits)

lemmas safe_rules = safe_split safe_bind safe_return safe_if safe_fail safe_takeKeyword safe_literal safe_p_identifier

lemma safe_require: "k \<noteq> end_k \<Longrightarrow> safe (require k m)"
  unfolding require_def[abs_def] by (intro safe_rules safe_take_tok)

lemma safe_requireKeyword: "safe (requireKeyword w)"
  unfolding requireKeyword_def[abs_def] by (intro safe_rules)

lemma safe_valueType: "safe valueType"
  unfolding valueType_def[abs_def] by (intro safe_rules)

locale safe_comma_loop = comma_loop +
  assumes item_safe: "safe item"
begin

lemma loop_safe_at: "ended p \<Longrightarrow> safe_result p (loop p)"
proof (induction "length p" arbitrary: p rule: less_induct)
  case less
  show ?case
  proof (subst loop_eq, intro safe_result_bind)
    show "safe_result p (item p)" using item_safe less.prems by (simp add: safe_def)
  next
    fix x p1 assume "item p = Ok (x, p1)" and p1: "ended p1"
    then have len: "length p1 \<le> length p" by (auto simp: item_Ok)
    show "safe_result p1 (take_tok comma p1)" using p1 safe_take_tok[of comma] by (simp add: safe_def)
    fix more p2 assume h: "take_tok comma p1 = Ok (more, p2)" and p2: "ended p2"
    show "safe_result p2 (if \<not> more then Ok ([x], p2) else obind (loop p2) (\<lambda>(xs, p3). Ok (x # xs, p3)))"
    proof (cases more)
      case True
      then have "length p2 < length p" using h len by (auto simp: take_tok_cases)
      then have "safe_result p2 (loop p2)" using less.hyps p2 by blast
      then show ?thesis using True by (simp, elim safe_result_bind) (simp add: safe_result_def)
    qed (simp add: safe_result_def p2)
  qed
qed

lemma loop_safe: "safe loop"
  by (simp add: safe_def loop_safe_at)

end

interpretation ids: safe_comma_loop p_identifier identifiers "\<lambda>x. [is_ident x]"
  by unfold_locales (rule safe_p_identifier)

interpretation lits: safe_comma_loop literal insert_values "\<lambda>l. [is_lit l]"
  by unfold_locales (rule safe_literal)

interpretation defs: safe_comma_loop column_item column_definitions column_shape
  by unfold_locales (unfold column_item_def[abs_def], intro safe_rules safe_valueType)

interpretation asgs: safe_comma_loop assignment_item assignments assignment_shape
  by unfold_locales (unfold assignment_item_def[abs_def], intro safe_rules safe_require, simp)

lemma safe_parse_body: "safe parse_body"
proof -
  note rules = safe_rules safe_requireKeyword safe_require safe_take_tok ids.loop_safe lits.loop_safe
    defs.loop_safe asgs.loop_safe
  have w: "safe where_condition" unfolding where_condition_def[abs_def] by (intro rules) auto
  have c: "safe create" unfolding create_def[abs_def] by (intro rules) auto
  have i: "safe insert_stmt" unfolding insert_stmt_def[abs_def] by (intro rules) auto
  have u: "safe updateStatement" unfolding updateStatement_def[abs_def] by (intro rules w)
  have wc: "safe where_clause" unfolding where_clause_def[abs_def] by (intro rules w)
  have sc: "safe select_columns" unfolding select_columns_def[abs_def] by (intro rules) auto
  have s: "safe selectStatement" unfolding selectStatement_def[abs_def] by (intro rules wc sc)
  show ?thesis unfolding parse_body_def[abs_def] by (intro rules c i u s)
qed

section \<open>Parsing a source text\<close>

lemma parse_tokens_safe:
  assumes "ended ts"
  shows "case parse_tokens ts of Ok s \<Rightarrow> True | Err e \<Rightarrow> \<exists>t \<in> set ts. Position e = tok_pos t | Panic \<Rightarrow> False"
proof -
  have body: "safe_result ts (parse_body ts)" using safe_parse_body assms by (simp add: safe_def)
  show ?thesis
  proof (cases "parse_body ts")
    case (Ok a)
    obtain s p where a: "a = (s, p)" by force
    have p: "ended p" "set p \<subseteq> set ts" using body Ok a by (auto simp: safe_result_def)
    have semi: "safe_result p (require semicolon m p)" for m
      using safe_require[of semicolon] p by (auto simp: safe_def)
    have fin: "ended q \<Longrightarrow> case require end_k m q of Ok x \<Rightarrow> True | Err e \<Rightarrow> \<exists>t \<in> set q. Position e = tok_pos t | Panic \<Rightarrow> False" for m q
      by (cases q) (auto simp: ended_def require_def take_tok_def fail_def queryError_def)
    show ?thesis
    proof (cases "require semicolon ''Expected ';' at the end of the statement'' p")
      case (Ok b)
      obtain q where b: "b = ((), q)" by (cases b) simp
      have "ended q" "set q \<subseteq> set ts" using semi[of "''Expected ';' at the end of the statement''"] Ok b p
        by (auto simp: safe_result_def)
      then show ?thesis
        using fin[of q "''Expected end of input after one statement''"] Ok a b \<open>parse_body ts = Ok a\<close>
        by (auto simp: parse_tokens_def split: outcome.splits)
    qed (use semi[of "''Expected ';' at the end of the statement''"] p a Ok
        in \<open>auto simp: parse_tokens_def safe_result_def\<close>)
  qed (use body in \<open>auto simp: parse_tokens_def safe_result_def\<close>)
qed

lemma lex_Ok_tokens:
  assumes "lex source = Ok ts"
  shows "ended ts" and "\<exists>us. ts = us @ [mk_token end_k [] (length source)] \<and> list_all (\<lambda>t. tok_kind t \<noteq> end_k) us"
    and "t \<in> set ts \<Longrightarrow> tok_pos t \<le> length source"
proof -
  have c: "covers 0 source ts" using assms by (auto simp: lex_def dest: lex_loop_covers)
  show us: "\<exists>us. ts = us @ [mk_token end_k [] (length source)] \<and> list_all (\<lambda>t. tok_kind t \<noteq> end_k) us"
    using covers_ends[OF c] by simp
  then show "ended ts" by (auto simp: ended_def mk_token_def)
  show "t \<in> set ts \<Longrightarrow> tok_pos t \<le> length source" using covers_positions[OF c] by simp
qed

lemma parse_outcome:
  "case parse source of Ok s \<Rightarrow> True | Err e \<Rightarrow> Position e \<le> length source | Panic \<Rightarrow> False"
proof (cases "lex source")
  case (Ok ts)
  then show ?thesis
    using parse_tokens_safe[OF lex_Ok_tokens(1)[OF Ok]] lex_Ok_tokens(3)[OF Ok] Ok
    by (fastforce simp: parse_def split: outcome.splits)
next
  case (Err e)
  then show ?thesis using lex_loop_err_pos[of 0 source e] by (simp add: parse_def lex_def)
next
  case Panic
  then show ?thesis using lex_loop_no_panic[of 0 source] by (simp add: lex_def)
qed

lemma list_all2_two: "list_all2 P (xs @ [a, b]) ys \<Longrightarrow> \<exists>us u v. ys = us @ [u, v] \<and> P b v"
  by (auto simp: list_all2_append1 list_all2_Cons1)

lemma parse_Ok_iff:
  "parse source = Ok s \<longleftrightarrow> wf_stmt s \<and>
     (\<exists>ts. lex source = Ok ts \<and> matches (stmt_shape s @ [is_kind semicolon, is_kind end_k]) ts)"
proof -
  have "\<exists>us. matches (stmt_shape s @ [is_kind semicolon, is_kind end_k]) us \<and> ts = us @ extra \<Longrightarrow> extra = []"
    if lx: "lex source = Ok ts" for ts extra
  proof -
    assume "\<exists>us. matches (stmt_shape s @ [is_kind semicolon, is_kind end_k]) us \<and> ts = us @ extra"
    then obtain us u v where m: "ts = us @ [u, v] @ extra" "tok_kind v = end_k"
      by (auto simp: matches_def is_kind_def dest!: list_all2_two)
    obtain ws where w: "ts = ws @ [mk_token end_k [] (length source)]" "list_all (\<lambda>t. tok_kind t \<noteq> end_k) ws"
      using lex_Ok_tokens(2)[OF lx] by blast
    show "extra = []"
    proof (rule ccontr)
      assume "extra \<noteq> []"
      then have "ws = us @ [u, v] @ butlast extra"
        using m(1) w(1) by (metis append.assoc append_butlast_last_id butlast_snoc)
      then show False using m(2) w(2) by simp
    qed
  qed
  then show ?thesis
    unfolding parse_def obind_eq_Ok parse_tokens_Ok by (metis append.right_neutral)
qed

section \<open>Properties\<close>

text \<open>C2: The parser accepts exactly the SQL subset: \<open>parse source\<close> returns a statement if and only if the
  tokens of the text have the shape of that statement, a semicolon and the end of input, and the
  statement fills exactly the fields its operation uses.\<close>

theorem parse_grammar:
  "parse source = Ok s \<longleftrightarrow> wf_stmt s \<and>
     (\<exists>ts. lex source = Ok ts \<and> matches (stmt_shape s @ [is_kind semicolon, is_kind end_k]) ts)"
  by (rule parse_Ok_iff)

text \<open>C34: Parsing any byte string ends with a statement or with an error positioned inside the text;
  the index into the token slice never runs past the end token.\<close>

theorem parse_total:
  "case parse source of Ok s \<Rightarrow> wf_stmt s | Err e \<Rightarrow> Position e \<le> length source | Panic \<Rightarrow> False"
  using parse_outcome[of source] parse_Ok_iff[of source] by (cases "parse source") auto

end
