(* ===== verification/Dbms_Database.thy ===== *)
theory Dbms_Database
  imports Dbms_Parser
begin

text \<open>
  \<^verbatim>\<open>server/dbms/database.go\<close>: the in-memory executor. Every operation returns the state together with its
  outcome, on the error paths too. The table map is nil until the first CREATE: \<^const>\<open>None\<close>.
\<close>

record column =
  col_name :: string
  col_type :: Type

record table =
  t_columns :: "column list"
  t_rows :: "Value list list"

record Database =
  tables :: "(string \<rightharpoonup> table) option"

definition new_Database :: Database where
  "new_Database = \<lparr>tables = None\<rparr>"

text \<open>Reading a nil map finds nothing; writing to it panics.\<close>

definition map_get :: "(string \<rightharpoonup> 'a) option \<Rightarrow> string \<Rightarrow> 'a option" where
  "map_get m k = (case m of None \<Rightarrow> None | Some f \<Rightarrow> f k)"

section \<open>Table operations\<close>

fun find_column :: "column list \<Rightarrow> string \<Rightarrow> nat option" where
  "find_column [] name = None"
| "find_column (c # cs) name = (if col_name c = name then Some 0 else map_option Suc (find_column cs name))"

definition columnIndex :: "table \<Rightarrow> ident \<Rightarrow> (QueryError, nat) outcome" where
  "columnIndex t x = (case find_column (t_columns t) (id_name x) of
      Some i \<Rightarrow> Ok i
    | None \<Rightarrow> Err (queryError (id_pos x) (''Unknown column: '' @ id_name x)))"

definition checkType :: "table \<Rightarrow> nat \<Rightarrow> literal \<Rightarrow> (QueryError, unit) outcome" where
  "checkType t index v =
     obind (slice_get (t_columns t) index) (\<lambda>c.
       if col_type c \<noteq> typeID (lit_value v)
       then Err (queryError (lit_pos v) (''Type mismatch for column: '' @ col_name c)) else Ok ())"

text \<open>The column loop of \<^verbatim>\<open>insert\<close>, lines 73 to 86.\<close>

fun insert_columns :: "table \<Rightarrow> literal list \<Rightarrow> nat \<Rightarrow> ident list \<Rightarrow> nat set \<Rightarrow> Value list
    \<Rightarrow> (QueryError, nat set \<times> Value list) outcome" where
  "insert_columns t vs i [] seen row = Ok (seen, row)"
| "insert_columns t vs i (c # cs) seen row =
     obind (columnIndex t c) (\<lambda>index.
       if index \<in> seen then Err (queryError (id_pos c) (''Duplicate INSERT column: '' @ id_name c))
       else obind (slice_get vs i) (\<lambda>v.
            obind (checkType t index v) (\<lambda>_.
            obind (slice_set row index (lit_value v)) (\<lambda>row.
              insert_columns t vs (i + 1) cs (Set.insert index seen) row))))"

definition table_insert :: "table \<Rightarrow> statement \<Rightarrow> table \<times> (QueryError, Result) outcome" where
  "table_insert t s =
     (if length (columns s) \<noteq> length (vals s)
      then (t, Err (queryError (id_pos (table_id s)) ''INSERT column count does not match value count''))
      else case insert_columns t (vals s) 0 (columns s) {} (replicate (length (t_columns t)) zero_Value) of
             Err e \<Rightarrow> (t, Err e)
           | Panic \<Rightarrow> (t, Panic)
           | Ok (seen, row) \<Rightarrow>
               if card seen \<noteq> length (t_columns t)
               then (t, Err (queryError (id_pos (table_id s))
                      ''INSERT must provide every column exactly once; NULL/defaults are unsupported''))
               else (t\<lparr>t_rows := t_rows t @ [row]\<rparr>, Ok empty_Result))"

text \<open>The projection of \<^verbatim>\<open>selectRows\<close>, lines 96 to 112: indices, names and types of the result columns.\<close>

fun select_projection :: "table \<Rightarrow> ident list \<Rightarrow> (QueryError, nat list \<times> string list \<times> Type list) outcome" where
  "select_projection t [] = Ok ([], [], [])"
| "select_projection t (c # cs) =
     obind (columnIndex t c) (\<lambda>i.
     obind (slice_get (t_columns t) i) (\<lambda>col.
     obind (select_projection t cs) (\<lambda>(is, names, types).
       Ok (i # is, id_name c # names, col_type col # types))))"

definition project_columns :: "table \<Rightarrow> statement \<Rightarrow> (QueryError, nat list \<times> string list \<times> Type list) outcome" where
  "project_columns t s =
     (if all_columns s
      then Ok ([0..<length (t_columns t)], map col_name (t_columns t), map col_type (t_columns t))
      else select_projection t (columns s))"

text \<open>Lines 113 to 123: the index of the WHERE column, \<^const>\<open>None\<close> for \<^verbatim>\<open>-1\<close>.\<close>

definition select_filter :: "table \<Rightarrow> predicate option \<Rightarrow> (QueryError, (nat \<times> Value) option) outcome" where
  "select_filter t w = (case w of
      None \<Rightarrow> Ok None
    | Some w \<Rightarrow>
        obind (columnIndex t (pred_column w)) (\<lambda>i.
        obind (checkType t i (pred_literal w)) (\<lambda>_.
          Ok (Some (i, lit_value (pred_literal w))))))"

fun project_row :: "nat list \<Rightarrow> Value list \<Rightarrow> (QueryError, Value list) outcome" where
  "project_row [] row = Ok []"
| "project_row (i # is) row =
     obind (slice_get row i) (\<lambda>v. obind (project_row is row) (\<lambda>vs. Ok (v # vs)))"

fun select_loop :: "nat list \<Rightarrow> (nat \<times> Value) option \<Rightarrow> Value list list \<Rightarrow> (QueryError, Value list list) outcome" where
  "select_loop sel flt [] = Ok []"
| "select_loop sel flt (row # rows) =
     obind (case flt of None \<Rightarrow> Ok True
            | Some (i, v) \<Rightarrow> obind (slice_get row i) (\<lambda>x. Ok (Value_eq x v))) (\<lambda>keep.
       if \<not> keep then select_loop sel flt rows
       else obind (project_row sel row) (\<lambda>projected.
            obind (select_loop sel flt rows) (\<lambda>rest. Ok (projected # rest))))"

definition table_select :: "table \<Rightarrow> statement \<Rightarrow> (QueryError, Result) outcome" where
  "table_select t s =
     obind (project_columns t s) (\<lambda>(sel, names, types).
     obind (select_filter t (predicate s)) (\<lambda>flt.
     obind (select_loop sel flt (t_rows t)) (\<lambda>rows.
       Ok \<lparr>Columns = names, Types = types, Rows = rows\<rparr>)))"

text \<open>The validation loop of \<^verbatim>\<open>updateRows\<close>, lines 138 to 153.\<close>

fun update_columns :: "table \<Rightarrow> literal list \<Rightarrow> nat \<Rightarrow> ident list \<Rightarrow> nat set \<Rightarrow> (QueryError, nat list) outcome" where
  "update_columns t vs i [] seen = Ok []"
| "update_columns t vs i (c # cs) seen =
     obind (columnIndex t c) (\<lambda>index.
       if index \<in> seen then Err (queryError (id_pos c) (''Duplicate UPDATE column: '' @ id_name c))
       else obind (slice_get vs i) (\<lambda>v.
            obind (checkType t index v) (\<lambda>_.
            obind (update_columns t vs (i + 1) cs (Set.insert index seen)) (\<lambda>is. Ok (index # is)))))"

fun assign_row :: "literal list \<Rightarrow> nat \<Rightarrow> nat list \<Rightarrow> Value list \<Rightarrow> (QueryError, Value list) outcome" where
  "assign_row vs i [] row = Ok row"
| "assign_row vs i (index # is) row =
     obind (slice_get vs i) (\<lambda>v.
     obind (slice_set row index (lit_value v)) (\<lambda>row.
       assign_row vs (i + 1) is row))"

fun update_loop :: "nat \<Rightarrow> Value \<Rightarrow> nat list \<Rightarrow> literal list \<Rightarrow> Value list list \<Rightarrow> (QueryError, Value list list) outcome" where
  "update_loop flt v is vs [] = Ok []"
| "update_loop flt v is vs (row # rows) =
     obind (slice_get row flt) (\<lambda>x.
     obind (if \<not> Value_eq x v then Ok row else assign_row vs 0 is row) (\<lambda>row'.
     obind (update_loop flt v is vs rows) (\<lambda>rows'. Ok (row' # rows'))))"

definition table_update :: "table \<Rightarrow> statement \<Rightarrow> table \<times> (QueryError, Result) outcome" where
  "table_update t s =
     (case update_columns t (vals s) 0 (columns s) {} of
        Err e \<Rightarrow> (t, Err e)
      | Panic \<Rightarrow> (t, Panic)
      | Ok indices \<Rightarrow>
          (case predicate s of
             None \<Rightarrow> (t, Panic)
           | Some w \<Rightarrow>
               (case obind (columnIndex t (pred_column w)) (\<lambda>flt.
                     obind (checkType t flt (pred_literal w)) (\<lambda>_. Ok flt)) of
                  Err e \<Rightarrow> (t, Err e)
                | Panic \<Rightarrow> (t, Panic)
                | Ok flt \<Rightarrow>
                    (case update_loop flt (lit_value (pred_literal w)) indices (vals s) (t_rows t) of
                       Err e \<Rightarrow> (t, Err e)
                     | Panic \<Rightarrow> (t, Panic)
                     | Ok rows' \<Rightarrow> (t\<lparr>t_rows := rows'\<rparr>, Ok empty_Result)))))"

section \<open>Execute\<close>

text \<open>The column loop of CREATE, lines 28 to 34.\<close>

fun create_columns :: "columnDefinition list \<Rightarrow> string set \<Rightarrow> (QueryError, column list) outcome" where
  "create_columns [] names = Ok []"
| "create_columns (c # cs) names =
     (if id_name (def_id c) \<in> names
      then Err (queryError (id_pos (def_id c)) (''Duplicate column: '' @ id_name (def_id c)))
      else obind (create_columns cs (Set.insert (id_name (def_id c)) names)) (\<lambda>cols.
             Ok (\<lparr>col_name = id_name (def_id c), col_type = def_type c\<rparr> # cols)))"

definition create_table :: "Database \<Rightarrow> statement \<Rightarrow> Database \<times> (QueryError, Result) outcome" where
  "create_table db s =
     (let name = id_name (table_id s)
      in if map_get (tables db) name \<noteq> None
         then (db, Err (queryError (id_pos (table_id s)) (''Table already exists: '' @ name)))
         else case create_columns (definitions s) {} of
                Err e \<Rightarrow> (db, Err e)
              | Panic \<Rightarrow> (db, Panic)
              | Ok cols \<Rightarrow>
                  let db1 = (if tables db = None then db\<lparr>tables := Some Map.empty\<rparr> else db)
                  in case tables db1 of
                       None \<Rightarrow> (db1, Panic)
                     | Some m \<Rightarrow> (db1\<lparr>tables := Some (m(name \<mapsto> \<lparr>t_columns = cols, t_rows = []\<rparr>))\<rparr>,
                                Ok empty_Result))"

text \<open>A table is held by pointer: what an operation makes of it is what the map holds afterwards.\<close>

definition put_table :: "Database \<Rightarrow> string \<Rightarrow> table \<Rightarrow> Database" where
  "put_table db name t = db\<lparr>tables := map_option (\<lambda>m. m(name \<mapsto> t)) (tables db)\<rparr>"

definition execute_statement :: "Database \<Rightarrow> statement \<Rightarrow> Database \<times> (QueryError, Result) outcome" where
  "execute_statement db s =
     (if operation s = create_op then create_table db s
      else let name = id_name (table_id s) in case map_get (tables db) name of
             None \<Rightarrow> (db, Err (queryError (id_pos (table_id s)) (''Unknown table: '' @ name)))
           | Some t \<Rightarrow>
               if operation s = insert_op then let (t', r) = table_insert t s in (put_table db name t', r)
               else if operation s = updateRows_op then let (t', r) = table_update t s in (put_table db name t', r)
               else (db, table_select t s))"

definition Execute :: "Database \<Rightarrow> string \<Rightarrow> Database \<times> (QueryError, Result) outcome" where
  "Execute db source = (case parse source of
      Err e \<Rightarrow> (db, Err e)
    | Panic \<Rightarrow> (db, Panic)
    | Ok s \<Rightarrow> execute_statement db s)"

end
