(* ===== verification/Dbms_Spec.thy ===== *)
theory Dbms_Spec
  imports Dbms_Database
begin

text \<open>
  The abstract specification of the SQL subset of \<^verbatim>\<open>spec/sql.md\<close>, and the proof that the executor
  refines it. A row is a partial function from column names to typed values, so no index, no slice
  and no column order occurs in the specification.
\<close>

section \<open>Abstract statements, tables and their semantics\<close>

datatype sql_stmt =
    SCreate string "(string \<times> Type) list"
  | SInsert string "string list" "sql_value list"
  | SSelect "string list option" string "(string \<times> sql_value) option"
  | SUpdate string "(string \<times> sql_value) list" "string \<times> sql_value"

type_synonym sql_row = "string \<rightharpoonup> sql_value"

record sql_table =
  schema :: "(string \<times> Type) list"
  content :: "sql_row list"

type_synonym sql_db = "string \<rightharpoonup> sql_table"
type_synonym sql_result = "string list \<times> Type list \<times> sql_value list list"

definition typed :: "sql_table \<Rightarrow> string \<times> sql_value \<Rightarrow> bool" where
  "typed t a \<longleftrightarrow> map_of (schema t) (fst a) = Some (sql_type_of (snd a))"

definition spec_insert :: "string list \<Rightarrow> sql_value list \<Rightarrow> sql_table \<Rightarrow> sql_table option" where
  "spec_insert cs vs t =
     (if length cs = length vs \<and> distinct cs \<and> set cs = fst ` set (schema t) \<and> list_all (typed t) (zip cs vs)
      then Some (t\<lparr>content := content t @ [map_of (zip cs vs)]\<rparr>) else None)"

definition spec_update :: "(string \<times> sql_value) list \<Rightarrow> string \<times> sql_value \<Rightarrow> sql_table \<Rightarrow> sql_table option" where
  "spec_update as w t =
     (if distinct (map fst as) \<and> list_all (typed t) as \<and> typed t w
      then Some (t\<lparr>content := map (\<lambda>r. if r (fst w) = Some (snd w) then r ++ map_of as else r) (content t)\<rparr>)
      else None)"

definition spec_select :: "string list option \<Rightarrow> (string \<times> sql_value) option \<Rightarrow> sql_table \<Rightarrow> sql_result option" where
  "spec_select sel w t =
     (let cs = (case sel of None \<Rightarrow> map fst (schema t) | Some cs \<Rightarrow> cs)
      in if set cs \<subseteq> fst ` set (schema t) \<and> (case w of None \<Rightarrow> True | Some a \<Rightarrow> typed t a)
         then Some (cs, map (the \<circ> map_of (schema t)) cs,
           map (\<lambda>r. map (the \<circ> r) cs)
             (filter (\<lambda>r. case w of None \<Rightarrow> True | Some a \<Rightarrow> r (fst a) = Some (snd a)) (content t)))
         else None)"

text \<open>One statement: the new database and the result, or \<^const>\<open>None\<close> when it is rejected.\<close>

fun spec_exec :: "sql_stmt \<Rightarrow> sql_db \<Rightarrow> (sql_db \<times> sql_result) option" where
  "spec_exec (SCreate n cols) db =
     (if db n = None \<and> distinct (map fst cols)
      then Some (db(n \<mapsto> \<lparr>schema = cols, content = []\<rparr>), ([], [], [])) else None)"
| "spec_exec (SInsert n cs vs) db =
     Option.bind (db n) (\<lambda>t. map_option (\<lambda>t'. (db(n \<mapsto> t'), ([], [], []))) (spec_insert cs vs t))"
| "spec_exec (SSelect sel n w) db =
     Option.bind (db n) (\<lambda>t. map_option (\<lambda>r. (db, r)) (spec_select sel w t))"
| "spec_exec (SUpdate n as w) db =
     Option.bind (db n) (\<lambda>t. map_option (\<lambda>t'. (db(n \<mapsto> t'), ([], [], []))) (spec_update as w t))"

section \<open>Abstraction\<close>

definition abs_lit :: "literal \<Rightarrow> sql_value" where
  "abs_lit l = abs_Value (lit_value l)"

definition abs_pred :: "predicate \<Rightarrow> string \<times> sql_value" where
  "abs_pred w = (id_name (pred_column w), abs_lit (pred_literal w))"

definition abs_stmt :: "statement \<Rightarrow> sql_stmt" where
  "abs_stmt s = (let n = id_name (table_id s) in case operation s of
      create_op \<Rightarrow> SCreate n (map (\<lambda>d. (id_name (def_id d), def_type d)) (definitions s))
    | insert_op \<Rightarrow> SInsert n (map id_name (columns s)) (map abs_lit (vals s))
    | selectRows_op \<Rightarrow> SSelect (if all_columns s then None else Some (map id_name (columns s))) n
        (map_option abs_pred (predicate s))
    | updateRows_op \<Rightarrow> SUpdate n (zip (map id_name (columns s)) (map abs_lit (vals s)))
        (abs_pred (the (predicate s))))"

definition abs_row :: "column list \<Rightarrow> Value list \<Rightarrow> sql_row" where
  "abs_row cols row = map_of (zip (map col_name cols) (map abs_Value row))"

definition abs_table :: "table \<Rightarrow> sql_table" where
  "abs_table t = \<lparr>schema = map (\<lambda>c. (col_name c, col_type c)) (t_columns t),
                  content = map (abs_row (t_columns t)) (t_rows t)\<rparr>"

definition abs_db :: "Database \<Rightarrow> sql_db" where
  "abs_db db n = map_option abs_table (map_get (tables db) n)"

definition abs_result :: "Result \<Rightarrow> sql_result" where
  "abs_result r = (Columns r, Types r, map (map abs_Value) (Rows r))"

section \<open>Invariants\<close>

definition wf_row :: "column list \<Rightarrow> Value list \<Rightarrow> bool" where
  "wf_row cols row \<longleftrightarrow> list_all2 (\<lambda>c v. typeID v = col_type c \<and> wf_Value v) cols row"

definition wf_table :: "table \<Rightarrow> bool" where
  "wf_table t \<longleftrightarrow> t_columns t \<noteq> [] \<and> distinct (map col_name (t_columns t))
     \<and> list_all (wf_row (t_columns t)) (t_rows t)"

definition wf_db :: "Database \<Rightarrow> bool" where
  "wf_db db \<longleftrightarrow> (\<forall>n t. map_get (tables db) n = Some t \<longrightarrow> wf_table t)"

definition wf_literals :: "statement \<Rightarrow> bool" where
  "wf_literals s \<longleftrightarrow> list_all (\<lambda>l. wf_Value (lit_value l)) (vals s)
     \<and> (case predicate s of None \<Rightarrow> True | Some w \<Rightarrow> wf_Value (lit_value (pred_literal w)))"

section \<open>Columns\<close>

lemma find_column_Some:
  assumes "distinct (map col_name cols)"
  shows "find_column cols n = Some i \<longleftrightarrow> i < length cols \<and> col_name (cols ! i) = n"
  using assms
proof (induction cols n arbitrary: i rule: find_column.induct)
  case (2 c cs n)
  show ?case
  proof (cases i)
    case 0
    then show ?thesis by auto
  next
    case (Suc j)
    have "col_name (cs ! j) \<noteq> col_name c" if "j < length cs"
      using 2(2) nth_mem[OF that] by (auto simp: image_iff)
    then show ?thesis using Suc 2 by auto
  qed
qed simp

lemma find_column_bound: "find_column cols n = Some i \<Longrightarrow> i < length cols \<and> col_name (cols ! i) = n"
  by (induction cols n arbitrary: i rule: find_column.induct) (auto split: if_splits)

lemma find_column_None: "find_column cols n = None \<longleftrightarrow> n \<notin> col_name ` set cols"
  by (induction cols n rule: find_column.induct) auto

lemma map_of_schema: "map_of (schema (abs_table t)) n =
    map_option (\<lambda>i. col_type (t_columns t ! i)) (find_column (t_columns t) n)"
proof -
  have "map_of (map (\<lambda>c. (col_name c, col_type c)) cols) n = map_option (\<lambda>i. col_type (cols ! i)) (find_column cols n)" for cols
    by (induction cols n rule: find_column.induct) (auto simp: option.map_comp comp_def)
  then show ?thesis by (simp add: abs_table_def)
qed

lemma schema_names: "fst ` set (schema (abs_table t)) = col_name ` set (t_columns t)"
  by (auto simp: abs_table_def image_image)

lemma columnIndex_Ok: "columnIndex t x = Ok i \<longleftrightarrow> find_column (t_columns t) (id_name x) = Some i"
  by (auto simp: columnIndex_def split: option.splits)

lemma columnIndex_no_panic: "columnIndex t x \<noteq> Panic"
  by (auto simp: columnIndex_def split: option.splits)

lemma checkType_Ok:
  "checkType t i v = Ok u \<longleftrightarrow> i < length (t_columns t) \<and> col_type (t_columns t ! i) = typeID (lit_value v)"
  by (auto simp: checkType_def outcome_simps)

lemma checkType_no_panic: "i < length (t_columns t) \<Longrightarrow> checkType t i v \<noteq> Panic"
  by (auto simp: checkType_def outcome_simps go_slice)

text \<open>The validation of one WHERE column and its literal, against the specification.\<close>

lemma typed_iff:
  "typed (abs_table t) (id_name x, abs_lit v) \<longleftrightarrow> (\<exists>i. columnIndex t x = Ok i \<and> checkType t i v = Ok ())"
  by (auto simp: typed_def map_of_schema columnIndex_Ok checkType_Ok abs_lit_def dest: find_column_bound)


section \<open>Resolving a column list\<close>

text \<open>The names of an identifier list resolve to the columns that carry them.\<close>

lemma resolve:
  assumes "distinct (map col_name (t_columns t))"
  shows "map (columnIndex t) cs = map Ok is \<longleftrightarrow>
     map id_name cs = map (\<lambda>k. col_name (t_columns t ! k)) is \<and> (\<forall>k \<in> set is. k < length (t_columns t))"
  using find_column_Some[OF assms]
proof (induction cs arbitrary: "is")
  case (Cons c cs)
  then show ?case by (cases "is") (auto simp: columnIndex_Ok)
qed auto

lemma resolve_exists:
  assumes "id_name ` set cs \<subseteq> col_name ` set (t_columns t)"
  shows "\<exists>is. map (columnIndex t) cs = map Ok is"
  using assms
proof (induction cs)
  case (Cons c cs)
  then obtain "is" where "map (columnIndex t) cs = map Ok is" by auto
  moreover have "find_column (t_columns t) (id_name c) \<noteq> None" using Cons.prems by (simp add: find_column_None)
  then obtain i where "columnIndex t c = Ok i" by (auto simp: columnIndex_Ok)
  ultimately have "map (columnIndex t) (c # cs) = map Ok (i # is)" by simp
  then show ?case by blast
qed simp

lemma resolve_bound: "map (columnIndex t) cs = map Ok is \<Longrightarrow> k \<in> set is \<Longrightarrow> k < length (t_columns t)"
  by (induction cs arbitrary: "is") (auto simp: columnIndex_Ok dest: find_column_bound)

lemma resolve_distinct:
  assumes "distinct (map col_name (t_columns t))" "\<forall>k \<in> set is. k < length (t_columns t)"
  shows "distinct (map (\<lambda>k. col_name (t_columns t ! k)) is) \<longleftrightarrow> distinct is"
proof -
  have "inj_on (\<lambda>k. col_name (t_columns t ! k)) (set is)"
    using assms by (auto simp: inj_on_def distinct_conv_nth)
  then show ?thesis by (simp add: distinct_map)
qed

lemma update_columns_Ok:
  "update_columns t vs i cs seen = Ok is \<longleftrightarrow>
     map (columnIndex t) cs = map Ok is \<and> distinct is \<and> set is \<inter> seen = {} \<and> length cs \<le> length (drop i vs)
     \<and> list_all (\<lambda>(k, v). checkType t k v = Ok ()) (zip is (drop i vs))"
proof (induction t vs i cs seen arbitrary: "is" rule: update_columns.induct)
  case (2 t vs i c cs seen)
  show ?case
  proof (cases "i < length vs")
    case True
    then have "drop i vs = vs ! i # drop (Suc i) vs" by (simp add: Cons_nth_drop_Suc)
    then show ?thesis using 2 True
      by (cases "is") (auto simp: outcome_simps go_slice)
  next
    case False
    then show ?thesis by (auto simp: outcome_simps)
  qed
qed auto

lemma update_columns_no_panic:
  "length cs \<le> length (drop i vs) \<Longrightarrow> update_columns t vs i cs seen \<noteq> Panic"
proof (induction t vs i cs seen rule: update_columns.induct)
  case (2 t vs i c cs seen)
  then show ?case
    by (auto simp: outcome_simps columnIndex_no_panic go_slice columnIndex_Ok checkType_no_panic
        dest: find_column_bound)
qed simp

lemma insert_columns_Ok:
  "insert_columns t vs i cs seen row = Ok (seen', row') \<longleftrightarrow>
     (\<exists>is. update_columns t vs i cs seen = Ok is \<and> seen' = seen \<union> set is \<and> assign_row vs i is row = Ok row')"
proof (induction t vs i cs seen row rule: insert_columns.induct)
  case (2 t vs i c cs seen row)
  show ?case
  proof (cases "\<exists>x. columnIndex t c = Ok x \<and> x \<notin> seen \<and> i < length vs \<and> checkType t x (vs ! i) = Ok () \<and> x < length row")
    case True
    then obtain x where x: "columnIndex t c = Ok x" "x \<notin> seen" "i < length vs" "checkType t x (vs ! i) = Ok ()"
      "x < length row" by blast
    then have "insert_columns t vs (i + 1) cs (insert x seen) (row[x := lit_value (vs ! i)]) = Ok (seen', row') \<longleftrightarrow>
      (\<exists>is. update_columns t vs (i + 1) cs (insert x seen) = Ok is \<and> seen' = insert x seen \<union> set is
        \<and> assign_row vs (i + 1) is (row[x := lit_value (vs ! i)]) = Ok row')"
      by (intro 2) (simp_all add: go_slice)
    then have "insert_columns t vs i (c # cs) seen row = Ok (seen', row') \<longleftrightarrow>
      (\<exists>is. update_columns t vs (i + 1) cs (insert x seen) = Ok is \<and> seen' = insert x seen \<union> set is
        \<and> assign_row vs (i + 1) is (row[x := lit_value (vs ! i)]) = Ok row')"
      using x by (simp add: go_slice)
    moreover have "update_columns t vs i (c # cs) seen = Ok js \<longleftrightarrow>
      (\<exists>is. js = x # is \<and> update_columns t vs (i + 1) cs (insert x seen) = Ok is)" for js
      using x by (auto simp: go_slice outcome_simps)
    moreover have "assign_row vs i (x # is) row = assign_row vs (i + 1) is (row[x := lit_value (vs ! i)])" for "is"
      using x by (simp add: go_slice)
    ultimately show ?thesis by (simp only: ) (metis Un_insert_left Un_insert_right list.set(2))
  next
    case False
    then show ?thesis by (auto simp: outcome_simps slice_set_def split: if_splits)
  qed
qed auto

lemma insert_columns_no_panic:
  "length cs \<le> length (drop i vs) \<Longrightarrow> length row = length (t_columns t) \<Longrightarrow>
     insert_columns t vs i cs seen row \<noteq> Panic"
proof (induction t vs i cs seen row rule: insert_columns.induct)
  case (2 t vs i c cs seen row)
  then show ?case
    by (auto simp: outcome_simps columnIndex_no_panic go_slice columnIndex_Ok checkType_no_panic
        slice_set_def split: if_splits dest: find_column_bound)
qed simp

section \<open>Assigning to a row\<close>

abbreviation assign_all :: "(nat \<times> literal) list \<Rightarrow> Value list \<Rightarrow> Value list" where
  "assign_all \<equiv> fold (\<lambda>(k, v) row. row[k := lit_value v])"

lemma assign_all_length [simp]: "length (assign_all kvs row) = length row"
  by (induction kvs arbitrary: row) auto

lemma assign_row_eq:
  "length is \<le> length (drop i vs) \<Longrightarrow> \<forall>k \<in> set is. k < length row \<Longrightarrow>
     assign_row vs i is row = Ok (assign_all (zip is (drop i vs)) row)"
proof (induction vs i "is" row rule: assign_row.induct)
  case (2 vs i index "is" row)
  then have "i < length vs" "drop i vs = vs ! i # drop (Suc i) vs" by (simp_all add: Cons_nth_drop_Suc)
  then show ?case using 2 by (simp add: go_slice)
qed simp

lemma assign_all_nth:
  "distinct (map fst kvs) \<Longrightarrow> j < length row \<Longrightarrow>
     assign_all kvs row ! j = (case map_of kvs j of None \<Rightarrow> row ! j | Some v \<Rightarrow> lit_value v)"
proof (induction kvs arbitrary: row)
  case (Cons a kvs)
  have "map_of kvs (fst a) = None" using Cons.prems by (simp add: map_of_eq_None_iff)
  then show ?case using Cons by (cases a) (auto split: option.splits)
qed simp

lemma abs_row_assign_all:
  assumes "distinct (map col_name cols)" "length row = length cols" "\<forall>k \<in> fst ` set kvs. k < length cols"
    and "distinct (map fst kvs)"
  shows "abs_row cols (assign_all kvs row) =
           abs_row cols row ++ map_of (map (\<lambda>(k, v). (col_name (cols ! k), abs_lit v)) kvs)"
  using assms(2-4)
proof (induction kvs arbitrary: row)
  case (Cons a kvs)
  obtain k v where a: "a = (k, v)" by force
  have upd: "abs_row cols (row[k := lit_value v]) = (abs_row cols row)(col_name (cols ! k) \<mapsto> abs_lit v)"
    using map_of_zip_update[OF assms(1), of "map abs_Value row" k "abs_lit v"] Cons.prems a
    by (simp add: abs_row_def abs_lit_def map_update)
  have "col_name (cols ! k) \<noteq> col_name (cols ! j)" if "j \<in> fst ` set kvs" for j
  proof -
    have "k \<noteq> j" "k < length cols" "j < length cols" using Cons.prems a that by auto
    then show ?thesis using nth_eq_iff_index_eq[OF assms(1), of k j] by simp
  qed
  then have "col_name (cols ! k) \<notin> dom (map_of (map (\<lambda>(k, v). (col_name (cols ! k), abs_lit v)) kvs))"
    by (auto simp: dom_map_of_conv_image_fst image_image split_def)
  then show ?case using Cons a upd by (simp add: map_add_upd_left del: fun_upd_apply)
qed simp

lemma wf_row_nth:
  "wf_row cols row \<longleftrightarrow> length row = length cols \<and>
     (\<forall>j < length cols. typeID (row ! j) = col_type (cols ! j) \<and> wf_Value (row ! j))"
  by (auto simp: wf_row_def list_all2_conv_all_nth)


text \<open>
  The column lists of INSERT and UPDATE are validated alike: names known and distinct, one value for
  each, of the column's type.
\<close>

lemma zip_names:
  assumes "map id_name cs = map f is"
  shows "zip (map id_name cs) (map abs_lit vs) = map (\<lambda>(k, v). (f k, abs_lit v)) (zip is vs)"
  unfolding assms by (simp add: zip_map_map)

lemma typed_index:
  assumes "distinct (map col_name (t_columns t))" "k < length (t_columns t)"
  shows "typed (abs_table t) (col_name (t_columns t ! k), abs_lit v) \<longleftrightarrow> checkType t k v = Ok ()"
  using find_column_Some[OF assms(1), of "col_name (t_columns t ! k)" k] assms(2)
  by (auto simp: typed_def map_of_schema checkType_Ok abs_lit_def)

lemma validated:
  assumes d: "distinct (map col_name (t_columns t))" and l: "length cs = length vs"
  shows "update_columns t vs 0 cs {} = Ok is \<longleftrightarrow>
     map id_name cs = map (\<lambda>k. col_name (t_columns t ! k)) is \<and> (\<forall>k \<in> set is. k < length (t_columns t))
     \<and> distinct (map id_name cs) \<and> list_all (typed (abs_table t)) (zip (map id_name cs) (map abs_lit vs))"
    (is "_ \<longleftrightarrow> ?R")
proof -
  have "list_all (\<lambda>(k, v). checkType t k v = Ok ()) (zip is vs) \<longleftrightarrow>
      list_all (typed (abs_table t)) (zip (map id_name cs) (map abs_lit vs))"
    if "map id_name cs = map (\<lambda>k. col_name (t_columns t ! k)) is" "\<forall>k \<in> set is. k < length (t_columns t)"
    using that(2) unfolding zip_names[OF that(1)]
    by (fastforce simp: list_all_iff typed_index[OF d] dest: set_zip_leftD)
  then show ?thesis
    unfolding update_columns_Ok resolve[OF d] using l resolve_distinct[OF d, of "is"]
    by (metis Int_empty_right drop0 order_refl)
qed

lemma validated_iff:
  assumes d: "distinct (map col_name (t_columns t))" and l: "length cs = length vs"
  shows "(\<exists>is. update_columns t vs 0 cs {} = Ok is) \<longleftrightarrow>
     distinct (map id_name cs) \<and> list_all (typed (abs_table t)) (zip (map id_name cs) (map abs_lit vs))"
    (is "_ \<longleftrightarrow> ?R")
proof
  assume r: ?R
  have "id_name ` set cs \<subseteq> col_name ` set (t_columns t)"
  proof
    fix n assume "n \<in> id_name ` set cs"
    then obtain j where j: "j < length cs" "n = id_name (cs ! j)" by (auto simp: in_set_conv_nth)
    then have "(n, abs_lit (vs ! j)) \<in> set (zip (map id_name cs) (map abs_lit vs))"
      using l by (auto simp: set_zip intro!: exI[of _ j])
    then have "typed (abs_table t) (n, abs_lit (vs ! j))" using r by (auto simp: list_all_iff)
    then show "n \<in> col_name ` set (t_columns t)"
      by (auto simp: typed_def schema_names[symmetric] dest!: map_of_SomeD) (metis fst_conv image_eqI)
  qed
  then obtain "is" where "map (columnIndex t) cs = map Ok is" using resolve_exists by blast
  then show "\<exists>is. update_columns t vs 0 cs {} = Ok is"
    using r unfolding validated[OF d l] resolve[OF d] by blast
qed (auto simp: validated[OF d l])

lemma assigned_wf:
  assumes "length row = length cols" "distinct (map fst kvs)"
    and "\<forall>(k, v) \<in> set kvs. k < length cols \<and> col_type (cols ! k) = typeID (lit_value v) \<and> wf_Value (lit_value v)"
    and "\<forall>j < length cols. j \<notin> fst ` set kvs \<longrightarrow> typeID (row ! j) = col_type (cols ! j) \<and> wf_Value (row ! j)"
  shows "wf_row cols (assign_all kvs row)"
  unfolding wf_row_nth
proof (intro conjI allI impI)
  fix j assume j: "j < length cols"
  show "typeID (assign_all kvs row ! j) = col_type (cols ! j)" "wf_Value (assign_all kvs row ! j)"
    using assms j by (auto simp: assign_all_nth map_of_eq_None_iff simp del: wf_Value.simps split: option.split dest!: map_of_SomeD)
qed (use assms in simp)


section \<open>Each operation refines its specification\<close>

text \<open>
  A table operation answers as the specification does: on success the new table stands for the
  specified one and is well-formed, on an error the table is unchanged and the specification rejects
  the statement, and it does not panic.
\<close>

definition implements :: "table \<Rightarrow> table \<times> (QueryError, Result) outcome \<Rightarrow> sql_table option \<Rightarrow> bool" where
  "implements t tr spec = (case tr of
      (t', Ok r) \<Rightarrow> spec = Some (abs_table t') \<and> r = empty_Result \<and> wf_table t'
    | (t', Err e) \<Rightarrow> t' = t \<and> spec = None
    | (t', Panic) \<Rightarrow> False)"

lemma implements_simps [simp]:
  "implements t (t', Ok r) spec \<longleftrightarrow> spec = Some (abs_table t') \<and> r = empty_Result \<and> wf_table t'"
  "implements t (t', Err e) spec \<longleftrightarrow> t' = t \<and> spec = None"
  "\<not> implements t (t', Panic) spec"
  by (simp_all add: implements_def)

lemma wf_tableD:
  assumes "wf_table t"
  shows "distinct (map col_name (t_columns t))" and "row \<in> set (t_rows t) \<Longrightarrow> wf_row (t_columns t) row"
  using assms by (auto simp: wf_table_def list_all_iff)

lemma checked_values:
  assumes "update_columns t vs 0 cs {} = Ok is" "list_all (\<lambda>l. wf_Value (lit_value l)) vs"
  shows "\<forall>(k, v) \<in> set (zip is vs). k < length (t_columns t) \<and> col_type (t_columns t ! k) = typeID (lit_value v)
     \<and> wf_Value (lit_value v)"
proof (clarify)
  fix k v assume kv: "(k, v) \<in> set (zip is vs)"
  have "list_all (\<lambda>(k, v). checkType t k v = Ok ()) (zip is vs)"
    using assms(1) unfolding update_columns_Ok drop0 by blast
  then have "checkType t k v = Ok ()" using kv by (auto simp: list_all_iff)
  moreover have "wf_Value (lit_value v)" using set_zip_rightD[OF kv] assms(2) by (auto simp: list_all_iff simp del: wf_Value.simps)
  ultimately show "k < length (t_columns t) \<and> col_type (t_columns t ! k) = typeID (lit_value v) \<and> wf_Value (lit_value v)"
    unfolding checkType_Ok by blast
qed

lemma map_fst_zip_le: "length xs \<le> length ys \<Longrightarrow> map fst (zip xs ys) = xs"
  by (simp add: map_fst_zip_take)

lemma set_fst_zip: "length xs = length ys \<Longrightarrow> fst ` set (zip xs ys) = set xs"
  by (metis map_fst_zip list.set_map)

lemma card_all_columns:
  assumes "set is \<subseteq> {..<n}"
  shows "card (set is) = n \<longleftrightarrow> set is = {..<n}"
  using card_subset_eq[OF finite_lessThan assms] by (metis card_lessThan)

lemma all_columns_named:
  assumes d: "distinct (map col_name cols)" and b: "set is \<subseteq> {..<length cols}"
  shows "set is = {..<length cols} \<longleftrightarrow> (\<lambda>k. col_name (cols ! k)) ` set is = col_name ` set cols"
proof -
  have inj: "inj_on (\<lambda>k. col_name (cols ! k)) {..<length cols}"
    using d by (auto simp: inj_on_def distinct_conv_nth)
  have "set cols = (!) cols ` {..<length cols}" by (auto simp: set_conv_nth)
  then have "col_name ` set cols = (\<lambda>k. col_name (cols ! k)) ` {..<length cols}" by (simp add: image_image)
  then show ?thesis using inj_on_image_eq_iff[OF inj b order_refl] by simp
qed

lemma map_add_covered: "dom f \<subseteq> dom g \<Longrightarrow> f ++ g = g"
  by (rule ext) (auto simp: map_add_def split: option.splits)

lemma validatedD:
  assumes wf: "wf_table t" and len: "length cs = length vs" and u: "update_columns t vs 0 cs {} = Ok is"
  shows "map id_name cs = map (\<lambda>k. col_name (t_columns t ! k)) is" "set is \<subseteq> {..<length (t_columns t)}"
    "distinct (map id_name cs)" "list_all (typed (abs_table t)) (zip (map id_name cs) (map abs_lit vs))"
    "length is = length vs" "distinct is"
proof -
  note d = wf_tableD(1)[OF wf]
  show "map id_name cs = map (\<lambda>k. col_name (t_columns t ! k)) is" "set is \<subseteq> {..<length (t_columns t)}"
    "distinct (map id_name cs)" "list_all (typed (abs_table t)) (zip (map id_name cs) (map abs_lit vs))"
    using u validated[OF d len] by auto
  then show "length is = length vs" "distinct is"
    using len resolve_distinct[OF d, of "is"] by (metis length_map, auto)
qed

lemma assigned_row:
  assumes wf: "wf_table t" and len: "length cs = length vs" and u: "update_columns t vs 0 cs {} = Ok is"
    and l: "length row = length (t_columns t)"
  shows "assign_row vs 0 is row = Ok (assign_all (zip is vs) row)"
    and "abs_row (t_columns t) (assign_all (zip is vs) row) =
           abs_row (t_columns t) row ++ map_of (zip (map id_name cs) (map abs_lit vs))"
proof -
  note v = validatedD[OF wf len u]
  show "assign_row vs 0 is row = Ok (assign_all (zip is vs) row)"
    using v(2,5) l by (subst assign_row_eq) auto
  show "abs_row (t_columns t) (assign_all (zip is vs) row) =
           abs_row (t_columns t) row ++ map_of (zip (map id_name cs) (map abs_lit vs))"
    unfolding zip_names[OF v(1)] using v(2,5,6) l
    by (intro abs_row_assign_all[OF wf_tableD(1)[OF wf]]) (auto simp: map_fst_zip_le set_fst_zip)
qed

lemma insert_columns_cases:
  assumes wf: "wf_table t" and len: "length cs = length vs" and l: "length row = length (t_columns t)"
  shows "case insert_columns t vs 0 cs {} row of
      Ok (seen, row') \<Rightarrow> (\<exists>is. update_columns t vs 0 cs {} = Ok is \<and> seen = set is \<and> row' = assign_all (zip is vs) row)
    | Err e \<Rightarrow> (\<nexists>is. update_columns t vs 0 cs {} = Ok is)
    | Panic \<Rightarrow> False"
proof -
  have "insert_columns t vs 0 cs {} row \<noteq> Panic"
    using insert_columns_no_panic[of cs 0 vs row t "{}"] len l by simp
  moreover have "insert_columns t vs 0 cs {} row = Ok (set is, assign_all (zip is vs) row)"
    if "update_columns t vs 0 cs {} = Ok is" for "is"
    unfolding insert_columns_Ok using that assigned_row(1)[OF wf len that l] by auto
  moreover have "\<exists>is. update_columns t vs 0 cs {} = Ok is" if "insert_columns t vs 0 cs {} row = Ok (a, b)" for a b
    using that unfolding insert_columns_Ok by blast
  ultimately show ?thesis by (cases "insert_columns t vs 0 cs {} row") fastforce+
qed

lemma inserted_row:
  assumes wf: "wf_table t" and len: "length cs = length vs" and u: "update_columns t vs 0 cs {} = Ok is"
    and full: "set is = {..<length (t_columns t)}" and lits: "list_all (\<lambda>l. wf_Value (lit_value l)) vs"
    and l: "length row = length (t_columns t)"
  shows "wf_row (t_columns t) (assign_all (zip is vs) row)"
    and "abs_row (t_columns t) (assign_all (zip is vs) row) = map_of (zip (map id_name cs) (map abs_lit vs))"
proof -
  note v = validatedD[OF wf len u]
  show "wf_row (t_columns t) (assign_all (zip is vs) row)"
    using checked_values[OF u lits] v(5,6) full l
    by (intro assigned_wf) (auto simp: map_fst_zip_le set_fst_zip simp del: wf_Value.simps)
  have "dom (abs_row (t_columns t) row) = col_name ` set (t_columns t)"
    using l by (simp add: abs_row_def dom_map_of_zip)
  also have "\<dots> = set (map id_name cs)"
    using all_columns_named[OF wf_tableD(1)[OF wf] v(2)] full unfolding v(1) by simp
  finally have "dom (abs_row (t_columns t) row) \<subseteq> dom (map_of (zip (map id_name cs) (map abs_lit vs)))"
    using len by (simp add: dom_map_of_zip)
  then show "abs_row (t_columns t) (assign_all (zip is vs) row) = map_of (zip (map id_name cs) (map abs_lit vs))"
    using assigned_row(2)[OF wf len u l] map_add_covered by metis
qed

lemma table_insert_implements:
  assumes wf: "wf_table t" and lits: "list_all (\<lambda>l. wf_Value (lit_value l)) (vals s)"
  shows "implements t (table_insert t s) (spec_insert (map id_name (columns s)) (map abs_lit (vals s)) (abs_table t))"
proof (cases "length (columns s) = length (vals s)")
  case len: True
  let ?cs = "columns s" let ?vs = "vals s" let ?zero = "replicate (length (t_columns t)) zero_Value"
  have l: "length ?zero = length (t_columns t)" by simp
  note ic = insert_columns_cases[OF wf len l] and vi = validated_iff[OF wf_tableD(1)[OF wf] len]
  show ?thesis
  proof (cases "\<exists>is. update_columns t ?vs 0 ?cs {} = Ok is")
    case False
    then obtain e where "insert_columns t ?vs 0 ?cs {} ?zero = Err e"
      using ic by (auto split: outcome.splits prod.splits)
    then show ?thesis using len False vi by (auto simp: table_insert_def spec_insert_def)
  next
    case True
    then obtain "is" where u: "update_columns t ?vs 0 ?cs {} = Ok is" by blast
    note v = validatedD[OF wf len u]
    have ins: "insert_columns t ?vs 0 ?cs {} ?zero = Ok (set is, assign_all (zip is ?vs) ?zero)"
      using ic u by (auto split: outcome.splits prod.splits)
    have "set (map id_name ?cs) = fst ` set (schema (abs_table t)) \<longleftrightarrow> card (set is) = length (t_columns t)"
      unfolding card_all_columns[OF v(2)] all_columns_named[OF wf_tableD(1)[OF wf] v(2)] schema_names v(1) by simp
    then have spec: "spec_insert (map id_name ?cs) (map abs_lit ?vs) (abs_table t) =
       (if card (set is) = length (t_columns t) then Some ((abs_table t)\<lparr>content := content (abs_table t)
          @ [map_of (zip (map id_name ?cs) (map abs_lit ?vs))]\<rparr>) else None)"
      using len v(3,4) by (simp add: spec_insert_def)
    show ?thesis
    proof (cases "card (set is) = length (t_columns t)")
      case False
      then show ?thesis using spec len ins by (simp add: table_insert_def)
    next
      case True
      then have full: "set is = {..<length (t_columns t)}" using card_all_columns[OF v(2)] by simp
      show ?thesis using True spec len ins wf inserted_row[OF wf len u full lits l]
        by (simp add: table_insert_def wf_table_def abs_table_def)
    qed
  qed
qed (simp add: table_insert_def spec_insert_def)


lemma slot_eq:
  assumes wf: "wf_row cols row" and d: "distinct (map col_name cols)" and i: "i < length cols"
    and v: "wf_Value (lit_value v)"
  shows "Value_eq (row ! i) (lit_value v) \<longleftrightarrow> abs_row cols row (col_name (cols ! i)) = Some (abs_lit v)"
proof -
  have "length row = length cols" "wf_Value (row ! i)" using wf i by (auto simp: wf_row_nth simp del: wf_Value.simps)
  then have "abs_row cols row (col_name (cols ! i)) = Some (abs_Value (row ! i))"
    using map_of_zip_nth_distinct[OF d, of "map abs_Value row" i] i by (simp add: abs_row_def)
  then show ?thesis using Value_eq_abs[OF \<open>wf_Value (row ! i)\<close> v] by (simp add: abs_lit_def)
qed

lemma update_loop_implements:
  assumes wf: "wf_table t" and len: "length cs = length vs" and u: "update_columns t vs 0 cs {} = Ok is"
    and lits: "list_all (\<lambda>l. wf_Value (lit_value l)) vs"
    and i: "i < length (t_columns t)" and w: "wf_Value (lit_value v)"
    and rows: "list_all (wf_row (t_columns t)) rows"
  shows "\<exists>rows'. update_loop i (lit_value v) is vs rows = Ok rows' \<and> list_all (wf_row (t_columns t)) rows'
     \<and> map (abs_row (t_columns t)) rows' =
         map (\<lambda>r. if r (col_name (t_columns t ! i)) = Some (abs_lit v)
           then r ++ map_of (zip (map id_name cs) (map abs_lit vs)) else r) (map (abs_row (t_columns t)) rows)"
  using rows
proof (induction rows)
  case (Cons row rows)
  then obtain rows' where rest: "update_loop i (lit_value v) is vs rows = Ok rows'"
    "list_all (wf_row (t_columns t)) rows'"
    "map (abs_row (t_columns t)) rows' = map (\<lambda>r. if r (col_name (t_columns t ! i)) = Some (abs_lit v)
           then r ++ map_of (zip (map id_name cs) (map abs_lit vs)) else r) (map (abs_row (t_columns t)) rows)"
    by auto
  have r: "wf_row (t_columns t) row" and l: "length row = length (t_columns t)"
    using Cons.prems by (auto simp: wf_row_nth simp del: wf_Value.simps)
  have "wf_row (t_columns t) (assign_all (zip is vs) row)"
    using checked_values[OF u lits] validatedD(5,6)[OF wf len u] r l
    by (intro assigned_wf) (auto simp: map_fst_zip_le wf_row_nth simp del: wf_Value.simps)
  then show ?case
    using rest r l i slot_eq[OF r wf_tableD(1)[OF wf] i w] assigned_row[OF wf len u l]
    by (cases "Value_eq (row ! i) (lit_value v)") (simp_all add: go_slice)
qed simp

lemma filter_column:
  assumes wf: "wf_table t"
  shows "case obind (columnIndex t x) (\<lambda>i. obind (checkType t i v) (\<lambda>_. Ok i)) of
      Ok i \<Rightarrow> i < length (t_columns t) \<and> col_name (t_columns t ! i) = id_name x
        \<and> typed (abs_table t) (id_name x, abs_lit v)
    | Err e \<Rightarrow> \<not> typed (abs_table t) (id_name x, abs_lit v)
    | Panic \<Rightarrow> False"
proof (cases "columnIndex t x")
  case (Ok i)
  then have i: "i < length (t_columns t)" "col_name (t_columns t ! i) = id_name x"
    by (auto simp: columnIndex_Ok dest: find_column_bound)
  then show ?thesis using Ok typed_index[OF wf_tableD(1)[OF wf] i(1), of v] checkType_no_panic[OF i(1), of v]
    by (cases "checkType t i v") auto
next
  case (Err e)
  then show ?thesis by (simp add: typed_iff)
qed (simp add: columnIndex_no_panic)

lemma table_update_implements:
  assumes wf: "wf_table t" and len: "length (columns s) = length (vals s)" and p: "predicate s = Some w"
    and lits: "wf_literals s"
  shows "implements t (table_update t s)
    (spec_update (zip (map id_name (columns s)) (map abs_lit (vals s))) (abs_pred w) (abs_table t))"
proof -
  let ?cs = "columns s" let ?vs = "vals s"
  let ?w = "obind (columnIndex t (pred_column w)) (\<lambda>i. obind (checkType t i (pred_literal w)) (\<lambda>_. Ok i))"
  note vi = validated_iff[OF wf_tableD(1)[OF wf] len] and fc = filter_column[OF wf, of "pred_column w" "pred_literal w"]
  have keys: "map fst (zip (map id_name ?cs) (map abs_lit ?vs)) = map id_name ?cs" using len by simp
  have lv: "list_all (\<lambda>l. wf_Value (lit_value l)) ?vs" "wf_Value (lit_value (pred_literal w))"
    using lits p by (auto simp: wf_literals_def simp del: wf_Value.simps)
  show ?thesis
  proof (cases "update_columns t ?vs 0 ?cs {}")
    case (Err e)
    then show ?thesis using vi keys by (auto simp: table_update_def spec_update_def)
  next
    case (Ok "is")
    then have ok: "distinct (map id_name ?cs)" "list_all (typed (abs_table t)) (zip (map id_name ?cs) (map abs_lit ?vs))"
      using vi by auto
    show ?thesis
    proof (cases ?w)
      case (Err e)
      then show ?thesis using Ok p fc by (simp add: table_update_def spec_update_def abs_pred_def)
    next
      case ow: (Ok i)
      then have i: "i < length (t_columns t)" "col_name (t_columns t ! i) = id_name (pred_column w)"
        "typed (abs_table t) (abs_pred w)" using fc by (auto simp: abs_pred_def)
      have "list_all (wf_row (t_columns t)) (t_rows t)" using wf by (simp add: wf_table_def)
      from update_loop_implements[OF wf len Ok lv(1) i(1) lv(2) this] obtain rows' where
        "update_loop i (lit_value (pred_literal w)) is ?vs (t_rows t) = Ok rows'"
        "list_all (wf_row (t_columns t)) rows'"
        "map (abs_row (t_columns t)) rows' = map (\<lambda>r. if r (fst (abs_pred w)) = Some (snd (abs_pred w))
           then r ++ map_of (zip (map id_name ?cs) (map abs_lit ?vs)) else r) (map (abs_row (t_columns t)) (t_rows t))"
        using i(2) by (auto simp: abs_pred_def)
      then show ?thesis using Ok ow p i ok keys wf
        by (simp add: table_update_def spec_update_def abs_table_def wf_table_def)
    qed (use fc in simp)
  next
    case Panic
    then show ?thesis using update_columns_no_panic[of ?cs 0 ?vs t "{}"] len by simp
  qed
qed


lemma select_projection_Ok:
  "select_projection t cs = Ok r \<longleftrightarrow>
     (\<exists>is. map (columnIndex t) cs = map Ok is
       \<and> r = (is, map id_name cs, map (\<lambda>i. col_type (t_columns t ! i)) is))"
proof (induction cs arbitrary: r)
  case (Cons c cs)
  show ?case
  proof (cases "columnIndex t c")
    case (Ok i)
    then have "i < length (t_columns t)" by (auto simp: columnIndex_Ok dest: find_column_bound)
    then show ?thesis using Ok Cons by (auto simp: outcome_simps go_slice Cons_eq_map_conv)
  qed auto
qed auto

lemma select_projection_no_panic: "select_projection t cs \<noteq> Panic"
  by (induction cs)
     (auto simp: outcome_simps columnIndex_no_panic go_slice columnIndex_Ok slice_get_def
       split: if_splits dest: find_column_bound)

lemma map_via_nth: "map f xs = map (\<lambda>k. f (xs ! k)) [0..<length xs]"
  by (rule nth_equalityI) simp_all

lemma project_columns_cases:
  assumes wf: "wf_table t" and a: "all_columns s \<Longrightarrow> columns s = []"
  defines "cs \<equiv> (if all_columns s then map col_name (t_columns t) else map id_name (columns s))"
  shows "case project_columns t s of
      Ok (is, names, types) \<Rightarrow> set is \<subseteq> {..<length (t_columns t)} \<and> cs = map (\<lambda>k. col_name (t_columns t ! k)) is
        \<and> names = cs \<and> types = map (\<lambda>i. col_type (t_columns t ! i)) is
    | Err e \<Rightarrow> \<not> set cs \<subseteq> col_name ` set (t_columns t)
    | Panic \<Rightarrow> False"
proof (cases "all_columns s")
  case True
  then show ?thesis
    using map_via_nth[of col_name "t_columns t"] map_via_nth[of col_type "t_columns t"]
    by (auto simp: project_columns_def cs_def)
next
  case False
  note r = resolve[OF wf_tableD(1)[OF wf], of "columns s"]
  show ?thesis
  proof (cases "select_projection t (columns s)")
    case (Ok x)
    then obtain "is" where "map (columnIndex t) (columns s) = map Ok is"
      "x = (is, map id_name (columns s), map (\<lambda>i. col_type (t_columns t ! i)) is)"
      by (auto simp: select_projection_Ok)
    moreover from this have "map id_name (columns s) = map (\<lambda>k. col_name (t_columns t ! k)) is"
      "set is \<subseteq> {..<length (t_columns t)}" using r[of "is"] by auto
    ultimately show ?thesis using False Ok by (simp add: project_columns_def cs_def)
  next
    case (Err e)
    have "\<not> set cs \<subseteq> col_name ` set (t_columns t)"
    proof
      assume "set cs \<subseteq> col_name ` set (t_columns t)"
      then have "id_name ` set (columns s) \<subseteq> col_name ` set (t_columns t)" using False by (simp add: cs_def)
      then obtain "is" where "map (columnIndex t) (columns s) = map Ok is" using resolve_exists by blast
      then have "\<exists>r. select_projection t (columns s) = Ok r" unfolding select_projection_Ok by blast
      then show False using Err by simp
    qed
    then show ?thesis using Err False by (simp add: project_columns_def)
  qed (simp add: select_projection_no_panic)
qed

lemma project_row_eq: "\<forall>i \<in> set is. i < length row \<Longrightarrow> project_row is row = Ok (map ((!) row) is)"
  by (induction "is") (simp_all add: go_slice)

lemma projected_row:
  assumes "wf_row cols row" "distinct (map col_name cols)" "set is \<subseteq> {..<length cols}"
  shows "map abs_Value (map ((!) row) is) = map (the \<circ> abs_row cols row) (map (\<lambda>k. col_name (cols ! k)) is)"
proof -
  have l: "length row = length cols" using assms(1) by (auto simp: wf_row_def list_all2_lengthD)
  have "abs_row cols row (col_name (cols ! i)) = Some (abs_Value (row ! i))" if "i \<in> set is" for i
    using map_of_zip_nth_distinct[OF assms(2), of "map abs_Value row" i] that assms(3) l
    by (auto simp: abs_row_def)
  then show ?thesis by simp
qed

lemma select_loop_implements:
  assumes d: "distinct (map col_name cols)" and b: "set is \<subseteq> {..<length cols}"
    and f: "case flt of None \<Rightarrow> w = None | Some (i, v) \<Rightarrow> i < length cols
              \<and> (\<exists>l. v = lit_value l \<and> wf_Value v \<and> w = Some (col_name (cols ! i), abs_lit l))"
    and rows: "list_all (wf_row cols) rows"
  shows "\<exists>out. select_loop is flt rows = Ok out \<and>
     map (map abs_Value) out = map (\<lambda>r. map (the \<circ> r) (map (\<lambda>k. col_name (cols ! k)) is))
       (filter (\<lambda>r. case w of None \<Rightarrow> True | Some a \<Rightarrow> r (fst a) = Some (snd a)) (map (abs_row cols) rows))"
  using rows
proof (induction rows)
  case (Cons row rows)
  then obtain out where rest: "select_loop is flt rows = Ok out"
    "map (map abs_Value) out = map (\<lambda>r. map (the \<circ> r) (map (\<lambda>k. col_name (cols ! k)) is))
       (filter (\<lambda>r. case w of None \<Rightarrow> True | Some a \<Rightarrow> r (fst a) = Some (snd a)) (map (abs_row cols) rows))"
    by auto
  have r: "wf_row cols row" and l: "length row = length cols" using Cons.prems by (auto simp: wf_row_def list_all2_lengthD)
  have p: "project_row is row = Ok (map ((!) row) is)" using b l by (intro project_row_eq) auto
  define keep where "keep = (case w of None \<Rightarrow> True | Some a \<Rightarrow> abs_row cols row (fst a) = Some (snd a))"
  have k: "(case flt of None \<Rightarrow> Ok True | Some (i, v) \<Rightarrow> obind (slice_get row i) (\<lambda>x. Ok (Value_eq x v))) = Ok keep"
    using f l slot_eq[OF r d] by (auto simp: keep_def go_slice simp del: wf_Value.simps split: option.splits)
  have "select_loop is flt (row # rows) = Ok (if keep then map ((!) row) is # out else out)"
    by (simp only: select_loop.simps k obind.simps p rest(1) if_not_P not_not simp_thms if_True if_False split: if_split) simp
  then show ?case using rest(2) projected_row[OF r d b] by (auto simp: keep_def)
qed simp

lemma select_filter_cases:
  assumes wf: "wf_table t" and w: "\<And>w. p = Some w \<Longrightarrow> wf_Value (lit_value (pred_literal w))"
  shows "case select_filter t p of
      Ok flt \<Rightarrow> (case flt of None \<Rightarrow> map_option abs_pred p = None | Some (i, v) \<Rightarrow> i < length (t_columns t)
          \<and> (\<exists>l. v = lit_value l \<and> wf_Value v \<and> map_option abs_pred p = Some (col_name (t_columns t ! i), abs_lit l)))
        \<and> (case map_option abs_pred p of None \<Rightarrow> True | Some a \<Rightarrow> typed (abs_table t) a)
    | Err e \<Rightarrow> \<not> (case map_option abs_pred p of None \<Rightarrow> True | Some a \<Rightarrow> typed (abs_table t) a)
    | Panic \<Rightarrow> False"
proof (cases p)
  case (Some x)
  have "select_filter t p = obind (obind (columnIndex t (pred_column x)) (\<lambda>i. obind (checkType t i (pred_literal x)) (\<lambda>_. Ok i)))
      (\<lambda>i. Ok (Some (i, lit_value (pred_literal x))))"
    by (simp add: Some select_filter_def obind_assoc)
  then show ?thesis using filter_column[OF wf, of "pred_column x" "pred_literal x"] w[OF Some] Some
    by (auto simp: abs_pred_def simp del: wf_Value.simps split: outcome.splits)
qed (simp add: select_filter_def)

lemma table_select_implements:
  assumes wf: "wf_table t" and a: "all_columns s \<Longrightarrow> columns s = []" and lits: "wf_literals s"
  defines "spec \<equiv> spec_select (if all_columns s then None else Some (map id_name (columns s)))
    (map_option abs_pred (predicate s)) (abs_table t)"
  shows "case table_select t s of Ok r \<Rightarrow> spec = Some (abs_result r) | Err e \<Rightarrow> spec = None | Panic \<Rightarrow> False"
proof -
  let ?w = "map_option abs_pred (predicate s)"
  define cs where "cs = (if all_columns s then map col_name (t_columns t) else map id_name (columns s))"
  have spec: "spec = (if set cs \<subseteq> col_name ` set (t_columns t)
      \<and> (case ?w of None \<Rightarrow> True | Some a \<Rightarrow> typed (abs_table t) a)
    then Some (cs, map (the \<circ> map_of (schema (abs_table t))) cs, map (\<lambda>r. map (the \<circ> r) cs)
      (filter (\<lambda>r. case ?w of None \<Rightarrow> True | Some a \<Rightarrow> r (fst a) = Some (snd a)) (content (abs_table t)))) else None)"
    unfolding spec_def spec_select_def cs_def schema_names Let_def
    by (simp add: abs_table_def comp_def)
  note pc = project_columns_cases[OF wf a, folded cs_def]
  note fc = select_filter_cases[OF wf, of "predicate s"]
  have lw: "\<And>w. predicate s = Some w \<Longrightarrow> wf_Value (lit_value (pred_literal w))"
    using lits by (simp add: wf_literals_def)
  show ?thesis
  proof (cases "project_columns t s")
    case (Ok x)
    obtain "is" names types where x: "x = (is, names, types)" by (cases x)
    have p: "set is \<subseteq> {..<length (t_columns t)}" "cs = map (\<lambda>k. col_name (t_columns t ! k)) is"
      "names = cs" "types = map (\<lambda>i. col_type (t_columns t ! i)) is"
      using pc Ok x by auto
    have sub: "set cs \<subseteq> col_name ` set (t_columns t)" using p(1,2) by auto
    have ty: "types = map (the \<circ> map_of (schema (abs_table t))) cs"
    proof -
      have "find_column (t_columns t) (col_name (t_columns t ! i)) = Some i" if "i \<in> set is" for i
        using find_column_Some[OF wf_tableD(1)[OF wf]] that p(1) by auto
      then show ?thesis using p(2,4) by (simp add: map_of_schema)
    qed
    show ?thesis
    proof (cases "select_filter t (predicate s)")
      case of: (Ok flt)
      then have f: "case flt of None \<Rightarrow> ?w = None | Some (i, v) \<Rightarrow> i < length (t_columns t)
          \<and> (\<exists>l. v = lit_value l \<and> wf_Value v \<and> ?w = Some (col_name (t_columns t ! i), abs_lit l))"
        "case ?w of None \<Rightarrow> True | Some a \<Rightarrow> typed (abs_table t) a"
        using fc lw by (simp_all del: wf_Value.simps)
      have "list_all (wf_row (t_columns t)) (t_rows t)" using wf by (simp add: wf_table_def)
      from select_loop_implements[OF wf_tableD(1)[OF wf] p(1) f(1) this] obtain out where
        "select_loop is flt (t_rows t) = Ok out"
        "map (map abs_Value) out = map (\<lambda>r. map (the \<circ> r) cs)
           (filter (\<lambda>r. case ?w of None \<Rightarrow> True | Some a \<Rightarrow> r (fst a) = Some (snd a)) (content (abs_table t)))"
        using p(2) by (auto simp: abs_table_def)
      then show ?thesis using Ok x of p(3) ty sub f(2) spec
        by (simp add: table_select_def abs_result_def)
    next
      case (Err e)
      then show ?thesis using fc lw spec Ok x by (simp add: table_select_def del: wf_Value.simps)
    qed (use fc lw in \<open>simp del: wf_Value.simps\<close>)
  next
    case (Err e)
    then show ?thesis using pc spec by (simp add: table_select_def)
  qed (use pc in simp)
qed


lemma create_columns_cases:
  "case create_columns ds names of
      Ok cols \<Rightarrow> distinct (map (\<lambda>d. id_name (def_id d)) ds) \<and> (\<lambda>d. id_name (def_id d)) ` set ds \<inter> names = {}
        \<and> map (\<lambda>c. (col_name c, col_type c)) cols = map (\<lambda>d. (id_name (def_id d), def_type d)) ds
    | Err e \<Rightarrow> \<not> (distinct (map (\<lambda>d. id_name (def_id d)) ds) \<and> (\<lambda>d. id_name (def_id d)) ` set ds \<inter> names = {})
    | Panic \<Rightarrow> False"
proof (induction ds names rule: create_columns.induct)
  case (2 c cs names)
  show ?case
  proof (cases "id_name (def_id c) \<in> names")
    case False
    then show ?thesis using 2[OF False] by (auto split: outcome.splits)
  qed auto
qed simp

text \<open>Every literal of a parsed statement is a well-formed value.\<close>

lemma literal_value_wf: "literal_value t = Some v \<Longrightarrow> wf_Value v"
  by (auto simp: literal_value_def zero_Value_def f64_finite_def dest: ParseDecimal_finite split: kind.splits)

lemma matches_is_lit:
  assumes "matches sh ts" "is_lit l \<in> set sh"
  shows "wf_Value (lit_value l)"
proof -
  obtain t where "is_lit l t" using assms by (auto simp: matches_def list_all2_conv_all_nth in_set_conv_nth)
  then show ?thesis by (auto simp: is_lit_def simp del: wf_Value.simps dest: literal_value_wf)
qed

lemma set_sep: "x \<in> set ys \<Longrightarrow> ys \<in> set xss \<Longrightarrow> x \<in> set (sep xss)"
  by (induction xss rule: sep.induct) auto


text \<open>The fields a well-formed statement leaves at their zero value.\<close>

lemma wf_stmt_fields:
  assumes "wf_stmt s"
  shows "operation s = create_op \<Longrightarrow> vals s = [] \<and> predicate s = None"
    and "operation s = insert_op \<Longrightarrow> predicate s = None"
    and "operation s = selectRows_op \<Longrightarrow> vals s = [] \<and> (all_columns s \<longleftrightarrow> columns s = [])"
    and "operation s = updateRows_op \<Longrightarrow> length (columns s) = length (vals s) \<and> predicate s \<noteq> None"
proof -
  show "vals s = [] \<and> predicate s = None" if o: "operation s = create_op"
  proof -
    have e: "s = (new_statement create_op)\<lparr>table_id := table_id s, definitions := definitions s\<rparr>"
      using assms unfolding wf_stmt_simps(1)[OF o] by blast
    show ?thesis by (subst (1 2) e) (simp add: new_statement_def)
  qed
  show "predicate s = None" if o: "operation s = insert_op"
  proof -
    have e: "s = (new_statement insert_op)\<lparr>table_id := table_id s, columns := columns s, vals := vals s\<rparr>"
      using assms unfolding wf_stmt_simps(2)[OF o] by blast
    show ?thesis by (subst e) (simp add: new_statement_def)
  qed
  show "vals s = [] \<and> (all_columns s \<longleftrightarrow> columns s = [])" if o: "operation s = selectRows_op"
  proof -
    have e: "s = (new_statement selectRows_op)\<lparr>all_columns := all_columns s, columns := columns s,
                table_id := table_id s, predicate := predicate s\<rparr>"
      and a: "all_columns s \<longleftrightarrow> columns s = []"
      using assms unfolding wf_stmt_simps(3)[OF o] by blast+
    have "vals s = []" by (subst e) (simp add: new_statement_def)
    then show ?thesis using a by blast
  qed
  show "length (columns s) = length (vals s) \<and> predicate s \<noteq> None" if o: "operation s = updateRows_op"
    using assms unfolding wf_stmt_simps(4)[OF o] by blast
qed

lemma parsed_literals:
  assumes "wf_stmt s" and m: "matches (stmt_shape s @ [is_kind semicolon, is_kind end_k]) ts"
  shows "wf_literals s"
proof -
  note f = wf_stmt_fields[OF assms(1)]
  have lit: "wf_Value (lit_value l)" if "is_lit l \<in> set (stmt_shape s)" for l
    using matches_is_lit[OF m] that by simp
  have vs: "wf_Value (lit_value l)" if l: "l \<in> set (vals s)" for l
  proof (cases "operation s")
    case insert_op
    then show ?thesis using l by (intro lit) (auto simp: stmt_shape_def intro!: set_sep)
  next
    case updateRows_op
    then obtain a where "a \<in> set (zip (columns s) (vals s))" "snd a = l"
      using f(4) l by (metis in_set_impl_in_set_zip2 snd_conv)
    then have "is_lit l \<in> set (sep (map assignment_shape (zip (columns s) (vals s))))"
      by (intro set_sep[of _ "assignment_shape a"]) (auto simp: assignment_shape_def)
    then show ?thesis using updateRows_op by (intro lit) (simp add: stmt_shape_def)
  qed (use f l in auto)
  have "wf_Value (lit_value (pred_literal w))" if p: "predicate s = Some w" for w
    using f p by (cases "operation s") (auto intro!: lit simp: stmt_shape_def condition_shape_def simp del: wf_Value.simps)
  then show ?thesis using vs
    by (auto simp: wf_literals_def list_all_iff simp del: wf_Value.simps split: option.split)
qed


section \<open>Execute refines the specification\<close>

lemma put_table:
  assumes "map_get (tables db) n = Some t"
  shows "abs_db (put_table db n t') = (abs_db db)(n \<mapsto> abs_table t')"
    and "wf_db db \<Longrightarrow> wf_table t' \<Longrightarrow> wf_db (put_table db n t')"
    and "put_table db n t = db"
  using assms
  by (auto simp: abs_db_def put_table_def map_get_def wf_db_def fun_eq_iff map_upd_triv split: option.splits if_splits)

definition executes :: "Database \<Rightarrow> Database \<times> (QueryError, Result) outcome \<Rightarrow> (sql_db \<times> sql_result) option \<Rightarrow> bool" where
  "executes db dr spec = (case dr of
      (db', Ok r) \<Rightarrow> spec = Some (abs_db db', abs_result r) \<and> wf_db db'
    | (db', Err e) \<Rightarrow> db' = db \<and> spec = None
    | (db', Panic) \<Rightarrow> False)"

lemma executes_table:
  assumes "map_get (tables db) n = Some t" "wf_db db" "implements t tr spec"
  shows "executes db (put_table db n (fst tr), snd tr)
     (map_option (\<lambda>t'. ((abs_db db)(n \<mapsto> t'), ([], [], []))) spec)"
  using assms put_table[OF assms(1)]
  by (cases tr; cases "snd tr") (auto simp: executes_def abs_result_def empty_Result_def)

lemma abs_db_Some: "map_get (tables db) n = Some t \<Longrightarrow> abs_db db n = Some (abs_table t)"
  by (simp add: abs_db_def)

lemma create_executes:
  assumes wf: "wf_db db" and d: "definitions s \<noteq> []"
  shows "executes db (create_table db s) (spec_exec (SCreate (id_name (table_id s))
     (map (\<lambda>d. (id_name (def_id d), def_type d)) (definitions s))) (abs_db db))"
proof (cases "map_get (tables db) (id_name (table_id s))")
  case (Some t)
  then show ?thesis by (simp add: create_table_def executes_def abs_db_def)
next
  case None
  let ?n = "id_name (table_id s)" let ?ds = "map (\<lambda>d. (id_name (def_id d), def_type d)) (definitions s)"
  note cc = create_columns_cases[of "definitions s" "{}"]
  show ?thesis
  proof (cases "create_columns (definitions s) {}")
    case (Ok cols)
    then have c: "distinct (map fst ?ds)" "map (\<lambda>c. (col_name c, col_type c)) cols = ?ds" using cc by (simp_all add: comp_def)
    from arg_cong[OF c(2), of "map fst"] have "map col_name cols = map fst ?ds" by (simp add: comp_def)
    moreover have "cols \<noteq> []" using c(2) d by auto
    ultimately have "wf_table \<lparr>t_columns = cols, t_rows = []\<rparr>" using c(1) by (simp add: wf_table_def)
    then show ?thesis using None Ok c wf
      by (auto simp: create_table_def executes_def abs_db_def fun_eq_iff map_get_def wf_db_def abs_table_def
          abs_result_def empty_Result_def Let_def split: option.splits if_splits)
  next
    case (Err e)
    then show ?thesis using None cc by (simp add: create_table_def executes_def comp_def)
  qed (use cc in simp)
qed

lemma execute_statement_executes:
  assumes wf: "wf_db db" and s: "wf_stmt s" and lits: "wf_literals s"
  shows "executes db (execute_statement db s) (spec_exec (abs_stmt s) (abs_db db))"
proof (cases "operation s = create_op")
  case True
  then have "definitions s \<noteq> []" using s wf_stmt_simps(1) by blast
  then show ?thesis using create_executes[OF wf] True by (simp add: execute_statement_def abs_stmt_def)
next
  case nc: False
  let ?n = "id_name (table_id s)"
  show ?thesis
  proof (cases "map_get (tables db) ?n")
    case None
    then show ?thesis using nc
      by (cases "operation s") (simp_all add: execute_statement_def executes_def abs_stmt_def abs_db_def)
  next
    case (Some t)
    then have t: "wf_table t" using wf by (auto simp: wf_db_def)
    note f = wf_stmt_fields[OF s] and et = executes_table[OF Some wf] and ad = abs_db_Some[OF Some]
    have lv: "list_all (\<lambda>l. wf_Value (lit_value l)) (vals s)" using lits by (simp add: wf_literals_def)
    show ?thesis
    proof (cases "operation s")
      case insert_op
      then show ?thesis using Some et[OF table_insert_implements[OF t lv]] ad
        by (simp add: execute_statement_def abs_stmt_def split_def Let_def)
    next
      case updateRows_op
      then obtain w where w: "predicate s = Some w" "length (columns s) = length (vals s)" using f(4) by auto
      then show ?thesis using Some et[OF table_update_implements[OF t w(2,1) lits]] ad updateRows_op
        by (simp add: execute_statement_def abs_stmt_def split_def Let_def)
    next
      case selectRows_op
      then show ?thesis using Some table_select_implements[OF t _ lits] f(3) ad wf
        by (cases "table_select t s") (simp_all add: execute_statement_def abs_stmt_def executes_def)
    qed (use nc in simp)
  qed
qed

text \<open>
  What \<open>Execute\<close> does on any text: a text the parser rejects changes nothing; a parsed statement has
  the specified effect and result.
\<close>

lemma Execute_executes:
  assumes "wf_db db"
  shows "executes db (Execute db source)
    (case parse source of Ok s \<Rightarrow> spec_exec (abs_stmt s) (abs_db db) | _ \<Rightarrow> None)"
proof (cases "parse source")
  case (Ok s)
  then have "wf_stmt s" "wf_literals s" unfolding parse_Ok_iff using parsed_literals by blast+
  then show ?thesis using execute_statement_executes[OF assms] Ok by (simp add: Execute_def)
next
  case (Err e)
  then show ?thesis by (simp add: Execute_def executes_def)
next
  case Panic
  then show ?thesis using parse_outcome[of source] by simp
qed

lemma new_Database_wf: "wf_db new_Database" and new_Database_empty: "abs_db new_Database = Map.empty"
  by (auto simp: wf_db_def new_Database_def map_get_def abs_db_def fun_eq_iff)

section \<open>Properties\<close>

text \<open>C1: \<open>Execute\<close> refines the specification of the SQL subset. On a well-formed database and any text:
  if it succeeds, the text parsed, the specification accepts the statement, the new database stands
  for the specified one, the result rows are the specified ones, and the database is well-formed
  again; if it returns an error, the database is unchanged and the text did not parse or the
  specification rejects it; it never panics.\<close>

theorem Execute_refines:
  assumes "wf_db db"
  shows "case Execute db source of
      (db', Ok r) \<Rightarrow> (\<exists>s. parse source = Ok s \<and> spec_exec (abs_stmt s) (abs_db db) = Some (abs_db db', abs_result r))
        \<and> wf_db db'
    | (db', Err e) \<Rightarrow> db' = db \<and> (\<forall>s. parse source = Ok s \<longrightarrow> spec_exec (abs_stmt s) (abs_db db) = None)
    | (db', Panic) \<Rightarrow> False"
  using Execute_executes[OF assms, of source]
  by (cases "parse source"; cases "Execute db source"; cases "snd (Execute db source)")
     (simp_all add: executes_def)

definition sample_table :: table where
  "sample_table = \<lparr>t_columns = [\<lparr>col_name = ''a'', col_type = Text\<rparr>],
     t_rows = [[zero_Value\<lparr>typeID := Text, text_of := ''x''\<rparr>]]\<rparr>"

definition sample_db :: Database where
  "sample_db = \<lparr>tables = Some [''t'' \<mapsto> sample_table]\<rparr>"

lemma Execute_refines_witness:
  "wf_db sample_db \<and> (case Execute sample_db ''SELECT a FROM t;'' of
      (db', Ok r) \<Rightarrow> (\<exists>s. parse ''SELECT a FROM t;'' = Ok s
          \<and> spec_exec (abs_stmt s) (abs_db sample_db) = Some (abs_db db', abs_result r)) \<and> wf_db db'
    | (db', Err e) \<Rightarrow> db' = sample_db
        \<and> (\<forall>s. parse ''SELECT a FROM t;'' = Ok s \<longrightarrow> spec_exec (abs_stmt s) (abs_db sample_db) = None)
    | (db', Panic) \<Rightarrow> False)"
proof -
  have wf: "wf_db sample_db"
    by (auto simp: wf_db_def sample_db_def sample_table_def map_get_def wf_table_def wf_row_def zero_Value_def
        split: if_splits)
  show ?thesis by (rule conjI[OF wf Execute_refines[OF wf]])
qed

end
