(* ===== verification/Dbms_Wire.thy ===== *)
theory Dbms_Wire
  imports Dbms_Spec
begin

text \<open>
  What surrounds the SQL engine: the length-prefixed frames and the response record of
  \<^verbatim>\<open>server/dbms/internal/server/protocol.go\<close>, the statement splitter of \<^verbatim>\<open>server/dbms/internal/cli/cli.go\<close>, and the
  literal quoting and the write loop of \<^verbatim>\<open>target-service/dbclient/client.go\<close>.
\<close>

section \<open>Frames\<close>

definition MaxFrame :: nat where "MaxFrame = 1048576"

text \<open>\<^verbatim>\<open>binary.LittleEndian\<close>: \<^verbatim>\<open>PutUint32\<close> of \<^verbatim>\<open>uint32(n)\<close>, which drops the higher bits, and \<^verbatim>\<open>Uint32\<close>.\<close>

fun le_bytes :: "nat \<Rightarrow> nat \<Rightarrow> string" where
  "le_bytes 0 n = []"
| "le_bytes (Suc m) n = char_of n # le_bytes m (n div 256)"

definition PutUint32 :: "nat \<Rightarrow> string" where
  "PutUint32 n = le_bytes 4 n"

fun Uint32 :: "string \<Rightarrow> nat" where
  "Uint32 [] = 0"
| "Uint32 (c # cs) = byte_of c + 256 * Uint32 cs"

text \<open>
  A reader is the bytes it still gives and the error it gives after them. \<^verbatim>\<open>io.ReadFull\<close> turns an end of
  file inside the data into \<^verbatim>\<open>ErrUnexpectedEOF\<close>.
\<close>

datatype read_error = EOF | ErrUnexpectedEOF | ReadFailed

datatype frame_error = ReadError read_error | BadLength nat

definition ReadFull :: "read_error \<Rightarrow> nat \<Rightarrow> string \<Rightarrow> (frame_error, string \<times> string) outcome" where
  "ReadFull fin n s =
     (if n \<le> length s then Ok (take n s, drop n s)
      else Err (ReadError (if fin = EOF \<and> s \<noteq> [] then ErrUnexpectedEOF else fin)))"

definition readFrame :: "read_error \<Rightarrow> string \<Rightarrow> (frame_error, string \<times> string) outcome" where
  "readFrame fin r =
     obind (ReadFull fin 4 r) (\<lambda>(header, r1).
       let n = Uint32 header
       in if n = 0 \<or> MaxFrame < n then Err (BadLength n) else ReadFull fin n r1)"

text \<open>
  A writer answers its \<open>k\<close>-th call with the number of bytes it took, or with an error after some bytes.
  The write loop gives back the bytes sent, the number of calls made and its result; \<^verbatim>\<open>part[n:]\<close> panics
  outside the slice.
\<close>

datatype write_result = Wrote int | WriteErr nat

datatype write_error = WriteFailed | ErrShortWrite

type_synonym writer = "nat \<Rightarrow> string \<Rightarrow> write_result"

function write_part :: "writer \<Rightarrow> nat \<Rightarrow> string \<Rightarrow> string \<times> nat \<times> (write_error, unit) outcome" where
  "write_part w k part =
     (if part = [] then ([], k, Ok ())
      else case w k part of
             WriteErr n \<Rightarrow> (take n part, k + 1, Err WriteFailed)
           | Wrote n \<Rightarrow>
               if n = 0 then ([], k + 1, Err ErrShortWrite)
               else if n < 0 \<or> int (length part) < n then (part, k + 1, Panic)
               else case write_part w (k + 1) (drop (nat n) part) of
                      (sent, k', r) \<Rightarrow> (take (nat n) part @ sent, k', r))"
  by pat_completeness auto
termination
  by (relation "measure (\<lambda>(w, k, part). length part)") auto

declare write_part.simps [simp del]

definition writeFrame :: "writer \<Rightarrow> string \<Rightarrow> string \<times> (write_error, unit) outcome" where
  "writeFrame w data =
     (case write_part w 0 (PutUint32 (length data)) of
        (sent, k, Ok _) \<Rightarrow> (case write_part w k data of (sent', k', r) \<Rightarrow> (sent @ sent', r))
      | (sent, k, r) \<Rightarrow> (sent, r))"

text \<open>The client's loop refuses a negative count instead of slicing with it.\<close>

function writeAll :: "writer \<Rightarrow> nat \<Rightarrow> string \<Rightarrow> string \<times> nat \<times> (write_error, unit) outcome" where
  "writeAll w k b =
     (if b = [] then ([], k, Ok ())
      else case w k b of
             WriteErr n \<Rightarrow> (take n b, k + 1, Err WriteFailed)
           | Wrote n \<Rightarrow>
               if n \<le> 0 then ([], k + 1, Err ErrShortWrite)
               else if int (length b) < n then (b, k + 1, Panic)
               else case writeAll w (k + 1) (drop (nat n) b) of
                      (sent, k', r) \<Rightarrow> (take (nat n) b @ sent, k', r))"
  by pat_completeness auto
termination
  by (relation "measure (\<lambda>(w, k, b). length b)") auto

declare writeAll.simps [simp del]

section \<open>Responses\<close>

datatype any = AnyInteger "64 word" | AnyReal float64 | AnyText string

record failure =
  Code :: string
  fail_Message :: string
  fail_Position :: "nat option"

record response =
  OK :: bool
  resp_Columns :: "(string \<times> string) list option"
  resp_Rows :: "any list list option"
  Error :: "failure option"

definition errorResponse :: "string \<Rightarrow> string \<Rightarrow> response" where
  "errorResponse code message =
     \<lparr>OK = False, resp_Columns = None, resp_Rows = None,
      Error = Some \<lparr>Code = code, fail_Message = message, fail_Position = None\<rparr>\<rparr>"

definition type_name :: "Type \<Rightarrow> string" where
  "type_name t = (case t of Integer \<Rightarrow> ''INTEGER'' | Real \<Rightarrow> ''REAL'' | Text \<Rightarrow> ''TEXT'')"

definition any_of :: "Value \<Rightarrow> any" where
  "any_of v = (case typeID v of
      Integer \<Rightarrow> AnyInteger (fst (Value_Integer v))
    | Real \<Rightarrow> AnyReal (fst (Value_Real v))
    | Text \<Rightarrow> AnyText (fst (Value_Text v)))"

text \<open>The column descriptors, lines 106 to 109: \<^verbatim>\<open>result.Types[i]\<close> panics when there are fewer types than names.\<close>

fun describe_columns :: "string list \<Rightarrow> Type list \<Rightarrow> (unit, (string \<times> string) list) outcome" where
  "describe_columns [] types = Ok []"
| "describe_columns (name # names) [] = Panic"
| "describe_columns (name # names) (t # types) =
     obind (describe_columns names types) (\<lambda>cs. Ok ((name, type_name t) # cs))"

definition ok_response :: response where
  "ok_response = \<lparr>OK = True, resp_Columns = None, resp_Rows = None, Error = None\<rparr>"

definition query :: "Database \<Rightarrow> string \<Rightarrow> Database \<times> (unit, response) outcome" where
  "query db sql =
     (case Execute db sql of
        (db', Panic) \<Rightarrow> (db', Panic)
      | (db', Err e) \<Rightarrow> (db', Ok ((errorResponse ''INTERNAL_ERROR'' ''Could not execute query'')
          \<lparr>Error := Some \<lparr>Code = ''SQL_ERROR'', fail_Message = Message e, fail_Position = Some (Position e)\<rparr>\<rparr>))
      | (db', Ok result) \<Rightarrow> (db',
          if Columns result = [] then Ok ok_response
          else obind (describe_columns (Columns result) (Types result)) (\<lambda>columns.
            Ok (ok_response\<lparr>resp_Columns := Some columns, resp_Rows := Some (map (map any_of) (Rows result))\<rparr>))))"

section \<open>The statement splitter of the command line\<close>

definition cli_whitespace :: "char \<Rightarrow> bool" where
  "cli_whitespace c \<longleftrightarrow> c = CHR '' '' \<or> c = CHR 0x09 \<or> c = CHR 0x0D \<or> c = CHR 0x0A \<or> c = CHR 0x0C \<or> c = CHR 0x0B"

fun statement_loop :: "read_error \<Rightarrow> string \<Rightarrow> bool \<Rightarrow> bool \<Rightarrow> string \<Rightarrow> (read_error, string \<times> string) outcome" where
  "statement_loop fin source inText hasContent [] =
     (if fin = EOF \<and> hasContent then Ok (source, []) else Err fin)"
| "statement_loop fin source inText hasContent (c # cs) =
     (let source' = source @ [c]; hasContent' = (hasContent \<or> \<not> cli_whitespace c)
      in if c = quote then
           (case cs of
              following # rest \<Rightarrow> if inText \<and> following = quote
                 then statement_loop fin (source' @ [quote]) inText hasContent' rest
                 else statement_loop fin source' (\<not> inText) hasContent' cs
            | [] \<Rightarrow> statement_loop fin source' (\<not> inText) hasContent' cs)
         else if c = CHR '';'' \<and> \<not> inText then Ok (source', cs)
         else statement_loop fin source' inText hasContent' cs)"

definition readStatement :: "read_error \<Rightarrow> string \<Rightarrow> (read_error, string \<times> string) outcome" where
  "readStatement fin input = statement_loop fin [] False False input"

section \<open>Literals of the client\<close>

definition SQLString :: "string \<Rightarrow> string" where
  "SQLString s = [quote] @ ReplaceByte s quote [quote, quote] @ [quote]"

section \<open>Lemmas on frames\<close>

lemma length_le_bytes [simp]: "length (le_bytes m n) = m"
  by (induction m n rule: le_bytes.induct) auto

lemma Uint32_le_bytes: "Uint32 (le_bytes m n) = n mod 256 ^ m"
proof (induction m n rule: le_bytes.induct)
  case (2 m n)
  then show ?case using mod_mult2_eq[of n 256 "256 ^ m"] by (simp add: of_char_of)
qed simp

lemma le_bytes_Uint32: "le_bytes (length h) (Uint32 h) = h"
proof (induction h)
  case (Cons c cs)
  have "char_of (byte_of c + 256 * Uint32 cs) = c"
    using char_of_mod_256[of "byte_of c + 256 * Uint32 cs"] by simp
  moreover have "(byte_of c + 256 * Uint32 cs) div 256 = Uint32 cs" by simp
  ultimately show ?case using Cons by simp
qed simp

lemma length_PutUint32 [simp]: "length (PutUint32 n) = 4"
  by (simp add: PutUint32_def)

lemma Uint32_PutUint32: "n < 2 ^ 32 \<Longrightarrow> Uint32 (PutUint32 n) = n"
  by (simp add: PutUint32_def Uint32_le_bytes)

lemma PutUint32_Uint32: "length h = 4 \<Longrightarrow> PutUint32 (Uint32 h) = h"
  using le_bytes_Uint32[of h] by (simp add: PutUint32_def)

lemma readFrame_iff:
  "readFrame fin s = Ok (data, rest) \<longleftrightarrow> s = PutUint32 (length data) @ data @ rest \<and> 0 < length data \<and> length data \<le> MaxFrame"
proof
  assume r: "readFrame fin s = Ok (data, rest)"
  then have h: "4 \<le> length s" "0 < Uint32 (take 4 s)" "Uint32 (take 4 s) \<le> MaxFrame"
      "Uint32 (take 4 s) \<le> length (drop 4 s)" "data = take (Uint32 (take 4 s)) (drop 4 s)" "rest = drop (Uint32 (take 4 s)) (drop 4 s)"
    by (auto simp: readFrame_def ReadFull_def Let_def split: if_splits)
  then have l: "length data = Uint32 (take 4 s)" by simp
  have "PutUint32 (length data) = take 4 s" using h(1) by (simp add: l PutUint32_Uint32)
  moreover have "data @ rest = drop 4 s" unfolding h(5,6) by (rule append_take_drop_id)
  ultimately show "s = PutUint32 (length data) @ data @ rest \<and> 0 < length data \<and> length data \<le> MaxFrame"
    using h(2,3) l by (metis append_take_drop_id)
next
  assume s: "s = PutUint32 (length data) @ data @ rest \<and> 0 < length data \<and> length data \<le> MaxFrame"
  then have "Uint32 (PutUint32 (length data)) = length data" by (intro Uint32_PutUint32) (simp add: MaxFrame_def)
  then show "readFrame fin s = Ok (data, rest)" using s by (simp add: readFrame_def ReadFull_def)
qed

text \<open>The part of the \<^verbatim>\<open>io.Writer\<close> contract the loops need: a count is between 0 and the length of the data.\<close>

definition writer_ok :: "writer \<Rightarrow> bool" where
  "writer_ok w \<longleftrightarrow> (\<forall>k p n. w k p = Wrote n \<longrightarrow> 0 \<le> n \<and> n \<le> int (length p))"

lemma write_part_sound:
  assumes "writer_ok w"
  shows "case write_part w k part of (sent, k', r) \<Rightarrow> r \<noteq> Panic \<and> (r = Ok () \<longrightarrow> sent = part) \<and> (\<exists>t. part = sent @ t)"
  using assms
proof (induction w k part rule: write_part.induct)
  case (1 w k part)
  show ?case
  proof (cases "part = []")
    case False
    show ?thesis
    proof (cases "w k part")
      case (Wrote n)
      have n: "0 \<le> n" "n \<le> int (length part)" using "1.prems" Wrote by (auto simp: writer_ok_def)
      show ?thesis
      proof (cases "n = 0")
        case True
        then show ?thesis using False Wrote by (subst write_part.simps) simp
      next
        case nz: False
        obtain sent k' r where rec: "write_part w (k + 1) (drop (nat n) part) = (sent, k', r)" by (metis prod_cases3)
        have ih: "r \<noteq> Panic" "r = Ok () \<longrightarrow> sent = drop (nat n) part" "\<exists>t. drop (nat n) part = sent @ t"
          using "1.IH"[OF False Wrote nz] n "1.prems" rec by auto
        have "write_part w k part = (take (nat n) part @ sent, k', r)"
          using False Wrote nz n rec by (subst write_part.simps) simp
        moreover obtain t where "drop (nat n) part = sent @ t" using ih(3) by blast
        then have "part = (take (nat n) part @ sent) @ t" using append_take_drop_id[of "nat n" part] by simp
        then have "\<exists>t. part = (take (nat n) part @ sent) @ t" by blast
        moreover have "r = Ok () \<longrightarrow> take (nat n) part @ sent = part" using ih(2) by auto
        ultimately show ?thesis using ih(1) by simp
      qed
    next
      case (WriteErr n)
      then show ?thesis using False by (subst write_part.simps) (auto intro: exI[of _ "drop n part"])
    qed
  qed (simp add: write_part.simps)
qed

lemma writeAll_eq:
  assumes "writer_ok w"
  shows "writeAll w k b = write_part w k b"
  using assms
proof (induction w k b rule: writeAll.induct)
  case (1 w k b)
  show ?case
  proof (cases "b = []")
    case False
    have n: "0 \<le> n \<and> n \<le> int (length b)" if "w k b = Wrote n" for n using "1.prems" that by (auto simp: writer_ok_def)
    show ?thesis
    proof (cases "w k b")
      case (Wrote m)
      then show ?thesis using 1 False n[OF Wrote]
        by (subst writeAll.simps, subst write_part.simps) (cases "m = 0"; simp)
    qed (subst writeAll.simps, subst write_part.simps, simp)
  qed (simp add: writeAll.simps write_part.simps)
qed

lemma writeFrame_sound:
  assumes "writer_ok w"
  shows "case writeFrame w data of (sent, r) \<Rightarrow> r \<noteq> Panic \<and> (r = Ok () \<longrightarrow> sent = PutUint32 (length data) @ data)
     \<and> (\<exists>t. PutUint32 (length data) @ data = sent @ t)"
proof -
  obtain s k r where h: "write_part w 0 (PutUint32 (length data)) = (s, k, r)" by (metis prod_cases3)
  obtain s' k' r' where d: "write_part w k data = (s', k', r')" by (metis prod_cases3)
  note a = write_part_sound[OF assms, where k = 0 and part = "PutUint32 (length data)"]
    write_part_sound[OF assms, where k = k and part = data]
  show ?thesis using a h d by (cases r) (auto simp: writeFrame_def)
qed

section \<open>Lemmas on statements\<close>

lemma cli_whitespace_eq: "cli_whitespace = whitespace"
  by (simp add: fun_eq_iff cli_whitespace_def whitespace_def)

text \<open>Looking at the byte after an apostrophe makes no difference: two apostrophes in a text toggle twice.\<close>

lemma statement_loop_Cons:
  "statement_loop fin src q has (c # cs) =
     (if c = quote then statement_loop fin (src @ [c]) (\<not> q) True cs
      else if c = CHR '';'' \<and> \<not> q then Ok (src @ [c], cs)
      else statement_loop fin (src @ [c]) q (has \<or> \<not> whitespace c) cs)"
proof (cases "c = quote")
  case True
  have f: "statement_loop fin src False has (quote # cs) = statement_loop fin (src @ [quote]) True True cs" for src has cs
    by (subst statement_loop.simps(2))
       (simp add: Let_def cli_whitespace_eq char_class del: statement_loop.simps split: list.split)
  have t: "statement_loop fin src True has (quote # cs) = statement_loop fin (src @ [quote]) False True cs"
  proof (cases cs)
    case (Cons d ds)
    then show ?thesis using f[of "src @ [quote]" True ds]
      by (subst statement_loop.simps(2)) (auto simp: Let_def cli_whitespace_eq char_class simp del: statement_loop.simps)
  qed (simp add: cli_whitespace_eq char_class)
  show ?thesis using True f t by (cases q) simp_all
qed (simp add: cli_whitespace_eq Let_def)

declare statement_loop.simps(2) [simp del]

definition nonblank :: "string \<Rightarrow> bool" where
  "nonblank p \<longleftrightarrow> list_ex (\<lambda>c. \<not> whitespace c) p"

lemma nonblank_simps [simp]:
  "nonblank [] = False" "nonblank (c # p) = (\<not> whitespace c \<or> nonblank p)" "nonblank (p @ r) = (nonblank p \<or> nonblank r)"
  by (simp_all add: nonblank_def)

lemma scan_plain:
  "list_all (\<lambda>c. c \<noteq> quote \<and> c \<noteq> CHR '';'') p \<Longrightarrow>
   statement_loop fin src q has (p @ rest) = statement_loop fin (src @ p) q (has \<or> nonblank p) rest"
  by (induction p arbitrary: src has) (simp_all add: statement_loop_Cons disj_assoc)

lemma scan_body:
  "statement_loop fin src True True (ReplaceByte d quote [quote, quote] @ rest)
     = statement_loop fin (src @ ReplaceByte d quote [quote, quote]) True True rest"
  by (induction d arbitrary: src) (simp_all add: statement_loop_Cons ReplaceByte_def)

lemma scan_quoted:
  "statement_loop fin src False has (quoted d @ rest) = statement_loop fin (src @ quoted d) False (has \<or> nonblank (quoted d)) rest"
  using scan_body[of fin "src @ [quote]" d "quote # rest"]
  by (simp add: quoted_def statement_loop_Cons char_class)

lemma semicolon_not: "whitespace c \<Longrightarrow> c \<noteq> CHR '';''" "letter c \<Longrightarrow> c \<noteq> CHR '';''" "digit c \<Longrightarrow> c \<noteq> CHR '';''"
  by (auto simp: whitespace_def letter_def digit_def)

lemma scan_token:
  assumes "wf_token k x" "k \<noteq> semicolon" "k \<noteq> end_k"
  shows "statement_loop fin src False has (spell k x @ rest) = statement_loop fin (src @ spell k x) False (has \<or> nonblank (spell k x)) rest"
proof (cases "k = textLiteral")
  case True
  then show ?thesis by (simp add: spell_def scan_quoted)
next
  case False
  have w: "wf_word x \<Longrightarrow> list_all (\<lambda>c. c \<noteq> quote \<and> c \<noteq> CHR '';'') x"
    using letter_not(4) semicolon_not(2,3) quote_not(3) unfolding wf_word_def list_all_iff by blast
  have n: "list_all digit a \<Longrightarrow> list_all (\<lambda>c. c \<noteq> quote \<and> c \<noteq> CHR '';'') a" for a
    using semicolon_not(3) quote_not(3) unfolding list_all_iff by blast
  have i: "wf_number a \<Longrightarrow> list_all (\<lambda>c. c \<noteq> quote \<and> c \<noteq> CHR '';'') a" for a
    using n semicolon_not(3) quote_not(3) by (cases a) (auto simp: char_class split: if_splits)
  have r: "wf_real x \<Longrightarrow> list_all (\<lambda>c. c \<noteq> quote \<and> c \<noteq> CHR '';'') x"
    using i n by (auto simp: quote_def)
  have "list_all (\<lambda>c. c \<noteq> quote \<and> c \<noteq> CHR '';'') x"
    using assms False w i r by (cases k) (simp_all add: wf_token_def punct_text_def quote_def del: wf_real.simps)
  then show ?thesis using False by (simp add: spell_def scan_plain)
qed

definition statement_end :: "token list \<Rightarrow> token option" where
  "statement_end ts = find (\<lambda>t. tok_kind t = semicolon) ts"

definition splits :: "read_error \<Rightarrow> string \<Rightarrow> bool \<Rightarrow> nat \<Rightarrow> string \<Rightarrow> token list \<Rightarrow> bool" where
  "splits fin src has i s ts \<longleftrightarrow> (case statement_end ts of
      Some t \<Rightarrow> i \<le> tok_pos t \<and> statement_loop fin src False has s = Ok (src @ take (tok_pos t - i + 1) s, drop (tok_pos t - i + 1) s)
    | None \<Rightarrow> statement_loop fin src False has s = (if fin = EOF \<and> (has \<or> nonblank s) then Ok (src @ s, []) else Err fin))"

lemma splits_prefix:
  assumes "statement_loop fin src False has (p @ rest) = statement_loop fin (src @ p) False (has \<or> nonblank p) rest"
    and "splits fin (src @ p) (has \<or> nonblank p) (i + length p) rest ts"
  shows "splits fin src has i (p @ rest) ts"
proof (cases "statement_end ts")
  case (Some t)
  then have l: "i + length p \<le> tok_pos t" using assms(2) by (simp add: splits_def)
  then have "tok_pos t - i + 1 = length p + (tok_pos t - (i + length p) + 1)" by simp
  then show ?thesis using assms Some l by (simp add: splits_def Suc_diff_le)
qed (use assms in \<open>simp add: splits_def\<close>)

lemma space_plain: "list_all whitespace ws \<Longrightarrow> list_all (\<lambda>c. c \<noteq> quote \<and> c \<noteq> CHR '';'') ws"
  using semicolon_not(1) whitespace_not(3) by (auto simp: list_all_iff)

lemma covers_splits: "covers i s ts \<Longrightarrow> splits fin src has i s ts"
proof (induction i s ts arbitrary: src has rule: covers.induct)
  case (2 i s t ts)
  show ?case
  proof (cases "ts = []")
    case True
    then have t: "list_all whitespace s" "t = mk_token end_k [] (i + length s)" using "2.prems" by auto
    then show ?thesis using True scan_plain[OF space_plain, of s fin src False has "[]"]
      by (simp add: splits_def statement_end_def mk_token_def)
  next
    case False
    then obtain ws rest where h: "s = ws @ spell (tok_kind t) (tok_text t) @ rest" "list_all whitespace ws"
        "tok_pos t = i + length ws" "wf_token (tok_kind t) (tok_text t)" "tok_kind t \<noteq> end_k"
        "covers (i + length ws + length (spell (tok_kind t) (tok_text t))) rest ts"
      using "2.prems" by auto
    note sp = scan_plain[OF space_plain[OF h(2)]]
    show ?thesis
    proof (cases "tok_kind t = semicolon")
      case True
      then have "tok_text t = '';''" using h(4) by (simp add: wf_token_def punct_text_def)
      then show ?thesis using True h(1,3) sp[of fin src False has "CHR '';'' # rest"]
        by (simp add: splits_def statement_end_def spell_def statement_loop_Cons quote_def)
    next
      case ne: False
      let ?x = "spell (tok_kind t) (tok_text t)"
      have "splits fin ((src @ ws) @ ?x) ((has \<or> nonblank ws) \<or> nonblank ?x) (i + length ws + length ?x) rest ts"
        using "2.IH"[OF False h(6)] by simp
      then have "splits fin (src @ ws) (has \<or> nonblank ws) (i + length ws) (?x @ rest) ts"
        by (rule splits_prefix[OF scan_token[OF h(4) ne h(5)]])
      then have "splits fin src has i s ts" unfolding h(1) by (rule splits_prefix[OF sp])
      then show ?thesis using ne by (simp add: splits_def statement_end_def)
    qed
  qed
qed simp

lemma statement_loop_lossless:
  "statement_loop fin src q has s = Ok (st, rest) \<Longrightarrow> src @ s = st @ rest \<and> length rest \<le> length s
     \<and> (s \<noteq> [] \<longrightarrow> length rest < length s) \<and> (s = [] \<longrightarrow> has)"
proof (induction s arbitrary: src q has)
  case (Cons c cs)
  then show ?case
    by (fastforce simp: statement_loop_Cons split: if_splits)
qed (auto split: if_splits)

lemma statement_loop_no_panic: "statement_loop fin src q has s \<noteq> Panic"
  by (induction s arbitrary: src q has) (simp_all add: statement_loop_Cons)

section \<open>Lemmas on responses\<close>

fun any_abs :: "any \<Rightarrow> sql_value" where
  "any_abs (AnyInteger n) = VInt (sint n)"
| "any_abs (AnyReal x) = VReal (f64_val x)"
| "any_abs (AnyText s) = VText s"

lemma any_abs_of: "any_abs (any_of v) = abs_Value v"
  by (simp add: any_of_def abs_Value_def Value_Integer_def Value_Real_def Value_Text_def split: Type.split)

lemma describe_columns_zip:
  "length names = length types \<Longrightarrow> describe_columns names types = Ok (zip names (map type_name types))"
  by (induction names types rule: describe_columns.induct) simp_all

text \<open>The shape of a specified result: one type per column, and rows as wide as the columns.\<close>

definition rectangular :: "sql_result \<Rightarrow> bool" where
  "rectangular res = (case res of (cs, tys, rows) \<Rightarrow> length tys = length cs \<and> list_all (\<lambda>r. length r = length cs) rows)"

lemma spec_exec_rectangular: "spec_exec st db = Some (db', res) \<Longrightarrow> rectangular res"
  by (cases st) (auto simp: rectangular_def spec_select_def Let_def list_all_iff bind_eq_Some_conv split: if_splits)

text \<open>What a response says of a specified result.\<close>

definition reports :: "response \<Rightarrow> sql_result \<Rightarrow> bool" where
  "reports r res = (case res of (cs, tys, rows) \<Rightarrow>
     OK r \<and> Error r = None
     \<and> resp_Columns r = (if cs = [] then None else Some (zip cs (map type_name tys)))
     \<and> map_option (map (map any_abs)) (resp_Rows r) = (if cs = [] then None else Some rows))"

lemma query_Ok:
  assumes "Execute db sql = (db', Ok result)" "rectangular (abs_result result)"
  shows "\<exists>r. query db sql = (db', Ok r) \<and> reports r (abs_result result)"
proof (cases "Columns result = []")
  case True
  then show ?thesis using assms by (simp add: query_def reports_def ok_response_def abs_result_def)
next
  case False
  have "length (Columns result) = length (Types result)" using assms(2) by (simp add: rectangular_def abs_result_def)
  then show ?thesis using assms(1) False
    by (simp add: query_def reports_def ok_response_def abs_result_def describe_columns_zip any_abs_of comp_def)
qed

section \<open>Properties\<close>

text \<open>The server's \<open>query\<close> answers every SQL text: it never panics, it keeps the database well-formed, a
  success response reports exactly the specified result (column names, type names and the row values, or
  no columns and rows for a statement without a result) and goes with the specified new database, and a
  failure is a \<open>SQL_ERROR\<close> with a position that leaves the database as it was.\<close>

theorem query_sound:
  assumes "wf_db db"
  shows "case query db sql of
      (db', Ok r) \<Rightarrow> wf_db db' \<and>
        (if OK r then \<exists>st res. parse sql = Ok st \<and> spec_exec (abs_stmt st) (abs_db db) = Some (abs_db db', res)
                        \<and> rectangular res \<and> reports r res
         else db' = db \<and> (\<forall>st. parse sql = Ok st \<longrightarrow> spec_exec (abs_stmt st) (abs_db db) = None)
           \<and> (\<exists>m p. Error r = Some \<lparr>Code = ''SQL_ERROR'', fail_Message = m, fail_Position = Some p\<rparr>)
           \<and> resp_Columns r = None \<and> resp_Rows r = None)
    | (db', _) \<Rightarrow> False"
proof -
  obtain db' out where e: "Execute db sql = (db', out)" by fastforce
  note x = Execute_executes[OF assms, of sql]
  show ?thesis
  proof (cases out)
    case (Ok result)
    then have spec: "(case parse sql of Ok s \<Rightarrow> spec_exec (abs_stmt s) (abs_db db) | _ \<Rightarrow> None) = Some (abs_db db', abs_result result)"
        "wf_db db'" using x e by (auto simp: executes_def)
    then obtain st where st: "parse sql = Ok st" "spec_exec (abs_stmt st) (abs_db db) = Some (abs_db db', abs_result result)"
      by (cases "parse sql") auto
    have rect: "rectangular (abs_result result)" by (rule spec_exec_rectangular[OF st(2)])
    obtain r where r: "query db sql = (db', Ok r)" "reports r (abs_result result)"
      using query_Ok[of db sql db' result] e Ok rect by auto
    have "OK r" using r(2) by (simp add: reports_def split: prod.splits)
    then show ?thesis using r st rect spec(2) by (cases "abs_result result") auto
  next
    case (Err err)
    then have "db' = db" "\<forall>st. parse sql = Ok st \<longrightarrow> spec_exec (abs_stmt st) (abs_db db) = None"
      using x e by (auto simp: executes_def)
    then show ?thesis using e Err assms by (simp add: query_def errorResponse_def)
  qed (use x e in \<open>simp add: executes_def\<close>)
qed

lemma query_sound_witness: "wf_db (fst (query new_Database ''CREATE TABLE t (a TEXT);''))"
  using query_sound[OF new_Database_wf, of "''CREATE TABLE t (a TEXT);''"]
  by (auto split: prod.splits outcome.splits)

text \<open>C21: Frames. \<open>readFrame\<close> returns a payload exactly when the stream starts with its little-endian length, between
  1 and \<open>MaxFrame\<close>, and its bytes, and leaves the rest of the stream. With a writer that keeps the
  counts of the \<^verbatim>\<open>io.Writer\<close> contract, however it cuts the data into partial writes, \<open>writeFrame\<close> does not panic; when it succeeds,
  the reader gets the payload back; when it fails, what went out is a prefix of the frame, from which
  a reader gets nothing or that payload. The client's \<open>writeAll\<close> sends the same bytes.\<close>

theorem frame_roundtrip:
  assumes "writer_ok w" "0 < length data" "length data \<le> MaxFrame"
  shows "(readFrame fin s = Ok (d, rest) \<longleftrightarrow> s = PutUint32 (length d) @ d @ rest \<and> 0 < length d \<and> length d \<le> MaxFrame)
    \<and> (case writeFrame w data of
         (sent, Ok _) \<Rightarrow> readFrame fin (sent @ following) = Ok (data, following)
       | (sent, Err _) \<Rightarrow> (\<exists>t. PutUint32 (length data) @ data = sent @ t) \<and> (\<forall>d r. readFrame fin sent = Ok (d, r) \<longrightarrow> d = data \<and> r = [])
       | (sent, Panic) \<Rightarrow> False)
    \<and> writeAll w k b = write_part w k b"
proof -
  obtain sent r where wf: "writeFrame w data = (sent, r)" by fastforce
  have snd: "r \<noteq> Panic" "r = Ok () \<longrightarrow> sent = PutUint32 (length data) @ data" "\<exists>t. PutUint32 (length data) @ data = sent @ t"
    using writeFrame_sound[OF assms(1), of data] wf by simp_all
  have pre: "d = data \<and> r = []" if "readFrame fin sent = Ok (d, r)" for d r
  proof -
    obtain t where t: "PutUint32 (length data) @ data = sent @ t" using snd(3) by blast
    have s: "sent = PutUint32 (length d) @ d @ r" "length d \<le> MaxFrame" using that by (simp_all add: readFrame_iff)
    have "PutUint32 (length data) @ data = PutUint32 (length d) @ d @ r @ t" using t unfolding s(1) append_assoc .
    then have "PutUint32 (length data) = PutUint32 (length d) \<and> data = d @ r @ t"
      by (metis append_eq_append_conv length_PutUint32)
    then have "PutUint32 (length data) = PutUint32 (length d)" "data = d @ r @ t" by blast+
    moreover have "length d < 2 ^ 32" "length data < 2 ^ 32" using s(2) assms(3) by (simp_all add: MaxFrame_def)
    ultimately have "length d = length data" by (metis Uint32_PutUint32)
    then show ?thesis using \<open>data = d @ r @ t\<close> by simp
  qed
  have "case writeFrame w data of
         (sent, Ok _) \<Rightarrow> readFrame fin (sent @ following) = Ok (data, following)
       | (sent, Err _) \<Rightarrow> (\<exists>t. PutUint32 (length data) @ data = sent @ t) \<and> (\<forall>d r. readFrame fin sent = Ok (d, r) \<longrightarrow> d = data \<and> r = [])
       | (sent, Panic) \<Rightarrow> False"
  proof (cases r)
    case (Ok u)
    then show ?thesis using snd(2) wf assms(2,3) by (simp add: readFrame_iff)
  next
    case (Err e)
    have "\<forall>d r. readFrame fin sent = Ok (d, r) \<longrightarrow> d = data \<and> r = []" using pre by blast
    then show ?thesis unfolding wf Err using snd(3) by (simp only: prod.case outcome.case simp_thms)
  qed (use snd(1) in blast)
  then show ?thesis using readFrame_iff writeAll_eq[OF assms(1)] by blast
qed

definition slow_writer :: writer where
  "slow_writer k p = Wrote (if p = [] then 0 else 1)"

lemma frame_roundtrip_witness:
  "case writeFrame slow_writer ''SELECT'' of
     (sent, Ok _) \<Rightarrow> readFrame EOF (sent @ ''x'') = Ok (''SELECT'', ''x'')
   | (sent, Err _) \<Rightarrow> (\<exists>t. PutUint32 (length ''SELECT'') @ ''SELECT'' = sent @ t)
   | (sent, Panic) \<Rightarrow> False"
proof -
  have w: "writer_ok slow_writer" by (simp add: writer_ok_def slow_writer_def Suc_le_eq)
  have "0 < length ''SELECT''" "length ''SELECT'' \<le> MaxFrame" by (simp_all add: MaxFrame_def)
  note f = frame_roundtrip[OF w this, where fin = EOF and following = "''x''", THEN conjunct2, THEN conjunct1]
  obtain sent r where wf: "writeFrame slow_writer ''SELECT'' = (sent, r)" by (meson surj_pair)
  show ?thesis using f unfolding wf prod.case by (cases r) (simp_all only: outcome.case simp_thms)
qed

text \<open>C23: The command line splits its input where the SQL lexer sees the statements end: if the input lexes,
  the first statement reaches to the first semicolon token (a semicolon inside a TEXT literal does not
  count), or, without one, to the end of a non-blank input. For every input, nothing is lost: the
  statement and what remains are the input, and each statement takes at least one byte.\<close>

theorem readStatement_lexer:
  "(lex s = Ok ts \<longrightarrow> readStatement fin s = (case statement_end ts of
        Some t \<Rightarrow> Ok (take (tok_pos t + 1) s, drop (tok_pos t + 1) s)
      | None \<Rightarrow> if fin = EOF \<and> nonblank s then Ok (s, []) else Err fin))
   \<and> (readStatement fin s = Ok (st, rest) \<longrightarrow> s = st @ rest \<and> st \<noteq> [])
   \<and> readStatement fin s \<noteq> Panic"
proof -
  have "splits fin [] False 0 s ts" if "lex s = Ok ts"
    using that lex_loop_covers covers_splits by (auto simp: lex_def)
  then have "lex s = Ok ts \<longrightarrow> readStatement fin s = (case statement_end ts of
        Some t \<Rightarrow> Ok (take (tok_pos t + 1) s, drop (tok_pos t + 1) s)
      | None \<Rightarrow> if fin = EOF \<and> nonblank s then Ok (s, []) else Err fin)"
    by (auto simp: readStatement_def splits_def split: option.splits)
  moreover have "s = st @ rest \<and> st \<noteq> []" if "readStatement fin s = Ok (st, rest)"
    using statement_loop_lossless[of fin "[]" False False s st rest] that by (cases "s = []") (auto simp: readStatement_def)
  ultimately show ?thesis by (auto simp: readStatement_def statement_loop_no_panic)
qed

lemma readStatement_lexer_witness:
  "readStatement EOF (unlex [(textLiteral, '';''), (semicolon, '';''), (word_k, ''b'')]) =
     Ok (unlex [(textLiteral, '';'')] @ '';'', '' b '')"
proof -
  let ?ts = "[(textLiteral, '';''), (semicolon, '';''), (word_k, ''b'')]"
  have "lex (unlex ?ts) = Ok (place 0 ?ts)"
    using lex_loop_unlex[of ?ts 0] by (simp add: lex_def wf_token_def wf_word_def letter_def punct_text_def)
  then show ?thesis using readStatement_lexer[of "unlex ?ts" "place 0 ?ts" EOF]
    by (simp add: statement_end_def mk_token_def spell_def quoted_def ReplaceByte_def quote_def)
qed



end
