(* ===== verification/Dbms_Service.thy ===== *)
theory Dbms_Service
  imports Dbms_Wire Go_Json_Decode
begin

text \<open>
  The database service end to end: the JSON payload of a response (\<^verbatim>\<open>executor.execute\<close>) and the connection loop of
  the server, the client of \<^verbatim>\<open>target-service/dbclient/client.go\<close> with its checks of a response, and the command
  line of \<^verbatim>\<open>server/dbms/internal/cli/cli.go\<close>.
\<close>

section \<open>The payload of a response\<close>

fun any_json :: "any \<Rightarrow> json option" where
  "any_json (AnyInteger w) = Some (JNum (Itoa (sint w)))"
| "any_json (AnyReal x) = map_option JNum (json_float x)"
| "any_json (AnyText s) = Some (JStr s)"

definition column_json :: "string \<times> string \<Rightarrow> json" where
  "column_json c = JObj [(''name'', JStr (fst c)), (''type'', JStr (snd c))]"

definition failure_json :: "failure \<Rightarrow> json" where
  "failure_json f = JObj ([(''code'', JStr (Code f)), (''message'', JStr (fail_Message f))]
     @ (case fail_Position f of None \<Rightarrow> [] | Some p \<Rightarrow> [(''position'', JNum (Itoa (int p)))]))"

definition row_json :: "any list \<Rightarrow> json option" where
  "row_json row = map_option JArr (all_some (map any_json row))"

text \<open>\<^const>\<open>None\<close>: \<^verbatim>\<open>Marshal\<close> fails on a number that is not finite.\<close>

definition db_response_json :: "response \<Rightarrow> json option" where
  "db_response_json r =
     map_option (\<lambda>rows. JObj ([(''ok'', JBool (OK r))]
       @ (case resp_Columns r of None \<Rightarrow> [] | Some cs \<Rightarrow> [(''columns'', JArr (map column_json cs))])
       @ rows
       @ (case Error r of None \<Rightarrow> [] | Some f \<Rightarrow> [(''error'', failure_json f)])))
     (case resp_Rows r of
        None \<Rightarrow> Some []
      | Some rows \<Rightarrow> map_option (\<lambda>vs. [(''rows'', JArr vs)]) (all_some (map row_json rows)))"

definition error_payload :: "string \<Rightarrow> string \<Rightarrow> string" where
  "error_payload code message = json_print (JObj [(''ok'', JBool False), (''error'', JObj [(''code'', JStr code), (''message'', JStr message)])])"

definition payload_of :: "response \<Rightarrow> string" where
  "payload_of r =
     (let payload = (case db_response_json r of
            Some v \<Rightarrow> json_print v
          | None \<Rightarrow> error_payload ''INTERNAL_ERROR'' ''Could not encode result'')
      in if MaxFrame < length payload then error_payload ''RESULT_TOO_LARGE'' ''Query result exceeds frame limit'' else payload)"

definition execute :: "Database \<Rightarrow> string \<Rightarrow> Database \<times> (unit, string) outcome" where
  "execute db data =
     (let (db', r) = (if utf8_valid data \<and> TrimSpace data \<noteq> [] then query db data
                      else (db, Ok (errorResponse ''BAD_REQUEST'' ''SQL payload is empty or invalid UTF-8'')))
      in (db', obind r (\<lambda>r. Ok (payload_of r))))"

section \<open>A connection of the server\<close>

text \<open>
  \<^verbatim>\<open>handle\<close>: requests are executed one after the other until a read or a write fails. \<open>ws n\<close> is the writer as the
  n-th response sees it. A deadline that cannot be set ends the
  connection like a read or a write that fails at once. The result is the bytes written and the database; \<^const>\<open>None\<close> is a panic.
\<close>

function db_handle :: "(nat \<Rightarrow> writer) \<Rightarrow> read_error \<Rightarrow> nat \<Rightarrow> Database \<Rightarrow> string \<Rightarrow> (string \<times> Database) option" where
  "db_handle ws fin n db input = (case readFrame fin input of
      Ok (data, rest) \<Rightarrow>
        (case execute db data of
           (db', Ok payload) \<Rightarrow>
             (case writeFrame (ws n) payload of
                (sent, Ok _) \<Rightarrow>
                  if length rest < length input
                  then map_option (\<lambda>(out, db2). (sent @ out, db2)) (db_handle ws fin (n + 1) db' rest) else None
              | (sent, Err _) \<Rightarrow> Some (sent, db')
              | (sent, Panic) \<Rightarrow> None)
         | _ \<Rightarrow> None)
    | Err _ \<Rightarrow> Some ([], db)
    | Panic \<Rightarrow> None)"
  by pat_completeness auto
termination
  by (relation "measure (\<lambda>(_, _, _, _, input). length input)") auto

declare db_handle.simps [simp del]

section \<open>The client\<close>

record client_QueryError =
  qe_Code :: string
  qe_Message :: string
  qe_Position :: "int option"

record client_Result =
  cr_OK :: bool
  cr_Columns :: "(string \<times> string) list"
  cr_Rows :: "json list list"
  cr_Error :: "client_QueryError option"

record client =
  cl_socket :: string
  cl_timeout :: int
  cl_conn :: bool
  cl_closed :: bool

definition DefaultSocket :: string where "DefaultSocket = ''/tmp/tac-os-dbms.sock''"
definition DefaultTimeout :: int where "DefaultTimeout = 5 * 10 ^ 9"

definition new_client :: "string \<Rightarrow> int \<Rightarrow> client" where
  "new_client socket timeout =
     \<lparr>cl_socket = (if socket = [] then DefaultSocket else socket),
      cl_timeout = (if timeout \<le> 0 then DefaultTimeout else timeout), cl_conn = False, cl_closed = False\<rparr>"

definition drop_conn :: "client \<Rightarrow> client" where
  "drop_conn c = c\<lparr>cl_conn := False\<rparr>"

definition client_Close :: "client \<Rightarrow> client" where
  "client_Close c = drop_conn (c\<lparr>cl_closed := True\<rparr>)"

subsection \<open>Decoding a response\<close>

definition column_fields :: "(string \<times> string) field list" where
  "column_fields = [string_field ''name'' (\<lambda>x c. (x, snd c)), string_field ''type'' (\<lambda>x c. (fst c, x))]"

text \<open>
  An array fills a slice; an element that was there before is decoded over, a new one over its zero value.
  (Elements behind the end of a slice that is filled a third time are not modelled.)
\<close>

fun decode_elements :: "(json \<Rightarrow> 'a \<Rightarrow> 'a option) \<Rightarrow> 'a \<Rightarrow> json list \<Rightarrow> 'a list \<Rightarrow> 'a list option" where
  "decode_elements f z [] old = Some []"
| "decode_elements f z (v # vs) old =
     Option.bind (f v (case old of [] \<Rightarrow> z | x # _ \<Rightarrow> x)) (\<lambda>y. map_option ((#) y) (decode_elements f z vs (drop 1 old)))"

definition slice_field :: "string \<Rightarrow> (json \<Rightarrow> 'a \<Rightarrow> 'a option) \<Rightarrow> 'a \<Rightarrow> ('r \<Rightarrow> 'a list) \<Rightarrow> ('a list \<Rightarrow> 'r \<Rightarrow> 'r) \<Rightarrow> 'r field" where
  "slice_field name f z get upd = (name, \<lambda>v r. case v of
      JArr vs \<Rightarrow> map_option (\<lambda>xs. upd xs r) (decode_elements f z vs (get r))
    | JNull \<Rightarrow> Some (upd [] r)
    | _ \<Rightarrow> None)"

definition decode_row :: "json \<Rightarrow> json list \<Rightarrow> json list option" where
  "decode_row v old = (case v of JArr vs \<Rightarrow> Some vs | JNull \<Rightarrow> Some [] | _ \<Rightarrow> None)"

definition error_fields :: "client_QueryError field list" where
  "error_fields = [string_field ''code'' (\<lambda>x e. e\<lparr>qe_Code := x\<rparr>), string_field ''message'' (\<lambda>x e. e\<lparr>qe_Message := x\<rparr>),
     int_ptr_field ''position'' (\<lambda>x e. e\<lparr>qe_Position := x\<rparr>)]"

definition zero_error :: client_QueryError where
  "zero_error = \<lparr>qe_Code = [], qe_Message = [], qe_Position = None\<rparr>"

definition error_field :: "string \<Rightarrow> client_Result field" where
  "error_field name = (name, \<lambda>v r. case v of
      JNull \<Rightarrow> Some (r\<lparr>cr_Error := None\<rparr>)
    | JObj ms \<Rightarrow> map_option (\<lambda>e. r\<lparr>cr_Error := Some e\<rparr>)
        (set_members error_fields ms (case cr_Error r of None \<Rightarrow> zero_error | Some e \<Rightarrow> e))
    | _ \<Rightarrow> None)"

definition result_fields :: "client_Result field list" where
  "result_fields = [bool_field ''ok'' (\<lambda>x r. r\<lparr>cr_OK := x\<rparr>),
     slice_field ''columns'' (decode_struct column_fields) ([], []) cr_Columns (\<lambda>x r. r\<lparr>cr_Columns := x\<rparr>),
     slice_field ''rows'' decode_row [] cr_Rows (\<lambda>x r. r\<lparr>cr_Rows := x\<rparr>), error_field ''error'']"

definition zero_result :: client_Result where
  "zero_result = \<lparr>cr_OK = False, cr_Columns = [], cr_Rows = [], cr_Error = None\<rparr>"

subsection \<open>Checking a response\<close>

datatype response_fault = SuccessHasError | BadColumn | RowWidth | TextNotString | IntegerNotNumber | IntegerRange | RealNotNumber
  | RealRange | MissingCode | MissingPosition | UnexpectedPosition

definition check_value :: "string \<Rightarrow> json \<Rightarrow> (response_fault, unit) outcome" where
  "check_value ty v =
     (if ty = ''TEXT'' then (case v of JStr _ \<Rightarrow> Ok () | _ \<Rightarrow> Err TextNotString)
      else if ty = ''INTEGER'' then
        (case v of JNum n \<Rightarrow> if ParseInt64 n = None then Err IntegerRange else Ok () | _ \<Rightarrow> Err IntegerNotNumber)
      else if ty = ''REAL'' then
        (case v of JNum n \<Rightarrow> if ParseFloat n = None then Err RealRange else Ok () | _ \<Rightarrow> Err RealNotNumber)
      else Ok ())"

fun check_all :: "('a \<Rightarrow> ('e, unit) outcome) \<Rightarrow> 'a list \<Rightarrow> ('e, unit) outcome" where
  "check_all f [] = Ok ()"
| "check_all f (x # xs) = obind (f x) (\<lambda>_. check_all f xs)"

definition check_column :: "string \<times> string \<Rightarrow> (response_fault, unit) outcome" where
  "check_column c = (if fst c = [] \<or> snd c \<notin> {''TEXT'', ''INTEGER'', ''REAL''} then Err BadColumn else Ok ())"

definition check_row :: "(string \<times> string) list \<Rightarrow> json list \<Rightarrow> (response_fault, unit) outcome" where
  "check_row cs row =
     (if length row \<noteq> length cs then Err RowWidth else check_all (\<lambda>(c, v). check_value (snd c) v) (zip cs row))"

definition validate_result :: "client_Result \<Rightarrow> (response_fault, unit) outcome" where
  "validate_result r =
     (if cr_OK r then
        (if cr_Error r \<noteq> None then Err SuccessHasError
         else obind (check_all check_column (cr_Columns r)) (\<lambda>_. check_all (check_row (cr_Columns r)) (cr_Rows r)))
      else case cr_Error r of
             None \<Rightarrow> Err MissingCode
           | Some e \<Rightarrow>
               if qe_Code e = [] \<or> qe_Message e = [] then Err MissingCode
               else if qe_Code e = ''SQL_ERROR''
               then (case qe_Position e of None \<Rightarrow> Err MissingPosition | Some p \<Rightarrow> if p < 0 then Err MissingPosition else Ok ())
               else if qe_Position e \<noteq> None then Err UnexpectedPosition else Ok ())"

subsection \<open>An exchange\<close>

datatype exec_error = EmptySQL | ErrFrameSize | ErrClosed | ContextError | ConnectFailed | DeadlineFailed | HeaderNotWritten | BodyNotWritten
  | HeaderNotRead | BodyNotRead | InvalidUTF8 | DecodeError json_error | TrailingJSON | BadResponse response_fault
  | QueryFailed client_Result

text \<open>
  The world of one call: whether the context is done, the connection can be made, the deadline set, and
  what the connection takes and gives.
\<close>

record exec_env =
  ctx_done :: bool
  can_dial :: bool
  can_deadline :: bool
  conn_writer :: writer
  conn_input :: string
  conn_end :: read_error

text \<open>The reading half, lines 126 to 163: the body of the frame, decoded and checked, and the rest of the input.\<close>

definition decode_body :: "string \<Rightarrow> (exec_error, client_Result) outcome" where
  "decode_body body =
     (if \<not> utf8_valid body then Err InvalidUTF8
      else case Decode (NewDecoder body) of
             Err e \<Rightarrow> Err (DecodeError e)
           | Panic \<Rightarrow> Panic
           | Ok (v, dec) \<Rightarrow> (case decode_struct result_fields v zero_result of
               None \<Rightarrow> Err (DecodeError JType)
             | Some r \<Rightarrow>
                 if Decode dec \<noteq> Err JEOF then Err TrailingJSON
                 else (case validate_result r of Err f \<Rightarrow> Err (BadResponse f) | Panic \<Rightarrow> Panic | Ok _ \<Rightarrow> Ok r)))"

definition read_body :: "read_error \<Rightarrow> string \<Rightarrow> (exec_error, string \<times> string) outcome" where
  "read_body fin input = (case ReadFull fin 4 input of
      Err _ \<Rightarrow> Err HeaderNotRead
    | Panic \<Rightarrow> Panic
    | Ok (header, rest) \<Rightarrow>
        let n = Uint32 header
        in if n = 0 \<or> MaxFrame < n then Err ErrFrameSize
           else (case ReadFull fin n rest of Err _ \<Rightarrow> Err BodyNotRead | Panic \<Rightarrow> Panic | Ok br \<Rightarrow> Ok br))"

text \<open>The writing half: header, then statement. The result is the bytes sent and the error, if any.\<close>

definition write_request :: "writer \<Rightarrow> string \<Rightarrow> string \<times> exec_error option" where
  "write_request w sql = (case writeAll w 0 (PutUint32 (length sql)) of
      (sent, k, Ok _) \<Rightarrow> (case writeAll w k sql of
          (sent', _, Ok _) \<Rightarrow> (sent @ sent', None)
        | (sent', _, _) \<Rightarrow> (sent @ sent', Some BodyNotWritten))
    | (sent, k, _) \<Rightarrow> (sent, Some HeaderNotWritten))"

definition Exec :: "exec_env \<Rightarrow> string \<Rightarrow> client \<Rightarrow> client \<times> string \<times> (exec_error, client_Result) outcome" where
  "Exec env sql c =
     (if \<not> utf8_valid sql \<or> TrimSpace sql = [] then (c, [], Err EmptySQL)
      else if MaxFrame < length sql then (c, [], Err ErrFrameSize)
      else if cl_closed c then (c, [], Err ErrClosed)
      else if ctx_done env then (c, [], Err ContextError)
      else if \<not> cl_conn c \<and> \<not> can_dial env then (c, [], Err ConnectFailed)
      else let c1 = c\<lparr>cl_conn := True\<rparr>
           in if \<not> can_deadline env then (drop_conn c1, [], Err DeadlineFailed)
              else case write_request (conn_writer env) sql of
                     (sent, Some e) \<Rightarrow> (drop_conn c1, sent, Err e)
                   | (sent, None) \<Rightarrow>
                       (case obind (read_body (conn_end env) (conn_input env)) (\<lambda>(body, _). decode_body body) of
                          Err e \<Rightarrow> (drop_conn c1, sent, Err e)
                        | Panic \<Rightarrow> (c1, sent, Panic)
                        | Ok r \<Rightarrow> (c1, sent, if cr_OK r then Ok r else Err (QueryFailed r))))"

section \<open>The command line\<close>

definition cli_escape :: "char \<Rightarrow> string" where
  "cli_escape c = (if c = quote then [quote, quote] else if c = CHR 0x5C then [CHR 0x5C, CHR 0x5C]
     else if c = CHR 0x0A then [CHR 0x5C, CHR ''n''] else if c = CHR 0x0D then [CHR 0x5C, CHR ''r'']
     else if c = CHR 0x09 then [CHR 0x5C, CHR ''t''] else [c])"

definition display :: "Value \<Rightarrow> string" where
  "display v =
     (if snd (Value_Integer v) then Itoa (sint (fst (Value_Integer v)))
      else if snd (Value_Real v) then FormatFloat_g (fst (Value_Real v))
      else [quote] @ concat (map cli_escape (fst (Value_Text v))) @ [quote])"

fun tab_join :: "string list \<Rightarrow> string" where
  "tab_join [] = []"
| "tab_join [x] = x"
| "tab_join (x # y # ys) = x @ CHR 0x09 # tab_join (y # ys)"

text \<open>The lines of \<^verbatim>\<open>printResult\<close>, one for each write.\<close>

definition printResult :: "Result \<Rightarrow> string list" where
  "printResult r =
     (if Columns r = [] then [''OK'' @ [CHR 0x0A]]
      else (tab_join (Columns r) @ [CHR 0x0A]) # map (\<lambda>row. tab_join (map display row) @ [CHR 0x0A]) (Rows r)
           @ [Itoa (int (length (Rows r))) @ '' row(s)'' @ [CHR 0x0A]])"

datatype cli_output = Stdout string | Stderr string

text \<open>Writing lines to the standard output until one write fails. \<open>out_ok n\<close> says whether the n-th write succeeds.\<close>

fun write_lines :: "(nat \<Rightarrow> bool) \<Rightarrow> nat \<Rightarrow> string list \<Rightarrow> cli_output list \<times> nat \<times> bool" where
  "write_lines out_ok n [] = ([], n, True)"
| "write_lines out_ok n (l # ls) =
     (if out_ok n then (case write_lines out_ok (n + 1) ls of (out, n', done) \<Rightarrow> (Stdout l # out, n', done))
      else ([], n + 1, False))"

definition diagnose :: "(nat \<Rightarrow> bool) \<Rightarrow> nat \<Rightarrow> string \<Rightarrow> cli_output list" where
  "diagnose err_ok m line = (if err_ok m then [Stderr (line @ [CHR 0x0A])] else [])"

text \<open>
  \<^verbatim>\<open>Run\<close> on a whole input: the outputs in order and the exit code, or \<^const>\<open>None\<close> for a panic; \<open>n\<close> and \<open>m\<close> count the writes to
  the two outputs.
\<close>

function cli_Run :: "(nat \<Rightarrow> bool) \<Rightarrow> (nat \<Rightarrow> bool) \<Rightarrow> read_error \<Rightarrow> nat \<Rightarrow> nat \<Rightarrow> int \<Rightarrow> Database \<Rightarrow> string \<Rightarrow> (cli_output list \<times> int) option" where
  "cli_Run out_ok err_ok fin n m status db input = (case readStatement fin input of
      Err e \<Rightarrow> Some (if e = EOF then ([], status) else (diagnose err_ok m ''ERROR: could not read standard input'', 1))
    | Panic \<Rightarrow> None
    | Ok (source, rest) \<Rightarrow>
        if length input \<le> length rest then None
        else (case Execute db source of
            (db', Panic) \<Rightarrow> None
          | (db', Err e) \<Rightarrow>
              let line = ''ERROR at position '' @ Itoa (int (Position e) + 1) @ '': '' @ Message e
              in if \<not> err_ok m then Some ([], 1)
                 else map_option (\<lambda>(out, st). (diagnose err_ok m line @ out, st)) (cli_Run out_ok err_ok fin n (m + 1) 1 db' rest)
          | (db', Ok result) \<Rightarrow>
              (case write_lines out_ok n (printResult result) of
                 (out, n', True) \<Rightarrow> map_option (\<lambda>(out', st). (out @ out', st)) (cli_Run out_ok err_ok fin n' m status db' rest)
               | (out, n', False) \<Rightarrow> Some (out @ diagnose err_ok m ''ERROR: could not write standard output'', 1))))"
  by pat_completeness auto
termination
  by (relation "measure (\<lambda>(_, _, _, _, _, _, _, input). length input)") auto

declare cli_Run.simps [simp del]

section \<open>Results are typed\<close>

definition typed_row :: "Type list \<Rightarrow> Value list \<Rightarrow> bool" where
  "typed_row ts row \<longleftrightarrow> list_all2 (\<lambda>t v. typeID v = t \<and> wf_Value v) ts row"

definition typed_result :: "Result \<Rightarrow> bool" where
  "typed_result r \<longleftrightarrow> length (Columns r) = length (Types r) \<and> list_all (typed_row (Types r)) (Rows r)"

lemma project_row_Ok: "project_row is row = Ok vs \<Longrightarrow> vs = map ((!) row) is \<and> (\<forall>i \<in> set is. i < length row)"
  by (induction "is" arbitrary: vs) (auto simp: outcome_simps slice_get_def split: if_splits)

lemma select_loop_Ok: "select_loop is flt rows = Ok out \<Longrightarrow> r \<in> set out \<Longrightarrow> \<exists>row \<in> set rows. project_row is row = Ok r"
proof (induction rows arbitrary: out)
  case (Cons row rows)
  then show ?case by (auto simp: outcome_simps split: if_splits)
qed simp

lemma project_columns_Ok:
  assumes "project_columns t s = Ok (is, names, types)"
  shows "types = map (\<lambda>i. col_type (t_columns t ! i)) is" "length names = length types"
proof -
  have "types = map (\<lambda>i. col_type (t_columns t ! i)) is \<and> length names = length types"
  proof (cases "all_columns s")
    case True
    then show ?thesis using assms map_via_nth[of col_type "t_columns t"] by (auto simp: project_columns_def)
  next
    case False
    then show ?thesis using assms by (auto simp: project_columns_def select_projection_Ok dest: map_eq_imp_length_eq)
  qed
  then show "types = map (\<lambda>i. col_type (t_columns t ! i)) is" "length names = length types" by simp_all
qed

lemma table_select_typed:
  assumes "wf_table t" "table_select t s = Ok r"
  shows "typed_result r"
proof -
  obtain "is" names types flt rows where p: "project_columns t s = Ok (is, names, types)"
      "select_loop is flt (t_rows t) = Ok rows" "r = \<lparr>Columns = names, Types = types, Rows = rows\<rparr>"
    using assms(2) by (auto simp: table_select_def outcome_simps)
  note c = project_columns_Ok[OF p(1)]
  have "typed_row types x" if x_in: "x \<in> set rows" for x
  proof -
    obtain row where row: "row \<in> set (t_rows t)" "project_row is row = Ok x" using select_loop_Ok[OF p(2) x_in] by blast
    have w: "wf_row (t_columns t) row" using assms(1) row(1) by (simp add: wf_table_def list_all_iff)
    note x = project_row_Ok[OF row(2)]
    have "typeID (row ! i) = col_type (t_columns t ! i) \<and> wf_Value (row ! i)" if "i \<in> set is" for i
      using w x that list_all2_nthD2[of _ "t_columns t" row i] unfolding wf_row_def by blast
    then show ?thesis using x c(1) by (auto simp: typed_row_def list_all2_conv_all_nth)
  qed
  then show ?thesis using c(2) p(3) by (simp add: typed_result_def list_all_iff)
qed

lemma Execute_typed:
  assumes "wf_db db" "Execute db sql = (db', Ok res)"
  shows "typed_result res"
proof -
  have e: "typed_result empty_Result" by (simp add: typed_result_def empty_Result_def)
  obtain st where st: "execute_statement db st = (db', Ok res)" using assms(2) by (auto simp: Execute_def split: outcome.splits)
  show ?thesis
  proof (cases "res = empty_Result")
    case False
    then obtain t where "map_get (tables db) (id_name (table_id st)) = Some t" "table_select t st = Ok res"
      using st by (auto simp: execute_statement_def create_table_def table_insert_def table_update_def Let_def
        split: if_splits option.splits outcome.splits prod.splits)
    then show ?thesis using table_select_typed[of t] assms(1) unfolding wf_db_def by blast
  qed (use e in simp)
qed

section \<open>Responses on the wire\<close>

fun typed_any :: "string \<Rightarrow> any \<Rightarrow> bool" where
  "typed_any ty (AnyInteger _) \<longleftrightarrow> ty = ''INTEGER''"
| "typed_any ty (AnyReal x) \<longleftrightarrow> ty = ''REAL'' \<and> f64_finite x \<and> is_float64 x"
| "typed_any ty (AnyText _) \<longleftrightarrow> ty = ''TEXT''"

definition typed_response :: "response \<Rightarrow> bool" where
  "typed_response r \<longleftrightarrow> (if OK r
     then Error r = None \<and> (resp_Columns r = None \<and> resp_Rows r = None
        \<or> (\<exists>cs rows. resp_Columns r = Some cs \<and> resp_Rows r = Some rows \<and> list_all (\<lambda>c. snd c \<in> {''TEXT'', ''INTEGER'', ''REAL''}) cs
            \<and> list_all (list_all2 (\<lambda>c v. typed_any (snd c) v) cs) rows))
     else resp_Columns r = None \<and> resp_Rows r = None
        \<and> (\<exists>m p. Error r = Some \<lparr>Code = ''SQL_ERROR'', fail_Message = m, fail_Position = Some p\<rparr>))"

lemma typed_any_of: "wf_Value v \<Longrightarrow> typed_any (type_name (typeID v)) (any_of v)"
  by (cases "typeID v") (simp_all add: any_of_def type_name_def Value_Integer_def Value_Real_def Value_Text_def)

lemma query_typed:
  assumes "wf_db db" "query db sql = (db', Ok r)"
  shows "typed_response r"
proof -
  obtain db1 out where e: "Execute db sql = (db1, out)" by fastforce
  show ?thesis
  proof (cases out)
    case (Ok res)
    then have t: "typed_result res" using Execute_typed[OF assms(1)] e by simp
    show ?thesis
    proof (cases "Columns res = []")
      case True
      then show ?thesis using assms(2) e Ok by (auto simp: query_def ok_response_def typed_response_def)
    next
      case False
      let ?cs = "zip (Columns res) (map type_name (Types res))"
      have l: "length (Columns res) = length (Types res)" using t by (simp add: typed_result_def)
      have r: "r = ok_response\<lparr>resp_Columns := Some ?cs, resp_Rows := Some (map (map any_of) (Rows res))\<rparr>"
        using assms(2) e Ok False describe_columns_zip[OF l] by (simp add: query_def)
      have "list_all2 (\<lambda>c v. typed_any (snd c) v) ?cs (map any_of row)" if "row \<in> set (Rows res)" for row
        using t that l typed_any_of by (fastforce simp: typed_result_def typed_row_def list_all_iff list_all2_conv_all_nth)
      moreover have "list_all (\<lambda>c. snd c \<in> {''TEXT'', ''INTEGER'', ''REAL''}) ?cs"
        by (auto simp: list_all_iff type_name_def dest!: set_zip_rightD split: Type.splits)
      ultimately show ?thesis unfolding r by (simp add: typed_response_def ok_response_def list_all_iff)
    qed
  next
    case (Err err)
    then show ?thesis using assms(2) e by (auto simp: query_def errorResponse_def typed_response_def)
  qed (use assms(2) e in \<open>simp add: query_def\<close>)
qed

text \<open>Names and texts that JSON can carry, and nonempty where the client insists.\<close>

fun text_ok :: "any \<Rightarrow> bool" where
  "text_ok (AnyText s) \<longleftrightarrow> utf8_valid s"
| "text_ok _ \<longleftrightarrow> True"

definition texts_ok :: "response \<Rightarrow> bool" where
  "texts_ok r \<longleftrightarrow>
     (case resp_Columns r of None \<Rightarrow> True | Some cs \<Rightarrow> list_all (\<lambda>c. fst c \<noteq> [] \<and> utf8_valid (fst c)) cs)
   \<and> (case resp_Rows r of None \<Rightarrow> True | Some rows \<Rightarrow> list_all (list_all text_ok) rows)
   \<and> (case Error r of None \<Rightarrow> True
      | Some f \<Rightarrow> fail_Message f \<noteq> [] \<and> utf8_valid (fail_Message f) \<and> (case fail_Position f of None \<Rightarrow> True | Some p \<Rightarrow> p < 2 ^ 63))"

text \<open>The value a JSON value stands for, read at the type of its column.\<close>

fun same_value :: "any \<Rightarrow> json \<Rightarrow> bool" where
  "same_value (AnyInteger w) v \<longleftrightarrow> (case v of JNum n \<Rightarrow> ParseInt64 n = Some w | _ \<Rightarrow> False)"
| "same_value (AnyReal x) v \<longleftrightarrow> (case v of JNum n \<Rightarrow> ParseFloat n = Some x | _ \<Rightarrow> False)"
| "same_value (AnyText s) v \<longleftrightarrow> v = JStr s"

lemma any_json_sound:
  assumes "typed_any ty x" "text_ok x"
  shows "\<exists>v. any_json x = Some v \<and> same_value x v \<and> check_value ty v = Ok () \<and> wf_json d v"
proof (cases x)
  case (AnyInteger w)
  then show ?thesis using assms ParseInt64_word[of w] by (simp add: check_value_def json_number_Itoa)
next
  case (AnyReal y)
  then obtain n where n: "json_float y = Some n" using assms json_float_finite by auto
  then have "json_number n" "ParseFloat n = Some y" using assms AnyReal json_float_reads_back by auto
  then show ?thesis using assms AnyReal n by (simp add: check_value_def)
next
  case (AnyText t)
  then show ?thesis using assms by (simp add: check_value_def)
qed

lemma row_json_sound:
  assumes "list_all2 (\<lambda>c v. typed_any (snd c) v) cs row" "list_all text_ok row"
  shows "\<exists>vs. row_json row = Some (JArr vs) \<and> list_all2 same_value row vs \<and> check_row cs vs = Ok () \<and> wf_json (Suc d) (JArr vs)"
proof -
  have "\<exists>vs. all_some (map any_json row) = Some vs \<and> list_all2 same_value row vs
      \<and> check_all (\<lambda>(c, v). check_value (snd c) v) (zip cs vs) = Ok () \<and> list_all (wf_json d) vs \<and> length vs = length cs"
    using assms
  proof (induction cs row rule: list_all2_induct)
    case (Cons c cs x row)
    obtain v where "any_json x = Some v" "same_value x v" "check_value (snd c) v = Ok ()" "wf_json d v"
      using any_json_sound[of "snd c" x d] Cons by auto
    then show ?case using Cons by auto
  qed simp
  then show ?thesis by (auto simp: row_json_def check_row_def list_all_iff)
qed

subsection \<open>Decoding what the server encodes\<close>

lemma result_field:
  "field_for result_fields ''ok'' = Some (bool_field ''ok'' (\<lambda>x r. r\<lparr>cr_OK := x\<rparr>))"
  "field_for result_fields ''columns'' = Some (slice_field ''columns'' (decode_struct column_fields) ([], []) cr_Columns (\<lambda>x r. r\<lparr>cr_Columns := x\<rparr>))"
  "field_for result_fields ''rows'' = Some (slice_field ''rows'' decode_row [] cr_Rows (\<lambda>x r. r\<lparr>cr_Rows := x\<rparr>))"
  "field_for result_fields ''error'' = Some (error_field ''error'')"
  by (simp_all add: result_fields_def field_for_def bool_field_def slice_field_def error_field_def)

lemma decode_column: "decode_struct column_fields (column_json c) ([], []) = Some c"
  by (cases c) (simp add: decode_struct_def column_json_def column_fields_def field_for_def string_field_def)

lemma decode_columns: "decode_elements (decode_struct column_fields) ([], []) (map column_json cs) [] = Some cs"
  by (induction cs) (simp_all add: decode_column)

lemma decode_rows: "decode_elements decode_row [] (map JArr rows) [] = Some rows"
  by (induction rows) (simp_all add: decode_row_def)

lemma decode_failure:
  assumes "p < 2 ^ 63"
  shows "set_members error_fields [(''code'', JStr code), (''message'', JStr m), (''position'', JNum (Itoa (int p)))] zero_error
     = Some \<lparr>qe_Code = code, qe_Message = m, qe_Position = Some (int p)\<rparr>"
  using ParseInt64_sint[of "int p"] assms
  by (auto simp: error_fields_def zero_error_def field_for_def string_field_def int_ptr_field_def)

definition same_error :: "failure \<Rightarrow> client_QueryError \<Rightarrow> bool" where
  "same_error f e \<longleftrightarrow> qe_Code e = Code f \<and> qe_Message e = fail_Message f \<and> qe_Position e = map_option int (fail_Position f)"

text \<open>What a client result tells of a response.\<close>

definition carries :: "client_Result \<Rightarrow> response \<Rightarrow> bool" where
  "carries cr r \<longleftrightarrow> cr_OK cr = OK r \<and> cr_Columns cr = (case resp_Columns r of None \<Rightarrow> [] | Some cs \<Rightarrow> cs)
     \<and> list_all2 (list_all2 same_value) (case resp_Rows r of None \<Rightarrow> [] | Some rows \<Rightarrow> rows) (cr_Rows cr)
     \<and> rel_option same_error (Error r) (cr_Error cr)"

lemma service_names_valid:
  "utf8_valid ''ok''" "utf8_valid ''columns''" "utf8_valid ''rows''" "utf8_valid ''error''" "utf8_valid ''name''" "utf8_valid ''type''"
  "utf8_valid ''code''" "utf8_valid ''message''" "utf8_valid ''position''" "utf8_valid ''SQL_ERROR''"
  "utf8_valid ''TEXT''" "utf8_valid ''INTEGER''" "utf8_valid ''REAL''"
  using clean_printable by (simp_all add: clean_def printable_def)

lemma check_all_Ok: "check_all f xs = Ok () \<longleftrightarrow> (\<forall>x \<in> set xs. f x = Ok ())"
  by (induction xs) (auto simp: outcome_simps)

lemma table_response_decoded:
  assumes cs: "list_all (\<lambda>c. snd c \<in> {''TEXT'', ''INTEGER'', ''REAL''}) cs" "list_all (\<lambda>c. fst c \<noteq> [] \<and> utf8_valid (fst c)) cs"
    and rows: "list_all (list_all2 (\<lambda>c v. typed_any (snd c) v) cs) rows" "list_all (list_all text_ok) rows"
  shows "\<exists>v cr. db_response_json \<lparr>OK = True, resp_Columns = Some cs, resp_Rows = Some rows, Error = None\<rparr> = Some v
     \<and> wf_json (Suc (Suc (Suc d))) v \<and> decode_struct result_fields v zero_result = Some cr \<and> validate_result cr = Ok ()
     \<and> carries cr \<lparr>OK = True, resp_Columns = Some cs, resp_Rows = Some rows, Error = None\<rparr>"
proof -
  let ?good = "\<lambda>row v. \<exists>vs. v = JArr vs \<and> list_all2 same_value row vs \<and> check_row cs vs = Ok () \<and> wf_json (Suc d) (JArr vs)"
  have "\<forall>row \<in> set rows. \<exists>v. row_json row = Some v \<and> ?good row v"
    using rows row_json_sound[of cs _ d] by (fastforce simp: list_all_iff)
  from all_some_map[OF this] obtain vs where vs: "all_some (map row_json rows) = Some vs" "list_all2 ?good rows vs" by blast
  from vs(2) obtain vss where vss: "vs = map JArr vss" "list_all2 (list_all2 same_value) rows vss" "\<forall>x \<in> set vss. check_row cs x = Ok () \<and> wf_json (Suc d) (JArr x)"
  proof (induction rows vs arbitrary: thesis rule: list_all2_induct)
    case (Cons row rows v vs)
    obtain x where "v = JArr x" "list_all2 same_value row x" "check_row cs x = Ok ()" "wf_json (Suc d) (JArr x)" using Cons.hyps by blast
    moreover obtain vss where "vs = map JArr vss" "list_all2 (list_all2 same_value) rows vss"
      "\<forall>x \<in> set vss. check_row cs x = Ok () \<and> wf_json (Suc d) (JArr x)" using Cons.IH by blast
    ultimately show ?case using Cons.prems[of "x # vss"] by auto
  qed auto
  let ?v = "JObj [(''ok'', JBool True), (''columns'', JArr (map column_json cs)), (''rows'', JArr vs)]"
  let ?cr = "\<lparr>cr_OK = True, cr_Columns = cs, cr_Rows = vss, cr_Error = None\<rparr>"
  have d: "decode_struct result_fields ?v zero_result = Some ?cr"
    by (simp add: decode_struct_def result_field bool_field_def slice_field_def decode_columns decode_rows vss(1) zero_result_def)
  have c: "wf_json (Suc d) (column_json x)" if "x \<in> set cs" for x
    using cs that by (auto simp: column_json_def list_all_iff service_names_valid)
  have "wf_json (Suc (Suc (Suc d))) ?v" using c vss(1,3) by (auto simp: service_names_valid)
  moreover have "validate_result ?cr = Ok ()"
    using cs vss(3) by (auto simp: validate_result_def outcome_simps check_all_Ok check_column_def list_all_iff)
  moreover have "carries ?cr \<lparr>OK = True, resp_Columns = Some cs, resp_Rows = Some rows, Error = None\<rparr>"
    using vss(2) by (simp add: carries_def)
  moreover have "db_response_json \<lparr>OK = True, resp_Columns = Some cs, resp_Rows = Some rows, Error = None\<rparr> = Some ?v"
    using vs(1) by (simp add: db_response_json_def)
  ultimately show ?thesis using d by blast
qed

lemma error_response_decoded:
  fixes r :: response
  assumes "m \<noteq> []" "utf8_valid m" "p < 2 ^ 63"
    and r: "r = \<lparr>OK = False, resp_Columns = None, resp_Rows = None, Error = Some \<lparr>Code = ''SQL_ERROR'', fail_Message = m, fail_Position = Some p\<rparr>\<rparr>"
  shows "\<exists>v cr. db_response_json r = Some v
     \<and> wf_json (Suc (Suc (Suc d))) v \<and> decode_struct result_fields v zero_result = Some cr \<and> validate_result cr = Ok () \<and> carries cr r"
proof -
  let ?f = "JObj [(''code'', JStr ''SQL_ERROR''), (''message'', JStr m), (''position'', JNum (Itoa (int p)))]"
  let ?v = "JObj [(''ok'', JBool False), (''error'', ?f)]"
  let ?cr = "\<lparr>cr_OK = False, cr_Columns = [], cr_Rows = [], cr_Error = Some \<lparr>qe_Code = ''SQL_ERROR'', qe_Message = m, qe_Position = Some (int p)\<rparr>\<rparr>"
  have e: "snd (error_field ''error'') ?f zero_result = Some ?cr"
    using decode_failure[OF assms(3), of "''SQL_ERROR''" m] by (simp add: error_field_def zero_result_def del: set_members.simps)
  have "set_members result_fields [(''error'', ?f)] (zero_result\<lparr>cr_OK := False\<rparr>) = Some ?cr"
    using e by (simp add: result_field zero_result_def)
  then have "decode_struct result_fields ?v zero_result = Some ?cr"
    unfolding decode_struct_def by (simp add: result_field bool_field_def)
  moreover have "wf_json (Suc (Suc (Suc d))) ?v" using assms(2) by (simp add: service_names_valid json_number_Itoa)
  moreover have "validate_result ?cr = Ok ()" using assms(1) by (simp add: validate_result_def)
  moreover have "carries ?cr r" by (simp add: r carries_def same_error_def)
  moreover have "db_response_json r = Some ?v" by (simp add: r db_response_json_def failure_json_def)
  ultimately show ?thesis by blast
qed

lemma empty_response_decoded:
  "\<exists>v cr. db_response_json ok_response = Some v \<and> wf_json (Suc (Suc (Suc d))) v \<and> decode_struct result_fields v zero_result = Some cr
     \<and> validate_result cr = Ok () \<and> carries cr ok_response"
  by (simp add: db_response_json_def ok_response_def service_names_valid decode_struct_def result_field bool_field_def zero_result_def
    validate_result_def carries_def)

lemma response_decoded:
  assumes "typed_response r" "texts_ok r"
  shows "\<exists>v cr. db_response_json r = Some v \<and> wf_json max_depth v \<and> decode_struct result_fields v zero_result = Some cr
     \<and> validate_result cr = Ok () \<and> carries cr r"
proof -
  obtain e where e: "max_depth = Suc (Suc (Suc e))" using that[of 9997] by (simp add: max_depth_def)
  show ?thesis
  proof (cases "OK r")
    case True
    show ?thesis
    proof (cases "resp_Columns r")
      case None
      then have "r = ok_response" using True assms(1) by (auto simp: typed_response_def ok_response_def)
      then show ?thesis using empty_response_decoded[of e] e by simp
    next
      case (Some cs)
      then obtain rows where r: "r = \<lparr>OK = True, resp_Columns = Some cs, resp_Rows = Some rows, Error = None\<rparr>"
          "list_all (\<lambda>c. snd c \<in> {''TEXT'', ''INTEGER'', ''REAL''}) cs" "list_all (list_all2 (\<lambda>c v. typed_any (snd c) v) cs) rows"
        using True assms(1) by (cases r) (auto simp: typed_response_def)
      then show ?thesis using table_response_decoded[OF r(2) _ r(3), of e] assms(2) e by (simp add: texts_ok_def)
    qed
  next
    case False
    then obtain m p where r: "r = \<lparr>OK = False, resp_Columns = None, resp_Rows = None, Error = Some \<lparr>Code = ''SQL_ERROR'', fail_Message = m, fail_Position = Some p\<rparr>\<rparr>"
      using assms(1) by (cases r) (auto simp: typed_response_def)
    then show ?thesis using error_response_decoded[OF _ _ _ r, of e] assms(2) e by (simp add: texts_ok_def)
  qed
qed

section \<open>The exchange\<close>

text \<open>A connection that takes all it is given.\<close>

definition takes_all :: "writer \<Rightarrow> bool" where
  "takes_all w \<longleftrightarrow> (\<forall>k p. w k p = Wrote (int (length p)))"

lemma takes_all_write:
  assumes "takes_all w"
  shows "\<exists>k'. write_part w k p = (p, k', Ok ())" "\<exists>k'. writeAll w k p = (p, k', Ok ())"
  using assms by (cases "p = []"; simp add: takes_all_def write_part.simps[of w k p] write_part.simps[of w _ "[]"]
    writeAll.simps[of w k p] writeAll.simps[of w _ "[]"])+

lemma takes_all_frame:
  assumes "takes_all w"
  shows "writeFrame w p = (PutUint32 (length p) @ p, Ok ())" "write_request w p = (PutUint32 (length p) @ p, None)"
proof -
  obtain k1 k2 where "write_part w 0 (PutUint32 (length p)) = (PutUint32 (length p), k1, Ok ())" "write_part w k1 p = (p, k2, Ok ())"
    using takes_all_write(1)[OF assms] by metis
  then show "writeFrame w p = (PutUint32 (length p) @ p, Ok ())" by (simp add: writeFrame_def)
  obtain k3 k4 where "writeAll w 0 (PutUint32 (length p)) = (PutUint32 (length p), k3, Ok ())" "writeAll w k3 p = (p, k4, Ok ())"
    using takes_all_write(2)[OF assms] by metis
  then show "write_request w p = (PutUint32 (length p) @ p, None)" by (simp add: write_request_def)
qed

lemma decode_printed:
  assumes "wf_json max_depth v" "decode_struct result_fields v zero_result = Some cr" "validate_result cr = Ok ()"
  shows "decode_body (json_print v) = Ok cr"
proof -
  have "utf8_valid (json_print v)" using json_print_clean[OF assms(1)] by (simp add: clean_def)
  moreover have "parse_value max_depth (json_print v) = Some (v, [])" using parse_print[OF assms(1), of "[]"] by (simp add: stops_def)
  then have "Decode (NewDecoder (json_print v)) = Ok (v, NewDecoder [])"
    by (simp add: Decode_def prepare_def NewDecoder_def decode_here_def tokenValueAllowed_def tokenValueEnd_def)
  moreover have "parse_value max_depth [] = None" by (simp add: parse_value.simps skip_ws_def)
  then have "Decode (NewDecoder []) = Err JEOF"
    by (simp add: Decode_def prepare_def NewDecoder_def decode_here_def tokenValueAllowed_def skip_ws_def)
  ultimately show ?thesis using assms(2,3) by (simp add: decode_body_def)
qed

lemma read_body_frame:
  assumes "0 < length p" "length p \<le> MaxFrame"
  shows "read_body fin (PutUint32 (length p) @ p @ rest) = Ok (p, rest)"
proof -
  have "Uint32 (PutUint32 (length p)) = length p" using assms(2) by (intro Uint32_PutUint32) (simp add: MaxFrame_def)
  then show ?thesis using assms by (simp add: read_body_def ReadFull_def Let_def)
qed

section \<open>The command line runs scripts\<close>

text \<open>A text that is one statement: its first semicolon token is its last byte.\<close>

definition one_statement :: "string \<Rightarrow> bool" where
  "one_statement st \<longleftrightarrow> (case lex st of Ok ts \<Rightarrow> (case statement_end ts of Some t \<Rightarrow> tok_pos t + 1 = length st | None \<Rightarrow> False) | _ \<Rightarrow> False)"

text \<open>What a script should print, and its exit code.\<close>

fun script :: "Database \<Rightarrow> string list \<Rightarrow> cli_output list \<times> int" where
  "script db [] = ([], 0)"
| "script db (st # sts) = (case Execute db st of
      (db', Ok r) \<Rightarrow> (case script db' sts of (out, code) \<Rightarrow> (map Stdout (printResult r) @ out, code))
    | (db', Err e) \<Rightarrow> (case script db' sts of (out, code) \<Rightarrow>
        (Stderr (''ERROR at position '' @ Itoa (int (Position e) + 1) @ '': '' @ Message e @ [CHR 0x0A]) # out, 1))
    | (db', Panic) \<Rightarrow> ([], 2))"

lemma statement_loop_extend:
  "fin \<noteq> EOF \<Longrightarrow> statement_loop fin src q has s = Ok (st, []) \<Longrightarrow> statement_loop fin' src q has (s @ rest) = Ok (st, rest)"
  by (induction s arbitrary: src q has) (auto simp: statement_loop_Cons split: if_splits)

lemma one_statement_read: "one_statement st \<Longrightarrow> readStatement fin (st @ rest) = Ok (st, rest)"
proof -
  assume "one_statement st"
  then obtain ts t where t: "lex st = Ok ts" "statement_end ts = Some t" "tok_pos t + 1 = length st"
    by (auto simp: one_statement_def split: outcome.splits option.splits)
  then have "splits ReadFailed [] False 0 st ts" using lex_loop_covers covers_splits by (auto simp: lex_def)
  then have "statement_loop ReadFailed [] False False st = Ok (st, [])" using t by (simp add: splits_def)
  then show ?thesis using statement_loop_extend[of ReadFailed] by (simp add: readStatement_def)
qed

lemma write_lines_all: "write_lines (\<lambda>_. True) n ls = (map Stdout ls, n + length ls, True)"
  by (induction ls arbitrary: n) simp_all

lemma blank_end: "list_all whitespace ws \<Longrightarrow> cli_Run out_ok err_ok EOF n m status db ws = Some ([], status)"
proof -
  assume "list_all whitespace ws"
  moreover from this have "\<not> nonblank ws" by (induction ws) simp_all
  ultimately have "readStatement EOF ws = Err EOF"
    using scan_plain[OF space_plain, of ws EOF "[]" False False "[]"] by (simp add: readStatement_def)
  then show ?thesis by (simp add: cli_Run.simps)
qed

lemma cli_Run_from:
  assumes "wf_db db" "list_all one_statement sts" "list_all whitespace ws"
  shows "cli_Run (\<lambda>_. True) (\<lambda>_. True) EOF n m status db (concat sts @ ws)
    = Some (fst (script db sts), if status \<noteq> 0 \<and> snd (script db sts) = 0 then status else snd (script db sts))
    \<and> snd (script db sts) \<in> {0, 1}"
  using assms
proof (induction sts arbitrary: db n m status)
  case Nil
  then show ?case by (auto simp: blank_end)
next
  case (Cons st sts)
  have r: "readStatement EOF (st @ concat sts @ ws) = Ok (st, concat sts @ ws)" using one_statement_read Cons.prems(2) by simp
  have ne: "st \<noteq> []" using Cons.prems(2) by (auto simp: one_statement_def split: outcome.splits option.splits)
  obtain db' out where e: "Execute db st = (db', out)" by fastforce
  note x = Execute_executes[OF Cons.prems(1), of st]
  have wf: "wf_db db'" "out \<noteq> Panic" using x e Cons.prems(1) by (cases out; auto simp: executes_def)+
  note IH = Cons.IH[OF wf(1) _ Cons.prems(3)]
  obtain o' c where s: "script db' sts = (o', c)" by fastforce
  show ?case
  proof (cases out)
    case (Ok result)
    then show ?thesis using r ne e s wf IH[of "n + length (printResult result)" m status] Cons.prems(2)
      by (simp add: cli_Run.simps[of _ _ _ n m status db "st @ concat sts @ ws"] write_lines_all)
  next
    case (Err err)
    then show ?thesis using r ne e s wf IH[of n "m + 1" 1] Cons.prems(2)
      by (auto simp add: cli_Run.simps[of _ _ _ n m status db "st @ concat sts @ ws"] Let_def diagnose_def)
  qed (use wf in simp)
qed

section \<open>Properties\<close>

text \<open>C3: A statement from the client to the database and back, over the bytes of the socket: the server executes
  exactly the client's text on its database and answers one frame, and the client turns that frame into the
  result of the query, column names and types, every integer, double and text unchanged, or into the
  query error with its message and position; its connection stays usable.\<close>

theorem exec_end_to_end:
  assumes "wf_db db" "query db sql = (db', Ok r)" "texts_ok r" "length (json_print (the (db_response_json r))) \<le> MaxFrame"
    and "utf8_valid sql" "TrimSpace sql \<noteq> []" "length sql \<le> MaxFrame" "\<not> cl_closed c" "takes_all w"
  shows "\<exists>out cr. db_handle (\<lambda>_. w) EOF 0 db (PutUint32 (length sql) @ sql) = Some (out, db')
     \<and> Exec \<lparr>ctx_done = False, can_dial = True, can_deadline = True, conn_writer = w, conn_input = out, conn_end = fin\<rparr> sql c
         = (c\<lparr>cl_conn := True\<rparr>, PutUint32 (length sql) @ sql, if OK r then Ok cr else Err (QueryFailed cr))
     \<and> carries cr r"
proof -
  obtain v cr where v: "db_response_json r = Some v" "wf_json max_depth v" "decode_struct result_fields v zero_result = Some cr"
      "validate_result cr = Ok ()" "carries cr r"
    using response_decoded[OF query_typed[OF assms(1,2)] assms(3)] by blast
  let ?p = "json_print v"
  have p: "length ?p \<le> MaxFrame" "0 < length ?p" using assms(4) v(1) print_head[OF v(2)] by auto
  have x: "execute db sql = (db', Ok ?p)" using assms(2,5,6) v(1) p(1) by (simp add: execute_def payload_of_def)
  have "utf8_runes [] = []" by (simp add: utf8_runes.simps)
  then have "sql \<noteq> []" using assms(6) by (auto simp: TrimSpace_def)
  then have "readFrame EOF (PutUint32 (length sql) @ sql) = Ok (sql, [])" using assms(7) by (simp add: readFrame_iff)
  moreover have "readFrame EOF [] = Err (ReadError EOF)" by (simp add: readFrame_def ReadFull_def)
  then have "db_handle (\<lambda>_. w) EOF 1 db' [] = Some ([], db')" by (simp add: db_handle.simps)
  ultimately have h: "db_handle (\<lambda>_. w) EOF 0 db (PutUint32 (length sql) @ sql) = Some (PutUint32 (length ?p) @ ?p, db')"
    using x takes_all_frame(1)[OF assms(9), of ?p] \<open>sql \<noteq> []\<close> by (subst db_handle.simps) simp
  have "read_body fin (PutUint32 (length ?p) @ ?p) = Ok (?p, [])" using read_body_frame[OF p(2,1), of fin "[]"] by simp
  then have "Exec \<lparr>ctx_done = False, can_dial = True, can_deadline = True, conn_writer = w, conn_input = PutUint32 (length ?p) @ ?p, conn_end = fin\<rparr> sql c
         = (c\<lparr>cl_conn := True\<rparr>, PutUint32 (length sql) @ sql, if OK r then Ok cr else Err (QueryFailed cr))"
    using assms(5-8) takes_all_frame(2)[OF assms(9), of sql] decode_printed[OF v(2-4)] v(5) by (simp add: Exec_def Let_def carries_def)
  then show ?thesis using h v(5) by blast
qed

lemma sample_query: "query new_Database ''CREATE TABLE t (a TEXT);'' = (fst (query new_Database ''CREATE TABLE t (a TEXT);''), Ok ok_response)"
proof -
  have "snd (query new_Database ''CREATE TABLE t (a TEXT);'') = Ok ok_response" by code_simp
  then show ?thesis by (metis prod.collapse)
qed

lemma exec_end_to_end_witness:
  "let sql = ''CREATE TABLE t (a TEXT);''; w = (\<lambda>k p. Wrote (int (length p)))
   in \<exists>out cr. db_handle (\<lambda>_. w) EOF 0 new_Database (PutUint32 (length sql) @ sql) = Some (out, fst (query new_Database sql))
     \<and> Exec \<lparr>ctx_done = False, can_dial = True, can_deadline = True, conn_writer = w, conn_input = out, conn_end = EOF\<rparr> sql (new_client [] 0)
         = ((new_client [] 0)\<lparr>cl_conn := True\<rparr>, PutUint32 (length sql) @ sql, Ok cr)
     \<and> carries cr ok_response"
proof -
  have p: "length (json_print (the (db_response_json ok_response))) \<le> MaxFrame"
  proof -
    have "length (json_string ''ok'') \<le> 4" by code_simp
    then show ?thesis by (simp add: db_response_json_def ok_response_def MaxFrame_def)
  qed
  have t: "texts_ok ok_response" by (simp add: texts_ok_def ok_response_def)
  have u: "utf8_valid ''CREATE TABLE t (a TEXT);''" by code_simp
  have s: "TrimSpace ''CREATE TABLE t (a TEXT);'' \<noteq> []" by code_simp
  have l: "length ''CREATE TABLE t (a TEXT);'' \<le> MaxFrame" by (simp add: MaxFrame_def)
  have c: "\<not> cl_closed (new_client [] 0)" by (simp add: new_client_def)
  have w: "takes_all (\<lambda>k p. Wrote (int (length p)))" by (simp add: takes_all_def)
  have o: "OK ok_response" by (simp add: ok_response_def)
  show ?thesis using exec_end_to_end[OF new_Database_wf sample_query t p u s l c w, of EOF] unfolding Let_def if_P[OF o] .
qed

text \<open>C20: The command line runs a script as its statements one after the other on one database: whatever the spacing and
  the semicolons inside TEXT literals, every statement is executed exactly once, in order, and prints its result or
  its error; an error does not stop the script, and the exit code is 0 exactly when every statement succeeded. It always ends.\<close>

theorem cli_runs_script:
  assumes "list_all one_statement sts" "list_all whitespace ws"
  shows "cli_Run (\<lambda>_. True) (\<lambda>_. True) EOF 0 0 0 new_Database (concat sts @ ws) = Some (script new_Database sts)"
  using cli_Run_from[OF new_Database_wf assms, of 0 0 0] by simp

lemma cli_runs_script_witness:
  "cli_Run (\<lambda>_. True) (\<lambda>_. True) EOF 0 0 0 new_Database
     (concat [''CREATE TABLE t (a TEXT);'', '' SELECT b FROM t;'', ''INSERT INTO t (a) VALUES ('' @ [quote] @ '';'' @ [quote] @ '');''] @ [CHR 0x0A])
   = Some (script new_Database [''CREATE TABLE t (a TEXT);'', '' SELECT b FROM t;'', ''INSERT INTO t (a) VALUES ('' @ [quote] @ '';'' @ [quote] @ '');''])"
proof (rule cli_runs_script)
  show "list_all one_statement [''CREATE TABLE t (a TEXT);'', '' SELECT b FROM t;'', ''INSERT INTO t (a) VALUES ('' @ [quote] @ '';'' @ [quote] @ '');'']"
    by code_simp
  show "list_all whitespace [CHR 0x0A]" by code_simp
qed

end
