(* ===== verification/Socket_Server.thy ===== *)
theory Socket_Server
  imports Tac_Prelude
begin

text \<open>
  The life of a socket server: the accept loop, the table of connections and the shutdown of
  \<^verbatim>\<open>server/dbms/internal/server/server.go\<close> (\<^verbatim>\<open>Serve\<close>, \<^verbatim>\<open>Close\<close>, the deferred calls of \<^verbatim>\<open>handle\<close>) and of
  \<^verbatim>\<open>prototypes/marker-detect/ipc/server.go\<close>. What a handler does with its connection is modelled elsewhere; here it
  ends at any moment. Each critical section of the mutex is one step, and the goroutines interleave freely.
\<close>

section \<open>The shared table\<close>

type_synonym conn = nat

text \<open>
  What the goroutines share: \<^verbatim>\<open>closed\<close>, whether the listener is open, the table of connections, the connections
  that are open, and the handlers that the wait group counts.
\<close>

record conn_table =
  shut_flag :: bool
  listener_open :: bool
  registered :: "conn set"
  open_conns :: "conn set"
  handlers :: "conn set"

definition new_table :: conn_table where
  "new_table = \<lparr>shut_flag = False, listener_open = True, registered = {}, open_conns = {}, handlers = {}\<rparr>"

text \<open>The sections: the accept loop enters a connection, a handler ends in three steps, \<^verbatim>\<open>Close\<close> shuts the table.\<close>

definition take_conn :: "conn \<Rightarrow> conn_table \<Rightarrow> conn_table" where
  "take_conn c t = t\<lparr>open_conns := insert c (open_conns t)\<rparr>"

definition enter_conn :: "conn \<Rightarrow> conn_table \<Rightarrow> conn_table" where
  "enter_conn c t = t\<lparr>registered := insert c (registered t), handlers := insert c (handlers t)\<rparr>"

definition hang_up :: "conn \<Rightarrow> conn_table \<Rightarrow> conn_table" where
  "hang_up c t = t\<lparr>open_conns := open_conns t - {c}\<rparr>"

definition forget_conn :: "conn \<Rightarrow> conn_table \<Rightarrow> conn_table" where
  "forget_conn c t = t\<lparr>registered := registered t - {c}\<rparr>"

definition worker_done :: "conn \<Rightarrow> conn_table \<Rightarrow> conn_table" where
  "worker_done c t = t\<lparr>handlers := handlers t - {c}\<rparr>"

text \<open>\<^verbatim>\<open>Close\<close> closes the listener only if the server knows it.\<close>

definition shut :: "bool \<Rightarrow> conn_table \<Rightarrow> conn_table" where
  "shut knows t = (if shut_flag t then t
     else t\<lparr>shut_flag := True, listener_open := listener_open t \<and> \<not> knows, open_conns := open_conns t - registered t\<rparr>)"

lemmas table_defs = take_conn_def enter_conn_def hang_up_def forget_conn_def worker_done_def shut_def

text \<open>A handler: the deferred calls close the connection, delete it from the table and tell the wait group.\<close>

inductive handler_step :: "conn_table \<Rightarrow> conn_table \<Rightarrow> bool" where
  hang: "c \<in> handlers t \<Longrightarrow> c \<in> registered t \<Longrightarrow> c \<in> open_conns t \<Longrightarrow> handler_step t (hang_up c t)"
| forget: "c \<in> handlers t \<Longrightarrow> c \<in> registered t \<Longrightarrow> c \<notin> open_conns t \<Longrightarrow> handler_step t (forget_conn c t)"
| finish: "c \<in> handlers t \<Longrightarrow> c \<notin> registered t \<Longrightarrow> handler_step t (worker_done c t)"

section \<open>The accept loop of the database server\<close>

datatype acceptor = Accepting | Holding conn | Leaving | Waiting | Returned

record serve_state =
  tab :: conn_table
  acc :: acceptor

definition init_serve :: serve_state where
  "init_serve = \<lparr>tab = new_table, acc = Accepting\<rparr>"

text \<open>
  \<^verbatim>\<open>Serve\<close>: an accepted connection is held until the loop has the mutex; an error of \<^verbatim>\<open>Accept\<close>, which a closed
  listener gives at once, makes the loop leave; the deferred function calls \<^verbatim>\<open>Close\<close> and waits for the handlers.
  \<open>cancel\<close> is the goroutine that calls \<^verbatim>\<open>Close\<close> when the context ends, or another caller of \<^verbatim>\<open>Close\<close>.
\<close>

inductive serve_step :: "serve_state \<Rightarrow> serve_state \<Rightarrow> bool" where
  accept: "acc s = Accepting \<Longrightarrow> listener_open (tab s) \<Longrightarrow> c \<notin> open_conns (tab s) \<union> registered (tab s) \<union> handlers (tab s) \<Longrightarrow>
     serve_step s (s\<lparr>tab := take_conn c (tab s), acc := Holding c\<rparr>)"
| accept_fails: "acc s = Accepting \<Longrightarrow> serve_step s (s\<lparr>acc := Leaving\<rparr>)"
| refuse: "acc s = Holding c \<Longrightarrow> shut_flag (tab s) \<Longrightarrow> serve_step s (s\<lparr>tab := hang_up c (tab s), acc := Leaving\<rparr>)"
| enter: "acc s = Holding c \<Longrightarrow> \<not> shut_flag (tab s) \<Longrightarrow> serve_step s (s\<lparr>tab := enter_conn c (tab s), acc := Accepting\<rparr>)"
| handler: "handler_step (tab s) t \<Longrightarrow> serve_step s (s\<lparr>tab := t\<rparr>)"
| cancel: "\<not> shut_flag (tab s) \<Longrightarrow> serve_step s (s\<lparr>tab := shut True (tab s)\<rparr>)"
| leave: "acc s = Leaving \<Longrightarrow> serve_step s (s\<lparr>tab := shut True (tab s), acc := Waiting\<rparr>)"
| waited: "acc s = Waiting \<Longrightarrow> handlers (tab s) = {} \<Longrightarrow> serve_step s (s\<lparr>acc := Returned\<rparr>)"

section \<open>Serve and Close of the marker detector\<close>

text \<open>
  Here \<^verbatim>\<open>Close\<close> waits for the handlers, and \<^verbatim>\<open>Serve\<close> only closes the listener when it returns. \<open>Unstarted\<close> is before
  the call of \<^verbatim>\<open>Serve\<close>, which returns at once on a closed server.
\<close>

datatype ipc_acceptor = Unstarted | IpcAccepting | IpcHolding conn | IpcReturned

datatype closer = NotCalled | CloseWaiting | CloseDone

record ipc_state =
  ipc_tab :: conn_table
  ipc_acc :: ipc_acceptor
  ipc_close :: closer

definition init_ipc :: ipc_state where
  "init_ipc = \<lparr>ipc_tab = new_table, ipc_acc = Unstarted, ipc_close = NotCalled\<rparr>"

text \<open>\<^verbatim>\<open>defer l.Close()\<close>\<close>

definition close_listener :: "conn_table \<Rightarrow> conn_table" where
  "close_listener t = t\<lparr>listener_open := False\<rparr>"

inductive ipc_step :: "ipc_state \<Rightarrow> ipc_state \<Rightarrow> bool" where
  serve_late: "ipc_acc s = Unstarted \<Longrightarrow> shut_flag (ipc_tab s) \<Longrightarrow>
     ipc_step s (s\<lparr>ipc_tab := close_listener (ipc_tab s), ipc_acc := IpcReturned\<rparr>)"
| serve_starts: "ipc_acc s = Unstarted \<Longrightarrow> \<not> shut_flag (ipc_tab s) \<Longrightarrow> ipc_step s (s\<lparr>ipc_acc := IpcAccepting\<rparr>)"
| ipc_accept: "ipc_acc s = IpcAccepting \<Longrightarrow> listener_open (ipc_tab s) \<Longrightarrow>
     c \<notin> open_conns (ipc_tab s) \<union> registered (ipc_tab s) \<union> handlers (ipc_tab s) \<Longrightarrow>
     ipc_step s (s\<lparr>ipc_tab := take_conn c (ipc_tab s), ipc_acc := IpcHolding c\<rparr>)"
| ipc_accept_fails: "ipc_acc s = IpcAccepting \<Longrightarrow> ipc_step s (s\<lparr>ipc_tab := close_listener (ipc_tab s), ipc_acc := IpcReturned\<rparr>)"
| ipc_refuse: "ipc_acc s = IpcHolding c \<Longrightarrow> shut_flag (ipc_tab s) \<Longrightarrow>
     ipc_step s (s\<lparr>ipc_tab := close_listener (hang_up c (ipc_tab s)), ipc_acc := IpcReturned\<rparr>)"
| ipc_enter: "ipc_acc s = IpcHolding c \<Longrightarrow> \<not> shut_flag (ipc_tab s) \<Longrightarrow>
     ipc_step s (s\<lparr>ipc_tab := enter_conn c (ipc_tab s), ipc_acc := IpcAccepting\<rparr>)"
| ipc_handler: "handler_step (ipc_tab s) t \<Longrightarrow> ipc_step s (s\<lparr>ipc_tab := t\<rparr>)"
| ipc_shut: "ipc_close s = NotCalled \<Longrightarrow> ipc_step s (s\<lparr>ipc_tab := shut (ipc_acc s \<noteq> Unstarted) (ipc_tab s), ipc_close := CloseWaiting\<rparr>)"
| ipc_waited: "ipc_close s = CloseWaiting \<Longrightarrow> handlers (ipc_tab s) = {} \<Longrightarrow> ipc_step s (s\<lparr>ipc_close := CloseDone\<rparr>)"

section \<open>The invariant of the table\<close>

text \<open>\<open>held\<close> is the connection that the accept loop has taken but not entered.\<close>

definition table_inv :: "conn set \<Rightarrow> conn_table \<Rightarrow> bool" where
  "table_inv held t \<longleftrightarrow> finite (handlers t) \<and> registered t \<subseteq> handlers t \<and> open_conns t \<subseteq> registered t \<union> held
     \<and> held \<inter> handlers t = {} \<and> (shut_flag t \<longrightarrow> open_conns t \<inter> registered t = {})"

lemma table_inv_ops:
  "table_inv {} new_table"
  "table_inv {} t \<Longrightarrow> c \<notin> open_conns t \<union> registered t \<union> handlers t \<Longrightarrow> table_inv {c} (take_conn c t)"
  "table_inv {c} t \<Longrightarrow> \<not> shut_flag t \<Longrightarrow> table_inv {} (enter_conn c t)"
  "table_inv {c} t \<Longrightarrow> table_inv {} (hang_up c t)"
  "table_inv held t \<Longrightarrow> table_inv held (shut knows t)"
  "table_inv held (close_listener t) = table_inv held t"
  by (auto simp: table_inv_def table_defs new_table_def close_listener_def)

lemma handler_step_inv:
  "handler_step t t' \<Longrightarrow> table_inv held t \<Longrightarrow> table_inv held t' \<and> shut_flag t' = shut_flag t
     \<and> listener_open t' = listener_open t \<and> handlers t' \<subseteq> handlers t"
  by (induction rule: handler_step.induct) (auto simp: table_inv_def table_defs)

lemma handler_step_exists: "handlers t \<noteq> {} \<Longrightarrow> \<exists>t'. handler_step t t'"
  by (metis all_not_in_conv handler_step.intros)

text \<open>How many steps the handlers have left.\<close>

definition table_weight :: "conn_table \<Rightarrow> nat" where
  "table_weight t = card (handlers t) + card (registered t) + card (open_conns t \<inter> registered t)"

lemma handler_step_weight:
  assumes "handler_step t t'" "table_inv held t"
  shows "table_weight t' < table_weight t"
proof -
  have f: "finite (handlers t)" "finite (registered t)" "finite (open_conns t \<inter> registered t)"
    using assms(2) finite_subset by (auto simp: table_inv_def)
  from assms(1) show ?thesis
  proof cases
    case (hang c)
    then have e: "open_conns t' \<inter> registered t' = (open_conns t \<inter> registered t) - {c}" by (auto simp: hang_up_def)
    have "card ((open_conns t \<inter> registered t) - {c}) < card (open_conns t \<inter> registered t)" using hang f by (intro card_Diff1_less) auto
    then show ?thesis using hang e by (simp add: table_weight_def hang_up_def)
  next
    case (forget c)
    then have e: "open_conns t' \<inter> registered t' = open_conns t \<inter> registered t" by (auto simp: forget_conn_def)
    have "card (registered t - {c}) < card (registered t)" using forget f by (intro card_Diff1_less) auto
    then show ?thesis using forget e by (simp add: table_weight_def forget_conn_def)
  next
    case (finish c)
    have "card (handlers t - {c}) < card (handlers t)" using finish f by (intro card_Diff1_less) auto
    then show ?thesis using finish by (simp add: table_weight_def worker_done_def)
  qed
qed

lemma table_weight_bound: "table_inv held t \<Longrightarrow> shut_flag t \<Longrightarrow> table_weight t \<le> 2 * card (handlers t)"
  using card_mono[of "handlers t" "registered t"] by (auto simp: table_weight_def table_inv_def)

section \<open>Systems that drain\<close>

text \<open>
  A system whose every step in a phase keeps the phase and lowers a weight, and which is never stuck before it is
  finished: all its runs in the phase are bounded, and each can be continued to the end.
\<close>

locale draining =
  fixes step :: "'s \<Rightarrow> 's \<Rightarrow> bool" and phase :: "'s \<Rightarrow> bool" and weight :: "'s \<Rightarrow> nat" and finished :: "'s \<Rightarrow> bool"
  assumes phase_kept: "phase s \<Longrightarrow> step s s' \<Longrightarrow> phase s'"
    and weight_falls: "phase s \<Longrightarrow> step s s' \<Longrightarrow> weight s' < weight s"
    and not_stuck: "phase s \<Longrightarrow> \<not> finished s \<Longrightarrow> \<exists>s'. step s s'"
begin

lemma run_bounded: "(step ^^ n) s s' \<Longrightarrow> phase s \<Longrightarrow> n + weight s' \<le> weight s"
proof (induction n arbitrary: s')
  case (Suc n)
  then obtain u where u: "(step ^^ n) s u" "step u s'" by auto
  have "phase u" using u(1) Suc.prems(2) by (induction n arbitrary: u) (auto intro: phase_kept)
  then show ?case using Suc.IH[OF u(1) Suc.prems(2)] weight_falls[of u s'] u(2) by simp
qed simp

lemma run_finishes: "phase s \<Longrightarrow> \<exists>s'. step\<^sup>*\<^sup>* s s' \<and> finished s'"
proof (induction "weight s" arbitrary: s rule: less_induct)
  case less
  show ?case
  proof (cases "finished s")
    case False
    then obtain u where u: "step s u" using not_stuck[OF less.prems] by blast
    obtain s' where "step\<^sup>*\<^sup>* u s'" "finished s'" using less.hyps[OF weight_falls phase_kept, OF less.prems u less.prems u] by blast
    then show ?thesis using u by (meson converse_rtranclp_into_rtranclp)
  qed blast
qed

end

section \<open>The database server\<close>

fun held :: "acceptor \<Rightarrow> conn set" where
  "held (Holding c) = {c}"
| "held a = {}"

definition serve_inv :: "serve_state \<Rightarrow> bool" where
  "serve_inv s \<longleftrightarrow> table_inv (held (acc s)) (tab s) \<and> (shut_flag (tab s) \<longleftrightarrow> \<not> listener_open (tab s))
     \<and> (acc s \<in> {Waiting, Returned} \<longrightarrow> shut_flag (tab s)) \<and> (acc s = Returned \<longrightarrow> handlers (tab s) = {})"

lemma table_flags [simp]:
  "shut_flag (take_conn c t) = shut_flag t" "shut_flag (enter_conn c t) = shut_flag t" "shut_flag (hang_up c t) = shut_flag t"
  "listener_open (take_conn c t) = listener_open t" "listener_open (enter_conn c t) = listener_open t"
  "listener_open (hang_up c t) = listener_open t" "shut_flag (shut k t)" "handlers (shut k t) = handlers t"
  "handlers (take_conn c t) = handlers t" "handlers (hang_up c t) = handlers t"
  "shut_flag t \<Longrightarrow> shut k t = t" "\<not> shut_flag t \<Longrightarrow> listener_open (shut k t) \<longleftrightarrow> listener_open t \<and> \<not> k"
  "shut_flag (close_listener t) = shut_flag t" "handlers (close_listener t) = handlers t"
  "table_weight (close_listener t) = table_weight t"
  by (simp_all add: table_defs close_listener_def table_weight_def)

lemma serve_step_inv: "serve_step s s' \<Longrightarrow> serve_inv s \<Longrightarrow> serve_inv s'"
proof (induction rule: serve_step.induct)
  case (handler s t)
  then show ?case using handler_step_inv[of "tab s" t "held (acc s)"] by (auto simp: serve_inv_def)
qed (auto simp: serve_inv_def table_inv_ops)

lemma serve_reach_inv: "serve_step\<^sup>*\<^sup>* init_serve s \<Longrightarrow> serve_inv s"
proof (induction rule: rtranclp_induct)
  case base
  show ?case by (simp add: init_serve_def serve_inv_def table_inv_ops) (simp add: new_table_def)
qed (rule serve_step_inv)

fun acc_weight :: "acceptor \<Rightarrow> nat" where
  "acc_weight Accepting = 3"
| "acc_weight (Holding c) = 3"
| "acc_weight Leaving = 2"
| "acc_weight Waiting = 1"
| "acc_weight Returned = 0"

lemma held_weight: "table_inv {c} t \<Longrightarrow> table_weight (hang_up c t) = table_weight t"
proof -
  assume "table_inv {c} t"
  then have "(open_conns t - {c}) \<inter> registered t = open_conns t \<inter> registered t" by (auto simp: table_inv_def)
  then show ?thesis by (simp add: table_weight_def hang_up_def)
qed

interpretation serve: draining serve_step "\<lambda>s. serve_inv s \<and> shut_flag (tab s)"
  "\<lambda>s. table_weight (tab s) + acc_weight (acc s)" "\<lambda>s. acc s = Returned"
proof unfold_locales
  fix s s' assume p: "serve_inv s \<and> shut_flag (tab s)" and st: "serve_step s s'"
  from st p show "serve_inv s' \<and> shut_flag (tab s')"
  proof (induction rule: serve_step.induct)
    case (handler s t)
    then show ?case using serve_step_inv[OF serve_step.handler[OF handler(1)]] handler_step_inv[of "tab s" t "held (acc s)"]
      by (auto simp: serve_inv_def)
  qed (auto simp: serve_inv_def table_inv_ops)
  from st p show "table_weight (tab s') + acc_weight (acc s') < table_weight (tab s) + acc_weight (acc s)"
  proof (induction rule: serve_step.induct)
    case (handler s t)
    then show ?case using handler_step_weight[of "tab s" t "held (acc s)"] by (auto simp: serve_inv_def)
  qed (auto simp: serve_inv_def held_weight)
next
  fix s assume p: "serve_inv s \<and> shut_flag (tab s)" "\<not> acc s = Returned"
  show "\<exists>s'. serve_step s s'"
  proof (cases "acc s")
    case Waiting
    show ?thesis
    proof (cases "handlers (tab s) = {}")
      case False
      then show ?thesis using handler_step_exists serve_step.handler by blast
    qed (use Waiting serve_step.waited in blast)
  qed (use p serve_step.intros in blast)+
qed

section \<open>The detector\<close>

fun ipc_held :: "ipc_acceptor \<Rightarrow> conn set" where
  "ipc_held (IpcHolding c) = {c}"
| "ipc_held a = {}"

definition ipc_inv :: "ipc_state \<Rightarrow> bool" where
  "ipc_inv s \<longleftrightarrow> table_inv (ipc_held (ipc_acc s)) (ipc_tab s) \<and> (shut_flag (ipc_tab s) \<longleftrightarrow> ipc_close s \<noteq> NotCalled)
     \<and> (shut_flag (ipc_tab s) \<and> ipc_acc s \<noteq> Unstarted \<longrightarrow> \<not> listener_open (ipc_tab s))
     \<and> (ipc_acc s = IpcReturned \<longrightarrow> \<not> listener_open (ipc_tab s)) \<and> (ipc_close s = CloseDone \<longrightarrow> handlers (ipc_tab s) = {})"

lemma close_listener_off [simp]: "\<not> listener_open (close_listener t)"
  by (simp add: close_listener_def)

lemma ipc_step_inv: "ipc_step s s' \<Longrightarrow> ipc_inv s \<Longrightarrow> ipc_inv s'"
proof (induction rule: ipc_step.induct)
  case (ipc_handler s t)
  then show ?case using handler_step_inv[of "ipc_tab s" t "ipc_held (ipc_acc s)"] by (auto simp: ipc_inv_def)
qed (auto simp: ipc_inv_def table_inv_ops)

lemma ipc_reach_inv: "ipc_step\<^sup>*\<^sup>* init_ipc s \<Longrightarrow> ipc_inv s"
proof (induction rule: rtranclp_induct)
  case base
  show ?case by (simp add: init_ipc_def ipc_inv_def table_inv_ops) (simp add: new_table_def)
qed (rule ipc_step_inv)

definition ipc_weight :: "ipc_state \<Rightarrow> nat" where
  "ipc_weight s = table_weight (ipc_tab s) + (if ipc_acc s = IpcReturned then 0 else 1) + (if ipc_close s = CloseDone then 0 else 1)"

interpretation ipc: draining ipc_step "\<lambda>s. ipc_inv s \<and> shut_flag (ipc_tab s)" ipc_weight
  "\<lambda>s. ipc_acc s = IpcReturned \<and> ipc_close s = CloseDone"
proof unfold_locales
  fix s s' assume p: "ipc_inv s \<and> shut_flag (ipc_tab s)" and st: "ipc_step s s'"
  from st p show "ipc_inv s' \<and> shut_flag (ipc_tab s')"
  proof (induction rule: ipc_step.induct)
    case (ipc_handler s t)
    then show ?case using ipc_step_inv[OF ipc_step.ipc_handler[OF ipc_handler(1)]] handler_step_inv[of "ipc_tab s" t "ipc_held (ipc_acc s)"]
      by (auto simp: ipc_inv_def)
  qed (auto simp: ipc_inv_def table_inv_ops)
  from st p show "ipc_weight s' < ipc_weight s"
  proof (induction rule: ipc_step.induct)
    case (ipc_handler s t)
    then show ?case using handler_step_weight[of "ipc_tab s" t "ipc_held (ipc_acc s)"] by (auto simp: ipc_inv_def ipc_weight_def)
  qed (auto simp: ipc_inv_def held_weight ipc_weight_def)
next
  fix s assume p: "ipc_inv s \<and> shut_flag (ipc_tab s)" "\<not> (ipc_acc s = IpcReturned \<and> ipc_close s = CloseDone)"
  show "\<exists>s'. ipc_step s s'"
  proof (cases "ipc_acc s = IpcReturned")
    case True
    then have "ipc_close s = CloseWaiting" using p by (cases "ipc_close s") (auto simp: ipc_inv_def)
    then show ?thesis using handler_step_exists ipc_step.ipc_handler ipc_step.ipc_waited by blast
  next
    case False
    then show ?thesis using p ipc_step.intros by (cases "ipc_acc s") blast+
  qed
qed

section \<open>Properties\<close>

text \<open>C26: The database server shuts down without leaking: once \<open>Close\<close> ran, no connection of the table is open, and when
  \<open>Serve\<close> has returned the listener is closed, no handler runs, the table is empty and no accepted connection is open,
  however accepts, handlers and calls of \<open>Close\<close> interleaved.\<close>

theorem serve_returns_clean:
  assumes "serve_step\<^sup>*\<^sup>* init_serve s"
  shows "(shut_flag (tab s) \<longrightarrow> open_conns (tab s) \<inter> registered (tab s) = {} \<and> \<not> listener_open (tab s))
     \<and> (acc s = Returned \<longrightarrow> handlers (tab s) = {} \<and> registered (tab s) = {} \<and> open_conns (tab s) = {} \<and> \<not> listener_open (tab s))"
  using serve_reach_inv[OF assms] by (auto simp: serve_inv_def table_inv_def)

lemma serve_returns_clean_witness:
  "\<exists>s. serve_step\<^sup>*\<^sup>* init_serve s \<and> acc s = Returned \<and> open_conns (tab s) = {}"
proof -
  have e: "serve_step\<^sup>*\<^sup>* s s'" if "serve_step s u" "serve_step\<^sup>*\<^sup>* u s'" for s u s' using that by simp
  define s where "s = \<lparr>tab = shut True new_table, acc = Returned\<rparr>"
  have a: "serve_step init_serve (init_serve\<lparr>acc := Leaving\<rparr>)" by (rule serve_step.accept_fails) (simp add: init_serve_def)
  have b: "serve_step (init_serve\<lparr>acc := Leaving\<rparr>) (init_serve\<lparr>tab := shut True new_table, acc := Waiting\<rparr>)"
    using serve_step.leave[of "init_serve\<lparr>acc := Leaving\<rparr>"] by (simp add: init_serve_def)
  have c: "serve_step (init_serve\<lparr>tab := shut True new_table, acc := Waiting\<rparr>) s"
    using serve_step.waited[of "init_serve\<lparr>tab := shut True new_table, acc := Waiting\<rparr>"] by (simp add: init_serve_def s_def new_table_def)
  have "serve_step\<^sup>*\<^sup>* init_serve s" by (rule e[OF a e[OF b e[OF c]]]) simp
  then show ?thesis using serve_returns_clean[of s] by (auto simp: s_def)
qed

text \<open>C27: After \<open>Close\<close> the database server stops: at most three steps of the accept loop and two of each handler remain, so no
  run goes on for ever, the system is never stuck before \<open>Serve\<close> has returned, and from every such state \<open>Serve\<close> can
  return.\<close>

theorem serve_stops:
  assumes "serve_step\<^sup>*\<^sup>* init_serve s" "shut_flag (tab s)"
  shows "(\<forall>n s'. (serve_step ^^ n) s s' \<longrightarrow> n \<le> 2 * card (handlers (tab s)) + 3)
     \<and> (\<forall>s'. serve_step\<^sup>*\<^sup>* s s' \<and> (\<nexists>u. serve_step s' u) \<longrightarrow> acc s' = Returned)
     \<and> (\<exists>s'. serve_step\<^sup>*\<^sup>* s s' \<and> acc s' = Returned)"
proof -
  have p: "serve_inv s \<and> shut_flag (tab s)" using serve_reach_inv[OF assms(1)] assms(2) by simp
  have w: "table_weight (tab s) \<le> 2 * card (handlers (tab s))" using table_weight_bound p by (auto simp: serve_inv_def)
  have "acc_weight (acc s) \<le> 3" by (cases "acc s") simp_all
  then have "n \<le> 2 * card (handlers (tab s)) + 3" if "(serve_step ^^ n) s s'" for n s'
    using serve.run_bounded[OF that p] w by linarith
  moreover have "serve_inv s' \<and> shut_flag (tab s')" if "serve_step\<^sup>*\<^sup>* s s'" for s'
    using that by (induction rule: rtranclp_induct) (use p serve.phase_kept in blast)+
  ultimately show ?thesis using serve.run_finishes[OF p] serve.not_stuck by blast
qed

lemma serve_stops_witness:
  "\<exists>s. serve_step\<^sup>*\<^sup>* init_serve s \<and> shut_flag (tab s) \<and> (\<exists>s'. serve_step\<^sup>*\<^sup>* s s' \<and> acc s' = Returned)"
proof -
  let ?s = "init_serve\<lparr>tab := shut True (tab init_serve)\<rparr>"
  have "serve_step init_serve ?s" by (rule serve_step.cancel) (simp add: init_serve_def new_table_def)
  then have "serve_step\<^sup>*\<^sup>* init_serve ?s" by simp
  then show ?thesis using serve_stops[of ?s] by (intro exI[of _ ?s]) simp
qed



end
