(* ===== verification/Wm_Image.thy ===== *)
theory Wm_Image
  imports Go_Strings
begin

text \<open>
  The pixel arithmetic of the headless backend, \<^verbatim>\<open>window-manager/backend/headless/headless.go\<close>: Go's \<^verbatim>\<open>int\<close>
  as \<^typ>\<open>int\<close> with its wrap-around written out, \<^verbatim>\<open>image.RGBA\<close> as a list of pixels, and \<^verbatim>\<open>rgba\<close>, \<^verbatim>\<open>fill\<close>
  and \<^verbatim>\<open>blend\<close>.
\<close>

section \<open>Machine integers\<close>

definition wrap64 :: "int \<Rightarrow> int" where
  "wrap64 n = (n + 2 ^ 63) mod 2 ^ 64 - 2 ^ 63"

definition u32 :: "nat \<Rightarrow> nat" where
  "u32 n = n mod 2 ^ 32"

definition u32_sub :: "nat \<Rightarrow> nat \<Rightarrow> nat" where
  "u32_sub a b = u32 (a + 2 ^ 32 - b)"

lemma wrap64_id: "- (2 ^ 63) \<le> n \<Longrightarrow> n < 2 ^ 63 \<Longrightarrow> wrap64 n = n"
  unfolding wrap64_def by (subst mod_pos_pos_trivial) auto

lemma wrap64_nonneg: "0 \<le> n \<Longrightarrow> n < 2 ^ 63 \<Longrightarrow> wrap64 n = n"
  by (rule wrap64_id) simp_all

lemma wrap64_range: "- (2 ^ 63) \<le> wrap64 n" "wrap64 n < 2 ^ 63"
proof -
  have "0 \<le> (n + 2 ^ 63) mod 2 ^ 64" "(n + 2 ^ 63) mod 2 ^ 64 < 2 ^ 64" by simp_all
  then show "- (2 ^ 63) \<le> wrap64 n" "wrap64 n < 2 ^ 63" unfolding wrap64_def by simp_all
qed

lemma u32_id [simp]: "n < 2 ^ 32 \<Longrightarrow> u32 n = n"
  by (simp add: u32_def)

section \<open>Colours\<close>

text \<open>\<^verbatim>\<open>backend.Color\<close>, \<^verbatim>\<open>protocol.Color\<close> and \<^verbatim>\<open>color.NRGBA\<close> have the same four fields.\<close>

record Color =
  c_r :: "8 word"
  c_g :: "8 word"
  c_b :: "8 word"
  c_a :: "8 word"

text \<open>\<^verbatim>\<open>color.RGBA\<close>: the channels are multiplied by alpha.\<close>

record RGBA =
  p_r :: "8 word"
  p_g :: "8 word"
  p_b :: "8 word"
  p_a :: "8 word"

definition zero_RGBA :: RGBA where
  "zero_RGBA = \<lparr>p_r = 0, p_g = 0, p_b = 0, p_a = 0\<rparr>"

type_synonym rgba16 = "nat \<times> nat \<times> nat \<times> nat"

text \<open>The \<^verbatim>\<open>RGBA()\<close> methods of the two colour types: 16-bit channels, multiplied by alpha.\<close>

definition widen :: "8 word \<Rightarrow> nat" where
  "widen c = unat c + unat c * 256"

definition NRGBA_RGBA :: "Color \<Rightarrow> rgba16" where
  "NRGBA_RGBA c = (let m = (\<lambda>x. u32 (widen x * unat (c_a c)) div 255) in (m (c_r c), m (c_g c), m (c_b c), widen (c_a c)))"

definition RGBA_RGBA :: "RGBA \<Rightarrow> rgba16" where
  "RGBA_RGBA p = (widen (p_r p), widen (p_g p), widen (p_b p), widen (p_a p))"

definition byte :: "nat \<Rightarrow> 8 word" where
  "byte n = word_of_nat (n div 256)"

definition to_RGBA :: "rgba16 \<Rightarrow> RGBA" where
  "to_RGBA q = (case q of (r, g, b, a) \<Rightarrow> \<lparr>p_r = byte r, p_g = byte g, p_b = byte b, p_a = byte a\<rparr>)"

text \<open>A 16-bit colour is valid when no channel exceeds alpha and alpha fits 16 bits.\<close>

fun valid16 :: "rgba16 \<Rightarrow> bool" where
  "valid16 (r, g, b, a) \<longleftrightarrow> r \<le> a \<and> g \<le> a \<and> b \<le> a \<and> a \<le> 65535"

definition premultiplied :: "RGBA \<Rightarrow> bool" where
  "premultiplied p \<longleftrightarrow> p_r p \<le> p_a p \<and> p_g p \<le> p_a p \<and> p_b p \<le> p_a p"

lemma unat8: "unat (c :: 8 word) \<le> 255"
proof -
  have "unat c < 2 ^ LENGTH(8)" by (rule unsigned_less)
  then show ?thesis by simp
qed

lemma widen_le: "widen c \<le> 65535"
  using unat8[of c] by (simp add: widen_def)

lemma widen_mono: "a \<le> b \<Longrightarrow> widen a \<le> widen b"
  by (auto simp: widen_def word_le_nat_alt)

lemma byte_widen [simp]: "byte (widen c) = c"
proof -
  have "(unat c + unat c * 256) div 256 = unat c" using unat8[of c] by simp
  then show ?thesis by (simp add: byte_def widen_def)
qed

lemma unat_byte: "n \<le> 65535 \<Longrightarrow> unat (byte n) = n div 256"
  by (simp add: byte_def unat_word_ariths unsigned_of_nat take_bit_eq_mod)

lemma byte_mono: "m \<le> n \<Longrightarrow> n \<le> 65535 \<Longrightarrow> byte m \<le> byte n"
  by (simp add: word_le_nat_alt unat_byte div_le_mono)

lemma NRGBA_valid: "valid16 (NRGBA_RGBA c)"
proof -
  have m: "widen x * unat (c_a c) \<le> 255 * widen (c_a c)" for x
  proof -
    have "unat x * (257 * unat (c_a c)) \<le> 255 * (257 * unat (c_a c))" by (intro mult_right_mono unat8) simp
    then show ?thesis by (simp add: widen_def algebra_simps)
  qed
  have "widen x * unat (c_a c) < 2 ^ 32" for x
    using m[of x] widen_le[of "c_a c"] by simp
  moreover have "widen x * unat (c_a c) div 255 \<le> widen (c_a c)" for x
    using div_le_mono[OF m[of x], of 255] by simp
  ultimately show ?thesis using widen_le by (simp add: NRGBA_RGBA_def Let_def)
qed

lemma zero_RGBA_premultiplied [simp]: "premultiplied zero_RGBA"
  by (simp add: premultiplied_def zero_RGBA_def)

lemma RGBA_valid: "premultiplied p \<Longrightarrow> valid16 (RGBA_RGBA p)"
  by (simp add: premultiplied_def RGBA_RGBA_def widen_le widen_mono)

lemma to_RGBA_premultiplied: "valid16 q \<Longrightarrow> premultiplied (to_RGBA q)"
  by (cases q) (simp add: premultiplied_def to_RGBA_def byte_mono)

section \<open>Images\<close>

text \<open>
  \<^verbatim>\<open>image.RGBA\<close> with bounds \<^verbatim>\<open>Rect(0, 0, Dx, Dy)\<close>: one \<^typ>\<open>RGBA\<close> for each group of four bytes of \<^verbatim>\<open>Pix\<close>,
  in rows. Reading outside the bounds gives the zero colour, writing there does nothing.
\<close>

record image =
  Dx :: int
  Dy :: int
  Pix :: "RGBA list"

definition in_bounds :: "image \<Rightarrow> int \<Rightarrow> int \<Rightarrow> bool" where
  "in_bounds img x y \<longleftrightarrow> 0 \<le> x \<and> x < Dx img \<and> 0 \<le> y \<and> y < Dy img"

definition pix_index :: "image \<Rightarrow> int \<Rightarrow> int \<Rightarrow> nat" where
  "pix_index img x y = nat (y * Dx img + x)"

definition RGBAAt :: "image \<Rightarrow> int \<Rightarrow> int \<Rightarrow> RGBA" where
  "RGBAAt img x y = (if in_bounds img x y then Pix img ! pix_index img x y else zero_RGBA)"

definition SetRGBA :: "image \<Rightarrow> int \<Rightarrow> int \<Rightarrow> RGBA \<Rightarrow> image" where
  "SetRGBA img x y c = (if in_bounds img x y then img\<lparr>Pix := (Pix img)[pix_index img x y := c]\<rparr> else img)"

text \<open>\<^verbatim>\<open>image.NewRGBA\<close> panics when the size of the pixel buffer does not fit an \<^verbatim>\<open>int\<close>.\<close>

definition NewRGBA :: "int \<Rightarrow> int \<Rightarrow> ('e, image) outcome" where
  "NewRGBA w h = (if w < 0 \<or> h < 0 \<or> 2 ^ 63 \<le> 4 * w * h then Panic
     else Ok \<lparr>Dx = w, Dy = h, Pix = replicate (nat (w * h)) zero_RGBA\<rparr>)"

definition wf_image :: "image \<Rightarrow> bool" where
  "wf_image img \<longleftrightarrow> 0 \<le> Dx img \<and> 0 \<le> Dy img \<and> 4 * Dx img * Dy img < 2 ^ 63
     \<and> length (Pix img) = nat (Dx img * Dy img) \<and> list_all premultiplied (Pix img)"

lemma pix_index_bound: "in_bounds img x y \<Longrightarrow> pix_index img x y < nat (Dx img * Dy img)"
proof -
  assume b: "in_bounds img x y"
  then have "y * Dx img + x < (y + 1) * Dx img" by (simp add: in_bounds_def algebra_simps)
  also have "\<dots> \<le> Dy img * Dx img" using b by (intro mult_right_mono) (auto simp: in_bounds_def)
  finally show ?thesis using b by (simp add: pix_index_def in_bounds_def mult.commute nat_less_eq_zless)
qed

lemma pix_index_inj:
  assumes "in_bounds img x y" "in_bounds img x' y'" "pix_index img x y = pix_index img x' y'"
  shows "x = x' \<and> y = y'"
proof -
  have b: "0 \<le> x" "x < Dx img" "0 \<le> y" "0 \<le> x'" "x' < Dx img" "0 \<le> y'" using assms by (auto simp: in_bounds_def)
  have "0 \<le> y * Dx img + x" "0 \<le> y' * Dx img + x'" using b by simp_all
  then have e: "y * Dx img + x = y' * Dx img + x'" using assms(3) by (simp add: pix_index_def)
  have "(y * Dx img + x) mod Dx img = x" "(y' * Dx img + x') mod Dx img = x'" using b by simp_all
  then have "x = x'" using e by simp
  then show ?thesis using e b by simp
qed

lemma SetRGBA_dims [simp]: "Dx (SetRGBA img x y c) = Dx img" "Dy (SetRGBA img x y c) = Dy img"
  by (simp_all add: SetRGBA_def)

lemma in_bounds_SetRGBA [simp]: "in_bounds (SetRGBA img x y c) = in_bounds img"
  by (simp add: in_bounds_def fun_eq_iff)

lemma SetRGBA_at:
  assumes "wf_image img"
  shows "RGBAAt (SetRGBA img x y c) x' y' =
    (if x' = x \<and> y' = y \<and> in_bounds img x y then c else RGBAAt img x' y')"
proof (cases "in_bounds img x y \<and> in_bounds img x' y'")
  case True
  then have l: "pix_index img x y < length (Pix img)" using pix_index_bound assms by (auto simp: wf_image_def)
  have i: "pix_index (SetRGBA img x y c) x' y' = pix_index img x' y'" by (simp add: pix_index_def)
  show ?thesis using True l pix_index_inj[of img x y x' y']
    by (auto simp: RGBAAt_def i) (auto simp: SetRGBA_def nth_list_update)
next
  case False
  have i: "pix_index (SetRGBA img x y c) x' y' = pix_index img x' y'" by (simp add: pix_index_def)
  show ?thesis using False by (auto simp: RGBAAt_def SetRGBA_def i pix_index_def in_bounds_def)
qed

lemma SetRGBA_wf: "wf_image img \<Longrightarrow> premultiplied c \<Longrightarrow> wf_image (SetRGBA img x y c)"
  by (auto simp: wf_image_def SetRGBA_def list_all_iff dest!: set_update_subset_insert[THEN subsetD])

lemma RGBAAt_premultiplied: "wf_image img \<Longrightarrow> premultiplied (RGBAAt img x y)"
  using pix_index_bound[of img x y]
  by (auto simp: RGBAAt_def wf_image_def list_all_iff premultiplied_def zero_RGBA_def)

lemma NewRGBA_wf: "NewRGBA w h = Ok img \<Longrightarrow> wf_image img \<and> Dx img = w \<and> Dy img = h"
  by (auto simp: NewRGBA_def wf_image_def list_all_iff mult.commute split: if_splits)

section \<open>fill and blend\<close>

text \<open>The nested loops over rows and columns, with inclusive ends.\<close>

definition for_pixels :: "int \<Rightarrow> int \<Rightarrow> int \<Rightarrow> int \<Rightarrow> (int \<Rightarrow> int \<Rightarrow> image \<Rightarrow> image) \<Rightarrow> image \<Rightarrow> image" where
  "for_pixels y0 y1 x0 x1 body img = fold (\<lambda>py. fold (\<lambda>px. body px py) [x0..x1]) [y0..y1] img"

definition fill :: "image \<Rightarrow> Color \<Rightarrow> image" where
  "fill img c = for_pixels 0 (Dy img - 1) 0 (Dx img - 1) (\<lambda>x y img. SetRGBA img x y (to_RGBA (NRGBA_RGBA c))) img"

definition maxAlpha :: nat where
  "maxAlpha = 65535"

definition blend_channel :: "nat \<Rightarrow> nat \<Rightarrow> nat \<Rightarrow> nat" where
  "blend_channel s d sa = u32 (s + u32 (d * u32_sub maxAlpha sa) div maxAlpha)"

text \<open>What \<^verbatim>\<open>blend\<close> makes of a pixel.\<close>

definition blend_pixel :: "rgba16 \<Rightarrow> RGBA \<Rightarrow> RGBA" where
  "blend_pixel src old = (case src of (sr, sg, sb, sa) \<Rightarrow>
     if sa = 0 then old
     else case RGBA_RGBA old of (dr, dg, db, da) \<Rightarrow>
       if blend_channel sa da sa = 0 then zero_RGBA
       else to_RGBA (blend_channel sr dr sa, blend_channel sg dg sa, blend_channel sb db sa, blend_channel sa da sa))"

definition blend :: "image \<Rightarrow> int \<Rightarrow> int \<Rightarrow> rgba16 \<Rightarrow> image" where
  "blend dst x y src = (case src of (sr, sg, sb, sa) \<Rightarrow>
     if sa = 0 then dst else SetRGBA dst x y (blend_pixel src (RGBAAt dst x y)))"

lemma blend_channel_bound:
  assumes "s \<le> sa" "d \<le> 65535" "sa \<le> 65535"
  shows "blend_channel s d sa = s + d * (65535 - sa) div 65535" and "blend_channel s d sa \<le> 65535"
proof -
  have m: "d * (65535 - sa) \<le> 65535 * (65535 - sa)" using assms by (intro mult_right_mono) auto
  have m2: "65535 * (65535 - sa) \<le> 65535 * 65535" by (intro mult_left_mono) auto
  have b: "d * (65535 - sa) < 2 ^ 32" by (rule le_less_trans[OF order_trans[OF m m2]]) simp
  have q: "d * (65535 - sa) div 65535 \<le> 65535 - sa" using div_le_mono[OF m, of 65535] by simp
  have sub: "u32_sub maxAlpha sa = 65535 - sa"
    using assms by (simp add: u32_sub_def maxAlpha_def u32_def mod_if)
  have "u32 (s + d * (65535 - sa) div 65535) = s + d * (65535 - sa) div 65535"
    using q assms by (intro u32_id) simp
  then show e: "blend_channel s d sa = s + d * (65535 - sa) div 65535"
    unfolding blend_channel_def sub using b by (simp add: maxAlpha_def)
  show "blend_channel s d sa \<le> 65535" unfolding e using q assms by simp
qed

lemma blend_channel_mono:
  assumes "s \<le> sa" "d \<le> da" "da \<le> 65535" "sa \<le> 65535"
  shows "blend_channel s d sa \<le> blend_channel sa da sa"
  using assms by (simp add: blend_channel_bound add_mono div_le_mono)

lemma blend_pixel_premultiplied:
  assumes "valid16 src" "premultiplied old"
  shows "premultiplied (blend_pixel src old)"
proof -
  obtain sr sg sb sa where src: "src = (sr, sg, sb, sa)" by (cases src)
  note v = RGBA_valid[OF assms(2)]
  show ?thesis
    using assms v
    by (auto simp: src blend_pixel_def RGBA_RGBA_def zero_RGBA_premultiplied
        intro!: to_RGBA_premultiplied blend_channel_mono blend_channel_bound(2))
qed

lemma blend_at:
  "wf_image img \<Longrightarrow> RGBAAt (blend img x y src) x' y' =
     (if x' = x \<and> y' = y \<and> in_bounds img x y then blend_pixel src (RGBAAt img x y) else RGBAAt img x' y')"
  by (cases src) (auto simp: blend_def SetRGBA_at blend_pixel_def)

lemma blend_wf: "wf_image img \<Longrightarrow> valid16 src \<Longrightarrow> wf_image (blend img x y src)"
  by (cases src) (auto simp: blend_def intro!: SetRGBA_wf blend_pixel_premultiplied RGBAAt_premultiplied)

lemma blend_dims [simp]: "Dx (blend img x y src) = Dx img" "Dy (blend img x y src) = Dy img"
  by (cases src; simp add: blend_def)+

text \<open>
  A loop over a rectangle whose body changes its own pixel only: each pixel of the rectangle is
  changed once, by what it was before the loop.
\<close>

locale pixel_loop =
  fixes body :: "int \<Rightarrow> int \<Rightarrow> image \<Rightarrow> image"
    and change :: "int \<Rightarrow> int \<Rightarrow> RGBA \<Rightarrow> RGBA"
  assumes body_at: "wf_image img \<Longrightarrow> RGBAAt (body x y img) x' y' =
      (if x' = x \<and> y' = y \<and> in_bounds img x y then change x y (RGBAAt img x y) else RGBAAt img x' y')"
    and body_wf: "wf_image img \<Longrightarrow> wf_image (body x y img)"
    and body_Dx: "Dx (body x y img) = Dx img" and body_Dy: "Dy (body x y img) = Dy img"
begin

lemma bounds: "in_bounds (body x y img) = in_bounds img"
  by (simp add: in_bounds_def body_Dx body_Dy fun_eq_iff)

lemma row:
  assumes "wf_image img" "distinct xs"
  shows "wf_image (fold (\<lambda>px. body px py) xs img)
    \<and> Dx (fold (\<lambda>px. body px py) xs img) = Dx img \<and> Dy (fold (\<lambda>px. body px py) xs img) = Dy img
    \<and> RGBAAt (fold (\<lambda>px. body px py) xs img) x y =
        (if x \<in> set xs \<and> y = py \<and> in_bounds img x y then change x y (RGBAAt img x y) else RGBAAt img x y)"
  using assms
proof (induction xs arbitrary: img)
  case (Cons a xs)
  then show ?case using Cons.IH[of "body a py img"] by (auto simp: body_wf body_Dx body_Dy body_at bounds)
qed simp

lemma rows:
  assumes "wf_image img" "distinct xs" "distinct ys"
  shows "wf_image (fold (\<lambda>py. fold (\<lambda>px. body px py) xs) ys img)
    \<and> Dx (fold (\<lambda>py. fold (\<lambda>px. body px py) xs) ys img) = Dx img
    \<and> Dy (fold (\<lambda>py. fold (\<lambda>px. body px py) xs) ys img) = Dy img
    \<and> RGBAAt (fold (\<lambda>py. fold (\<lambda>px. body px py) xs) ys img) x y =
        (if x \<in> set xs \<and> y \<in> set ys \<and> in_bounds img x y then change x y (RGBAAt img x y) else RGBAAt img x y)"
  using assms(1,3)
proof (induction ys arbitrary: img)
  case (Cons a ys)
  let ?r = "fold (\<lambda>px. body px a) xs img"
  have b: "in_bounds ?r x y = in_bounds img x y"
    using row[OF Cons.prems(1) assms(2), of a x y] by (simp add: in_bounds_def)
  show ?case using Cons.IH[of ?r] row[OF Cons.prems(1) assms(2), of a x y] Cons.prems b by auto
qed simp

lemma for_pixels_at:
  "wf_image img \<Longrightarrow> RGBAAt (for_pixels y0 y1 x0 x1 body img) x y =
     (if x0 \<le> x \<and> x \<le> x1 \<and> y0 \<le> y \<and> y \<le> y1 \<and> in_bounds img x y then change x y (RGBAAt img x y)
      else RGBAAt img x y)"
  using rows[of img "[x0..x1]" "[y0..y1]" x y] by (auto simp: for_pixels_def)

lemma for_pixels_wf: "wf_image img \<Longrightarrow> wf_image (for_pixels y0 y1 x0 x1 body img)"
  using rows[of img "[x0..x1]" "[y0..y1]"] by (auto simp: for_pixels_def)

lemma for_pixels_dims:
  "wf_image img \<Longrightarrow> Dx (for_pixels y0 y1 x0 x1 body img) = Dx img \<and> Dy (for_pixels y0 y1 x0 x1 body img) = Dy img"
  using rows[of img "[x0..x1]" "[y0..y1]"] by (auto simp: for_pixels_def)

end

interpretation fill_loop: pixel_loop "\<lambda>x y img. SetRGBA img x y (to_RGBA (NRGBA_RGBA c))" "\<lambda>x y old. to_RGBA (NRGBA_RGBA c)"
  for c
  by unfold_locales (auto simp: SetRGBA_at SetRGBA_wf to_RGBA_premultiplied NRGBA_valid)

lemma fill_at:
  "wf_image img \<Longrightarrow> RGBAAt (fill img c) x y = (if in_bounds img x y then to_RGBA (NRGBA_RGBA c) else zero_RGBA)"
  unfolding fill_def by (subst fill_loop.for_pixels_at) (auto simp: in_bounds_def RGBAAt_def)

lemma fill_wf: "wf_image img \<Longrightarrow> wf_image (fill img c)" and fill_dims: "wf_image img \<Longrightarrow> Dx (fill img c) = Dx img \<and> Dy (fill img c) = Dy img"
  unfolding fill_def by (rule fill_loop.for_pixels_wf, assumption) (rule fill_loop.for_pixels_dims)

text \<open>Two images of one size are equal when they agree on every pixel.\<close>

lemma image_eqI:
  assumes "wf_image a" "wf_image b" "Dx a = Dx b" "Dy a = Dy b"
    and eq: "\<And>x y. in_bounds a x y \<Longrightarrow> RGBAAt a x y = RGBAAt b x y"
  shows "a = b"
proof -
  have "Pix a = Pix b"
  proof (rule nth_equalityI)
    show "length (Pix a) = length (Pix b)" using assms by (simp add: wf_image_def)
    fix i assume i: "i < length (Pix a)"
    then have i': "int i < Dx a * Dy a" using assms by (simp add: wf_image_def zless_nat_eq_int_zless)
    then have d: "0 < Dx a" using assms(1) by (cases "Dx a = 0") (auto simp: wf_image_def)
    define x y where "x = int i mod Dx a" and "y = int i div Dx a"
    have b: "in_bounds a x y"
    proof -
      have "y * Dx a + x = int i" "0 \<le> x" using d by (simp_all add: x_def y_def)
      then have "y * Dx a < Dy a * Dx a" using i' by (simp add: mult.commute)
      then have "y < Dy a" using d by simp
      then show ?thesis using d by (simp add: in_bounds_def x_def y_def pos_imp_zdiv_nonneg_iff)
    qed
    have p: "pix_index a x y = i" by (simp add: pix_index_def x_def y_def)
    then have "pix_index b x y = i" "in_bounds b x y" using assms b by (simp_all add: pix_index_def in_bounds_def)
    then show "Pix a ! i = Pix b ! i" using eq[OF b] b p by (simp add: RGBAAt_def)
  qed
  then show ?thesis using assms by simp
qed

end
