(* ===== verification/Map_Frame.thy ===== *)
theory Map_Frame
  imports Wm_Image
begin

text \<open>
  The Map application: \<^verbatim>\<open>app/map/model.go\<close>, \<^verbatim>\<open>config.go\<close> (validation), \<^verbatim>\<open>projection.go\<close>, \<^verbatim>\<open>frame.go\<close> and the target
  list of \<^verbatim>\<open>session.go\<close>. Floating-point operations round one by one, as on amd64, where Go does not fuse
  a multiplication with an addition. Errors are constructors that carry what the message prints.
\<close>

section \<open>Data\<close>

record Target =
  TargetID :: string
  Latitude :: float64
  Longitude :: float64
  Probability :: float64
  LastSeenAt :: int

record Bounds =
  LatMin :: float64
  LatMax :: float64
  LonMin :: float64
  LonMax :: float64

record Config =
  Version :: int
  cfg_Image :: string
  map_Width :: int
  map_Height :: int
  map_Bounds :: Bounds

datatype map_error =
    BadVersion int
  | BadDimensions
  | NoImage
  | BadBounds
  | BadImageSize
  | BadCoordinates
  | BadTargetID string
  | BadProbability string
  | TargetError string map_error

section \<open>Validation\<close>

definition Bounds_validate :: "Bounds \<Rightarrow> (map_error, unit) outcome" where
  "Bounds_validate b =
     (if \<not> f64_finite (LatMin b) \<or> \<not> f64_finite (LatMax b) \<or> \<not> f64_finite (LonMin b) \<or> \<not> f64_finite (LonMax b)
        \<or> f64_lt (LatMin b) (Fin (- 90)) \<or> f64_lt (Fin 90) (LatMax b)
        \<or> f64_lt (LonMin b) (Fin (- 180)) \<or> f64_lt (Fin 180) (LonMax b)
        \<or> f64_le (LatMax b) (LatMin b) \<or> f64_le (LonMax b) (LonMin b)
      then Err BadBounds else Ok ())"

definition Validate :: "Config \<Rightarrow> (map_error, unit) outcome" where
  "Validate c =
     (if Version c \<noteq> 1 then Err (BadVersion (Version c))
      else if map_Width c \<noteq> 960 \<or> map_Height c \<noteq> 640 then Err BadDimensions
      else if cfg_Image c = [] then Err NoImage
      else Bounds_validate (map_Bounds c))"

section \<open>Projection\<close>

text \<open>
  \<^verbatim>\<open>int(x)\<close> of a float out of range is implementation-defined; amd64 gives the smallest integer. The
  projection never gets there.
\<close>

definition f64_int :: "float64 \<Rightarrow> int" where
  "f64_int x = (case f64_to_int x of Some n \<Rightarrow> n | None \<Rightarrow> - (2 ^ 63))"

text \<open>One axis, lines 24 to 31: \<open>offset\<close> and \<open>extent\<close> are the differences the code divides.\<close>

definition axis_pixel :: "float64 \<Rightarrow> float64 \<Rightarrow> int \<Rightarrow> int" where
  "axis_pixel offset extent pixels =
     (let x = f64_int (f64_Round (f64_mul (f64_div offset extent) (f64_of_int pixels)))
      in if pixels \<le> x then pixels - 1 else x)"

definition Project :: "Bounds \<Rightarrow> int \<Rightarrow> int \<Rightarrow> float64 \<Rightarrow> float64 \<Rightarrow> (map_error, (int \<times> int) \<times> bool) outcome" where
  "Project bounds width height latitude longitude =
     obind (Bounds_validate bounds) (\<lambda>_.
       if width \<le> 0 \<or> height \<le> 0 \<or> 8192 < width \<or> 8192 < height then Err BadImageSize
       else if \<not> f64_finite latitude \<or> \<not> f64_finite longitude \<or> f64_lt latitude (Fin (- 90)) \<or> f64_lt (Fin 90) latitude
         \<or> f64_lt longitude (Fin (- 180)) \<or> f64_lt (Fin 180) longitude then Err BadCoordinates
       else if f64_lt latitude (LatMin bounds) \<or> f64_lt (LatMax bounds) latitude
         \<or> f64_lt longitude (LonMin bounds) \<or> f64_lt (LonMax bounds) longitude then Ok ((0, 0), False)
       else Ok ((axis_pixel (f64_sub longitude (LonMin bounds)) (f64_sub (LonMax bounds) (LonMin bounds)) width,
                 axis_pixel (f64_sub (LatMax bounds) latitude) (f64_sub (LatMax bounds) (LatMin bounds)) height), True))"

section \<open>Frames\<close>

record Command =
  cmd_Command :: string
  cmd_WindowID :: string
  cmd_Title :: string
  cmd_Width :: int
  cmd_Height :: int
  cmd_ImagePath :: string
  cmd_X :: "int option"
  cmd_Y :: "int option"
  cmd_Radius :: int
  cmd_Color :: "Color option"

record Marker =
  marker_Target :: Target
  marker_Pixel :: "int \<times> int"

definition command :: "string \<Rightarrow> Command" where
  "command name = \<lparr>cmd_Command = name, cmd_WindowID = ''map'', cmd_Title = [], cmd_Width = 0, cmd_Height = 0,
     cmd_ImagePath = [], cmd_X = None, cmd_Y = None, cmd_Radius = 0, cmd_Color = None\<rparr>"

definition rgb :: "nat \<Rightarrow> nat \<Rightarrow> nat \<Rightarrow> 8 word \<Rightarrow> Color" where
  "rgb r g b a = \<lparr>c_r = word_of_nat r, c_g = word_of_nat g, c_b = word_of_nat b, c_a = a\<rparr>"

definition marker_alpha :: "float64 \<Rightarrow> 8 word" where
  "marker_alpha p = word_of_int (f64_int (f64_Round (f64_mul (Fin 255) (f64_add (Fin (1 / 4)) (f64_mul (Fin (3 / 4)) p)))))"

definition circle :: "int \<times> int \<Rightarrow> int \<Rightarrow> Color \<Rightarrow> Command" where
  "circle p radius c = (command ''DRAW_CIRCLE'')\<lparr>cmd_X := Some (fst p), cmd_Y := Some (snd p), cmd_Radius := radius,
     cmd_Color := Some c\<rparr>"

definition marker_circles :: "int \<times> int \<Rightarrow> float64 \<Rightarrow> Command list" where
  "marker_circles p probability =
     [circle p 13 (rgb 255 255 255 255), circle p 10 (rgb 196 72 48 (marker_alpha probability))]"

text \<open>The loop of \<^verbatim>\<open>BuildFrame\<close>, lines 50 to 71, with the identifiers seen so far.\<close>

fun frame_targets :: "Config \<Rightarrow> string set \<Rightarrow> Target list \<Rightarrow> (map_error, Command list \<times> Marker list) outcome" where
  "frame_targets cfg seen [] = Ok ([], [])"
| "frame_targets cfg seen (t # ts) =
     (if TargetID t = [] \<or> TargetID t \<in> seen then Err (BadTargetID (TargetID t))
      else if \<not> f64_finite (Probability t) \<or> f64_lt (Probability t) (Fin 0) \<or> f64_lt (Fin 1) (Probability t)
      then Err (BadProbability (TargetID t))
      else case Project (map_Bounds cfg) (map_Width cfg) (map_Height cfg) (Latitude t) (Longitude t) of
             Err e \<Rightarrow> Err (TargetError (TargetID t) e)
           | Panic \<Rightarrow> Panic
           | Ok (p, shown) \<Rightarrow>
               obind (frame_targets cfg (insert (TargetID t) seen) ts) (\<lambda>(cmds, markers).
                 if \<not> shown then Ok (cmds, markers)
                 else Ok (marker_circles p (Probability t) @ cmds, \<lparr>marker_Target = t, marker_Pixel = p\<rparr> # markers)))"

definition frame_head :: "Config \<Rightarrow> Command list" where
  "frame_head cfg =
     [(command ''BEGIN_FRAME'')\<lparr>cmd_Color := Some (rgb 225 232 213 255)\<rparr>,
      (command ''DRAW_IMAGE'')\<lparr>cmd_ImagePath := cfg_Image cfg, cmd_X := Some 0, cmd_Y := Some 0,
         cmd_Width := map_Width cfg, cmd_Height := map_Height cfg\<rparr>]"

definition BuildFrame :: "Config \<Rightarrow> Target list \<Rightarrow> (map_error, Command list \<times> Marker list) outcome" where
  "BuildFrame cfg targets =
     obind (Validate cfg) (\<lambda>_.
     obind (frame_targets cfg {} targets) (\<lambda>(cmds, markers).
       Ok (frame_head cfg @ cmds @ [command ''PRESENT''], markers)))"

section \<open>The target list of a session\<close>

text \<open>Lines 105 to 114 of \<^verbatim>\<open>session.go\<close>: replace the target with the same identifier, or append.\<close>

fun update_target :: "Target list \<Rightarrow> Target \<Rightarrow> Target list" where
  "update_target [] t = [t]"
| "update_target (x # xs) t = (if TargetID x = TargetID t then t # xs else x # update_target xs t)"

section \<open>Pixels are in range\<close>

lemma round_away_mono: "p \<le> q \<Longrightarrow> round_away p \<le> round_away q"
proof -
  assume pq: "p \<le> q"
  consider "q < 0" | "0 \<le> p" | "p < 0" "0 \<le> q" by linarith
  then show ?thesis
  proof cases
    case 1
    then have "\<lfloor>1 / 2 - q\<rfloor> \<le> \<lfloor>1 / 2 - p\<rfloor>" using pq by (intro floor_mono) simp
    then show ?thesis using 1 pq by (simp add: round_away_def)
  next
    case 2
    then show ?thesis using pq by (auto simp: round_away_def intro!: floor_mono)
  next
    case 3
    then have "0 \<le> \<lfloor>1 / 2 - p\<rfloor>" "0 \<le> \<lfloor>q + 1 / 2\<rfloor>" by simp_all
    then have "- \<lfloor>1 / 2 - p\<rfloor> \<le> \<lfloor>q + 1 / 2\<rfloor>" by linarith
    then show ?thesis using 3 by (simp only: round_away_def if_True if_False not_less) simp
  qed
qed

lemma round_away_int [simp]: "round_away (of_int n) = n"
  by (simp add: round_away_def floor_eq_iff)

lemma round_away_0: "round_away 0 = 0"
  using round_away_int[of 0] by simp

lemma round_away_bounds: "of_int m \<le> q \<Longrightarrow> m \<le> round_away q" "q \<le> of_int n \<Longrightarrow> round_away q \<le> n"
  using round_away_mono[of "of_int m" q] round_away_mono[of q "of_int n"] by simp_all

lemma f64_int_Round:
  assumes "f64_finite x" "of_int m \<le> f64_val x" "f64_val x \<le> of_int n" "- (2 ^ 63) \<le> m" "n < 2 ^ 63"
  shows "f64_int (f64_Round x) = round_away (f64_val x)"
proof -
  have "m \<le> round_away (f64_val x)" "round_away (f64_val x) \<le> n" using assms round_away_bounds by blast+
  then have "- (2 ^ 63) \<le> round_away (f64_val x)" "round_away (f64_val x) < 2 ^ 63" using assms by linarith+
  then show ?thesis using assms(1)
    by (elim f64_finite_cases) (auto simp: f64_int_def f64_to_int_def f64_trunc_def round_away_0)
qed

text \<open>The exact value of one axis, and its range.\<close>

definition axis_value :: "rat \<Rightarrow> rat \<Rightarrow> int \<Rightarrow> rat" where
  "axis_value num den n = round_rat (round_rat (num / den) * of_int n)"

lemma axis_pixel_value:
  assumes f: "f64_finite a" "f64_finite d" and v: "0 \<le> f64_val a" "f64_val a \<le> f64_val d" "0 < f64_val d"
    and n: "0 < n" "n \<le> 8192"
  shows "axis_pixel a d n = (let x = round_away (axis_value (f64_val a) (f64_val d) n) in if n \<le> x then n - 1 else x)"
    and "0 \<le> axis_value (f64_val a) (f64_val d) n" and "axis_value (f64_val a) (f64_val d) n \<le> of_int n"
proof -
  let ?r = "round_rat (f64_val a / f64_val d)"
  have q: "0 \<le> f64_val a / f64_val d" "f64_val a / f64_val d \<le> 1" using v by simp_all
  have one: "representable 1" using representable_int[of 1] by simp
  have r: "0 \<le> ?r" "?r \<le> 1" using round_rat_nonneg[OF q(1)] round_rat_le[OF one q(2)] by simp_all
  have dv: "f64_finite (f64_div a d)" "f64_val (f64_div a d) = ?r"
    using f64_div_finite[of a d 1] f v q by simp_all
  have ni: "f64_finite (f64_of_int n)" "f64_val (f64_of_int n) = of_int n" using f64_of_int_exact[of n] n by simp_all
  have p: "0 \<le> ?r * of_int n" "?r * of_int n \<le> of_int n"
    using r n mult_right_mono[of ?r 1 "of_int n"] by simp_all
  have mv: "f64_finite (f64_mul (f64_div a d) (f64_of_int n))"
    "f64_val (f64_mul (f64_div a d) (f64_of_int n)) = axis_value (f64_val a) (f64_val d) n"
    using f64_mul_finite[of "f64_div a d" "f64_of_int n" n] dv ni p n by (simp_all add: axis_value_def)
  show lo: "0 \<le> axis_value (f64_val a) (f64_val d) n" using round_rat_nonneg[OF p(1)] by (simp add: axis_value_def)
  have "representable (of_int n)" using n by (intro representable_int) simp
  from round_rat_le[OF this p(2)] show hi: "axis_value (f64_val a) (f64_val d) n \<le> of_int n" by (simp add: axis_value_def)
  show "axis_pixel a d n = (let x = round_away (axis_value (f64_val a) (f64_val d) n) in if n \<le> x then n - 1 else x)"
    using f64_int_Round[OF mv(1), of 0 n] mv(2) lo hi n by (simp add: axis_pixel_def)
qed

lemma axis_pixel_range:
  assumes "f64_finite a" "f64_finite d" "0 \<le> f64_val a" "f64_val a \<le> f64_val d" "0 < f64_val d" "0 < n" "n \<le> 8192"
  shows "0 \<le> axis_pixel a d n \<and> axis_pixel a d n < n"
  using axis_pixel_value[OF assms] round_away_bounds(1)[of 0 "axis_value (f64_val a) (f64_val d) n"] assms(6)
  by (simp add: Let_def)

lemma axis_pixel_mono:
  assumes "f64_finite a" "f64_finite a'" "f64_finite d" "0 \<le> f64_val a" "f64_val a \<le> f64_val a'" "f64_val a' \<le> f64_val d"
    "0 < f64_val d" "0 < n" "n \<le> 8192"
  shows "axis_pixel a d n \<le> axis_pixel a' d n"
proof -
  have "axis_value (f64_val a) (f64_val d) n \<le> axis_value (f64_val a') (f64_val d) n"
    unfolding axis_value_def using assms by (intro round_rat_mono mult_right_mono divide_right_mono) auto
  then have "round_away (axis_value (f64_val a) (f64_val d) n) \<le> round_away (axis_value (f64_val a') (f64_val d) n)"
    by (rule round_away_mono)
  then show ?thesis
    using axis_pixel_value(1)[of a d n] axis_pixel_value(1)[of a' d n] assms by (simp add: Let_def)
qed

lemma float_representable: "f64_finite x \<Longrightarrow> is_float64 x \<Longrightarrow> representable (f64_val x)"
  by (cases x) auto

text \<open>The difference of two coordinates.\<close>

lemma offset_facts:
  assumes f: "f64_finite x" "f64_finite y" and r: "\<bar>f64_val x\<bar> \<le> 180" "\<bar>f64_val y\<bar> \<le> 180"
  shows "f64_finite (f64_sub x y)" and "f64_val (f64_sub x y) = round_rat (f64_val x - f64_val y)"
  using f64_sub_finite[OF f, of 360] r by (auto simp: abs_le_iff)

lemma Bounds_validate_Ok:
  "Bounds_validate b = Ok u \<longleftrightarrow> f64_finite (LatMin b) \<and> f64_finite (LatMax b) \<and> f64_finite (LonMin b) \<and> f64_finite (LonMax b)
     \<and> - 90 \<le> f64_val (LatMin b) \<and> f64_val (LatMax b) \<le> 90 \<and> - 180 \<le> f64_val (LonMin b) \<and> f64_val (LonMax b) \<le> 180
     \<and> f64_val (LatMin b) < f64_val (LatMax b) \<and> f64_val (LonMin b) < f64_val (LonMax b)"
  by (auto simp: Bounds_validate_def f64_cmp not_less not_le)

definition float_bounds :: "Bounds \<Rightarrow> bool" where
  "float_bounds b \<longleftrightarrow> is_float64 (LatMin b) \<and> is_float64 (LatMax b) \<and> is_float64 (LonMin b) \<and> is_float64 (LonMax b)"

definition inside :: "Bounds \<Rightarrow> float64 \<Rightarrow> float64 \<Rightarrow> bool" where
  "inside b lat lon \<longleftrightarrow> f64_val (LatMin b) \<le> f64_val lat \<and> f64_val lat \<le> f64_val (LatMax b)
     \<and> f64_val (LonMin b) \<le> f64_val lon \<and> f64_val lon \<le> f64_val (LonMax b)"

text \<open>The arguments of the two axes are as \<open>axis_pixel\<close> needs them.\<close>

lemma axis_arguments:
  assumes b: "Bounds_validate b = Ok ()" "float_bounds b" and p: "f64_finite lat" "f64_finite lon" "inside b lat lon"
  defines "ox \<equiv> f64_sub lon (LonMin b)" and "ex \<equiv> f64_sub (LonMax b) (LonMin b)"
    and "oy \<equiv> f64_sub (LatMax b) lat" and "ey \<equiv> f64_sub (LatMax b) (LatMin b)"
  shows "f64_finite ox" "f64_finite ex" "0 \<le> f64_val ox" "f64_val ox \<le> f64_val ex" "0 < f64_val ex"
    and "f64_finite oy" "f64_finite ey" "0 \<le> f64_val oy" "f64_val oy \<le> f64_val ey" "0 < f64_val ey"
proof -
  note v = b(1)[unfolded Bounds_validate_Ok] and i = p(3)[unfolded inside_def]
  have r: "\<bar>f64_val lon\<bar> \<le> 180" "\<bar>f64_val (LonMin b)\<bar> \<le> 180" "\<bar>f64_val (LonMax b)\<bar> \<le> 180"
    "\<bar>f64_val lat\<bar> \<le> 180" "\<bar>f64_val (LatMin b)\<bar> \<le> 180" "\<bar>f64_val (LatMax b)\<bar> \<le> 180"
    using v i by (auto simp: abs_le_iff)
  have vals: "f64_val ox = round_rat (f64_val lon - f64_val (LonMin b))"
    "f64_val ex = round_rat (f64_val (LonMax b) - f64_val (LonMin b))"
    "f64_val oy = round_rat (f64_val (LatMax b) - f64_val lat)"
    "f64_val ey = round_rat (f64_val (LatMax b) - f64_val (LatMin b))"
    unfolding ox_def ex_def oy_def ey_def using v p r by (auto intro!: offset_facts(2))
  show "f64_finite ox" "f64_finite ex" "f64_finite oy" "f64_finite ey"
    unfolding ox_def ex_def oy_def ey_def using v p r by (auto intro!: offset_facts(1))
  show "0 \<le> f64_val ox" "0 \<le> f64_val oy" using i by (auto simp: vals intro!: round_rat_nonneg)
  show "f64_val ox \<le> f64_val ex" "f64_val oy \<le> f64_val ey" using i by (auto simp: vals intro!: round_rat_mono)
  show "0 < f64_val ex" "0 < f64_val ey"
    using v b(2) by (auto simp: vals float_bounds_def intro!: round_rat_diff_pos float_representable)
qed

lemma Project_Ok:
  assumes "Project b w h lat lon = Ok (p, shown)"
  shows "Bounds_validate b = Ok ()" "0 < w" "w \<le> 8192" "0 < h" "h \<le> 8192" "f64_finite lat" "f64_finite lon"
    "shown \<longleftrightarrow> inside b lat lon"
    "shown \<Longrightarrow> p = (axis_pixel (f64_sub lon (LonMin b)) (f64_sub (LonMax b) (LonMin b)) w,
                 axis_pixel (f64_sub (LatMax b) lat) (f64_sub (LatMax b) (LatMin b)) h)"
proof -
  show b: "Bounds_validate b = Ok ()" and "0 < w" "w \<le> 8192" "0 < h" "h \<le> 8192" and f: "f64_finite lat" "f64_finite lon"
    using assms by (auto simp: Project_def outcome_simps split: if_splits)
  show "shown \<longleftrightarrow> inside b lat lon"
    using assms f b[unfolded Bounds_validate_Ok]
    by (auto simp: Project_def outcome_simps inside_def f64_cmp not_less split: if_splits)
  show "p = (axis_pixel (f64_sub lon (LonMin b)) (f64_sub (LonMax b) (LonMin b)) w,
                 axis_pixel (f64_sub (LatMax b) lat) (f64_sub (LatMax b) (LatMin b)) h)" if "shown"
    using assms that by (auto simp: Project_def outcome_simps split: if_splits)
qed

lemma Project_range:
  assumes p: "Project b w h lat lon = Ok ((x, y), True)" and f: "float_bounds b"
  shows "0 \<le> x \<and> x < w \<and> 0 \<le> y \<and> y < h"
proof -
  note o = Project_Ok[OF p]
  note a = axis_arguments[OF o(1) f o(6,7)]
  show ?thesis using o a axis_pixel_range by auto
qed

section \<open>Opacity\<close>

lemma f64_add_finite:
  assumes "f64_finite x" "f64_finite y" "\<bar>f64_val x + f64_val y\<bar> \<le> of_int m" "m < 2 ^ 53"
  shows "f64_finite (f64_add x y)" and "f64_val (f64_add x y) = round_rat (f64_val x + f64_val y)"
  using assms(1,2) f64_of_rat_in_range[OF assms(3,4), of False] f64_of_rat_in_range[OF assms(3,4), of True]
  by (auto elim!: f64_finite_cases)

definition alpha_value :: "rat \<Rightarrow> rat" where
  "alpha_value p = round_rat (255 * round_rat (1 / 4 + round_rat (3 / 4 * p)))"

lemma representable_quarters: "\<bar>m\<bar> < 2 ^ 53 \<Longrightarrow> representable (of_int m / 4)"
proof -
  assume "\<bar>m\<bar> < 2 ^ 53"
  moreover have "(of_int m / 4 :: rat) = of_int m * 2 powi (- 2)" by (simp add: power_int_minus)
  ultimately show ?thesis unfolding representable_def by (intro exI[of _ m] exI[of _ "- 2"]) simp
qed

lemma alpha_value_facts:
  assumes "0 \<le> p" "p \<le> 1"
  shows "0 \<le> round_rat (3 / 4 * p)" "round_rat (3 / 4 * p) \<le> 3 / 4"
    and "1 / 4 \<le> round_rat (1 / 4 + round_rat (3 / 4 * p))" "round_rat (1 / 4 + round_rat (3 / 4 * p)) \<le> 1"
    and "255 / 4 \<le> alpha_value p" "alpha_value p \<le> 255"
proof -
  have q: "representable (1 / 4)" "representable (3 / 4)" "representable 1" "representable (255 / 4)" "representable 255"
    using representable_quarters[of 1] representable_quarters[of 3] representable_quarters[of 4]
      representable_quarters[of 255] representable_int[of 255] by simp_all
  show a: "0 \<le> round_rat (3 / 4 * p)" "round_rat (3 / 4 * p) \<le> 3 / 4"
    using assms round_rat_nonneg[of "3 / 4 * p"] round_rat_le[OF q(2), of "3 / 4 * p"] by simp_all
  show b: "1 / 4 \<le> round_rat (1 / 4 + round_rat (3 / 4 * p))" "round_rat (1 / 4 + round_rat (3 / 4 * p)) \<le> 1"
    using le_round_rat[OF q(1), of "1 / 4 + round_rat (3 / 4 * p)"] round_rat_le[OF q(3), of "1 / 4 + round_rat (3 / 4 * p)"] a
    by simp_all
  show "255 / 4 \<le> alpha_value p" "alpha_value p \<le> 255"
    using le_round_rat[OF q(4), of "255 * round_rat (1 / 4 + round_rat (3 / 4 * p))"]
      round_rat_le[OF q(5), of "255 * round_rat (1 / 4 + round_rat (3 / 4 * p))"] b
    by (simp_all add: alpha_value_def)
qed

lemma marker_alpha_value:
  assumes "f64_finite p" "0 \<le> f64_val p" "f64_val p \<le> 1"
  shows "uint (marker_alpha p) = round_away (alpha_value (f64_val p))"
    and "64 \<le> round_away (alpha_value (f64_val p))" "round_away (alpha_value (f64_val p)) \<le> 255"
proof -
  note v = alpha_value_facts[OF assms(2,3)]
  let ?m = "f64_mul (Fin (3 / 4)) p" let ?a = "f64_add (Fin (1 / 4)) ?m"
  have m: "f64_finite ?m" "f64_val ?m = round_rat (3 / 4 * f64_val p)"
    using f64_mul_finite[of "Fin (3 / 4)" p 1] assms by simp_all
  have a: "f64_finite ?a" "f64_val ?a = round_rat (1 / 4 + round_rat (3 / 4 * f64_val p))"
    using f64_add_finite[of "Fin (1 / 4)" ?m 1] m v(1,2) by simp_all
  have t: "f64_finite (f64_mul (Fin 255) ?a)" "f64_val (f64_mul (Fin 255) ?a) = alpha_value (f64_val p)"
    using f64_mul_finite[of "Fin 255" ?a 255] a v(3,4) by (simp_all add: alpha_value_def)
  have "round_away (255 / 4) = 64" by (simp add: round_away_def floor_eq_iff)
  then show lo: "64 \<le> round_away (alpha_value (f64_val p))" using round_away_mono[OF v(5)] by simp
  show hi: "round_away (alpha_value (f64_val p)) \<le> 255" using round_away_bounds(2)[of _ 255] v(6) by simp
  have "f64_int (f64_Round (f64_mul (Fin 255) ?a)) = round_away (alpha_value (f64_val p))"
    using f64_int_Round[OF t(1), of 0 255] t(2) v(5,6) by simp
  then show "uint (marker_alpha p) = round_away (alpha_value (f64_val p))"
    using lo hi by (simp add: marker_alpha_def uint_word_of_int)
qed

section \<open>Frames\<close>

lemma frame_targets_Ok:
  assumes "frame_targets cfg seen ts = Ok (cmds, ms)" "float_bounds (map_Bounds cfg)"
  shows "cmds = concat (map (\<lambda>m. marker_circles (marker_Pixel m) (Probability (marker_Target m))) ms)"
    and "map marker_Target ms = filter (\<lambda>t. inside (map_Bounds cfg) (Latitude t) (Longitude t)) ts"
    and "list_all (\<lambda>m. 0 \<le> fst (marker_Pixel m) \<and> fst (marker_Pixel m) < map_Width cfg
       \<and> 0 \<le> snd (marker_Pixel m) \<and> snd (marker_Pixel m) < map_Height cfg) ms"
    and "distinct (map TargetID ts)" and "set (map TargetID ts) \<inter> insert [] seen = {}"
    and "list_all (\<lambda>t. f64_finite (Probability t) \<and> 0 \<le> f64_val (Probability t) \<and> f64_val (Probability t) \<le> 1) ts"
proof -
  have "cmds = concat (map (\<lambda>m. marker_circles (marker_Pixel m) (Probability (marker_Target m))) ms)
    \<and> map marker_Target ms = filter (\<lambda>t. inside (map_Bounds cfg) (Latitude t) (Longitude t)) ts
    \<and> list_all (\<lambda>m. 0 \<le> fst (marker_Pixel m) \<and> fst (marker_Pixel m) < map_Width cfg
       \<and> 0 \<le> snd (marker_Pixel m) \<and> snd (marker_Pixel m) < map_Height cfg) ms
    \<and> distinct (map TargetID ts) \<and> set (map TargetID ts) \<inter> insert [] seen = {}
    \<and> list_all (\<lambda>t. f64_finite (Probability t) \<and> 0 \<le> f64_val (Probability t) \<and> f64_val (Probability t) \<le> 1) ts"
    using assms
  proof (induction cfg seen ts arbitrary: cmds ms rule: frame_targets.induct)
    case (2 cfg seen t ts)
    from 2(2) obtain p shown cmds' ms' where h: "TargetID t \<noteq> []" "TargetID t \<notin> seen"
      "f64_finite (Probability t)" "0 \<le> f64_val (Probability t)" "f64_val (Probability t) \<le> 1"
      and pr: "Project (map_Bounds cfg) (map_Width cfg) (map_Height cfg) (Latitude t) (Longitude t) = Ok (p, shown)"
      and rec: "frame_targets cfg (insert (TargetID t) seen) ts = Ok (cmds', ms')"
      and out: "if \<not> shown then cmds = cmds' \<and> ms = ms'
        else cmds = marker_circles p (Probability t) @ cmds' \<and> ms = \<lparr>marker_Target = t, marker_Pixel = p\<rparr> # ms'"
      by (auto simp: outcome_simps f64_cmp not_less split: if_splits outcome.splits prod.splits)
    note IH = 2(1)[OF _ _ pr, of p shown cmds' ms'] and pix = Project_range[of "map_Bounds cfg" "map_Width cfg" "map_Height cfg"
        "Latitude t" "Longitude t" "fst p" "snd p", OF _ 2(3)]
    have IH': "cmds' = concat (map (\<lambda>m. marker_circles (marker_Pixel m) (Probability (marker_Target m))) ms')
      \<and> map marker_Target ms' = filter (\<lambda>t. inside (map_Bounds cfg) (Latitude t) (Longitude t)) ts
      \<and> list_all (\<lambda>m. 0 \<le> fst (marker_Pixel m) \<and> fst (marker_Pixel m) < map_Width cfg
         \<and> 0 \<le> snd (marker_Pixel m) \<and> snd (marker_Pixel m) < map_Height cfg) ms'
      \<and> distinct (map TargetID ts) \<and> set (map TargetID ts) \<inter> insert [] (insert (TargetID t) seen) = {}
      \<and> list_all (\<lambda>t. f64_finite (Probability t) \<and> 0 \<le> f64_val (Probability t) \<and> f64_val (Probability t) \<le> 1) ts"
      using IH rec h 2(3) by (simp add: f64_cmp not_less)
    show ?case using IH' out h Project_Ok(8)[OF pr] pix pr by (cases shown) auto
  qed auto
  then show "cmds = concat (map (\<lambda>m. marker_circles (marker_Pixel m) (Probability (marker_Target m))) ms)"
    and "map marker_Target ms = filter (\<lambda>t. inside (map_Bounds cfg) (Latitude t) (Longitude t)) ts"
    and "list_all (\<lambda>m. 0 \<le> fst (marker_Pixel m) \<and> fst (marker_Pixel m) < map_Width cfg
       \<and> 0 \<le> snd (marker_Pixel m) \<and> snd (marker_Pixel m) < map_Height cfg) ms"
    and "distinct (map TargetID ts)" and "set (map TargetID ts) \<inter> insert [] seen = {}"
    and "list_all (\<lambda>t. f64_finite (Probability t) \<and> 0 \<le> f64_val (Probability t) \<and> f64_val (Probability t) \<le> 1) ts"
    by auto
qed

text \<open>Conversely: what a target list needs for a frame to be built from it.\<close>

definition valid_target :: "Target \<Rightarrow> bool" where
  "valid_target t \<longleftrightarrow> f64_finite (Probability t) \<and> 0 \<le> f64_val (Probability t) \<and> f64_val (Probability t) \<le> 1
     \<and> f64_finite (Latitude t) \<and> \<bar>f64_val (Latitude t)\<bar> \<le> 90 \<and> f64_finite (Longitude t) \<and> \<bar>f64_val (Longitude t)\<bar> \<le> 180"

lemma Validate_Ok:
  "Validate cfg = Ok u \<longleftrightarrow> Version cfg = 1 \<and> map_Width cfg = 960 \<and> map_Height cfg = 640 \<and> cfg_Image cfg \<noteq> []
     \<and> Bounds_validate (map_Bounds cfg) = Ok ()"
  by (auto simp: Validate_def)

lemma Project_defined:
  assumes "Bounds_validate b = Ok ()" "0 < w" "w \<le> 8192" "0 < h" "h \<le> 8192"
    and "f64_finite lat" "\<bar>f64_val lat\<bar> \<le> 90" "f64_finite lon" "\<bar>f64_val lon\<bar> \<le> 180"
  shows "\<exists>p shown. Project b w h lat lon = Ok (p, shown)"
  using assms by (auto simp: Project_def f64_cmp abs_le_iff not_less)

lemma Project_no_panic: "Project b w h lat lon \<noteq> Panic"
  by (auto simp: Project_def outcome_simps Bounds_validate_def)

lemma frame_targets_no_panic: "frame_targets cfg seen ts \<noteq> Panic"
proof (induction cfg seen ts rule: frame_targets.induct)
  case (2 cfg seen t ts)
  then show ?case using Project_no_panic by (auto simp: outcome_simps split: outcome.splits)
qed simp

lemma frame_targets_defined:
  assumes "Validate cfg = Ok ()" "list_all valid_target ts" "distinct (map TargetID ts)" "set (map TargetID ts) \<inter> insert [] seen = {}"
  shows "\<exists>cmds ms. frame_targets cfg seen ts = Ok (cmds, ms)"
  using assms(2-4)
proof (induction ts arbitrary: seen)
  case (Cons t ts)
  have v: "valid_target t" using Cons.prems by simp
  obtain p shown where p: "Project (map_Bounds cfg) (map_Width cfg) (map_Height cfg) (Latitude t) (Longitude t) = Ok (p, shown)"
    using Project_defined[of "map_Bounds cfg" "map_Width cfg" "map_Height cfg" "Latitude t" "Longitude t"] v assms(1)
    by (auto simp: Validate_Ok valid_target_def)
  obtain cmds ms where r: "frame_targets cfg (insert (TargetID t) seen) ts = Ok (cmds, ms)"
    using Cons.IH[of "insert (TargetID t) seen"] Cons.prems by auto
  show ?case using p r v Cons.prems by (cases shown) (auto simp: valid_target_def f64_cmp not_less)
qed simp

lemma update_target_ids: "TargetID ` set (update_target ts t) = insert (TargetID t) (TargetID ` set ts)"
  by (induction ts t rule: update_target.induct) auto

lemma update_target_distinct: "distinct (map TargetID ts) \<Longrightarrow> distinct (map TargetID (update_target ts t))"
  using update_target_ids by (induction ts t rule: update_target.induct) (auto simp: image_iff)

lemma update_target_set:
  "distinct (map TargetID ts) \<Longrightarrow> set (update_target ts t) = insert t {x \<in> set ts. TargetID x \<noteq> TargetID t}"
  by (induction ts t rule: update_target.induct) (auto simp: image_iff)

section \<open>Properties\<close>

text \<open>The projection puts every point inside the bounds on a pixel of the image, for any double-precision
  bounds and coordinates and despite rounding; more eastern points never get a smaller column and more
  northern points never a larger row.\<close>

theorem Project_sound:
  assumes "Project b w h lat lon = Ok ((x, y), True)" "Project b w h lat' lon' = Ok ((x', y'), True)" "float_bounds b"
  shows "0 \<le> x \<and> x < w \<and> 0 \<le> y \<and> y < h
     \<and> (f64_le lon lon' \<longrightarrow> x \<le> x') \<and> (f64_le lat lat' \<longrightarrow> y' \<le> y)"
proof -
  note o = Project_Ok[OF assms(1)] and o' = Project_Ok[OF assms(2)]
  have i: "inside b lat lon" "inside b lat' lon'" using o(8) o'(8) by simp_all
  note a = axis_arguments[OF o(1) assms(3) o(6,7) i(1)] and a' = axis_arguments[OF o(1) assms(3) o'(6,7) i(2)]
  have r: "\<bar>f64_val lon\<bar> \<le> 180" "\<bar>f64_val lon'\<bar> \<le> 180" "\<bar>f64_val (LonMin b)\<bar> \<le> 180"
    "\<bar>f64_val lat\<bar> \<le> 180" "\<bar>f64_val lat'\<bar> \<le> 180" "\<bar>f64_val (LatMax b)\<bar> \<le> 180"
    using o(1)[unfolded Bounds_validate_Ok] i by (auto simp: inside_def abs_le_iff)
  have fb: "f64_finite (LonMin b)" "f64_finite (LatMax b)" using o(1)[unfolded Bounds_validate_Ok] by simp_all
  have "x \<le> x'" if "f64_le lon lon'"
  proof -
    have "f64_val (f64_sub lon (LonMin b)) \<le> f64_val (f64_sub lon' (LonMin b))"
      using that o(7) o'(7) fb r by (auto simp: f64_cmp offset_facts(2) intro!: round_rat_mono)
    then show ?thesis using axis_pixel_mono[OF a(1) a'(1) a(2,3) _ a'(4) a(5) o(2,3)] o(9) o'(9) by simp
  qed
  moreover have "y' \<le> y" if "f64_le lat lat'"
  proof -
    have "f64_val (f64_sub (LatMax b) lat') \<le> f64_val (f64_sub (LatMax b) lat)"
      using that o(6) o'(6) fb r by (auto simp: f64_cmp offset_facts(2) intro!: round_rat_mono)
    then show ?thesis using axis_pixel_mono[OF a'(6) a(6) a(7) a'(8) _ a(9,10) o(4,5)] o(9) o'(9) by simp
  qed
  ultimately show ?thesis using Project_range[OF assms(1,3)] by simp
qed

definition unit_bounds :: Bounds where
  "unit_bounds = \<lparr>LatMin = Fin 0, LatMax = Fin 1, LonMin = Fin 0, LonMax = Fin 1\<rparr>"

lemma unit_project:
  "Project unit_bounds 2 2 (Fin 0) (Fin 0) = Ok ((0, 1), True)" "Project unit_bounds 2 2 (Fin 1) (Fin 1) = Ok ((1, 0), True)"
proof -
  have r: "round_rat 1 = 1" "round_rat 2 = 2" "round_away 2 = 2"
    using round_rat_exact[OF representable_int[of 1]] round_rat_exact[OF representable_int[of 2]] round_away_int[of 2]
    by simp_all
  show "Project unit_bounds 2 2 (Fin 0) (Fin 0) = Ok ((0, 1), True)" "Project unit_bounds 2 2 (Fin 1) (Fin 1) = Ok ((1, 0), True)"
    by (simp_all add: Project_def Bounds_validate_def unit_bounds_def axis_pixel_def f64_sub_def f64_div_def f64_mul_def
        f64_of_int_def f64_of_rat_def f64_neg_def f64_int_def f64_to_int_def f64_trunc_def round_away_0 f64_le_def Let_def r)
qed

lemma float_unit_bounds: "float_bounds unit_bounds"
  using representable_int[of 1] by (simp add: float_bounds_def unit_bounds_def)

lemma Project_sound_witness:
  "Project unit_bounds 2 2 (Fin 0) (Fin 0) = Ok ((0, 1), True) \<and> (0::int) \<le> 1"
  using Project_sound[OF unit_project float_unit_bounds] unit_project by simp

text \<open>The opacity of a marker follows its probability: from 64 to 255, never wrapping around its byte,
  and a more probable target is never more transparent.\<close>

theorem marker_alpha_sound:
  assumes "f64_finite p" "f64_finite q" "f64_le (Fin 0) p" "f64_le p q" "f64_le q (Fin 1)"
  shows "64 \<le> marker_alpha p \<and> marker_alpha p \<le> marker_alpha q"
proof -
  have r: "0 \<le> f64_val p" "f64_val p \<le> f64_val q" "f64_val q \<le> 1" using assms by (auto simp: f64_cmp)
  note p = marker_alpha_value[OF assms(1)] and q = marker_alpha_value[OF assms(2)]
  have "alpha_value (f64_val p) \<le> alpha_value (f64_val q)"
    unfolding alpha_value_def using r by (intro round_rat_mono mult_left_mono add_left_mono) auto
  then have "round_away (alpha_value (f64_val p)) \<le> round_away (alpha_value (f64_val q))" by (rule round_away_mono)
  then show ?thesis using p q r by (simp add: word_le_def)
qed

lemma marker_alpha_sound_witness: "64 \<le> marker_alpha (Fin 0) \<and> marker_alpha (Fin 0) \<le> marker_alpha (Fin 1)"
  using marker_alpha_sound[of "Fin 0" "Fin 1"] by (simp add: f64_le_def)

text \<open>A frame is built exactly when the configuration and the targets are valid, and then it is one
  background, the picture, two circles for each target inside the bounds, in the order of the targets
  and centred inside the window, and one PRESENT.\<close>

theorem BuildFrame_sound:
  assumes "float_bounds (map_Bounds cfg)"
  shows "case BuildFrame cfg ts of
      Ok (cmds, ms) \<Rightarrow>
        cmds = frame_head cfg @ concat (map (\<lambda>m. marker_circles (marker_Pixel m) (Probability (marker_Target m))) ms)
          @ [command ''PRESENT'']
        \<and> map marker_Target ms = filter (\<lambda>t. inside (map_Bounds cfg) (Latitude t) (Longitude t)) ts
        \<and> list_all (\<lambda>m. 0 \<le> fst (marker_Pixel m) \<and> fst (marker_Pixel m) < 960
             \<and> 0 \<le> snd (marker_Pixel m) \<and> snd (marker_Pixel m) < 640) ms
        \<and> distinct (map TargetID ts)
    | Err e \<Rightarrow> \<not> (Validate cfg = Ok () \<and> list_all valid_target ts \<and> distinct (map TargetID ts) \<and> [] \<notin> set (map TargetID ts))
    | Panic \<Rightarrow> False"
proof (cases "BuildFrame cfg ts")
  case (Ok x)
  then obtain cmds ms where x: "x = (frame_head cfg @ cmds @ [command ''PRESENT''], ms)"
    and v: "Validate cfg = Ok ()" and f: "frame_targets cfg {} ts = Ok (cmds, ms)"
    by (auto simp: BuildFrame_def outcome_simps)
  show ?thesis using Ok x frame_targets_Ok[OF f assms] v by (simp add: Validate_Ok)
next
  case (Err e)
  have "\<not> (Validate cfg = Ok () \<and> list_all valid_target ts \<and> distinct (map TargetID ts) \<and> [] \<notin> set (map TargetID ts))"
  proof
    assume a: "Validate cfg = Ok () \<and> list_all valid_target ts \<and> distinct (map TargetID ts) \<and> [] \<notin> set (map TargetID ts)"
    then obtain cmds ms where "frame_targets cfg {} ts = Ok (cmds, ms)"
      using frame_targets_defined[of cfg ts "{}"] by auto
    then show False using Err a by (simp add: BuildFrame_def)
  qed
  then show ?thesis using Err by simp
next
  case Panic
  then show ?thesis using frame_targets_no_panic[of cfg "{}" ts]
    by (auto simp: BuildFrame_def outcome_simps Validate_def Bounds_validate_def split: if_splits)
qed

definition sample_config :: Config where
  "sample_config = \<lparr>Version = 1, cfg_Image = ''map.png'', map_Width = 960, map_Height = 640, map_Bounds = unit_bounds\<rparr>"

definition sample_target :: Target where
  "sample_target = \<lparr>TargetID = ''t1'', Latitude = Fin 1, Longitude = Fin 1, Probability = Fin 1, LastSeenAt = 1\<rparr>"

lemma BuildFrame_sound_witness:
  "\<exists>cmds ms. BuildFrame sample_config [sample_target] = Ok (cmds, ms) \<and> map marker_Target ms = [sample_target]"
proof -
  have b: "Validate sample_config = Ok ()"
    by (simp add: Validate_def sample_config_def Bounds_validate_def unit_bounds_def f64_le_def)
  have "valid_target sample_target" by (simp add: valid_target_def sample_target_def)
  moreover have "inside (map_Bounds sample_config) (Latitude sample_target) (Longitude sample_target)"
    by (simp add: inside_def sample_config_def unit_bounds_def sample_target_def)
  moreover have "float_bounds (map_Bounds sample_config)" using float_unit_bounds by (simp add: sample_config_def)
  ultimately show ?thesis using BuildFrame_sound[of sample_config "[sample_target]"] b
    by (cases "BuildFrame sample_config [sample_target]") (auto simp: sample_target_def)
qed

text \<open>A target update replaces the target with its identifier or adds it, and touches no other: identifiers
  stay distinct, so the next frame is not rejected for a duplicate.\<close>

theorem update_target_sound:
  assumes "distinct (map TargetID ts)"
  shows "distinct (map TargetID (update_target ts t))
     \<and> set (update_target ts t) = insert t {x \<in> set ts. TargetID x \<noteq> TargetID t}"
  using update_target_distinct[OF assms] update_target_set[OF assms] by simp

lemma update_target_sound_witness:
  "set (update_target [sample_target] (sample_target\<lparr>Probability := Fin 0\<rparr>)) = {sample_target\<lparr>Probability := Fin 0\<rparr>}"
  using update_target_sound[of "[sample_target]" "sample_target\<lparr>Probability := Fin 0\<rparr>"] by simp

end
