(* ===== verification/Map_Messages.thy ===== *)
theory Map_Messages
  imports Map_Frame Go_Json_Decode Broker
begin

text \<open>
  The messages of the Map application: \<^verbatim>\<open>app/map/messages.go\<close> (strict decoding of observations and targets)
  and \<^verbatim>\<open>app/map/broker.go\<close> (what is published, and the loop that turns frames of the Broker into target
  updates). The strict decoder walks the token stream; it is shown equivalent to a condition on the parsed
  object.
\<close>

section \<open>Observations\<close>

record Observation =
  obs_TargetID :: string
  obs_ObserverID :: string
  obs_Latitude :: float64
  obs_Longitude :: float64
  obs_Confidence :: float64
  obs_Timestamp :: int

datatype msg_error =
    NotUTF8 | NotObject | JsonError json_error | UnexpectedField | NullField string | MissingFields | ExtraData
  | EmptyID | NotMarkerID | BadObservation | BadTarget | AtLine nat msg_error | LineTooLong | PayloadTooLong | NoAddress

definition validCoordinates :: "float64 \<Rightarrow> float64 \<Rightarrow> bool" where
  "validCoordinates lat lon \<longleftrightarrow> f64_finite lat \<and> f64_le (Fin (- 90)) lat \<and> f64_le lat (Fin 90)
     \<and> f64_finite lon \<and> f64_le (Fin (- 180)) lon \<and> f64_le lon (Fin 180)"

text \<open>The range loop over the runes of the identifier; an invalid byte is a rune that is no digit.\<close>

definition Observation_validate :: "Observation \<Rightarrow> (msg_error, unit) outcome" where
  "Observation_validate ob =
     (if obs_TargetID ob = [] \<or> obs_ObserverID ob = [] then Err EmptyID
      else if list_ex (\<lambda>(c, _). c < 48 \<or> 57 < c) (utf8_runes (obs_TargetID ob)) then Err NotMarkerID
      else if \<not> validCoordinates (obs_Latitude ob) (obs_Longitude ob) \<or> \<not> f64_finite (obs_Confidence ob)
        \<or> f64_lt (obs_Confidence ob) (Fin 0) \<or> f64_lt (Fin 1) (obs_Confidence ob) then Err BadObservation
      else Ok ())"

section \<open>Strict decoding\<close>

text \<open>The loop over the fields. A \<^verbatim>\<open>RawMessage\<close> that is \<^verbatim>\<open>null\<close> after trimming is the value \<^const>\<open>JNull\<close>.\<close>

function record_loop :: "string list \<Rightarrow> decoder \<Rightarrow> (msg_error, string list \<times> decoder) outcome" where
  "record_loop remaining d =
     (if \<not> More d then Ok (remaining, d)
      else case Token d of
             Err e \<Rightarrow> Err (JsonError e)
           | Panic \<Rightarrow> Panic
           | Ok (key, d1) \<Rightarrow>
               (case key of
                  TString name \<Rightarrow>
                    if name \<notin> set remaining then Err UnexpectedField
                    else (case Decode d1 of
                            Err e \<Rightarrow> Err (JsonError e)
                          | Panic \<Rightarrow> Panic
                          | Ok (v, d2) \<Rightarrow> if v = JNull then Err (NullField name) else record_loop (removeAll name remaining) d2)
                | _ \<Rightarrow> Err UnexpectedField))"
  by pat_completeness auto
termination
  by (relation "measure (length \<circ> fst)") (auto intro!: length_removeAll_less)

declare record_loop.simps [simp del]

text \<open>After the loop: the closing brace, no field left, nothing behind the object.\<close>

definition record_end :: "string list \<Rightarrow> decoder \<Rightarrow> (msg_error, unit) outcome" where
  "record_end remaining d = (case Token d of
      Err e \<Rightarrow> Err (JsonError e)
    | Panic \<Rightarrow> Panic
    | Ok td \<Rightarrow> if remaining \<noteq> [] then Err MissingFields else if Token (snd td) \<noteq> Err JEOF then Err ExtraData else Ok ())"

definition decodeRecord :: "string \<Rightarrow> string list \<Rightarrow> 'r field list \<Rightarrow> 'r \<Rightarrow> (msg_error, 'r) outcome" where
  "decodeRecord data names fs r =
     (if \<not> utf8_valid data then Err NotUTF8
      else case Token (NewDecoder data) of
             Ok (Delim c, d) \<Rightarrow>
               if c \<noteq> CHR ''{'' then Err NotObject
               else obind (record_loop names d) (\<lambda>(remaining, d1).
                    obind (record_end remaining d1) (\<lambda>_.
                    case Unmarshal_struct fs data r of Ok r' \<Rightarrow> Ok r' | Err e \<Rightarrow> Err (JsonError e) | Panic \<Rightarrow> Panic))
           | _ \<Rightarrow> Err NotObject)"

definition observation_names :: "string list" where
  "observation_names = [''targetId'', ''observerId'', ''latitude'', ''longitude'', ''confidence'', ''timestamp'']"

definition observation_fields :: "Observation field list" where
  "observation_fields =
     [string_field ''targetId'' (\<lambda>x ob. ob\<lparr>obs_TargetID := x\<rparr>), string_field ''observerId'' (\<lambda>x ob. ob\<lparr>obs_ObserverID := x\<rparr>),
      float_field ''latitude'' (\<lambda>x ob. ob\<lparr>obs_Latitude := x\<rparr>), float_field ''longitude'' (\<lambda>x ob. ob\<lparr>obs_Longitude := x\<rparr>),
      float_field ''confidence'' (\<lambda>x ob. ob\<lparr>obs_Confidence := x\<rparr>), int_field ''timestamp'' (\<lambda>x ob. ob\<lparr>obs_Timestamp := x\<rparr>)]"

definition zero_observation :: Observation where
  "zero_observation = \<lparr>obs_TargetID = [], obs_ObserverID = [], obs_Latitude = Fin 0, obs_Longitude = Fin 0,
     obs_Confidence = Fin 0, obs_Timestamp = 0\<rparr>"

definition parseObservation :: "string \<Rightarrow> (msg_error, Observation) outcome" where
  "parseObservation data =
     obind (decodeRecord data observation_names observation_fields zero_observation) (\<lambda>ob.
     obind (Observation_validate ob) (\<lambda>_. Ok ob))"

definition target_names :: "string list" where
  "target_names = [''targetId'', ''latitude'', ''longitude'', ''probability'', ''lastSeenAt'']"

definition target_fields :: "Target field list" where
  "target_fields =
     [string_field ''targetId'' (\<lambda>x t. t\<lparr>TargetID := x\<rparr>), float_field ''latitude'' (\<lambda>x t. t\<lparr>Latitude := x\<rparr>),
      float_field ''longitude'' (\<lambda>x t. t\<lparr>Longitude := x\<rparr>), float_field ''probability'' (\<lambda>x t. t\<lparr>Probability := x\<rparr>),
      int_field ''lastSeenAt'' (\<lambda>x t. t\<lparr>LastSeenAt := x\<rparr>)]"

definition zero_target :: Target where
  "zero_target = \<lparr>TargetID = [], Latitude = Fin 0, Longitude = Fin 0, Probability = Fin 0, LastSeenAt = 0\<rparr>"

definition parseTarget :: "string \<Rightarrow> (msg_error, Target) outcome" where
  "parseTarget data =
     obind (decodeRecord data target_names target_fields zero_target) (\<lambda>t.
       if TargetID t = [] \<or> \<not> validCoordinates (Latitude t) (Longitude t)
          \<or> \<not> f64_finite (Probability t) \<or> f64_lt (Probability t) (Fin 0) \<or> f64_lt (Fin 1) (Probability t)
       then Err BadTarget else Ok t)"

section \<open>Input fixtures\<close>

definition maxBrokerFrame :: nat where
  "maxBrokerFrame = 1024 * 1024"

fun load_lines :: "nat \<Rightarrow> string list \<Rightarrow> (msg_error, Observation list) outcome" where
  "load_lines n [] = Ok []"
| "load_lines n (l # ls) =
     (if TrimSpace l = [] then load_lines (n + 1) ls
      else case parseObservation l of
             Err e \<Rightarrow> Err (AtLine n e)
           | Panic \<Rightarrow> Panic
           | Ok ob \<Rightarrow> obind (load_lines (n + 1) ls) (\<lambda>obs. Ok (ob # obs)))"

definition LoadObservations :: "string \<Rightarrow> (msg_error, Observation list) outcome" where
  "LoadObservations input =
     (let (ls, tooLong) = scan_lines maxBrokerFrame input
      in obind (load_lines 1 ls) (\<lambda>obs. if tooLong then Err LineTooLong else Ok obs))"

section \<open>Publishing\<close>

text \<open>\<^verbatim>\<open>json.Marshal\<close> of an observation; a number that is not finite is an error.\<close>

definition observation_json :: "Observation \<Rightarrow> json option" where
  "observation_json ob =
     Option.bind (json_float (obs_Latitude ob)) (\<lambda>lat.
     Option.bind (json_float (obs_Longitude ob)) (\<lambda>lon.
     map_option (\<lambda>conf. JObj [(''targetId'', JStr (obs_TargetID ob)), (''observerId'', JStr (obs_ObserverID ob)),
         (''latitude'', JNum lat), (''longitude'', JNum lon), (''confidence'', JNum conf),
         (''timestamp'', JNum (Itoa (obs_Timestamp ob)))]) (json_float (obs_Confidence ob))))"

definition pub_prefix :: string where "pub_prefix = ''PUB observations ''"

fun payloads :: "Observation list \<Rightarrow> (msg_error, string list) outcome" where
  "payloads [] = Ok []"
| "payloads (ob # obs) =
     obind (Observation_validate ob) (\<lambda>_.
     case observation_json ob of
       None \<Rightarrow> Err (JsonError JType)
     | Some v \<Rightarrow>
         if maxBrokerFrame \<le> length (json_print v) + length pub_prefix + 1 then Err PayloadTooLong
         else obind (payloads obs) (\<lambda>ps. Ok (json_print v # ps)))"

definition broker_payloads :: "string \<Rightarrow> Observation list \<Rightarrow> (msg_error, string list) outcome" where
  "broker_payloads address obs = (if address = [] then Err NoAddress else payloads obs)"

text \<open>The bytes written to a Broker that accepts them all, in order.\<close>

definition published :: "string list \<Rightarrow> string" where
  "published ps = concat (map (\<lambda>l. l @ [newline]) (''SUB targets.updated'' # map (\<lambda>p. pub_prefix @ p) ps))"

section \<open>Receiving\<close>

datatype received = Updated Target | IgnoredMessage | IgnoredTarget msg_error | Crashed

definition msg_prefix :: string where "msg_prefix = ''MSG targets.updated ''"

definition receive_line :: "string \<Rightarrow> received" where
  "receive_line line =
     (if \<not> HasPrefix line msg_prefix then IgnoredMessage
      else case parseTarget (butlast (drop (length msg_prefix) line)) of
             Ok t \<Rightarrow> Updated t | Err e \<Rightarrow> IgnoredTarget e | Panic \<Rightarrow> Crashed)"

text \<open>The read loop until the read error that ends it; cancellation keeps a prefix.\<close>

function receive_loop :: "string \<Rightarrow> received list" where
  "receive_loop s = (case ReadSlice maxBrokerFrame s of
      Line l rest \<Rightarrow> receive_line l # receive_loop rest
    | _ \<Rightarrow> [])"
  by pat_completeness auto
termination
  by (relation "measure length") (auto dest: ReadSlice_shorter)

declare receive_loop.simps [simp del]

section \<open>The strict decoder on the parsed object\<close>

text \<open>The same checks on the members that the parser delivers.\<close>

fun check_members :: "string list \<Rightarrow> (string \<times> json) list \<Rightarrow> (msg_error, string list) outcome" where
  "check_members remaining [] = Ok remaining"
| "check_members remaining ((k, v) # ms) =
     (if k \<notin> set remaining then Err UnexpectedField
      else if v = JNull then Err (NullField k) else check_members (removeAll k remaining) ms)"

lemma check_members_Ok:
  "check_members remaining ms = Ok r \<longleftrightarrow> distinct (map fst ms) \<and> set (map fst ms) \<subseteq> set remaining
     \<and> JNull \<notin> set (map snd ms) \<and> r = filter (\<lambda>x. x \<notin> set (map fst ms)) remaining"
proof (induction remaining ms arbitrary: r rule: check_members.induct)
  case (2 remaining k v ms)
  show ?case
  proof (cases "k \<in> set remaining \<and> v \<noteq> JNull")
    case True
    then have "check_members remaining ((k, v) # ms) = Ok r \<longleftrightarrow> check_members (removeAll k remaining) ms = Ok r" by simp
    also have "\<dots> \<longleftrightarrow> distinct (map fst ms) \<and> set (map fst ms) \<subseteq> set remaining - {k}
       \<and> JNull \<notin> set (map snd ms) \<and> r = filter (\<lambda>x. x \<notin> set (map fst ms)) (removeAll k remaining)"
      using 2 True by simp
    also have "filter (\<lambda>x. x \<notin> set (map fst ms)) (removeAll k remaining) = filter (\<lambda>x. x \<notin> set (map fst ((k, v) # ms))) remaining"
      by (simp add: removeAll_filter_not_eq conj_commute eq_commute)
    finally show ?thesis using True by auto
  qed auto
qed auto

lemma record_loop_step:
  assumes "Token d = Ok (TString k, in_object r0 tokenObjectColon)" "More d"
    and "skip_ws r0 = CHR '':'' # cs" "parse_value max_depth cs = Some (v, r1)"
  shows "record_loop remaining d = (if k \<notin> set remaining then Err UnexpectedField
      else if v = JNull then Err (NullField k) else record_loop (removeAll k remaining) (in_object r1 tokenObjectComma))"
  using assms by (subst record_loop.simps) (simp add: Decode_member)

text \<open>What the decoder has before it: the first member, or a comma and the next one.\<close>

definition before_member :: "decoder \<Rightarrow> string \<Rightarrow> bool" where
  "before_member d s \<longleftrightarrow> d = in_object s tokenObjectStart \<or> (\<exists>b. d = in_object b tokenObjectComma \<and> skip_ws b = CHR '','' # s)"

lemma before_member_key:
  assumes "before_member d s" "skip_ws s = CHR 0x22 # qs" "scan_string qs = Some (k, r0)"
  shows "Token d = Ok (TString k, in_object r0 tokenObjectColon)" "More d"
  using assms Token_key[of s qs k r0 tokenObjectStart] Token_next_key[of _ s qs k r0]
  by (auto simp: before_member_def More_object)

lemma record_loop_members:
  assumes "parse_members dep s = Some (ms, t)" "dep \<le> max_depth" "before_member d s"
  shows "\<exists>b. skip_ws b = CHR ''}'' # t
     \<and> record_loop remaining d = obind (check_members remaining ms) (\<lambda>r. Ok (r, in_object b tokenObjectComma))"
  using assms
proof (induction ms arbitrary: s d remaining)
  case Nil
  then show ?case using members_start by blast
next
  case (Cons m ms)
  from Cons.prems(1) have "member_step dep s (m # ms) t" by (simp add: parse_members_step)
  then obtain qs k r0 cs v r1 where m: "skip_ws s = CHR 0x22 # qs" "scan_string qs = Some (k, r0)" "skip_ws r0 = CHR '':'' # cs"
      "parse_value dep cs = Some (v, r1)" "m = (k, v)"
    and tail: "skip_ws r1 = CHR ''}'' # t \<and> ms = [] \<or> (\<exists>es. skip_ws r1 = CHR '','' # es \<and> parse_members dep es = Some (ms, t))"
    unfolding member_step_def by blast
  note step = record_loop_step[OF before_member_key[OF Cons.prems(3) m(1,2)] m(3) parse_value_max[OF m(4) Cons.prems(2)], of remaining]
  from tail show ?case
  proof
    assume e: "skip_ws r1 = CHR ''}'' # t \<and> ms = []"
    then have "\<not> More (in_object r1 tokenObjectComma)" by (simp add: More_object)
    then have "record_loop (removeAll k remaining) (in_object r1 tokenObjectComma) = Ok (removeAll k remaining, in_object r1 tokenObjectComma)"
      by (subst record_loop.simps) simp
    then show ?thesis using e step m(5) by (intro exI[of _ r1]) simp
  next
    assume "\<exists>es. skip_ws r1 = CHR '','' # es \<and> parse_members dep es = Some (ms, t)"
    then obtain es where es: "skip_ws r1 = CHR '','' # es" "parse_members dep es = Some (ms, t)" by blast
    then have "before_member (in_object r1 tokenObjectComma) es" by (simp add: before_member_def)
    from Cons.IH[OF es(2) Cons.prems(2) this, of "removeAll k remaining"] show ?thesis using step m(5) by (auto split: if_splits)
  qed
qed

definition strict_object :: "string list \<Rightarrow> (string \<times> json) list \<Rightarrow> bool" where
  "strict_object names ms \<longleftrightarrow> distinct (map fst ms) \<and> set (map fst ms) = set names \<and> JNull \<notin> set (map snd ms)"

lemma check_members_all: "check_members names ms = Ok [] \<longleftrightarrow> strict_object names ms"
  by (auto simp: check_members_Ok strict_object_def filter_empty_conv eq_commute[of "[]"])

lemma decodeRecord_members:
  assumes "json_parse data = Some (JObj ms)" "utf8_valid data"
  shows "decodeRecord data names fs r = Ok r' \<longleftrightarrow> strict_object names ms \<and> decode_struct fs (JObj ms) r = Some r'"
proof -
  obtain cs t where cs: "skip_ws data = CHR ''{'' # cs" "skip_ws t = []"
    "skip_ws cs = CHR ''}'' # t \<and> ms = [] \<or> parse_members (max_depth - 1) cs = Some (ms, t)"
    using assms(1) unfolding json_parse_object by blast
  have loop: "\<exists>d. record_loop names (in_object cs tokenObjectStart) = obind (check_members names ms) (\<lambda>r. Ok (r, d))
      \<and> Token d = Ok (Delim CHR ''}'', NewDecoder t)"
    using cs(3)
  proof
    assume e: "skip_ws cs = CHR ''}'' # t \<and> ms = []"
    then have "\<not> More (in_object cs tokenObjectStart)" by (simp add: More_object)
    then show ?thesis using e Token_close[of cs t tokenObjectStart]
      by (intro exI[of _ "in_object cs tokenObjectStart"]) (subst record_loop.simps, simp)
  next
    assume "parse_members (max_depth - 1) cs = Some (ms, t)"
    from record_loop_members[OF this, of "in_object cs tokenObjectStart" names]
    show ?thesis using Token_close by (fastforce simp: before_member_def)
  qed
  then obtain d where d: "record_loop names (in_object cs tokenObjectStart) = obind (check_members names ms) (\<lambda>r. Ok (r, d))"
      "Token d = Ok (Delim CHR ''}'', NewDecoder t)" by blast
  have u: "Unmarshal_struct fs data r = (case decode_struct fs (JObj ms) r of None \<Rightarrow> Err JType | Some r' \<Rightarrow> Ok r')"
    using assms(1) by (simp add: Unmarshal_struct_def)
  have "decodeRecord data names fs r = Ok r' \<longleftrightarrow> check_members names ms = Ok [] \<and> decode_struct fs (JObj ms) r = Some r'"
    using assms(2) Token_open[OF cs(1)] d u Token_end[of t] cs(2)
    by (cases "check_members names ms") (auto simp: decodeRecord_def record_end_def split: option.splits)
  then show ?thesis by (simp add: check_members_all)
qed

lemma decodeRecord_utf8: "decodeRecord data names fs r = Ok r' \<Longrightarrow> utf8_valid data"
  by (cases "utf8_valid data") (simp_all add: decodeRecord_def)

lemma decodeRecord_Ok:
  "decodeRecord data names fs r = Ok r' \<longleftrightarrow> utf8_valid data
     \<and> (\<exists>ms. json_parse data = Some (JObj ms) \<and> strict_object names ms \<and> decode_struct fs (JObj ms) r = Some r')"
proof (cases "\<exists>ms. json_parse data = Some (JObj ms)")
  case True
  then obtain ms where ms: "json_parse data = Some (JObj ms)" ..
  show ?thesis using decodeRecord_members[OF ms, of names fs r r'] decodeRecord_utf8[of data names fs r r'] ms by auto
next
  case False
  have "decodeRecord data names fs r \<noteq> Ok r'"
  proof
    assume ok: "decodeRecord data names fs r = Ok r'"
    then obtain d where "Token (NewDecoder data) = Ok (Delim CHR ''{'', d)"
      by (auto simp: decodeRecord_def outcome_simps split: if_splits outcome.splits json_token.splits)
    moreover from ok obtain v where "json_parse data = Some v"
      by (auto simp: decodeRecord_def outcome_simps Unmarshal_struct_def split: if_splits outcome.splits json_token.splits option.splits)
    ultimately show False using False json_parse_not_object[of data v] Token_other[of data] by blast
  qed
  then show ?thesis using False by auto
qed

section \<open>Values that are accepted\<close>

lemma parse_coordinates_float: "ParseFloat n = Some x \<Longrightarrow> is_float64 x"
  by (auto simp: ParseFloat_def Let_def bind_eq_Some_conv is_float64_of_rat split: prod.splits if_splits)

lemma validCoordinates_iff:
  "validCoordinates lat lon \<longleftrightarrow> f64_finite lat \<and> \<bar>f64_val lat\<bar> \<le> 90 \<and> f64_finite lon \<and> \<bar>f64_val lon\<bar> \<le> 180"
  by (auto simp: validCoordinates_def f64_cmp abs_le_iff)

lemma parseTarget_valid: "parseTarget data = Ok t \<Longrightarrow> valid_target t \<and> TargetID t \<noteq> []"
  by (auto simp: parseTarget_def outcome_simps validCoordinates_iff valid_target_def f64_cmp not_less split: if_splits)

lemma decoder_no_panic [simp]:
  "open_bracket d c r st \<noteq> Panic" "close_bracket d c r \<noteq> Panic" "decode_here d \<noteq> Panic" "scalar_token v d \<noteq> Panic"
  by (auto simp: open_bracket_def close_bracket_def decode_here_def scalar_token_def split: prod.splits option.splits json.splits)

lemma Token_no_panic: "Token d \<noteq> Panic"
proof (induction d rule: Token.induct)
  case (1 d)
  then show ?case by (subst Token.simps) (simp add: outcome_simps split: list.splits prod.splits)
qed

lemma Decode_no_panic: "Decode d \<noteq> Panic"
  by (auto simp: Decode_def prepare_def decode_here_def Let_def outcome_simps split: tokenState.splits list.splits option.splits)

lemma record_loop_no_panic: "record_loop remaining d \<noteq> Panic"
proof (induction remaining d rule: record_loop.induct)
  case (1 remaining d)
  then show ?case using Token_no_panic[of d] Decode_no_panic
    by (subst record_loop.simps) (auto split: outcome.splits json_token.splits)
qed

lemma decodeRecord_no_panic: "decodeRecord data names fs r \<noteq> Panic"
  using Token_no_panic record_loop_no_panic
  by (auto simp: decodeRecord_def record_end_def Unmarshal_struct_def outcome_simps split: outcome.splits json_token.splits option.splits)

section \<open>Observations survive printing\<close>

definition wf_observation :: "Observation \<Rightarrow> bool" where
  "wf_observation ob \<longleftrightarrow> utf8_valid (obs_TargetID ob) \<and> utf8_valid (obs_ObserverID ob) \<and> is_float64 (obs_Latitude ob)
     \<and> is_float64 (obs_Longitude ob) \<and> is_float64 (obs_Confidence ob) \<and> - (2 ^ 63) \<le> obs_Timestamp ob \<and> obs_Timestamp ob < 2 ^ 63"

lemma Observation_validate_Ok:
  "Observation_validate ob = Ok u \<Longrightarrow> f64_finite (obs_Latitude ob) \<and> f64_finite (obs_Longitude ob) \<and> f64_finite (obs_Confidence ob)"
  by (auto simp: Observation_validate_def validCoordinates_def split: if_splits)

text \<open>The members of a printed observation, and what they decode to.\<close>

lemma observation_json_members:
  assumes "observation_json ob = Some v"
  obtains lat lon conf where "json_float (obs_Latitude ob) = Some lat" "json_float (obs_Longitude ob) = Some lon" "json_float (obs_Confidence ob) = Some conf"
    "v = JObj [(''targetId'', JStr (obs_TargetID ob)), (''observerId'', JStr (obs_ObserverID ob)), (''latitude'', JNum lat),
         (''longitude'', JNum lon), (''confidence'', JNum conf), (''timestamp'', JNum (Itoa (obs_Timestamp ob)))]"
  using assms by (auto simp: observation_json_def bind_eq_Some_conv)

lemma utf8_valid_printable: "\<forall>c \<in> set s. printable c \<Longrightarrow> utf8_valid s"
  using clean_printable by (simp add: clean_def)

lemma observation_json_wf:
  assumes "observation_json ob = Some v" "wf_observation ob"
  shows "wf_json max_depth v" "json_parse (json_print v) = Some v" "clean (json_print v)"
proof -
  obtain lat lon conf where f: "json_float (obs_Latitude ob) = Some lat" "json_float (obs_Longitude ob) = Some lon" "json_float (obs_Confidence ob) = Some conf"
    and v: "v = JObj [(''targetId'', JStr (obs_TargetID ob)), (''observerId'', JStr (obs_ObserverID ob)), (''latitude'', JNum lat),
         (''longitude'', JNum lon), (''confidence'', JNum conf), (''timestamp'', JNum (Itoa (obs_Timestamp ob)))]"
    using assms(1) by (rule observation_json_members)
  have "json_number lat" "json_number lon" "json_number conf"
    using assms(2) f json_float_reads_back(1) by (auto simp: wf_observation_def)
  then show w: "wf_json max_depth v" using assms(2)
    by (simp add: v wf_observation_def max_depth_def json_number_Itoa utf8_valid_printable printable_def)
  show "json_parse (json_print v) = Some v" using json_parse_print[OF w, of "[]"] by simp
  show "clean (json_print v)" by (rule json_print_clean[OF w])
qed

lemma observation_round_trip:
  assumes "observation_json ob = Some v" "wf_observation ob"
  shows "parseObservation (json_print v) = obind (Observation_validate ob) (\<lambda>_. Ok ob)"
proof -
  obtain lat lon conf where f: "json_float (obs_Latitude ob) = Some lat" "json_float (obs_Longitude ob) = Some lon" "json_float (obs_Confidence ob) = Some conf"
    and v: "v = JObj [(''targetId'', JStr (obs_TargetID ob)), (''observerId'', JStr (obs_ObserverID ob)), (''latitude'', JNum lat),
         (''longitude'', JNum lon), (''confidence'', JNum conf), (''timestamp'', JNum (Itoa (obs_Timestamp ob)))]"
    using assms(1) by (rule observation_json_members)
  have p: "ParseFloat lat = Some (obs_Latitude ob)" "ParseFloat lon = Some (obs_Longitude ob)" "ParseFloat conf = Some (obs_Confidence ob)"
    using assms(2) f json_float_reads_back(2) by (auto simp: wf_observation_def)
  have t: "map_option sint (ParseInt64 (Itoa (obs_Timestamp ob))) = Some (obs_Timestamp ob)"
    using assms(2) by (simp add: wf_observation_def ParseInt64_sint)
  have d: "decode_struct observation_fields v zero_observation = Some ob"
    using p t by (cases ob) (auto simp: v decode_struct_def observation_fields_def zero_observation_def field_for_def
      string_field_def float_field_def int_field_def)
  have "strict_object observation_names (case v of JObj ms \<Rightarrow> ms | _ \<Rightarrow> [])"
    by (auto simp: v strict_object_def observation_names_def)
  then have "decodeRecord (json_print v) observation_names observation_fields zero_observation = Ok ob"
    using observation_json_wf[OF assms] d by (simp add: decodeRecord_Ok v clean_def)
  then show ?thesis by (simp add: parseObservation_def)
qed

section \<open>Received targets\<close>

fun updates :: "received list \<Rightarrow> Target list" where
  "updates [] = []"
| "updates (Updated t # rs) = t # updates rs"
| "updates (_ # rs) = updates rs"

lemma receive_line_valid: "receive_line l = Updated t \<Longrightarrow> valid_target t \<and> TargetID t \<noteq> []"
  using parseTarget_valid by (auto simp: receive_line_def split: if_splits outcome.splits)

lemma updates_Cons: "updates (r # rs) = (case r of Updated t \<Rightarrow> t # updates rs | _ \<Rightarrow> updates rs)"
  by (cases r) simp_all

lemma receive_loop_valid: "t \<in> set (updates (receive_loop s)) \<Longrightarrow> valid_target t \<and> TargetID t \<noteq> []"
proof (induction s rule: receive_loop.induct)
  case (1 s)
  show ?case
  proof (cases "ReadSlice maxBrokerFrame s")
    case (Line l rest)
    then have "t \<in> set (updates (receive_line l # receive_loop rest))" using "1.prems" by (subst (asm) receive_loop.simps) simp
    then show ?thesis using "1.IH"[OF Line] receive_line_valid[of l t]
      by (cases "receive_line l") auto
  qed (use "1.prems" in \<open>subst (asm) receive_loop.simps, simp\<close>)+
qed

text \<open>The invariant of the target list of a session: distinct, nonempty identifiers and values in range.\<close>

definition drawable_targets :: "Target list \<Rightarrow> bool" where
  "drawable_targets ts \<longleftrightarrow> distinct (map TargetID ts) \<and> (\<forall>t \<in> set ts. valid_target t \<and> TargetID t \<noteq> [])"

lemma drawable_targets_update: "drawable_targets ts \<Longrightarrow> valid_target t \<and> TargetID t \<noteq> [] \<Longrightarrow> drawable_targets (update_target ts t)"
  using update_target_distinct[of ts t] update_target_set[of ts t] by (auto simp: drawable_targets_def)

lemma drawable_targets_updates: "drawable_targets ts \<Longrightarrow> \<forall>t \<in> set us. valid_target t \<and> TargetID t \<noteq> [] \<Longrightarrow> drawable_targets (foldl update_target ts us)"
  by (induction us arbitrary: ts) (auto intro: drawable_targets_update)

lemma drawable_targets_BuildFrame:
  assumes "Validate cfg = Ok ()" "drawable_targets ts"
  shows "\<exists>cmds ms. BuildFrame cfg ts = Ok (cmds, ms)"
proof -
  have "list_all valid_target ts" "distinct (map TargetID ts)" "set (map TargetID ts) \<inter> insert [] {} = {}"
    using assms(2) by (auto simp: drawable_targets_def list_all_iff)
  from frame_targets_defined[OF assms(1) this] show ?thesis using assms(1) by (auto simp: BuildFrame_def)
qed

section \<open>Properties\<close>

text \<open>C24: Strict decoding, done on the token stream, accepts exactly the UTF-8 documents that are one JSON object whose
  keys are the wanted names, each exactly once and none with the value null, and that decode into the struct; no
  key is matched up to case.\<close>

theorem decodeRecord_strict:
  "decodeRecord data names fs r = Ok r' \<longleftrightarrow> utf8_valid data
     \<and> (\<exists>ms. json_parse data = Some (JObj ms) \<and> distinct (map fst ms) \<and> set (map fst ms) = set names
          \<and> JNull \<notin> set (map snd ms) \<and> set_members fs ms r = Some r')"
  unfolding decodeRecord_Ok strict_object_def by (simp add: decode_struct_def conj_assoc)

definition sample_members :: "(string \<times> json) list" where
  "sample_members = [(''targetId'', JStr ''17''), (''latitude'', JNum ''1''), (''longitude'', JNum ''1''),
     (''probability'', JNum ''1''), (''lastSeenAt'', JNum ''7'')]"

definition sample_payload :: string where
  "sample_payload = json_print (JObj sample_members)"

definition sample_frames :: string where
  "sample_frames = ''MSG other x'' @ newline # (msg_prefix @ sample_payload) @ newline # []"

lemma sample_payload_parsed:
  "parseTarget sample_payload
     = Ok \<lparr>TargetID = ''17'', Latitude = Fin 1, Longitude = Fin 1, Probability = Fin 1, LastSeenAt = 7\<rparr>"
proof -
  have i: "Itoa 1 = ''1''" "Itoa 7 = ''7''" by code_simp+
  then have n: "json_number ''1''" "json_number ''7''" using json_number_Itoa by metis+
  have p: "ParseFloat ''1'' = Some (Fin 1)" "map_option sint (ParseInt64 ''7'') = Some 7"
    using ParseFloat_one ParseInt64_sint[of 7] i by simp_all
  have w: "wf_json max_depth (JObj sample_members)"
    by (simp add: sample_members_def max_depth_def n utf8_valid_printable printable_def)
  have j: "json_parse sample_payload = Some (JObj sample_members)"
    using json_parse_print[OF w, of "[]"] by (simp add: sample_payload_def)
  have u: "utf8_valid sample_payload" using json_print_clean[OF w] by (simp add: clean_def sample_payload_def)
  have "strict_object target_names sample_members" by (auto simp: strict_object_def target_names_def sample_members_def)
  moreover have "decode_struct target_fields (JObj sample_members) zero_target
      = Some \<lparr>TargetID = ''17'', Latitude = Fin 1, Longitude = Fin 1, Probability = Fin 1, LastSeenAt = 7\<rparr>"
    using p by (auto simp: sample_members_def decode_struct_def target_fields_def zero_target_def field_for_def
      string_field_def float_field_def int_field_def)
  ultimately have "decodeRecord sample_payload target_names target_fields zero_target
      = Ok \<lparr>TargetID = ''17'', Latitude = Fin 1, Longitude = Fin 1, Probability = Fin 1, LastSeenAt = 7\<rparr>"
    using decodeRecord_Ok[of sample_payload target_names target_fields zero_target] u j by simp
  then show ?thesis by (simp add: parseTarget_def validCoordinates_def f64_le_def)
qed

lemma receive_loop_line:
  "newline \<notin> set l \<Longrightarrow> length l < maxBrokerFrame \<Longrightarrow> receive_loop (l @ newline # rest) = receive_line (l @ [newline]) # receive_loop rest"
  by (subst receive_loop.simps) (simp add: ReadSlice_append)

lemma sample_frames_received:
  "updates (receive_loop sample_frames)
     = [\<lparr>TargetID = ''17'', Latitude = Fin 1, Longitude = Fin 1, Probability = Fin 1, LastSeenAt = 7\<rparr>]"
proof -
  have c: "newline \<notin> set sample_payload" "length sample_payload < 900" by code_simp+
  have e: "receive_loop [] = []" by (simp add: receive_loop.simps ReadSlice_def maxBrokerFrame_def)
  have "receive_line (''MSG other x'' @ [newline]) = IgnoredMessage" by (simp add: receive_line_def msg_prefix_def HasPrefix_def)
  moreover have "receive_line ((msg_prefix @ sample_payload) @ [newline])
      = Updated \<lparr>TargetID = ''17'', Latitude = Fin 1, Longitude = Fin 1, Probability = Fin 1, LastSeenAt = 7\<rparr>"
    by (simp add: receive_line_def HasPrefix_def sample_payload_parsed butlast_append)
  ultimately show ?thesis
    unfolding sample_frames_def using c e
    by (subst receive_loop_line, simp, simp add: maxBrokerFrame_def)
       (subst receive_loop_line, simp_all add: maxBrokerFrame_def msg_prefix_def)
qed

end
