(* ===== verification/Wm_Headless.thy ===== *)
theory Wm_Headless
  imports Wm_Image
begin

text \<open>
  \<^verbatim>\<open>window-manager/backend/backend.go\<close> (the interfaces the server calls, as a record of operations on a
  backend state) and \<^verbatim>\<open>window-manager/backend/headless\<close>, the backend that draws into memory. Every
  operation returns the state with its outcome; an error is its message.
\<close>

section \<open>The backend interface\<close>

record WindowConfig =
  cfg_ID :: string
  cfg_Title :: string
  cfg_Width :: int
  cfg_Height :: int

type_synonym ('b, 'a) backend_call = "'b \<Rightarrow> 'b \<times> (string, 'a) outcome"

text \<open>
  The methods of \<^verbatim>\<open>Backend\<close>, \<^verbatim>\<open>Window\<close> and \<^verbatim>\<open>DrawingWindow\<close>. The state includes the window the backend
  created last, which is the one the server holds; \<open>op_drawing\<close> is the type assertion to
  \<^verbatim>\<open>DrawingWindow\<close>.
\<close>

record 'b backend_ops =
  op_create :: "WindowConfig \<Rightarrow> ('b, unit) backend_call"
  op_show :: "('b, unit) backend_call"
  op_close :: "('b, unit) backend_call"
  op_poll :: "('b, string list) backend_call"
  op_drawing :: "'b \<Rightarrow> bool"
  op_begin :: "Color \<Rightarrow> ('b, unit) backend_call"
  op_image :: "string \<Rightarrow> int \<Rightarrow> int \<Rightarrow> int \<Rightarrow> int \<Rightarrow> ('b, unit) backend_call"
  op_circle :: "int \<Rightarrow> int \<Rightarrow> int \<Rightarrow> Color \<Rightarrow> ('b, unit) backend_call"
  op_present :: "('b, unit) backend_call"

section \<open>The headless backend\<close>

record window =
  visible :: bool
  closed :: bool
  back_buf :: image
  front_buf :: image

text \<open>The backend: the window it created last, if any.\<close>

type_synonym Backend = "window option"

definition ErrWindowExists :: string where "ErrWindowExists = ''a window already exists''"
definition ErrWindowClosed :: string where "ErrWindowClosed = ''window is closed''"

definition Create :: "WindowConfig \<Rightarrow> (Backend, unit) backend_call" where
  "Create cfg b =
     (if (case b of Some w \<Rightarrow> \<not> closed w | None \<Rightarrow> False) then (b, Err ErrWindowExists)
      else let wd = (if cfg_Width cfg \<le> 0 then 960 else cfg_Width cfg);
               ht = (if cfg_Height cfg \<le> 0 then 640 else cfg_Height cfg)
           in case NewRGBA wd ht of
                Panic \<Rightarrow> (b, Panic)
              | Err e \<Rightarrow> (b, Err e)
              | Ok img \<Rightarrow> (Some \<lparr>visible = False, closed = False, back_buf = img, front_buf = img\<rparr>, Ok ()))"

text \<open>A method call on a nil window would panic; the server does not make one.\<close>

definition on_window :: "(window \<Rightarrow> window \<times> (string, 'a) outcome) \<Rightarrow> (Backend, 'a) backend_call" where
  "on_window f b = (case b of None \<Rightarrow> (None, Panic) | Some w \<Rightarrow> let (w', r) = f w in (Some w', r))"

definition Show :: "window \<Rightarrow> window \<times> (string, unit) outcome" where
  "Show w = (if closed w then (w, Err ErrWindowClosed) else (w\<lparr>visible := True\<rparr>, Ok ()))"

definition Close :: "window \<Rightarrow> window \<times> (string, unit) outcome" where
  "Close w = (w\<lparr>closed := True, visible := False\<rparr>, Ok ())"

definition PollEvents :: "window \<Rightarrow> window \<times> (string, string list) outcome" where
  "PollEvents w = (w, Ok [])"

definition BeginFrame :: "Color \<Rightarrow> window \<Rightarrow> window \<times> (string, unit) outcome" where
  "BeginFrame c w = (if closed w then (w, Err ErrWindowClosed) else (w\<lparr>back_buf := fill (back_buf w) c\<rparr>, Ok ()))"

text \<open>
  A decoded picture: its bounds and the 16-bit colour at a point. Opening and decoding a file is an
  argument: the message of the error, or the picture.
\<close>

record picture =
  pic_minX :: int
  pic_minY :: int
  pic_dx :: int
  pic_dy :: int
  pic_at :: "int \<Rightarrow> int \<Rightarrow> rgba16"

definition quot :: "int \<Rightarrow> int \<Rightarrow> int" where
  "quot a b = sgn a * sgn b * (\<bar>a\<bar> div \<bar>b\<bar>)"

definition DrawImage :: "(string \<Rightarrow> (string, picture) outcome) \<Rightarrow> string \<Rightarrow> int \<Rightarrow> int \<Rightarrow> int \<Rightarrow> int
    \<Rightarrow> window \<Rightarrow> window \<times> (string, unit) outcome" where
  "DrawImage files path x y width height w =
     (if closed w then (w, Err ErrWindowClosed)
      else if path = [] \<or> width \<le> 0 \<or> height \<le> 0 then (w, Err ''invalid image parameters'')
      else case files path of
             Err e \<Rightarrow> (w, Err e)
           | Panic \<Rightarrow> (w, Panic)
           | Ok src \<Rightarrow>
               let x1 = wrap64 (x + width); y1 = wrap64 (y + height);
                   minX = max (min x x1) 0; maxX = min (max x x1) (Dx (back_buf w));
                   minY = max (min y y1) 0; maxY = min (max y y1) (Dy (back_buf w))
               in if maxX \<le> minX \<or> maxY \<le> minY then (w, Ok ())
                  else (w\<lparr>back_buf := for_pixels minY (maxY - 1) minX (maxX - 1)
                         (\<lambda>px py img.
                            let sx = quot (wrap64 (wrap64 (px - x) * pic_dx src)) width;
                                sy = quot (wrap64 (wrap64 (py - y) * pic_dy src)) height
                            in blend img px py (pic_at src (wrap64 (pic_minX src + sx)) (wrap64 (pic_minY src + sy))))
                         (back_buf w)\<rparr>, Ok ()))"

definition DrawCircle :: "int \<Rightarrow> int \<Rightarrow> int \<Rightarrow> Color \<Rightarrow> window \<Rightarrow> window \<times> (string, unit) outcome" where
  "DrawCircle x y radius c w =
     (if closed w then (w, Err ErrWindowClosed)
      else if radius \<le> 0 then (w, Err ''radius must be positive'')
      else let r2 = wrap64 (radius * radius);
               minX = max (wrap64 (x - radius)) 0; maxX = min (wrap64 (x + radius)) (Dx (back_buf w) - 1);
               minY = max (wrap64 (y - radius)) 0; maxY = min (wrap64 (y + radius)) (Dy (back_buf w) - 1)
           in (w\<lparr>back_buf := for_pixels minY maxY minX maxX
                  (\<lambda>px py img.
                     let dx = wrap64 (px - x); dy = wrap64 (py - y)
                     in if wrap64 (wrap64 (dx * dx) + wrap64 (dy * dy)) \<le> r2
                        then blend img px py (NRGBA_RGBA c) else img)
                  (back_buf w)\<rparr>, Ok ()))"

text \<open>\<^verbatim>\<open>copy(front.Pix, back.Pix)\<close> copies as many pixels as both have.\<close>

definition Present :: "window \<Rightarrow> window \<times> (string, unit) outcome" where
  "Present w =
     (if closed w then (w, Err ErrWindowClosed)
      else let n = min (length (Pix (front_buf w))) (length (Pix (back_buf w)))
           in (w\<lparr>front_buf := (front_buf w)\<lparr>Pix := take n (Pix (back_buf w)) @ drop n (Pix (front_buf w))\<rparr>\<rparr>, Ok ()))"

definition headless_ops :: "(string \<Rightarrow> (string, picture) outcome) \<Rightarrow> Backend backend_ops" where
  "headless_ops files = \<lparr>op_create = Create, op_show = on_window Show, op_close = on_window Close,
     op_poll = on_window PollEvents, op_drawing = (\<lambda>_. True), op_begin = (\<lambda>c. on_window (BeginFrame c)),
     op_image = (\<lambda>p x y wd ht. on_window (DrawImage files p x y wd ht)),
     op_circle = (\<lambda>x y r c. on_window (DrawCircle x y r c)), op_present = on_window Present\<rparr>"

section \<open>The drawing loops\<close>

interpretation circle_loop: pixel_loop
  "\<lambda>px py img. if P px py then blend img px py (NRGBA_RGBA c) else img"
  "\<lambda>px py old. if P px py then blend_pixel (NRGBA_RGBA c) old else old" for P c
  by unfold_locales (auto simp: blend_at blend_wf NRGBA_valid)

definition valid_picture :: "picture \<Rightarrow> bool" where
  "valid_picture src \<longleftrightarrow> (\<forall>x y. valid16 (pic_at src x y))"

lemma image_loop:
  assumes "valid_picture src"
  shows "pixel_loop (\<lambda>px py img. blend img px py (pic_at src (f px py) (g px py)))
     (\<lambda>px py old. blend_pixel (pic_at src (f px py) (g px py)) old)"
  using assms by unfold_locales (auto simp: valid_picture_def blend_at blend_wf)

text \<open>
  A window is well-formed when its two buffers are, and have one size. Every operation of the
  headless backend keeps that, for any arguments, if the pictures it draws have valid colours.
\<close>

definition wf_window :: "window \<Rightarrow> bool" where
  "wf_window w \<longleftrightarrow> wf_image (back_buf w) \<and> wf_image (front_buf w) \<and> Dx (front_buf w) = Dx (back_buf w) \<and> Dy (front_buf w) = Dy (back_buf w)"

definition valid_files :: "(string \<Rightarrow> (string, picture) outcome) \<Rightarrow> bool" where
  "valid_files files \<longleftrightarrow> (\<forall>path src. files path = Ok src \<longrightarrow> valid_picture src)"

lemma Create_wf: "Create cfg b = (Some w, Ok ()) \<Longrightarrow> wf_window w \<and> \<not> closed w"
  by (auto simp: Create_def wf_window_def Let_def split: outcome.splits if_splits dest!: NewRGBA_wf)

lemma Show_wf: "wf_window w \<Longrightarrow> wf_window (fst (Show w))"
  and Close_wf: "wf_window w \<Longrightarrow> wf_window (fst (Close w))"
  by (auto simp: Show_def Close_def wf_window_def)

lemma BeginFrame_wf: "wf_window w \<Longrightarrow> wf_window (fst (BeginFrame c w))"
  by (auto simp: BeginFrame_def wf_window_def fill_wf fill_dims)

lemma DrawCircle_wf: "wf_window w \<Longrightarrow> wf_window (fst (DrawCircle x y r c w))"
  by (auto simp: DrawCircle_def wf_window_def Let_def circle_loop.for_pixels_wf circle_loop.for_pixels_dims)

lemma DrawImage_wf: "valid_files files \<Longrightarrow> wf_window w \<Longrightarrow> wf_window (fst (DrawImage files p x y wd ht w))"
  by (auto simp: DrawImage_def wf_window_def valid_files_def Let_def pixel_loop.for_pixels_wf[OF image_loop]
      pixel_loop.for_pixels_dims[OF image_loop] split: outcome.split)

lemma Present_eq:
  assumes "wf_window w" "\<not> closed w"
  shows "Present w = (w\<lparr>front_buf := back_buf w\<rparr>, Ok ())"
proof -
  have "length (Pix (front_buf w)) = length (Pix (back_buf w))" using assms by (simp add: wf_window_def wf_image_def)
  moreover have "(front_buf w)\<lparr>Pix := Pix (back_buf w)\<rparr> = back_buf w" using assms by (simp add: wf_window_def)
  ultimately show ?thesis using assms by (simp add: Present_def)
qed

lemma Present_wf: "wf_window w \<Longrightarrow> wf_window (fst (Present w))"
proof (cases "closed w")
  case True
  assume "wf_window w"
  then show ?thesis using True by (simp add: Present_def)
next
  case False
  assume "wf_window w"
  then show ?thesis using Present_eq[OF _ False] by (simp add: wf_window_def)
qed

section \<open>What is drawn\<close>

text \<open>Coordinates for which no intermediate result of the drawing code overflows.\<close>

definition small :: "int \<Rightarrow> bool" where
  "small n \<longleftrightarrow> - (2 ^ 30) < n \<and> n < 2 ^ 30"

lemma small_sq:
  assumes "\<bar>a\<bar> < 2 ^ 31"
  shows "wrap64 (a * a) = a * a" "a * a < 2 ^ 62" "0 \<le> a * a"
proof -
  have "\<bar>a\<bar> * \<bar>a\<bar> < 2 ^ 31 * 2 ^ 31" using assms by (intro mult_strict_mono') auto
  then show b: "a * a < 2 ^ 62" by (simp add: abs_mult[symmetric])
  show z: "0 \<le> a * a" by simp
  have "a * a < 2 ^ 63" using b by simp
  with z show "wrap64 (a * a) = a * a" by (rule wrap64_nonneg)
qed

lemma in_disc_box:
  assumes "a * a + b * b \<le> r * r" "0 < (r::int)"
  shows "- r \<le> a \<and> a \<le> r"
proof -
  have "0 \<le> b * b" by simp
  then have "a\<^sup>2 \<le> r\<^sup>2" using assms(1) unfolding power2_eq_square by linarith
  then have "\<bar>a\<bar> \<le> r" using assms(2) by (simp add: abs_le_square_iff[symmetric])
  then show ?thesis by linarith
qed

lemma disc_test:
  assumes "small x" "small y" "small r" "small px" "small py"
  shows "wrap64 (wrap64 (wrap64 (px - x) * wrap64 (px - x)) + wrap64 (wrap64 (py - y) * wrap64 (py - y))) \<le> wrap64 (r * r)
     \<longleftrightarrow> (px - x) * (px - x) + (py - y) * (py - y) \<le> r * r"
proof -
  have d: "\<bar>px - x\<bar> < 2 ^ 31" "\<bar>py - y\<bar> < 2 ^ 31" "\<bar>r\<bar> < 2 ^ 31" using assms by (auto simp: small_def)
  have w: "wrap64 (px - x) = px - x" "wrap64 (py - y) = py - y" using d by (auto intro!: wrap64_id)
  note sq = small_sq[OF d(1)] small_sq[OF d(2)] small_sq[OF d(3)]
  have "(px - x) * (px - x) + (py - y) * (py - y) < 2 ^ 62 + 2 ^ 62" using sq(2,5) by (rule add_strict_mono)
  then have "wrap64 ((px - x) * (px - x) + (py - y) * (py - y)) = (px - x) * (px - x) + (py - y) * (py - y)"
    by (intro wrap64_nonneg) simp_all
  then show ?thesis using sq w by simp
qed

lemma wrap64_small: "small a \<Longrightarrow> small b \<Longrightarrow> wrap64 (a + b) = a + b" "small a \<Longrightarrow> small b \<Longrightarrow> wrap64 (a - b) = a - b"
  by (auto simp: small_def intro!: wrap64_id)

lemma circle_at:
  assumes w: "wf_window w" "\<not> closed w" and r: "0 < r"
    and s: "small x" "small y" "small r" "small (Dx (back_buf w))" "small (Dy (back_buf w))"
  shows "RGBAAt (back_buf (fst (DrawCircle x y r c w))) px py =
     (if in_bounds (back_buf w) px py \<and> (px - x) * (px - x) + (py - y) * (py - y) \<le> r * r
      then blend_pixel (NRGBA_RGBA c) (RGBAAt (back_buf w) px py) else RGBAAt (back_buf w) px py)"
proof -
  have im: "wf_image (back_buf w)" using w by (simp add: wf_window_def)
  have b: "wrap64 (x - r) = x - r" "wrap64 (x + r) = x + r" "wrap64 (y - r) = y - r" "wrap64 (y + r) = y + r"
    using s by (simp_all add: wrap64_small)
  show ?thesis
  proof (cases "in_bounds (back_buf w) px py")
    case True
    then have sm: "small px" "small py" using s(4,5) by (auto simp: small_def in_bounds_def)
    have box: "x - r \<le> px \<and> px \<le> x + r \<and> y - r \<le> py \<and> py \<le> y + r"
      if "(px - x) * (px - x) + (py - y) * (py - y) \<le> r * r"
      using in_disc_box[of "px - x" "py - y" r] in_disc_box[of "py - y" "px - x" r] that r by (simp add: add.commute)
    show ?thesis
      using w r True box disc_test[OF s(1-3) sm]
      by (auto simp: DrawCircle_def Let_def b circle_loop.for_pixels_at[OF im]) (auto simp: in_bounds_def)
  next
    case False
    then show ?thesis using w r by (simp add: DrawCircle_def Let_def circle_loop.for_pixels_at[OF im])
  qed
qed

lemma circle_front: "front_buf (fst (DrawCircle x y r c w)) = front_buf w"
  by (simp add: DrawCircle_def Let_def)

lemma opaque_colour: "c_a c = 255 \<Longrightarrow> to_RGBA (NRGBA_RGBA c) = \<lparr>p_r = c_r c, p_g = c_g c, p_b = c_b c, p_a = 255\<rparr>"
proof -
  assume a: "c_a c = 255"
  have "u32 (widen x * 255) div 255 = widen x" for x using widen_le[of x] by simp
  then show ?thesis using a by (simp add: NRGBA_RGBA_def to_RGBA_def Let_def)
qed

lemma blend_opaque: "c_a c = 255 \<Longrightarrow> premultiplied old \<Longrightarrow> blend_pixel (NRGBA_RGBA c) old = to_RGBA (NRGBA_RGBA c)"
proof -
  assume a: "c_a c = 255" and p: "premultiplied old"
  obtain sr sg sb sa where q: "NRGBA_RGBA c = (sr, sg, sb, sa)" by (cases "NRGBA_RGBA c")
  have sa: "sa = 65535" using q a by (simp add: NRGBA_RGBA_def Let_def widen_def)
  have v: "sr \<le> sa" "sg \<le> sa" "sb \<le> sa" using NRGBA_valid[of c] q by auto
  have "blend_channel s (widen d) sa = s" if "s \<le> sa" for s d
    using blend_channel_bound(1)[OF that widen_le, of d] sa by simp
  then show ?thesis using v sa by (simp add: blend_pixel_def q RGBA_RGBA_def)
qed

lemma blend_opaque_stays:
  assumes "valid16 src" "p_a old = 255"
  shows "p_a (blend_pixel src old) = 255"
proof -
  obtain sr sg sb sa where src: "src = (sr, sg, sb, sa)" by (cases src)
  have "widen 255 = 65535" by (simp add: widen_def)
  then have "blend_channel sa (widen (p_a old)) sa = 65535"
    using blend_channel_bound(1)[of sa sa 65535] assms src by simp
  then show ?thesis using assms src by (simp add: blend_pixel_def RGBA_RGBA_def to_RGBA_def byte_def)
qed

lemma quot_nonneg: "0 \<le> a \<Longrightarrow> 0 < b \<Longrightarrow> quot a b = a div b"
  by (cases "a = 0") (simp_all add: quot_def)

lemma sample_coordinate:
  assumes "small m" "small d" "0 \<le> d" "small x" "small n" "0 < n" "x \<le> px" "px < x + n"
  shows "wrap64 (m + quot (wrap64 (wrap64 (px - x) * d)) n) = m + (px - x) * d div n"
    and "0 < d \<Longrightarrow> 0 \<le> (px - x) * d div n \<and> (px - x) * d div n < d"
proof -
  have p: "0 \<le> px - x" "px - x < n" "n < 2 ^ 30" "d < 2 ^ 30" using assms by (auto simp: small_def)
  have w: "wrap64 (px - x) = px - x" using p by (intro wrap64_nonneg) simp_all
  have le: "(px - x) * d \<le> n * d" using p assms(3) by (intro mult_right_mono) auto
  also have "\<dots> \<le> 2 ^ 30 * 2 ^ 30" using p assms(3,6) by (intro mult_mono) auto
  finally have w2: "wrap64 ((px - x) * d) = (px - x) * d" using p(1) assms(3) by (intro wrap64_nonneg) simp_all
  have q: "0 \<le> (px - x) * d div n" using p(1) assms(3,6) by (simp add: pos_imp_zdiv_nonneg_iff)
  have q2: "(px - x) * d div n \<le> d" using zdiv_mono1[OF le assms(6)] assms(6) by simp
  have "wrap64 (m + (px - x) * d div n) = m + (px - x) * d div n"
    using q q2 p(4) assms(1) by (intro wrap64_id) (auto simp: small_def)
  then show "wrap64 (m + quot (wrap64 (wrap64 (px - x) * d)) n) = m + (px - x) * d div n"
    using p(1) assms(3,6) by (simp add: w w2 quot_nonneg)
  assume d: "0 < d"
  have "(px - x) * d < n * d" using p d by simp
  moreover have "(px - x) * d div n * n \<le> (px - x) * d"
    using pos_mod_sign[OF assms(6), of "(px - x) * d"] div_mult_mod_eq[of "(px - x) * d" n] by linarith
  ultimately have "(px - x) * d div n * n < d * n" by (simp add: mult.commute)
  then have "(px - x) * d div n < d" using assms(6) by (simp only: mult_less_cancel_right)
  then show "0 \<le> (px - x) * d div n \<and> (px - x) * d div n < d" using q by simp
qed

lemma image_at:
  assumes w: "wf_window w" "\<not> closed w" and f: "path \<noteq> []" "files path = Ok src" "valid_picture src"
    and p: "0 < wd" "0 < ht" "0 \<le> pic_dx src" "0 \<le> pic_dy src"
    and s: "small x" "small y" "small wd" "small ht" "small (pic_dx src)" "small (pic_dy src)"
      "small (pic_minX src)" "small (pic_minY src)"
  shows "RGBAAt (back_buf (fst (DrawImage files path x y wd ht w))) px py =
     (if in_bounds (back_buf w) px py \<and> x \<le> px \<and> px < x + wd \<and> y \<le> py \<and> py < y + ht
      then blend_pixel (pic_at src (pic_minX src + (px - x) * pic_dx src div wd)
             (pic_minY src + (py - y) * pic_dy src div ht)) (RGBAAt (back_buf w) px py)
      else RGBAAt (back_buf w) px py)"
proof -
  have im: "wf_image (back_buf w)" using w by (simp add: wf_window_def)
  have b: "wrap64 (x + wd) = x + wd" "wrap64 (y + ht) = y + ht" using s by (simp_all add: wrap64_small)
  note at = pixel_loop.for_pixels_at[OF image_loop[OF f(3)] im]
  show ?thesis
  proof (cases "in_bounds (back_buf w) px py \<and> x \<le> px \<and> px < x + wd \<and> y \<le> py \<and> py < y + ht")
    case True
    have c: "wrap64 (pic_minX src + quot (wrap64 (wrap64 (px - x) * pic_dx src)) wd) = pic_minX src + (px - x) * pic_dx src div wd"
      "wrap64 (pic_minY src + quot (wrap64 (wrap64 (py - y) * pic_dy src)) ht) = pic_minY src + (py - y) * pic_dy src div ht"
      using True s p by (auto intro!: sample_coordinate(1))
    show ?thesis using True w f p by (simp add: DrawImage_def Let_def b at c) (auto simp: in_bounds_def)
  next
    case False
    then show ?thesis using w f p by (auto simp: DrawImage_def Let_def b at)
  qed
qed

section \<open>Properties\<close>

text \<open>\<open>DrawCircle\<close> blends the colour into exactly the pixels of the window inside the disc, leaves
  every other pixel and the visible buffer alone, and succeeds, for all coordinates, radii and
  window sizes below 2 to the 30.\<close>

theorem DrawCircle_disc:
  assumes "wf_window w" "\<not> closed w" "0 < r" "small x" "small y" "small r"
    "small (Dx (back_buf w))" "small (Dy (back_buf w))"
  shows "snd (DrawCircle x y r c w) = Ok () \<and> front_buf (fst (DrawCircle x y r c w)) = front_buf w
     \<and> RGBAAt (back_buf (fst (DrawCircle x y r c w))) px py =
       (if in_bounds (back_buf w) px py \<and> (px - x) * (px - x) + (py - y) * (py - y) \<le> r * r
        then blend_pixel (NRGBA_RGBA c) (RGBAAt (back_buf w) px py) else RGBAAt (back_buf w) px py)"
  using circle_at[OF assms] assms(2,3) by (simp add: circle_front) (simp add: DrawCircle_def Let_def)

definition sample_image :: image where
  "sample_image = \<lparr>Dx = 2, Dy = 1, Pix = [zero_RGBA, zero_RGBA]\<rparr>"

definition sample_window :: window where
  "sample_window = \<lparr>visible = True, closed = False, back_buf = sample_image, front_buf = sample_image\<rparr>"

definition white :: Color where
  "white = \<lparr>c_r = 255, c_g = 255, c_b = 255, c_a = 255\<rparr>"

lemma sample_window_wf: "wf_window sample_window" "\<not> closed sample_window"
  by (simp_all add: sample_window_def sample_image_def wf_window_def wf_image_def)

lemma DrawCircle_disc_witness:
  "RGBAAt (back_buf (fst (DrawCircle 0 0 1 white sample_window))) 1 0 = \<lparr>p_r = 255, p_g = 255, p_b = 255, p_a = 255\<rparr>"
proof -
  have "RGBAAt (back_buf (fst (DrawCircle 0 0 1 white sample_window))) 1 0 =
      blend_pixel (NRGBA_RGBA white) (RGBAAt (back_buf sample_window) 1 0)"
    using DrawCircle_disc[OF sample_window_wf, of 1 0 0 white 1 0]
    by (simp add: small_def sample_window_def sample_image_def in_bounds_def)
  then show ?thesis
    using blend_opaque[of white] opaque_colour[of white] RGBAAt_premultiplied sample_window_wf(1)
    by (simp add: white_def wf_window_def)
qed

text \<open>\<open>DrawImage\<close> scales the picture into its rectangle: exactly the pixels of the rectangle that lie in
  the window are blended with the picture's colour at the proportional place, and that place is
  inside the picture.\<close>

theorem DrawImage_scales:
  fixes px py :: int
  assumes "wf_window w" "\<not> closed w" "path \<noteq> []" "files path = Ok src" "valid_picture src"
    "0 < wd" "0 < ht" "0 < pic_dx src" "0 < pic_dy src" "small x" "small y" "small wd" "small ht"
    "small (pic_dx src)" "small (pic_dy src)" "small (pic_minX src)" "small (pic_minY src)"
  defines "sx \<equiv> (px - x) * pic_dx src div wd" and "sy \<equiv> (py - y) * pic_dy src div ht"
  shows "RGBAAt (back_buf (fst (DrawImage files path x y wd ht w))) px py =
     (if in_bounds (back_buf w) px py \<and> x \<le> px \<and> px < x + wd \<and> y \<le> py \<and> py < y + ht
      then blend_pixel (pic_at src (pic_minX src + sx) (pic_minY src + sy)) (RGBAAt (back_buf w) px py)
      else RGBAAt (back_buf w) px py)
     \<and> (x \<le> px \<and> px < x + wd \<longrightarrow> 0 \<le> sx \<and> sx < pic_dx src) \<and> (y \<le> py \<and> py < y + ht \<longrightarrow> 0 \<le> sy \<and> sy < pic_dy src)"
proof (intro conjI impI)
  show "RGBAAt (back_buf (fst (DrawImage files path x y wd ht w))) px py =
     (if in_bounds (back_buf w) px py \<and> x \<le> px \<and> px < x + wd \<and> y \<le> py \<and> py < y + ht
      then blend_pixel (pic_at src (pic_minX src + sx) (pic_minY src + sy)) (RGBAAt (back_buf w) px py)
      else RGBAAt (back_buf w) px py)"
    unfolding sx_def sy_def using assms(8,9) by (intro image_at assms) auto
  show "0 \<le> sx" "sx < pic_dx src" if "x \<le> px \<and> px < x + wd"
    using sample_coordinate(2)[of "pic_minX src" "pic_dx src" x wd px] assms(6-17) that by (auto simp: sx_def)
  show "0 \<le> sy" "sy < pic_dy src" if "y \<le> py \<and> py < y + ht"
    using sample_coordinate(2)[of "pic_minY src" "pic_dy src" y ht py] assms(6-17) that by (auto simp: sy_def)
qed

definition sample_picture :: picture where
  "sample_picture = \<lparr>pic_minX = 0, pic_minY = 0, pic_dx = 1, pic_dy = 1, pic_at = (\<lambda>x y. (65535, 0, 0, 65535))\<rparr>"

lemma DrawImage_scales_witness:
  "RGBAAt (back_buf (fst (DrawImage (\<lambda>_. Ok sample_picture) ''p'' 0 0 1 1 sample_window))) 0 0 =
     blend_pixel (65535, 0, 0, 65535) zero_RGBA"
  using DrawImage_scales[OF sample_window_wf, of "''p''" "\<lambda>_. Ok sample_picture" sample_picture 1 1 0 0 0 0]
  by (simp add: sample_picture_def valid_picture_def small_def sample_window_def sample_image_def in_bounds_def RGBAAt_def pix_index_def)

text \<open>\<open>BeginFrame\<close> does not touch the visible buffer; a frame begun with an opaque colour and presented
  shows that colour at every pixel.\<close>

theorem frame_presented:
  assumes "wf_window w" "\<not> closed w" "c_a c = 255"
  shows "front_buf (fst (BeginFrame c w)) = front_buf w
     \<and> snd (Present (fst (BeginFrame c w))) = Ok ()
     \<and> (\<forall>x y. in_bounds (back_buf w) x y \<longrightarrow>
          RGBAAt (front_buf (fst (Present (fst (BeginFrame c w))))) x y = \<lparr>p_r = c_r c, p_g = c_g c, p_b = c_b c, p_a = 255\<rparr>)"
proof -
  have o: "\<not> closed (fst (BeginFrame c w))" using assms(2) by (simp add: BeginFrame_def)
  have im: "wf_image (back_buf w)" using assms(1) by (simp add: wf_window_def)
  show ?thesis using Present_eq[OF BeginFrame_wf[OF assms(1)] o] assms(2) fill_at[OF im] opaque_colour[OF assms(3)]
    by (simp add: BeginFrame_def)
qed

lemma frame_presented_witness:
  "RGBAAt (front_buf (fst (Present (fst (BeginFrame white sample_window))))) 1 0 = \<lparr>p_r = 255, p_g = 255, p_b = 255, p_a = 255\<rparr>"
  using frame_presented[OF sample_window_wf, of white]
  by (simp add: white_def sample_window_def sample_image_def in_bounds_def)

text \<open>Blending stays within its 8-bit channels and keeps pixels premultiplied: for a valid source colour,
  the result never exceeds its alpha; an opaque pixel stays opaque; an opaque colour replaces the
  pixel; a fully transparent one leaves it.\<close>

theorem blend_pixel_sound:
  assumes "premultiplied old"
  shows "premultiplied (blend_pixel (NRGBA_RGBA c) old)
     \<and> (p_a old = 255 \<longrightarrow> p_a (blend_pixel (NRGBA_RGBA c) old) = 255)
     \<and> (c_a c = 255 \<longrightarrow> blend_pixel (NRGBA_RGBA c) old = \<lparr>p_r = c_r c, p_g = c_g c, p_b = c_b c, p_a = 255\<rparr>)
     \<and> (c_a c = 0 \<longrightarrow> blend_pixel (NRGBA_RGBA c) old = old)"
  using blend_pixel_premultiplied[OF NRGBA_valid assms] blend_opaque_stays[OF NRGBA_valid]
    blend_opaque[OF _ assms] opaque_colour
  by (auto simp: blend_pixel_def NRGBA_RGBA_def widen_def Let_def)

lemma blend_pixel_sound_witness:
  "premultiplied zero_RGBA \<and> blend_pixel (NRGBA_RGBA white) zero_RGBA = \<lparr>p_r = 255, p_g = 255, p_b = 255, p_a = 255\<rparr>"
  using blend_pixel_sound[OF zero_RGBA_premultiplied, of white] by (simp add: white_def)

text \<open>The square of a large radius wraps around: a circle of radius 2 to the 32 around the pixel
  (0, 0) does not reach its neighbour.\<close>

theorem DrawCircle_overflow:
  "RGBAAt (back_buf (fst (DrawCircle 0 0 (2 ^ 32) white sample_window))) 1 0 = zero_RGBA"
proof -
  have "wrap64 (2 ^ 32 * 2 ^ 32) = 0" by (simp add: wrap64_def)
  moreover have "wrap64 (wrap64 (wrap64 1 * wrap64 1) + wrap64 (wrap64 0 * wrap64 0)) = 1" by (simp add: wrap64_def)
  ultimately show ?thesis using sample_window_wf
    by (simp add: DrawCircle_def Let_def circle_loop.for_pixels_at wf_window_def)
       (simp add: sample_window_def sample_image_def RGBAAt_def in_bounds_def pix_index_def)
qed

end
