(* ===== verification/Wm_Server.thy ===== *)
theory Wm_Server
  imports Wm_Headless
begin

text \<open>
  \<^verbatim>\<open>window-manager/server/server.go\<close> over \<^verbatim>\<open>window-manager/protocol/protocol.go\<close>. The server is generic in
  its backend, a record of operations. Its mutable state is whether \<^verbatim>\<open>s.window\<close> is nil, \<^verbatim>\<open>s.windowID\<close>
  and whether \<^verbatim>\<open>s.stop\<close> is closed; requests are handled one at a time on the event loop. A backend call
  that panics takes the server down: there is no response then.
\<close>

section \<open>Requests and responses\<close>

record Request =
  Command :: string
  WindowID :: string
  Title :: string
  Width :: int
  Height :: int
  ImagePath :: string
  X :: "int option"
  Y :: "int option"
  Radius :: int
  req_Color :: "Color option"

record Response =
  resp_OK :: bool
  resp_Message :: string
  resp_Event :: string
  resp_WindowID :: string

definition reply :: "bool \<Rightarrow> string \<Rightarrow> Response" where
  "reply ok message = \<lparr>resp_OK = ok, resp_Message = message, resp_Event = [], resp_WindowID = []\<rparr>"

record Server =
  has_window :: bool
  windowID :: string
  stopped :: bool

definition new_Server :: Server where
  "new_Server = \<lparr>has_window = False, windowID = [], stopped = False\<rparr>"

type_synonym 'b handled = "Server \<times> 'b \<times> Response option"

definition no_window :: string where
  "no_window = ''no window; send CREATE first''"

text \<open>The answer to a backend call: its message, the error's message, or none after a panic.\<close>

definition answer :: "string \<Rightarrow> (string, 'a) outcome \<Rightarrow> Response option" where
  "answer message r = (case r of Ok _ \<Rightarrow> Some (reply True message) | Err e \<Rightarrow> Some (reply False e) | Panic \<Rightarrow> None)"

section \<open>The commands\<close>

definition create_config :: "Request \<Rightarrow> WindowConfig" where
  "create_config req =
     \<lparr>cfg_ID = (if WindowID req = [] then ''map'' else WindowID req),
      cfg_Title = (if Title req = [] then ''Tactical Map'' else Title req),
      cfg_Width = (if Width req = 0 then 960 else Width req),
      cfg_Height = (if Height req = 0 then 640 else Height req)\<rparr>"

definition handle_create :: "'b backend_ops \<Rightarrow> Request \<Rightarrow> Server \<Rightarrow> 'b \<Rightarrow> 'b handled" where
  "handle_create ops req s b =
     (if has_window s then (s, b, Some (reply False ''window already exists''))
      else let cfg = create_config req; (b', r) = op_create ops cfg b
           in case r of
                Err e \<Rightarrow> (s, b', Some (reply False e))
              | Panic \<Rightarrow> (s, b', None)
              | Ok _ \<Rightarrow> (s\<lparr>has_window := True, windowID := cfg_ID cfg\<rparr>, b',
                         Some ((reply True ''created'')\<lparr>resp_WindowID := cfg_ID cfg\<rparr>)))"

definition handle_show :: "'b backend_ops \<Rightarrow> Server \<Rightarrow> 'b \<Rightarrow> 'b handled" where
  "handle_show ops s b =
     (if \<not> has_window s then (s, b, Some (reply False no_window))
      else let (b', r) = op_show ops b in (s, b', answer ''shown'' r))"

definition forget_window :: "Server \<Rightarrow> Server" where
  "forget_window s = s\<lparr>has_window := False, windowID := []\<rparr>"

definition handle_close :: "'b backend_ops \<Rightarrow> Server \<Rightarrow> 'b \<Rightarrow> 'b handled" where
  "handle_close ops s b =
     (if \<not> has_window s then (s, b, Some (reply False no_window))
      else let (b', r) = op_close ops b
           in case r of Panic \<Rightarrow> (s, b', None) | _ \<Rightarrow> (forget_window s, b', answer ''closed'' r))"

text \<open>QUIT stops the server only after its response was written; \<open>write_ok\<close> says whether it was.\<close>

definition handle_quit :: "'b backend_ops \<Rightarrow> bool \<Rightarrow> Server \<Rightarrow> 'b \<Rightarrow> 'b handled" where
  "handle_quit ops write_ok s b =
     (let (b', r) = (if has_window s then op_close ops b else (b, Ok ()));
          s1 = (if has_window s then forget_window s else s)
      in case r of
           Panic \<Rightarrow> (s, b', None)
         | Err e \<Rightarrow> (s1, b', Some (reply False e))
         | Ok _ \<Rightarrow> (if write_ok then s1\<lparr>stopped := True\<rparr> else s1, b', Some (reply True ''stopping'')))"

definition handle_begin_frame :: "'b backend_ops \<Rightarrow> Request \<Rightarrow> Server \<Rightarrow> 'b \<Rightarrow> 'b handled" where
  "handle_begin_frame ops req s b =
     (if \<not> has_window s then (s, b, Some (reply False no_window))
      else if \<not> op_drawing ops b then (s, b, Some (reply False ''drawing is not supported''))
      else case req_Color req of
             None \<Rightarrow> (s, b, Some (reply False ''color is required''))
           | Some c \<Rightarrow> let (b', r) = op_begin ops c b in (s, b', answer ''frame started'' r))"

definition handle_draw_image :: "'b backend_ops \<Rightarrow> Request \<Rightarrow> Server \<Rightarrow> 'b \<Rightarrow> 'b handled" where
  "handle_draw_image ops req s b =
     (if \<not> has_window s then (s, b, Some (reply False no_window))
      else if \<not> op_drawing ops b then (s, b, Some (reply False ''drawing is not supported''))
      else if ImagePath req = [] \<or> Width req \<le> 0 \<or> Height req \<le> 0 \<or> X req = None \<or> Y req = None
      then (s, b, Some (reply False ''image_path, x, y, width and height are required''))
      else let (b', r) = op_image ops (ImagePath req) (the (X req)) (the (Y req)) (Width req) (Height req) b
           in (s, b', answer ''image drawn'' r))"

definition handle_draw_circle :: "'b backend_ops \<Rightarrow> Request \<Rightarrow> Server \<Rightarrow> 'b \<Rightarrow> 'b handled" where
  "handle_draw_circle ops req s b =
     (if \<not> has_window s then (s, b, Some (reply False no_window))
      else if \<not> op_drawing ops b then (s, b, Some (reply False ''drawing is not supported''))
      else if X req = None \<or> Y req = None \<or> Radius req \<le> 0 \<or> req_Color req = None
      then (s, b, Some (reply False ''x, y, positive radius and color are required''))
      else let (b', r) = op_circle ops (the (X req)) (the (Y req)) (Radius req) (the (req_Color req)) b
           in (s, b', answer ''circle drawn'' r))"

definition handle_present :: "'b backend_ops \<Rightarrow> Server \<Rightarrow> 'b \<Rightarrow> 'b handled" where
  "handle_present ops s b =
     (if \<not> has_window s then (s, b, Some (reply False no_window))
      else if \<not> op_drawing ops b then (s, b, Some (reply False ''drawing is not supported''))
      else let (b', r) = op_present ops b in (s, b', answer ''frame presented'' r))"

text \<open>The command word: trimmed and in upper case.\<close>

definition command_of :: "(nat \<Rightarrow> nat) \<Rightarrow> Request \<Rightarrow> string" where
  "command_of upper req = ToUpper upper (TrimSpace (Command req))"

definition dispatch :: "'b backend_ops \<Rightarrow> bool \<Rightarrow> string \<Rightarrow> Request \<Rightarrow> Server \<Rightarrow> 'b \<Rightarrow> 'b handled" where
  "dispatch ops write_ok cmd req s b =
     (if cmd = ''CREATE'' then handle_create ops req s b
      else if cmd = ''SHOW'' then handle_show ops s b
      else if cmd = ''CLOSE'' then handle_close ops s b
      else if cmd = ''QUIT'' then handle_quit ops write_ok s b
      else if cmd = ''BEGIN_FRAME'' then handle_begin_frame ops req s b
      else if cmd = ''DRAW_IMAGE'' then handle_draw_image ops req s b
      else if cmd = ''DRAW_CIRCLE'' then handle_draw_circle ops req s b
      else if cmd = ''PRESENT'' then handle_present ops s b
      else (s, b, Some (reply False (''unknown command: '' @ cmd))))"

definition handleRequest :: "(nat \<Rightarrow> nat) \<Rightarrow> 'b backend_ops \<Rightarrow> bool \<Rightarrow> (string, Request) outcome \<Rightarrow> Server \<Rightarrow> 'b \<Rightarrow> 'b handled" where
  "handleRequest upper ops write_ok received s b = (case received of
      Err e \<Rightarrow> (s, b, Some (reply False e))
    | Panic \<Rightarrow> (s, b, None)
    | Ok req \<Rightarrow> dispatch ops write_ok (command_of upper req) req s b)"

section \<open>Window events\<close>

text \<open>
  \<^verbatim>\<open>pollWindowEvents\<close>: the new state, the identifier to broadcast with \<^verbatim>\<open>window_close\<close> if the user
  closed the window, and the error that ends \<^verbatim>\<open>Run\<close>.
\<close>

definition pollWindowEvents :: "'b backend_ops \<Rightarrow> Server \<Rightarrow> 'b \<Rightarrow> Server \<times> 'b \<times> string option \<times> (string, unit) outcome" where
  "pollWindowEvents ops s b =
     (if \<not> has_window s then (s, b, None, Ok ())
      else let (b1, r) = op_poll ops b in
           case r of
             Err e \<Rightarrow> (s, b1, None, Err e)
           | Panic \<Rightarrow> (s, b1, None, Panic)
           | Ok events \<Rightarrow>
               if ''window_close'' \<in> set events
               then let (b2, c) = op_close ops b1
                    in case c of Panic \<Rightarrow> (s, b2, None, Panic)
                       | _ \<Rightarrow> (forget_window s, b2, Some (windowID s), c)
               else (s, b1, None, Ok ()))"

definition close_event :: "string \<Rightarrow> Response" where
  "close_event wid = \<lparr>resp_OK = True, resp_Message = [], resp_Event = ''window_close'', resp_WindowID = wid\<rparr>"

section \<open>The event loop\<close>

type_synonym conn = nat

text \<open>
  \<^verbatim>\<open>Run\<close> after its listeners are open: the server, its backend, the connections of the event channel
  with what was written to each, and whether the loop has returned (with an error or not) or the
  process has crashed.
\<close>

datatype run_status = Serving | Returned | Failed string | Crashed

record 'b wm =
  srv :: Server
  bk :: 'b
  eventClients :: "conn set"
  written :: "conn \<Rightarrow> Response list"
  status :: run_status

definition init_wm :: "'b \<Rightarrow> 'b wm" where
  "init_wm b = \<lparr>srv = new_Server, bk = b, eventClients = {}, written = (\<lambda>_. []), status = Serving\<rparr>"

text \<open>\<^verbatim>\<open>broadcastEvent\<close>: a client whose write fails is closed and forgotten.\<close>

definition broadcastEvent :: "conn set \<Rightarrow> Response \<Rightarrow> 'b wm \<Rightarrow> 'b wm" where
  "broadcastEvent failing resp m = m\<lparr>eventClients := eventClients m - failing,
     written := (\<lambda>c. if c \<in> eventClients m - failing then written m c @ [resp] else written m c)\<rparr>"

definition accept_event_client :: "conn \<Rightarrow> bool \<Rightarrow> 'b wm \<Rightarrow> 'b wm" where
  "accept_event_client c write_ok m =
     (if write_ok then m\<lparr>eventClients := insert c (eventClients m),
        written := (written m)(c := written m c @ [reply True ''subscribed''])\<rparr> else m)"

definition request_step :: "(nat \<Rightarrow> nat) \<Rightarrow> 'b backend_ops \<Rightarrow> bool \<Rightarrow> (string, Request) outcome \<Rightarrow> 'b wm \<Rightarrow> 'b wm" where
  "request_step upper ops write_ok received m =
     (let (s, b, resp) = handleRequest upper ops write_ok received (srv m) (bk m)
      in if resp = None then m\<lparr>status := Crashed\<rparr> else m\<lparr>srv := s, bk := b\<rparr>)"

definition tick_step :: "'b backend_ops \<Rightarrow> conn set \<Rightarrow> 'b wm \<Rightarrow> 'b wm" where
  "tick_step ops failing m =
     (let (s, b, ev, r) = pollWindowEvents ops (srv m) (bk m);
          m1 = m\<lparr>srv := s, bk := b\<rparr>;
          m2 = (case ev of None \<Rightarrow> m1 | Some wid \<Rightarrow> broadcastEvent failing (close_event wid) m1)
      in case r of Panic \<Rightarrow> m\<lparr>status := Crashed\<rparr> | Ok _ \<Rightarrow> m2
         | Err e \<Rightarrow> m2\<lparr>status := Failed (''poll window events: '' @ e), eventClients := {}\<rparr>)"

text \<open>The select loop and the accept goroutine of the event channel, as steps.\<close>

inductive wm_step :: "(nat \<Rightarrow> nat) \<Rightarrow> 'b backend_ops \<Rightarrow> 'b wm \<Rightarrow> 'b wm \<Rightarrow> bool" for upper ops where
  event_client: "status m = Serving \<Longrightarrow> c \<notin> eventClients m \<Longrightarrow> written m c = [] \<Longrightarrow>
     wm_step upper ops m (accept_event_client c write_ok m)"
| request: "status m = Serving \<Longrightarrow> received \<noteq> Panic \<Longrightarrow> wm_step upper ops m (request_step upper ops write_ok received m)"
| tick: "status m = Serving \<Longrightarrow> wm_step upper ops m (tick_step ops failing m)"
| stop: "status m = Serving \<Longrightarrow> stopped (srv m) \<Longrightarrow> wm_step upper ops m (m\<lparr>status := Returned, eventClients := {}\<rparr>)"
| cancel: "status m = Serving \<Longrightarrow> wm_step upper ops m (m\<lparr>status := Returned, eventClients := {}\<rparr>)"

inductive wm_reach :: "(nat \<Rightarrow> nat) \<Rightarrow> 'b backend_ops \<Rightarrow> 'b \<Rightarrow> 'b wm \<Rightarrow> bool" for upper ops b where
  start: "wm_reach upper ops b (init_wm b)"
| further: "wm_reach upper ops b m \<Longrightarrow> wm_step upper ops m m' \<Longrightarrow> wm_reach upper ops b m'"

section \<open>The server and its window identifier\<close>

lemmas handler_defs = handle_create_def handle_show_def handle_close_def handle_quit_def handle_begin_frame_def
  handle_draw_image_def handle_draw_circle_def handle_present_def

definition wf_server :: "Server \<Rightarrow> bool" where
  "wf_server s \<longleftrightarrow> (has_window s \<longleftrightarrow> windowID s \<noteq> [])"

lemma answer_None [simp]: "answer msg r = None \<longleftrightarrow> r = Panic"
  by (auto simp: answer_def split: outcome.splits)

lemma dispatch_wf: "wf_server s \<Longrightarrow> dispatch ops write_ok cmd req s b = (s', b', resp) \<Longrightarrow> wf_server s'"
  by (auto simp: dispatch_def handler_defs wf_server_def create_config_def forget_window_def Let_def
      split: if_splits prod.splits outcome.splits option.splits)

lemma poll_wf: "wf_server s \<Longrightarrow> pollWindowEvents ops s b = (s', b', ev, r) \<Longrightarrow> wf_server s'"
  by (auto simp: pollWindowEvents_def wf_server_def forget_window_def Let_def
      split: if_splits prod.splits outcome.splits)

text \<open>
  The contract between the server and a backend: a window is live from a successful Create until it
  is closed, and no other call changes that.
\<close>

locale window_backend =
  fixes ops :: "'b backend_ops" and live :: "'b \<Rightarrow> bool"
  assumes create_ok: "op_create ops cfg b = (b', Ok ()) \<Longrightarrow> live b'"
    and create_err: "op_create ops cfg b = (b', Err e) \<Longrightarrow> live b' = live b"
    and close_done: "op_close ops b = (b', r) \<Longrightarrow> r \<noteq> Panic \<Longrightarrow> \<not> live b'"
    and show_live: "op_show ops b = (b', r) \<Longrightarrow> r \<noteq> Panic \<Longrightarrow> live b' = live b"
    and poll_live: "op_poll ops b = (b', r') \<Longrightarrow> r' \<noteq> Panic \<Longrightarrow> live b' = live b"
    and begin_live: "op_begin ops c b = (b', r) \<Longrightarrow> r \<noteq> Panic \<Longrightarrow> live b' = live b"
    and image_live: "op_image ops path x y wd ht b = (b', r) \<Longrightarrow> r \<noteq> Panic \<Longrightarrow> live b' = live b"
    and circle_live: "op_circle ops x y rad c b = (b', r) \<Longrightarrow> r \<noteq> Panic \<Longrightarrow> live b' = live b"
    and present_live: "op_present ops b = (b', r) \<Longrightarrow> r \<noteq> Panic \<Longrightarrow> live b' = live b"
begin

lemma create_keeps:
  "has_window s = live b \<Longrightarrow> handle_create ops req s b = (s', b', Some resp) \<Longrightarrow> has_window s' = live b'"
  by (auto simp: handle_create_def Let_def split: if_splits prod.splits outcome.splits dest: create_ok create_err)

lemma close_keeps:
  "has_window s = live b \<Longrightarrow> handle_close ops s b = (s', b', Some resp) \<Longrightarrow> has_window s' = live b'"
  by (auto simp: handle_close_def forget_window_def Let_def split: if_splits prod.splits outcome.splits dest: close_done)

lemma quit_keeps:
  "has_window s = live b \<Longrightarrow> handle_quit ops write_ok s b = (s', b', Some resp) \<Longrightarrow> has_window s' = live b'"
  by (auto simp: handle_quit_def forget_window_def Let_def split: if_splits prod.splits outcome.splits dest: close_done)

lemma draw_keeps:
  assumes "has_window s = live b"
  shows "handle_show ops s b = (s', b', Some resp) \<Longrightarrow> has_window s' = live b'"
    and "handle_begin_frame ops req s b = (s', b', Some resp) \<Longrightarrow> has_window s' = live b'"
    and "handle_draw_image ops req s b = (s', b', Some resp) \<Longrightarrow> has_window s' = live b'"
    and "handle_draw_circle ops req s b = (s', b', Some resp) \<Longrightarrow> has_window s' = live b'"
    and "handle_present ops s b = (s', b', Some resp) \<Longrightarrow> has_window s' = live b'"
proof -
  have p: "r \<noteq> Panic" if "answer m r = Some x" for m x and r :: "(string, 'z) outcome" using that by (auto simp: answer_def)
  show "handle_show ops s b = (s', b', Some resp) \<Longrightarrow> has_window s' = live b'"
    using assms by (auto simp: handle_show_def Let_def split: if_splits prod.splits dest: p show_live)
  show "handle_begin_frame ops req s b = (s', b', Some resp) \<Longrightarrow> has_window s' = live b'"
    using assms by (auto simp: handle_begin_frame_def Let_def split: if_splits prod.splits option.splits dest: p begin_live)
  show "handle_draw_image ops req s b = (s', b', Some resp) \<Longrightarrow> has_window s' = live b'"
    using assms by (auto simp: handle_draw_image_def Let_def split: if_splits prod.splits dest: p image_live)
  show "handle_draw_circle ops req s b = (s', b', Some resp) \<Longrightarrow> has_window s' = live b'"
    using assms by (auto simp: handle_draw_circle_def Let_def split: if_splits prod.splits dest: p circle_live)
  show "handle_present ops s b = (s', b', Some resp) \<Longrightarrow> has_window s' = live b'"
    using assms by (auto simp: handle_present_def Let_def split: if_splits prod.splits dest: p present_live)
qed

lemma dispatch_keeps:
  "has_window s = live b \<Longrightarrow> dispatch ops write_ok cmd req s b = (s', b', Some resp) \<Longrightarrow> has_window s' = live b'"
  unfolding dispatch_def
  by (simp only: split: if_splits)
     (erule (1) create_keeps | erule (1) close_keeps | erule (1) quit_keeps | erule (1) draw_keeps | simp)+

lemma poll_keeps:
  "has_window s = live b \<Longrightarrow> pollWindowEvents ops s b = (s', b', ev, r) \<Longrightarrow> r \<noteq> Panic \<Longrightarrow> has_window s' = live b'"
  by (auto simp: pollWindowEvents_def forget_window_def Let_def split: if_splits prod.splits outcome.splits
      dest: poll_live close_done)

text \<open>In every state the event loop can reach, the server holds a window exactly if the backend has a live one.\<close>

lemma step_keeps:
  assumes "wm_step upper ops m m'" "has_window (srv m) = live (bk m)" "status m' \<noteq> Crashed"
  shows "has_window (srv m') = live (bk m')"
  using assms
proof (induction rule: wm_step.induct)
  case (event_client m c write_ok)
  then show ?case by (simp add: accept_event_client_def)
next
  case (request m received write_ok)
  obtain s b resp where h: "handleRequest upper ops write_ok received (srv m) (bk m) = (s, b, resp)"
    by (cases "handleRequest upper ops write_ok received (srv m) (bk m)")
  then obtain r where r: "resp = Some r" using request by (cases resp) (auto simp: request_step_def)
  have "has_window s = live b"
  proof (cases received)
    case (Ok req)
    then have "dispatch ops write_ok (command_of upper req) req (srv m) (bk m) = (s, b, Some r)"
      using h r by (simp add: handleRequest_def)
    then show ?thesis by (rule dispatch_keeps[OF request(3)])
  qed (use h r request(3) in \<open>auto simp: handleRequest_def\<close>)
  then show ?case using h r by (simp add: request_step_def)
next
  case (tick m failing)
  obtain s b ev r where h: "pollWindowEvents ops (srv m) (bk m) = (s, b, ev, r)"
    by (cases "pollWindowEvents ops (srv m) (bk m)")
  have "r \<noteq> Panic" using tick h by (auto simp: tick_step_def)
  then have "has_window s = live b" using poll_keeps[OF tick(2) h] by simp
  then show ?case using h \<open>r \<noteq> Panic\<close>
    by (cases r; cases ev) (simp_all add: tick_step_def broadcastEvent_def Let_def)
qed simp_all

lemma reach_keeps:
  "wm_reach upper ops b m \<Longrightarrow> \<not> live b \<Longrightarrow> status m \<noteq> Crashed \<Longrightarrow> has_window (srv m) = live (bk m)"
proof (induction rule: wm_reach.induct)
  case start
  then show ?case by (simp add: init_wm_def new_Server_def)
next
  case (further m m')
  have "status m = Serving" using further(2) by (cases rule: wm_step.cases) auto
  then show ?case using further step_keeps by simp
qed

end

text \<open>
  A backend that in addition never refuses: Create succeeds when there is no live window, and a live
  window accepts Show, BeginFrame, Present and circles.
\<close>

locale reliable_backend = window_backend +
  assumes create_accepts: "\<not> live b \<Longrightarrow> snd (op_create ops cfg b) \<noteq> Err e"
    and show_accepts: "live b \<Longrightarrow> snd (op_show ops b) = Ok ()"
    and begin_accepts: "live b \<Longrightarrow> snd (op_begin ops c b) = Ok ()"
    and circle_accepts: "live b \<Longrightarrow> 0 < rad \<Longrightarrow> snd (op_circle ops x y rad c b) = Ok ()"
    and present_accepts: "live b \<Longrightarrow> snd (op_present ops b) = Ok ()"
    and close_accepts: "live b \<Longrightarrow> snd (op_close ops b) = Ok ()"
    and can_draw: "op_drawing ops b"
begin

text \<open>What each command answers, from the state of the server alone.\<close>

lemma show_answer:
  "has_window s = live b \<Longrightarrow>
     snd (snd (handle_show ops s b)) = Some (if has_window s then reply True ''shown'' else reply False no_window)"
  using show_accepts[of b] by (cases "op_show ops b") (auto simp: handle_show_def answer_def)

lemma create_answer:
  "has_window s = live b \<Longrightarrow> snd (snd (handle_create ops req s b)) = Some resp \<Longrightarrow>
     resp = (if has_window s then reply False ''window already exists''
             else (reply True ''created'')\<lparr>resp_WindowID := cfg_ID (create_config req)\<rparr>)"
proof (cases "has_window s")
  case False
  assume a: "has_window s = live b" "snd (snd (handle_create ops req s b)) = Some resp"
  obtain b' r where c: "op_create ops (create_config req) b = (b', r)" by (cases "op_create ops (create_config req) b")
  have "r \<noteq> Err e" for e using create_accepts[of b "create_config req" e] False a(1) c by simp
  then show ?thesis using a(2) False c by (cases r) (auto simp: handle_create_def Let_def)
qed (auto simp: handle_create_def)

lemma close_answer:
  "has_window s = live b \<Longrightarrow>
     snd (snd (handle_close ops s b)) = Some (if has_window s then reply True ''closed'' else reply False no_window)"
  using close_accepts[of b] by (cases "op_close ops b") (auto simp: handle_close_def answer_def)

lemma begin_answer:
  "has_window s = live b \<Longrightarrow>
     snd (snd (handle_begin_frame ops req s b)) = Some (if \<not> has_window s then reply False no_window
       else if req_Color req = None then reply False ''color is required'' else reply True ''frame started'')"
  using begin_accepts[of b "the (req_Color req)"] can_draw
  by (cases "op_begin ops (the (req_Color req)) b") (auto simp: handle_begin_frame_def answer_def)

lemma circle_answer:
  "has_window s = live b \<Longrightarrow>
     snd (snd (handle_draw_circle ops req s b)) = Some (if \<not> has_window s then reply False no_window
       else if X req = None \<or> Y req = None \<or> Radius req \<le> 0 \<or> req_Color req = None
         then reply False ''x, y, positive radius and color are required'' else reply True ''circle drawn'')"
  using circle_accepts[of b "Radius req" "the (X req)" "the (Y req)" "the (req_Color req)"] can_draw
  by (cases "op_circle ops (the (X req)) (the (Y req)) (Radius req) (the (req_Color req)) b")
     (auto simp: handle_draw_circle_def answer_def)

lemma present_answer:
  "has_window s = live b \<Longrightarrow>
     snd (snd (handle_present ops s b)) = Some (if has_window s then reply True ''frame presented'' else reply False no_window)"
  using present_accepts[of b] can_draw by (cases "op_present ops b") (auto simp: handle_present_def answer_def)

end

section \<open>The headless backend satisfies the contract\<close>

definition live_window :: "Backend \<Rightarrow> bool" where
  "live_window b \<longleftrightarrow> (case b of None \<Rightarrow> False | Some w \<Rightarrow> \<not> closed w)"

lemma on_window_live:
  assumes "\<And>w. closed (fst (f w)) = closed w"
  shows "on_window f b = (b', r) \<Longrightarrow> live_window b' = live_window b"
proof (cases b)
  case (Some w)
  assume "on_window f b = (b', r)"
  then show ?thesis using Some assms[of w] by (cases "f w") (auto simp: on_window_def live_window_def)
qed (auto simp: on_window_def live_window_def)

lemma draw_closed [simp]:
  "closed (fst (Show w)) = closed w" "closed (fst (PollEvents w)) = closed w" "closed (fst (BeginFrame c w)) = closed w"
  "closed (fst (DrawImage files p x y wd ht w)) = closed w" "closed (fst (DrawCircle x y r c w)) = closed w"
  "closed (fst (Present w)) = closed w" "closed (fst (Close w)) = True"
  by (simp_all add: Show_def PollEvents_def BeginFrame_def DrawImage_def DrawCircle_def Present_def Close_def Let_def
      split: outcome.split)

interpretation headless: reliable_backend "headless_ops files" live_window for files
proof unfold_locales
  fix cfg b b' show "op_create (headless_ops files) cfg b = (b', Ok ()) \<Longrightarrow> live_window b'"
    by (auto simp: headless_ops_def Create_def live_window_def Let_def split: if_splits outcome.splits)
next
  fix cfg b b' e show "op_create (headless_ops files) cfg b = (b', Err e) \<Longrightarrow> live_window b' = live_window b"
    by (auto simp: headless_ops_def Create_def Let_def split: if_splits outcome.splits)
next
  fix b b' r show "op_close (headless_ops files) b = (b', r) \<Longrightarrow> r \<noteq> Panic \<Longrightarrow> \<not> live_window b'"
    by (auto simp: headless_ops_def on_window_def live_window_def Close_def split: option.splits)
next
  fix cfg b e show "\<not> live_window b \<Longrightarrow> snd (op_create (headless_ops files) cfg b) \<noteq> Err e"
    by (auto simp: headless_ops_def Create_def live_window_def NewRGBA_def Let_def split: option.splits if_splits)
next
  fix b b' r assume "op_show (headless_ops files) b = (b', r)"
  then show "live_window b' = live_window b" by (simp add: headless_ops_def) (erule on_window_live[rotated], simp)
next
  fix b b' r' assume "op_poll (headless_ops files) b = (b', r')"
  then show "live_window b' = live_window b" by (simp add: headless_ops_def) (erule on_window_live[rotated], simp)
next
  fix c b b' r assume "op_begin (headless_ops files) c b = (b', r)"
  then show "live_window b' = live_window b" by (simp add: headless_ops_def) (erule on_window_live[rotated], simp)
next
  fix path x y wd ht b b' r assume "op_image (headless_ops files) path x y wd ht b = (b', r)"
  then show "live_window b' = live_window b" by (simp add: headless_ops_def) (erule on_window_live[rotated], simp)
next
  fix x y rad c b b' r assume "op_circle (headless_ops files) x y rad c b = (b', r)"
  then show "live_window b' = live_window b" by (simp add: headless_ops_def) (erule on_window_live[rotated], simp)
next
  fix b b' r assume "op_present (headless_ops files) b = (b', r)"
  then show "live_window b' = live_window b" by (simp add: headless_ops_def) (erule on_window_live[rotated], simp)
qed (auto simp: headless_ops_def on_window_def live_window_def Show_def Close_def BeginFrame_def DrawCircle_def
    Present_def Let_def split: option.splits)

section \<open>Invariants of the backend state\<close>

text \<open>A property of the backend state that every call keeps holds throughout the event loop.\<close>

locale backend_invariant =
  fixes ops :: "'b backend_ops" and good :: "'b \<Rightarrow> bool"
  assumes create_good: "good b \<Longrightarrow> good (fst (op_create ops cfg b))"
    and show_good: "good b \<Longrightarrow> good (fst (op_show ops b))"
    and close_good: "good b \<Longrightarrow> good (fst (op_close ops b))"
    and poll_good: "good b \<Longrightarrow> good (fst (op_poll ops b))"
    and begin_good: "good b \<Longrightarrow> good (fst (op_begin ops c b))"
    and image_good: "good b \<Longrightarrow> good (fst (op_image ops path x y wd ht b))"
    and circle_good: "good b \<Longrightarrow> good (fst (op_circle ops x y rad c b))"
    and present_good: "good b \<Longrightarrow> good (fst (op_present ops b))"
begin

lemmas op_good = create_good show_good close_good poll_good begin_good image_good circle_good present_good

lemma dispatch_good: "good b \<Longrightarrow> good (fst (snd (dispatch ops write_ok cmd req s b)))"
  using op_good
  by (simp add: dispatch_def handler_defs Let_def split_def fst_def[symmetric] split: outcome.split option.split)

lemma poll_step_good: "good b \<Longrightarrow> good (fst (snd (pollWindowEvents ops s b)))"
  using close_good[OF poll_good, of b] poll_good[of b]
  by (simp add: pollWindowEvents_def Let_def split_def split: outcome.split)

lemma step_good: "wm_step upper ops m m' \<Longrightarrow> good (bk m) \<Longrightarrow> good (bk m')"
proof (induction rule: wm_step.induct)
  case (request m received write_ok)
  have "good (fst (snd (handleRequest upper ops write_ok received (srv m) (bk m))))"
    using dispatch_good[OF request(3)] request(3) by (simp add: handleRequest_def split: outcome.split)
  then show ?case using request(3) by (simp add: request_step_def Let_def split_def)
next
  case (tick m failing)
  then show ?case using poll_step_good[of "bk m" "srv m"]
    by (auto simp: tick_step_def broadcastEvent_def Let_def split: prod.splits outcome.splits option.splits)
qed (simp_all add: accept_event_client_def)

lemma reach_good: "wm_reach upper ops b m \<Longrightarrow> good b \<Longrightarrow> good (bk m)"
  by (induction rule: wm_reach.induct) (auto simp: init_wm_def dest: step_good)

end

definition wf_backend :: "Backend \<Rightarrow> bool" where
  "wf_backend b \<longleftrightarrow> (\<forall>w. b = Some w \<longrightarrow> wf_window w)"

lemma on_window_wf: "(\<And>w. wf_window w \<Longrightarrow> wf_window (fst (f w))) \<Longrightarrow> wf_backend b \<Longrightarrow> wf_backend (fst (on_window f b))"
  by (cases b) (auto simp: wf_backend_def on_window_def split_def Let_def)

lemma headless_invariant: "valid_files files \<Longrightarrow> backend_invariant (headless_ops files) wf_backend"
proof unfold_locales
  assume v: "valid_files files"
  fix b cfg assume b: "wf_backend b"
  show "wf_backend (fst (op_create (headless_ops files) cfg b))"
  proof (cases "Create cfg b")
    case (Pair b' r)
    then show ?thesis using b Create_wf[of cfg b]
      by (cases r) (auto simp: headless_ops_def wf_backend_def Create_def Let_def split: if_splits outcome.splits dest!: NewRGBA_wf simp: wf_window_def)
  qed
qed (auto simp: headless_ops_def intro!: on_window_wf Show_wf Close_wf BeginFrame_wf DrawImage_wf DrawCircle_wf Present_wf
    simp: PollEvents_def)

interpretation headless_inv: backend_invariant "headless_ops files" "\<lambda>b. valid_files files \<longrightarrow> wf_backend b" for files
  using headless_invariant[of files] by unfold_locales (auto dest: backend_invariant.op_good)

lemma reach_wf_server: "wm_reach upper ops b m \<Longrightarrow> wf_server (srv m)"
proof (induction rule: wm_reach.induct)
  case start
  then show ?case by (simp add: init_wm_def new_Server_def wf_server_def)
next
  case (further m m')
  from further(2) show ?case
  proof (cases rule: wm_step.cases)
    case (request received write_ok)
    then show ?thesis using further(3) dispatch_wf
      by (auto simp: request_step_def handleRequest_def Let_def split: prod.splits outcome.splits)
  next
    case (tick failing)
    then show ?thesis using further(3) poll_wf
      by (auto simp: tick_step_def broadcastEvent_def Let_def split: prod.splits outcome.splits option.splits)
  qed (use further(3) in \<open>auto simp: accept_event_client_def\<close>)
qed

section \<open>Properties\<close>

text \<open>C6: The server and the headless backend never disagree: in every state the event loop reaches from a
  fresh start, whatever requests, polls and connections interleave, the server holds a window exactly
  if the backend has one that is not closed, it has a window identifier exactly if it holds a window,
  and both pixel buffers of the window are consistent.\<close>

theorem wm_consistent:
  assumes "wm_reach upper (headless_ops files) None m" "status m \<noteq> Crashed" "valid_files files"
  shows "has_window (srv m) = live_window (bk m) \<and> (has_window (srv m) \<longleftrightarrow> windowID (srv m) \<noteq> [])
     \<and> (\<forall>w. bk m = Some w \<longrightarrow> wf_window w)"
  using headless.reach_keeps[OF assms(1) _ assms(2)] reach_wf_server[OF assms(1)]
    headless_inv.reach_good[OF assms(1)] assms(3)
  by (simp add: live_window_def wf_server_def wf_backend_def)

definition no_files :: "string \<Rightarrow> (string, picture) outcome" where
  "no_files path = Err ''no such file''"

definition create_request :: "int \<Rightarrow> int \<Rightarrow> Request" where
  "create_request wd ht = \<lparr>Command = ''CREATE'', WindowID = [], Title = [], Width = wd, Height = ht, ImagePath = [],
     X = None, Y = None, Radius = 0, req_Color = None\<rparr>"

lemma command_create: "command_of upper (create_request wd ht) = ''CREATE''"
proof -
  have "command_of upper (create_request 0 0) = ''CREATE''" by code_simp
  then show ?thesis by (simp add: command_of_def create_request_def)
qed

lemma wm_consistent_witness:
  "\<exists>m. has_window (srv m) \<and> wm_reach (\<lambda>r. r) (headless_ops no_files) None m \<and> status m \<noteq> Crashed
     \<and> live_window (bk m) \<and> windowID (srv m) \<noteq> []"
proof -
  define m where "m = request_step (\<lambda>r. r) (headless_ops no_files) True (Ok (create_request 2 1)) (init_wm None)"
  have r: "wm_reach (\<lambda>r. r) (headless_ops no_files) None m"
    unfolding m_def by (rule wm_reach.further[OF wm_reach.start wm_step.request]) (simp_all add: init_wm_def)
  have h: "has_window (srv m)" "status m \<noteq> Crashed"
    unfolding m_def request_step_def handleRequest_def outcome.case command_create dispatch_def
    by (simp_all add: init_wm_def handle_create_def new_Server_def headless_ops_def Create_def create_config_def
        create_request_def NewRGBA_def Let_def)
  show ?thesis using wm_consistent[OF r h(2)] r h by (auto simp: valid_files_def no_files_def)
qed

text \<open>The command protocol over the headless backend: what SHOW, CLOSE, BEGIN_FRAME, DRAW_CIRCLE and
  PRESENT answer depends only on whether the server holds a window and on the presence of their
  arguments; without a window each of them asks for CREATE, and with one none of them fails in the
  backend.\<close>

theorem wm_answers:
  assumes "has_window s = live_window b"
  shows "snd (snd (dispatch (headless_ops files) ok ''SHOW'' req s b)) =
       Some (if has_window s then reply True ''shown'' else reply False no_window)
     \<and> snd (snd (dispatch (headless_ops files) ok ''CLOSE'' req s b)) =
       Some (if has_window s then reply True ''closed'' else reply False no_window)
     \<and> snd (snd (dispatch (headless_ops files) ok ''BEGIN_FRAME'' req s b)) =
       Some (if \<not> has_window s then reply False no_window
         else if req_Color req = None then reply False ''color is required'' else reply True ''frame started'')
     \<and> snd (snd (dispatch (headless_ops files) ok ''DRAW_CIRCLE'' req s b)) =
       Some (if \<not> has_window s then reply False no_window
         else if X req = None \<or> Y req = None \<or> Radius req \<le> 0 \<or> req_Color req = None
           then reply False ''x, y, positive radius and color are required'' else reply True ''circle drawn'')
     \<and> snd (snd (dispatch (headless_ops files) ok ''PRESENT'' req s b)) =
       Some (if has_window s then reply True ''frame presented'' else reply False no_window)"
  using headless.show_answer[OF assms] headless.close_answer[OF assms] headless.begin_answer[OF assms]
    headless.circle_answer[OF assms] headless.present_answer[OF assms]
  by (simp only: dispatch_def) simp

lemma wm_answers_witness:
  "snd (snd (dispatch (headless_ops no_files) True ''SHOW'' (create_request 2 1)
     \<lparr>has_window = True, windowID = ''map'', stopped = False\<rparr> (Some sample_window))) = Some (reply True ''shown'')"
  using wm_answers[of "\<lparr>has_window = True, windowID = ''map'', stopped = False\<rparr>" "Some sample_window" no_files True "create_request 2 1"]
  by (simp add: live_window_def sample_window_def)

text \<open>When the user closes the window, the next poll forgets it and tells every connection of the event
  channel: each one whose write succeeds gets the \<open>window_close\<close> event with the window's identifier as
  its next message, each other one is dropped.\<close>

theorem wm_close_broadcast:
  assumes "has_window (srv m)" "op_poll ops (bk m) = (b1, Ok events)" "''window_close'' \<in> set events"
    and "op_close ops b1 = (b2, Ok ())"
  shows "\<not> has_window (srv (tick_step ops failing m)) \<and> windowID (srv (tick_step ops failing m)) = []
     \<and> eventClients (tick_step ops failing m) = eventClients m - failing
     \<and> (\<forall>c \<in> eventClients m - failing. written (tick_step ops failing m) c = written m c @ [close_event (windowID (srv m))])"
  using assms by (simp add: tick_step_def pollWindowEvents_def broadcastEvent_def forget_window_def Let_def)

definition closing_ops :: "unit backend_ops" where
  "closing_ops = \<lparr>op_create = (\<lambda>_ b. (b, Ok ())), op_show = (\<lambda>b. (b, Ok ())), op_close = (\<lambda>b. (b, Ok ())),
     op_poll = (\<lambda>b. (b, Ok [''window_close''])), op_drawing = (\<lambda>_. False), op_begin = (\<lambda>_ b. (b, Ok ())),
     op_image = (\<lambda>_ _ _ _ _ b. (b, Ok ())), op_circle = (\<lambda>_ _ _ _ b. (b, Ok ())), op_present = (\<lambda>b. (b, Ok ()))\<rparr>"

lemma wm_close_broadcast_witness:
  "written (tick_step closing_ops {2} \<lparr>srv = \<lparr>has_window = True, windowID = ''map'', stopped = False\<rparr>, bk = (),
      eventClients = {1, 2}, written = (\<lambda>_. []), status = Serving\<rparr>) 1 = [close_event ''map'']"
  using wm_close_broadcast[of "\<lparr>srv = \<lparr>has_window = True, windowID = ''map'', stopped = False\<rparr>, bk = (),
      eventClients = {1, 2}, written = (\<lambda>_. []), status = Serving\<rparr>" closing_ops "()" "[''window_close'']" "()" "{2}"]
  by (simp add: closing_ops_def)

text \<open>The server does not bound the size a CREATE request asks for: on a fresh headless backend a request
  for a window of 2 to the 32 by 2 to the 32 pixels makes \<open>image.NewRGBA\<close> panic, and the request gets
  no response.\<close>

theorem wm_create_crash:
  "handleRequest upper (headless_ops files) ok (Ok (create_request (2 ^ 32) (2 ^ 32))) new_Server None =
     (new_Server, None, None)"
  unfolding handleRequest_def outcome.case command_create dispatch_def
  by (simp add: handle_create_def new_Server_def headless_ops_def Create_def create_config_def create_request_def
      NewRGBA_def Let_def)

end
