(* ===== verification/Wm_Protocol.thy ===== *)
theory Wm_Protocol
  imports Wm_Server Map_Messages
begin

text \<open>
  The window manager protocol as bytes: \<^verbatim>\<open>ReadRequest\<close> and \<^verbatim>\<open>WriteResponse\<close> of \<^verbatim>\<open>window-manager/protocol/protocol.go\<close>, and
  the client of the Map application (\<^verbatim>\<open>app/map/client.go\<close>): encoding of a command, \<^verbatim>\<open>readResponse\<close>, one exchange
  and the acknowledgement of an event subscription.
\<close>

section \<open>The server side\<close>

datatype read_error = ReadFailed | DecodeFailed json_error | MissingCommandField

definition color_fields :: "Color field list" where
  "color_fields = [uint8_field ''r'' (\<lambda>x c. c\<lparr>c_r := x\<rparr>), uint8_field ''g'' (\<lambda>x c. c\<lparr>c_g := x\<rparr>),
     uint8_field ''b'' (\<lambda>x c. c\<lparr>c_b := x\<rparr>), uint8_field ''a'' (\<lambda>x c. c\<lparr>c_a := x\<rparr>)]"

definition zero_color :: Color where
  "zero_color = \<lparr>c_r = 0, c_g = 0, c_b = 0, c_a = 0\<rparr>"

text \<open>A pointer to a struct: \<^verbatim>\<open>null\<close> clears it, an object fills what it points to, allocated when nil.\<close>

definition color_field :: "string \<Rightarrow> Request field" where
  "color_field name = (name, \<lambda>v r. case v of
      JNull \<Rightarrow> Some (r\<lparr>req_Color := None\<rparr>)
    | JObj ms \<Rightarrow> map_option (\<lambda>c. r\<lparr>req_Color := Some c\<rparr>)
        (set_members color_fields ms (case req_Color r of None \<Rightarrow> zero_color | Some c \<Rightarrow> c))
    | _ \<Rightarrow> None)"

definition request_fields :: "Request field list" where
  "request_fields =
     [string_field ''command'' (\<lambda>x r. r\<lparr>Command := x\<rparr>), string_field ''window_id'' (\<lambda>x r. r\<lparr>WindowID := x\<rparr>),
      string_field ''title'' (\<lambda>x r. r\<lparr>Title := x\<rparr>), int_field ''width'' (\<lambda>x r. r\<lparr>Width := x\<rparr>),
      int_field ''height'' (\<lambda>x r. r\<lparr>Height := x\<rparr>), string_field ''image_path'' (\<lambda>x r. r\<lparr>ImagePath := x\<rparr>),
      int_ptr_field ''x'' (\<lambda>x r. r\<lparr>X := x\<rparr>), int_ptr_field ''y'' (\<lambda>x r. r\<lparr>Y := x\<rparr>),
      int_field ''radius'' (\<lambda>x r. r\<lparr>Radius := x\<rparr>), color_field ''color'']"

definition zero_request :: Request where
  "zero_request = \<lparr>Command = [], WindowID = [], Title = [], Width = 0, Height = 0, ImagePath = [], X = None, Y = None, Radius = 0,
     req_Color = None\<rparr>"

text \<open>
  \<^verbatim>\<open>ReadBytes\<close> has no limit: the line with its newline, or what came before the end. \<open>eof\<close> says whether the
  connection ended by a close and not by another error.
\<close>

definition ReadRequest :: "bool \<Rightarrow> string \<Rightarrow> (read_error, Request) outcome" where
  "ReadRequest eof input =
     (let l = takeWhile (\<lambda>c. c \<noteq> newline) input; complete = (dropWhile (\<lambda>c. c \<noteq> newline) input \<noteq> []);
          line = (if complete then l @ [newline] else l)
      in if \<not> complete \<and> \<not> (eof \<and> l \<noteq> []) then Err ReadFailed
         else case Unmarshal_struct request_fields line zero_request of
                Err e \<Rightarrow> Err (DecodeFailed e)
              | Panic \<Rightarrow> Panic
              | Ok req \<Rightarrow> if Command req = [] then Err MissingCommandField else Ok req)"

text \<open>Members with \<^verbatim>\<open>omitempty\<close>.\<close>

definition omit_string :: "string \<Rightarrow> string \<Rightarrow> (string \<times> json) list" where
  "omit_string name s = (if s = [] then [] else [(name, JStr s)])"

definition omit_int :: "string \<Rightarrow> int \<Rightarrow> (string \<times> json) list" where
  "omit_int name n = (if n = 0 then [] else [(name, JNum (Itoa n))])"

definition omit_ptr :: "string \<Rightarrow> int option \<Rightarrow> (string \<times> json) list" where
  "omit_ptr name n = (case n of None \<Rightarrow> [] | Some i \<Rightarrow> [(name, JNum (Itoa i))])"

definition wm_response_json :: "Response \<Rightarrow> json" where
  "wm_response_json r = JObj ((''ok'', JBool (resp_OK r)) # omit_string ''message'' (resp_Message r)
     @ omit_string ''event'' (resp_Event r) @ omit_string ''window_id'' (resp_WindowID r))"

text \<open>\<^verbatim>\<open>Encoder.Encode\<close> ends the value with a newline.\<close>

definition WriteResponse :: "Response \<Rightarrow> string" where
  "WriteResponse r = json_print (wm_response_json r) @ [newline]"

section \<open>The client side\<close>

definition color_members :: "Color \<Rightarrow> (string \<times> json) list" where
  "color_members c = [(''r'', JNum (Itoa (uint (c_r c)))), (''g'', JNum (Itoa (uint (c_g c)))),
     (''b'', JNum (Itoa (uint (c_b c)))), (''a'', JNum (Itoa (uint (c_a c))))]"

definition color_json :: "Color \<Rightarrow> json" where
  "color_json c = JObj (color_members c)"

definition command_json :: "Command \<Rightarrow> json" where
  "command_json c = JObj ((''command'', JStr (cmd_Command c)) # omit_string ''window_id'' (cmd_WindowID c)
     @ omit_string ''title'' (cmd_Title c) @ omit_int ''width'' (cmd_Width c) @ omit_int ''height'' (cmd_Height c)
     @ omit_string ''image_path'' (cmd_ImagePath c) @ omit_ptr ''x'' (cmd_X c) @ omit_ptr ''y'' (cmd_Y c)
     @ omit_int ''radius'' (cmd_Radius c)
     @ (case cmd_Color c of None \<Rightarrow> [] | Some k \<Rightarrow> [(''color'', color_json k)]))"

definition encode_command :: "Command \<Rightarrow> string" where
  "encode_command c = json_print (command_json c) @ [newline]"

record map_response =
  mr_OK :: "bool option"
  mr_Message :: string
  mr_Event :: string
  mr_WindowID :: string

datatype client_error = ConnectError | WriteError | ReadResponseError | DecodeResponseError json_error | MissingOK
  | Rejection string | NotSubscribed

definition map_response_fields :: "map_response field list" where
  "map_response_fields = [bool_ptr_field ''ok'' (\<lambda>x r. r\<lparr>mr_OK := x\<rparr>), string_field ''message'' (\<lambda>x r. r\<lparr>mr_Message := x\<rparr>),
     string_field ''event'' (\<lambda>x r. r\<lparr>mr_Event := x\<rparr>), string_field ''window_id'' (\<lambda>x r. r\<lparr>mr_WindowID := x\<rparr>)]"

definition zero_response :: map_response where
  "zero_response = \<lparr>mr_OK = None, mr_Message = [], mr_Event = [], mr_WindowID = []\<rparr>"

definition client_buffer :: nat where "client_buffer = 64 * 1024"

definition readResponse :: "string \<Rightarrow> (client_error, map_response) outcome \<times> string" where
  "readResponse input = (case ReadSlice client_buffer input of
      Line line rest \<Rightarrow>
        (case Unmarshal_struct map_response_fields line zero_response of
           Err e \<Rightarrow> Err (DecodeResponseError e)
         | Panic \<Rightarrow> Panic
         | Ok resp \<Rightarrow> (case mr_OK resp of
             None \<Rightarrow> Err MissingOK
           | Some False \<Rightarrow> Err (Rejection (mr_Message resp))
           | Some True \<Rightarrow> Ok resp), rest)
    | _ \<Rightarrow> (Err ReadResponseError, []))"

text \<open>
  \<^verbatim>\<open>Client.Send\<close>: one connection per command. The arguments say whether the connection is made and the command
  written, and give what the server answers to the bytes it got.
\<close>

definition Send :: "bool \<Rightarrow> bool \<Rightarrow> (string \<Rightarrow> string) \<Rightarrow> Command \<Rightarrow> (client_error, unit) outcome" where
  "Send dialled wrote server c =
     (if \<not> dialled then Err ConnectError
      else if \<not> wrote then Err WriteError
      else case fst (readResponse (server (encode_command c))) of Ok _ \<Rightarrow> Ok () | Err e \<Rightarrow> Err e | Panic \<Rightarrow> Panic)"

text \<open>\<^verbatim>\<open>Client.subscribe\<close> on an open connection: the acknowledgement and the rest of the input.\<close>

definition subscribe_events :: "string \<Rightarrow> (client_error, string) outcome" where
  "subscribe_events input = (case readResponse input of
      (Err e, _) \<Rightarrow> Err e
    | (Panic, _) \<Rightarrow> Panic
    | (Ok resp, rest) \<Rightarrow> if mr_Event resp \<noteq> [] \<or> mr_Message resp \<noteq> ''subscribed'' then Err NotSubscribed else Ok rest)"

section \<open>Round trips\<close>

lemma set_members_append: "set_members fs (ms @ ns) r = Option.bind (set_members fs ms r) (set_members fs ns)"
proof (induction ms arbitrary: r)
  case (Cons m ms)
  then have "set_members fs (ms @ ns) = (\<lambda>r. Option.bind (set_members fs ms r) (set_members fs ns))" by (intro ext)
  then show ?case by (cases m) (simp split: option.splits)
qed simp

lemma ParseUint8_Itoa: "ParseUint8 (Itoa (uint (w :: 8 word))) = Some w"
proof -
  have "nat_digits (unat w) \<noteq> []" "list_all is_digit (nat_digits (unat w))" using nat_digits_all[of "unat w"] by simp_all
  moreover have "unat w < 256" using unsigned_less[of w, where ?'a = nat] by simp
  ultimately show ?thesis by (simp add: ParseUint8_def Itoa_def)
qed

definition int64 :: "int \<Rightarrow> bool" where
  "int64 n \<longleftrightarrow> - (2 ^ 63) \<le> n \<and> n < 2 ^ 63"

lemma int64_member: "int64 n \<Longrightarrow> ParseInt64 (Itoa n) \<noteq> None \<and> sint (the (ParseInt64 (Itoa n))) = n"
  using ParseInt64_sint[of n] by (auto simp: int64_def)

lemmas field_defs = field_for_def string_field_def int_field_def int_ptr_field_def bool_ptr_field_def bool_field_def uint8_field_def

lemma set_string: "find (\<lambda>f. fst f = k) fs = Some (string_field k upd) \<Longrightarrow> (upd [] r = r) \<Longrightarrow>
   set_members fs (omit_string k s) r = Some (upd s r)"
  by (auto simp: omit_string_def field_for_def string_field_def)

lemma set_int: "find (\<lambda>f. fst f = k) fs = Some (int_field k upd) \<Longrightarrow> (upd 0 r = r) \<Longrightarrow> int64 n \<Longrightarrow>
   set_members fs (omit_int k n) r = Some (upd n r)"
  using int64_member[of n] by (auto simp: omit_int_def field_for_def int_field_def)

lemma set_ptr: "find (\<lambda>f. fst f = k) fs = Some (int_ptr_field k upd) \<Longrightarrow> (upd None r = r) \<Longrightarrow> pred_option int64 n \<Longrightarrow>
   set_members fs (omit_ptr k n) r = Some (upd n r)"
  using int64_member[of "the n"] by (cases n) (auto simp: omit_ptr_def field_for_def int_ptr_field_def)

lemma set_color: "set_members color_fields (color_members c) zero_color = Some c"
  by (cases c) (simp add: color_members_def color_fields_def field_defs ParseUint8_Itoa zero_color_def)

text \<open>The request that carries a command of the map.\<close>

definition to_request :: "Command \<Rightarrow> Request" where
  "to_request c = \<lparr>Command = cmd_Command c, WindowID = cmd_WindowID c, Title = cmd_Title c, Width = cmd_Width c,
     Height = cmd_Height c, ImagePath = cmd_ImagePath c, X = cmd_X c, Y = cmd_Y c, Radius = cmd_Radius c, req_Color = cmd_Color c\<rparr>"

text \<open>What the types of Go guarantee, and valid UTF-8 in the strings.\<close>

definition wf_command :: "Command \<Rightarrow> bool" where
  "wf_command c \<longleftrightarrow> utf8_valid (cmd_Command c) \<and> utf8_valid (cmd_WindowID c) \<and> utf8_valid (cmd_Title c) \<and> utf8_valid (cmd_ImagePath c)
     \<and> int64 (cmd_Width c) \<and> int64 (cmd_Height c) \<and> int64 (cmd_Radius c) \<and> pred_option int64 (cmd_X c) \<and> pred_option int64 (cmd_Y c)"

lemma command_members:
  assumes "wf_command c"
  shows "decode_struct request_fields (command_json c) zero_request = Some (to_request c)"
proof -
  note w = assms[unfolded wf_command_def]
  have f: "find (\<lambda>f. fst f = ''window_id'') request_fields = Some (string_field ''window_id'' (\<lambda>x r. r\<lparr>WindowID := x\<rparr>))"
    "find (\<lambda>f. fst f = ''title'') request_fields = Some (string_field ''title'' (\<lambda>x r. r\<lparr>Title := x\<rparr>))"
    "find (\<lambda>f. fst f = ''width'') request_fields = Some (int_field ''width'' (\<lambda>x r. r\<lparr>Width := x\<rparr>))"
    "find (\<lambda>f. fst f = ''height'') request_fields = Some (int_field ''height'' (\<lambda>x r. r\<lparr>Height := x\<rparr>))"
    "find (\<lambda>f. fst f = ''image_path'') request_fields = Some (string_field ''image_path'' (\<lambda>x r. r\<lparr>ImagePath := x\<rparr>))"
    "find (\<lambda>f. fst f = ''x'') request_fields = Some (int_ptr_field ''x'' (\<lambda>x r. r\<lparr>X := x\<rparr>))"
    "find (\<lambda>f. fst f = ''y'') request_fields = Some (int_ptr_field ''y'' (\<lambda>x r. r\<lparr>Y := x\<rparr>))"
    "find (\<lambda>f. fst f = ''radius'') request_fields = Some (int_field ''radius'' (\<lambda>x r. r\<lparr>Radius := x\<rparr>))"
    by (simp_all add: request_fields_def field_defs color_field_def)
  have cmd: "set_members request_fields ((''command'', JStr (cmd_Command c)) # ms) r = set_members request_fields ms (r\<lparr>Command := cmd_Command c\<rparr>)" for ms r
    by (simp add: request_fields_def field_defs)
  have col: "set_members request_fields (case cmd_Color c of None \<Rightarrow> [] | Some k \<Rightarrow> [(''color'', color_json k)]) r = Some (r\<lparr>req_Color := cmd_Color c\<rparr>)"
    if "req_Color r = None" for r :: Request
  proof (cases "cmd_Color c")
    case (Some k)
    have "field_for request_fields ''color'' = Some (color_field ''color'')"
      by (simp add: request_fields_def field_defs color_field_def)
    then show ?thesis using that Some by (simp add: color_field_def color_json_def set_color)
  qed (use that in simp)
  show ?thesis using w
    by (simp add: decode_struct_def command_json_def set_members_append cmd zero_request_def
      set_string[OF f(1)] set_string[OF f(2)] set_int[OF f(3)] set_int[OF f(4)] set_string[OF f(5)] set_ptr[OF f(6)] set_ptr[OF f(7)]
      set_int[OF f(8)] col to_request_def del: set_members.simps)
qed

definition wf_members :: "nat \<Rightarrow> (string \<times> json) list \<Rightarrow> bool" where
  "wf_members d ms \<longleftrightarrow> (\<forall>m \<in> set ms. utf8_valid (fst m) \<and> wf_json d (snd m))"

lemma wf_members_simps:
  "wf_json (Suc d) (JObj ms) = wf_members d ms" "wf_members d []"
  "wf_members d (m # ms) \<longleftrightarrow> utf8_valid (fst m) \<and> wf_json d (snd m) \<and> wf_members d ms"
  "wf_members d (ms @ ns) \<longleftrightarrow> wf_members d ms \<and> wf_members d ns"
  by (auto simp: wf_members_def)

lemma wf_omit:
  "utf8_valid k \<Longrightarrow> utf8_valid s \<Longrightarrow> wf_members d (omit_string k s)"
  "utf8_valid k \<Longrightarrow> wf_members d (omit_int k n)"
  "utf8_valid k \<Longrightarrow> wf_members d (omit_ptr k p)"
  by (auto simp: wf_members_def omit_string_def omit_int_def omit_ptr_def json_number_Itoa split: option.splits if_splits)

lemma names_valid:
  "utf8_valid ''command''" "utf8_valid ''window_id''" "utf8_valid ''title''" "utf8_valid ''width''" "utf8_valid ''height''"
  "utf8_valid ''image_path''" "utf8_valid ''x''" "utf8_valid ''y''" "utf8_valid ''radius''" "utf8_valid ''color''"
  "utf8_valid ''r''" "utf8_valid ''g''" "utf8_valid ''b''" "utf8_valid ''a''" "utf8_valid ''ok''" "utf8_valid ''message''" "utf8_valid ''event''"
  by (simp_all add: utf8_valid_printable printable_def)

lemma command_json_wf:
  assumes "wf_command c"
  shows "wf_json (Suc (Suc d)) (command_json c)"
proof -
  have col: "wf_json (Suc d) (color_json k)" for k
    by (simp add: color_json_def color_members_def json_number_Itoa names_valid)
  show ?thesis using assms col
    unfolding command_json_def wf_members_simps by (simp add: wf_command_def names_valid wf_omit wf_members_simps split: option.splits)
qed

lemma wm_response_json_wf:
  assumes "utf8_valid (resp_Message r)" "utf8_valid (resp_Event r)" "utf8_valid (resp_WindowID r)"
  shows "wf_json (Suc d) (wm_response_json r)"
  using assms unfolding wm_response_json_def wf_members_simps by (simp add: names_valid wf_omit)

lemma printed_line:
  assumes "wf_json max_depth v"
  shows "newline \<notin> set (json_print v)" "json_parse (json_print v @ [newline]) = Some v"
  using clean_no_newline[OF json_print_clean[OF assms]] json_parse_print[OF assms, of "[newline]"] by (simp_all add: json_space_def)

lemma max_depth_Suc: "max_depth = Suc (Suc 9998)"
  by (simp add: max_depth_def)

lemma request_arrives:
  assumes "wf_command c" "cmd_Command c \<noteq> []"
  shows "ReadRequest eof (encode_command c @ rest) = Ok (to_request c)"
proof -
  have w: "wf_json max_depth (command_json c)" unfolding max_depth_Suc by (rule command_json_wf[OF assms(1)])
  note l = printed_line[OF w]
  have "Unmarshal_struct request_fields (json_print (command_json c) @ [newline]) zero_request = Ok (to_request c)"
    by (simp add: Unmarshal_struct_def l(2) command_members[OF assms(1)])
  moreover have "Command (to_request c) \<noteq> []" using assms(2) by (simp add: to_request_def)
  ultimately show ?thesis using newline_split[OF l(1), of rest]
    by (simp add: ReadRequest_def encode_command_def Let_def)
qed

lemma response_members:
  "decode_struct map_response_fields (wm_response_json r) zero_response
     = Some \<lparr>mr_OK = Some (resp_OK r), mr_Message = resp_Message r, mr_Event = resp_Event r, mr_WindowID = resp_WindowID r\<rparr>"
proof -
  have f: "find (\<lambda>f. fst f = ''message'') map_response_fields = Some (string_field ''message'' (\<lambda>x r. r\<lparr>mr_Message := x\<rparr>))"
    "find (\<lambda>f. fst f = ''event'') map_response_fields = Some (string_field ''event'' (\<lambda>x r. r\<lparr>mr_Event := x\<rparr>))"
    "find (\<lambda>f. fst f = ''window_id'') map_response_fields = Some (string_field ''window_id'' (\<lambda>x r. r\<lparr>mr_WindowID := x\<rparr>))"
    by (simp_all add: map_response_fields_def field_defs)
  have ok: "set_members map_response_fields ((''ok'', JBool x) # ms) r = set_members map_response_fields ms (r\<lparr>mr_OK := Some x\<rparr>)" for x ms r
    by (simp add: map_response_fields_def field_defs)
  show ?thesis by (simp add: decode_struct_def wm_response_json_def set_members_append ok zero_response_def
    set_string[OF f(1)] set_string[OF f(2)] set_string[OF f(3)] del: set_members.simps)
qed

definition wf_response :: "Response \<Rightarrow> bool" where
  "wf_response r \<longleftrightarrow> utf8_valid (resp_Message r) \<and> utf8_valid (resp_Event r) \<and> utf8_valid (resp_WindowID r)
     \<and> length (WriteResponse r) \<le> client_buffer"

lemma response_arrives:
  assumes "wf_response r"
  shows "readResponse (WriteResponse r @ rest) =
     (if resp_OK r then Ok \<lparr>mr_OK = Some True, mr_Message = resp_Message r, mr_Event = resp_Event r, mr_WindowID = resp_WindowID r\<rparr>
      else Err (Rejection (resp_Message r)), rest)"
proof -
  have w: "wf_json max_depth (wm_response_json r)" unfolding max_depth_Suc using assms by (intro wm_response_json_wf) (simp_all add: wf_response_def)
  note l = printed_line[OF w]
  have "ReadSlice client_buffer (WriteResponse r @ rest) = Line (WriteResponse r) rest"
    using ReadSlice_append[OF l(1), of client_buffer rest] assms by (simp add: WriteResponse_def wf_response_def)
  then show ?thesis using l(2) by (simp add: readResponse_def Unmarshal_struct_def WriteResponse_def response_members)
qed

section \<open>An exchange\<close>

text \<open>
  The server's part of one exchange, on the bytes of the request: the request is read, handled, and the
  response written. \<open>text_of\<close> is the text of a read error; a crash of the server answers nothing.
\<close>

definition serve_bytes :: "(nat \<Rightarrow> nat) \<Rightarrow> (read_error \<Rightarrow> string) \<Rightarrow> 'b backend_ops \<Rightarrow> Server \<Rightarrow> 'b \<Rightarrow> string \<Rightarrow> Server \<times> 'b \<times> string" where
  "serve_bytes upper text_of ops s b input =
     (let received = (case ReadRequest True input of Ok req \<Rightarrow> Ok req | Err e \<Rightarrow> Err (text_of e) | Panic \<Rightarrow> Panic);
          (s', b', resp) = handleRequest upper ops True received s b
      in (s', b', case resp of None \<Rightarrow> [] | Some r \<Rightarrow> WriteResponse r))"

section \<open>Properties\<close>

text \<open>C12: One exchange between the map and the window manager, over the bytes on the socket: the server handles
  exactly the request the map meant, and the map learns exactly the outcome, success when the response says
  so and otherwise a rejection with the server's message; a crash of the server is a read error.\<close>

theorem Send_exchange:
  assumes "wf_command c" "cmd_Command c \<noteq> []" "handleRequest upper ops True (Ok (to_request c)) s b = (s', b', resp)"
    and "pred_option wf_response resp"
  shows "serve_bytes upper text_of ops s b (encode_command c) = (s', b', case resp of None \<Rightarrow> [] | Some r \<Rightarrow> WriteResponse r)
     \<and> Send True True (\<lambda>input. snd (snd (serve_bytes upper text_of ops s b input))) c =
         (case resp of None \<Rightarrow> Err ReadResponseError
          | Some r \<Rightarrow> if resp_OK r then Ok () else Err (Rejection (resp_Message r)))"
proof -
  have r: "ReadRequest True (encode_command c) = Ok (to_request c)" using request_arrives[OF assms(1,2), of True "[]"] by simp
  then have s: "serve_bytes upper text_of ops s b (encode_command c) = (s', b', case resp of None \<Rightarrow> [] | Some r \<Rightarrow> WriteResponse r)"
    using assms(3) by (simp add: serve_bytes_def Let_def)
  have e: "fst (readResponse []) = Err ReadResponseError" by (simp add: readResponse_def ReadSlice_def client_buffer_def)
  show ?thesis using s e assms(4) response_arrives[of "the resp" "[]"]
    by (cases resp) (auto simp: Send_def)
qed

lemma Send_exchange_witness:
  "Send True True (\<lambda>input. snd (snd (serve_bytes (\<lambda>r. r) (\<lambda>_. []) (headless_ops (\<lambda>_. Err [])) new_Server None input))) (command ''PRESENT'')
     = Err (Rejection ''no window; send CREATE first'')"
proof -
  have w: "wf_command (command ''PRESENT'')" "cmd_Command (command ''PRESENT'') \<noteq> []"
    by (simp_all add: wf_command_def command_def utf8_valid_printable printable_def int64_def)
  have "command_of (\<lambda>r. r) (to_request (command ''PRESENT'')) = ''PRESENT''"
    by (simp add: command_of_def to_request_def command_def command_word)
  then have h: "handleRequest (\<lambda>r. r) (headless_ops (\<lambda>_. Err [])) True (Ok (to_request (command ''PRESENT''))) new_Server None
      = (new_Server, None, Some (reply False no_window))"
    by (simp add: handleRequest_def dispatch_def handle_present_def new_Server_def)
  have "length (WriteResponse (reply False no_window)) < 100" by code_simp
  moreover have "utf8_valid no_window" by (simp add: no_window_def utf8_valid_printable printable_def)
  ultimately have r: "pred_option wf_response (Some (reply False no_window))"
    by (simp add: wf_response_def reply_def client_buffer_def)
  show ?thesis using Send_exchange[OF w h r, of "\<lambda>_. []"] by (simp add: reply_def no_window_def)
qed

end
