(* ===== verification/Go_Math.thy ===== *)
theory Go_Math
  imports Go_Float
begin

text \<open>
  The functions of Go's \<^verbatim>\<open>math\<close> that are more than one rounding of a rational result: \<^verbatim>\<open>Sqrt\<close>, which IEEE 754
  requires to be correctly rounded, \<^verbatim>\<open>Abs\<close> and \<^verbatim>\<open>Hypot\<close> (the portable version of the library).
\<close>

section \<open>Integer square root\<close>

fun isqrt :: "nat \<Rightarrow> nat" where
  "isqrt n = (if n = 0 then 0 else let r = 2 * isqrt (n div 4) in if (r + 1) * (r + 1) \<le> n then r + 1 else r)"

declare isqrt.simps [simp del]

lemma isqrt_bounds: "isqrt n * isqrt n \<le> n \<and> n < (isqrt n + 1) * (isqrt n + 1)"
proof (induction n rule: isqrt.induct)
  case (1 n)
  show ?case
  proof (cases "n = 0")
    case False
    let ?q = "isqrt (n div 4)"
    have IH: "?q * ?q \<le> n div 4" "n div 4 < (?q + 1) * (?q + 1)" using 1 False by auto
    have a: "2 * ?q * (2 * ?q) \<le> n"
    proof -
      have "4 * (?q * ?q) \<le> 4 * (n div 4)" using IH(1) by simp
      then show ?thesis by (simp add: algebra_simps)
    qed
    have b: "n < (2 * ?q + 2) * (2 * ?q + 2)"
    proof -
      have "n < 4 * (n div 4 + 1)" by presburger
      also have "\<dots> \<le> 4 * ((?q + 1) * (?q + 1))" using IH(2) by simp
      finally show ?thesis by (simp add: algebra_simps)
    qed
    show ?thesis using a b False by (subst (1 2 3 4) isqrt.simps) (simp add: Let_def not_le)
  qed (simp add: isqrt.simps)
qed

lemma isqrt_le_iff: "j \<le> isqrt n \<longleftrightarrow> j * j \<le> n"
proof
  assume "j \<le> isqrt n"
  then show "j * j \<le> n" using isqrt_bounds[of n] mult_le_mono[of j "isqrt n" j "isqrt n"] by linarith
next
  assume "j * j \<le> n"
  then have "j * j < (isqrt n + 1) * (isqrt n + 1)" using isqrt_bounds[of n] by linarith
  then have "j < isqrt n + 1" by (metis mult_le_mono not_less)
  then show "j \<le> isqrt n" by simp
qed

section \<open>Square root\<close>

text \<open>
  The square root of a positive rational on a grid that is finer than the values around the result and their
  midpoints: the integer square root at that scale, and a half step more when it is not exact. Rounding this
  rational is rounding the square root, since both lie on the same side of every grid point.
\<close>

definition sqrt_scale :: "rat \<Rightarrow> int" where
  "sqrt_scale q = 55 - floor_log2 q div 2"

definition sqrt_grid :: "rat \<Rightarrow> rat" where
  "sqrt_grid q =
     (let k = sqrt_scale q; s = q * 2 powi (2 * k); m = isqrt (nat \<lfloor>s\<rfloor>)
      in (of_nat m + (if of_nat (m * m) = s then 0 else 1 / 2)) / 2 powi k)"

fun f64_Sqrt :: "float64 \<Rightarrow> float64" where
  "f64_Sqrt (Fin q) = (if q < 0 then NaN else if q = 0 then Fin 0 else f64_of_rat False (sqrt_grid q))"
| "f64_Sqrt NegZero = NegZero"
| "f64_Sqrt PosInf = PosInf"
| "f64_Sqrt _ = NaN"

text \<open>On the grid, comparing with the grid value is comparing squares.\<close>

lemma sqrt_grid_compare:
  assumes "0 < q" "x = of_nat j / 2 powi (sqrt_scale q)"
  shows "x \<le> sqrt_grid q \<longleftrightarrow> x * x \<le> q" "sqrt_grid q \<le> x \<longleftrightarrow> q \<le> x * x"
proof -
  let ?k = "sqrt_scale q"
  define s where "s = q * 2 powi (2 * ?k)"
  define m where "m = isqrt (nat \<lfloor>s\<rfloor>)"
  have p: "(2::rat) powi (2 * ?k) = 2 powi ?k * 2 powi ?k" unfolding mult_2 by (rule powi_split)
  have s0: "0 < s" using assms(1) by (simp add: s_def)
  have fl: "of_nat a \<le> s \<longleftrightarrow> a \<le> nat \<lfloor>s\<rfloor>" for a
    using s0 by (simp add: le_nat_iff le_floor_iff)
  have m1: "of_nat (m * m) \<le> s" "s < of_nat ((m + 1) * (m + 1))"
    using fl[of "m * m"] fl[of "(m + 1) * (m + 1)"] isqrt_bounds[of "nat \<lfloor>s\<rfloor>"] unfolding m_def by (meson leD not_le)+
  have xx: "x * x \<le> q \<longleftrightarrow> of_nat (j * j) \<le> s" "q \<le> x * x \<longleftrightarrow> s \<le> of_nat (j * j)"
    unfolding assms(2) s_def p by (simp_all add: divide_le_eq le_divide_eq)
  have jm: "of_nat (j * j) \<le> s \<longleftrightarrow> j \<le> m" unfolding fl m_def isqrt_le_iff ..
  have g: "sqrt_grid q = (of_nat m + (if of_nat (m * m) = s then 0 else 1 / 2)) / 2 powi ?k"
    by (simp add: sqrt_grid_def Let_def s_def m_def)
  have half: "(of_nat j :: rat) \<le> of_nat m + 1 / 2 \<longleftrightarrow> j \<le> m"
  proof
    assume "(of_nat j :: rat) \<le> of_nat m + 1 / 2"
    then have "(of_nat j :: rat) < of_nat (m + 1)" by simp
    then show "j \<le> m" unfolding of_nat_less_iff by simp
  next
    assume "j \<le> m"
    then have "(of_nat j :: rat) \<le> of_nat m" by simp
    then show "(of_nat j :: rat) \<le> of_nat m + 1 / 2" by linarith
  qed
  have half': "(of_nat m :: rat) + 1 / 2 \<le> of_nat j \<longleftrightarrow> m < j"
  proof
    assume "(of_nat m :: rat) + 1 / 2 \<le> of_nat j"
    then have "(of_nat m :: rat) < of_nat j" by linarith
    then show "m < j" by simp
  next
    assume "m < j"
    then have "(of_nat (m + 1) :: rat) \<le> of_nat j" unfolding of_nat_le_iff by simp
    then show "(of_nat m :: rat) + 1 / 2 \<le> of_nat j" by simp
  qed
  have pc: "a / 2 powi ?k \<le> b / 2 powi ?k \<longleftrightarrow> a \<le> b" for a b :: rat
    using pow2_pos[of ?k] by (meson divide_le_cancel order_less_asym)
  have jg: "x \<le> sqrt_grid q \<longleftrightarrow> j \<le> m" unfolding g assms(2) pc using half by simp
  show "x \<le> sqrt_grid q \<longleftrightarrow> x * x \<le> q" unfolding xx(1) jm by (rule jg)
  show "sqrt_grid q \<le> x \<longleftrightarrow> q \<le> x * x"
  proof (cases "of_nat (m * m) = s")
    case True
    have "s \<le> of_nat (j * j) \<longleftrightarrow> m \<le> j"
      unfolding True[symmetric] of_nat_le_iff using power2_nat_le_eq_le[of m j] by (simp add: power2_eq_square)
    then show ?thesis unfolding xx(2) g unfolding assms(2) pc using True by simp
  next
    case False
    have "s \<le> of_nat (j * j) \<longleftrightarrow> m < j"
    proof
      assume a: "s \<le> of_nat (j * j)"
      show "m < j"
      proof (rule ccontr)
        assume "\<not> m < j"
        then have "of_nat (j * j) \<le> s" "j * j \<le> m * m" using jm by (simp_all add: mult_le_mono)
        then have "of_nat (m * m) = s" using a m1(1) by (metis antisym of_nat_le_iff order_trans)
        then show False using False by blast
      qed
    qed (use jm in \<open>simp add: not_le[symmetric]\<close>)
    then show ?thesis unfolding xx(2) g unfolding assms(2) pc using False half' by simp
  qed
qed

text \<open>The integer part of the square root of a moderate integer is its integer square root.\<close>

lemma floor_log2_le: "0 < q \<Longrightarrow> q < 2 powi e \<Longrightarrow> floor_log2 q < e"
proof -
  assume q: "0 < q" "q < 2 powi e"
  then have "2 powi (floor_log2 q) \<le> q" using floor_log2_bounds[of q] by simp
  then have "\<not> (2::rat) powi e \<le> 2 powi (floor_log2 q)" using q(2) by linarith
  then show ?thesis using power_int_increasing[of e "floor_log2 q" "2 :: rat"] by (cases "e \<le> floor_log2 q") auto
qed

lemma grid_of_int:
  assumes "0 < q" "q < 2 ^ 40" "x = of_nat j / 2 ^ 22"
  shows "x \<le> sqrt_grid q \<longleftrightarrow> x * x \<le> q" "sqrt_grid q \<le> x \<longleftrightarrow> q \<le> x * x"
proof -
  have "floor_log2 q < 40" using assms by (intro floor_log2_le) (simp_all add: power_int_def)
  then have k: "22 \<le> sqrt_scale q" by (simp add: sqrt_scale_def)
  have e: "nat (sqrt_scale q) = 22 + nat (sqrt_scale q - 22)" using k by simp
  have "(2::rat) powi (sqrt_scale q) = 2 ^ nat (sqrt_scale q)" using k by (simp add: power_int_def)
  then have "(2::rat) powi (sqrt_scale q) = 2 ^ 22 * 2 ^ nat (sqrt_scale q - 22)"
    unfolding e power_add by simp
  then have "x = of_nat (j * 2 ^ nat (sqrt_scale q - 22)) / 2 powi (sqrt_scale q)"
    using assms(3) by simp
  from sqrt_grid_compare[OF assms(1) this] show "x \<le> sqrt_grid q \<longleftrightarrow> x * x \<le> q" "sqrt_grid q \<le> x \<longleftrightarrow> q \<le> x * x" .
qed

lemma Sqrt_floor:
  assumes "n < 2 ^ 40"
  shows "f64_to_int (f64_Sqrt (Fin (of_nat n))) = Some (int (isqrt n))"
proof (cases "n = 0")
  case True
  then show ?thesis by (simp add: f64_to_int_def f64_trunc_def isqrt.simps)
next
  case False
  let ?s = "isqrt n" and ?g = "sqrt_grid (of_nat n)"
  have b: "?s * ?s \<le> n" "n < (?s + 1) * (?s + 1)" using isqrt_bounds[of n] by simp_all
  have s: "?s < 2 ^ 20"
  proof (rule ccontr)
    assume "\<not> ?s < 2 ^ 20"
    then have "2 ^ 20 * 2 ^ 20 \<le> ?s * ?s" by (intro mult_le_mono) simp_all
    then show False using b(1) assms by simp
  qed
  have q: "(0::rat) < of_nat n" "(of_nat n :: rat) < 2 ^ 40"
    using False assms by (simp_all add: of_nat_less_numeral_power_cancel_iff)
  have lo: "of_nat ?s \<le> ?g"
  proof -
    have "of_nat ?s * of_nat ?s \<le> (of_nat n :: rat)" using b(1) by (metis of_nat_le_iff of_nat_mult)
    then show ?thesis using grid_of_int(1)[OF q, of "of_nat ?s" "?s * 2 ^ 22"] by simp
  qed
  let ?h = "of_nat ((?s + 1) * 2 ^ 22 - 1) / 2 ^ 22 :: rat"
  have h: "?h = of_nat ?s + 1 - 1 / 2 ^ 22"
    by (simp add: of_nat_diff diff_divide_distrib add_divide_distrib)
  have hi: "?g \<le> ?h"
  proof -
    have "n + 1 \<le> (?s + 1) * (?s + 1)" using b(2) by simp
    then have "of_nat (n + 1) \<le> (of_nat ((?s + 1) * (?s + 1)) :: rat)" by (simp only: of_nat_le_iff)
    then have n1: "(of_nat n :: rat) + 1 \<le> (of_nat ?s + 1) * (of_nat ?s + 1)" by (simp only: of_nat_mult of_nat_add of_nat_1)
    have "of_nat (?s + 1) \<le> (of_nat (2 ^ 20) :: rat)" using s by (simp only: of_nat_le_iff)
    then have s1: "(of_nat ?s + 1 :: rat) \<le> 2 ^ 20" by simp
    have "S * S - 1 \<le> (S - 1 / 2 ^ 22) * (S - 1 / 2 ^ 22)" if "S \<le> 2 ^ 20" for S :: rat
      using that by (simp add: left_diff_distrib right_diff_distrib diff_divide_distrib)
    from this[OF s1] have "(of_nat n :: rat) \<le> ?h * ?h" unfolding h using n1 by linarith
    then show ?thesis using grid_of_int(2)[OF q refl] by blast
  qed
  have r1: "of_nat ?s \<le> round_rat ?g"
    using le_round_rat[OF representable_int[of "int ?s"]] lo s by simp
  have r2: "round_rat ?g \<le> ?h"
  proof (rule round_rat_le[OF _ hi])
    have "representable (of_nat M / 2 ^ 22)" if "M < 2 ^ 53" for M
    proof -
      have "(of_nat M / 2 ^ 22 :: rat) = of_int (int M) * 2 powi (- 22)" unfolding power_int_minus divide_inverse by simp
      moreover have "\<bar>int M\<bar> < 2 ^ 53" using that by (simp only: abs_of_nat of_nat_less_numeral_power_cancel_iff)
      moreover have "- 1074 \<le> (- 22 :: int)" by simp
      ultimately show ?thesis unfolding representable_def by blast
    qed
    moreover have "(?s + 1) * 2 ^ 22 - 1 < 2 ^ 53" using s by simp
    ultimately show "representable ?h" .
  qed
  have f: "f64_finite (f64_of_rat False ?g)" "f64_val (f64_of_rat False ?g) = round_rat ?g"
  proof -
    have "\<bar>?g\<bar> \<le> of_int (int (?s + 1))" using lo hi h by (simp add: abs_le_iff)
    then show "f64_finite (f64_of_rat False ?g)" "f64_val (f64_of_rat False ?g) = round_rat ?g"
      using f64_of_rat_in_range[of ?g "int (?s + 1)" False] s by simp_all
  qed
  have "\<lfloor>round_rat ?g\<rfloor> = int ?s" using r1 r2 h by (intro floor_unique) simp_all
  moreover have "0 \<le> round_rat ?g" using r1 by (meson of_nat_0_le_iff order_trans)
  ultimately show ?thesis using f q s by (simp add: f64_to_int_def f64_trunc_def Let_def)
qed

section \<open>Abs and Hypot\<close>

fun f64_Abs :: "float64 \<Rightarrow> float64" where
  "f64_Abs (Fin q) = Fin \<bar>q\<bar>"
| "f64_Abs NegZero = Fin 0"
| "f64_Abs NegInf = PosInf"
| "f64_Abs x = x"

definition f64_Hypot :: "float64 \<Rightarrow> float64 \<Rightarrow> float64" where
  "f64_Hypot p q =
     (let a = f64_Abs p; b = f64_Abs q
      in if a = PosInf \<or> b = PosInf then PosInf
         else if IsNaN a \<or> IsNaN b then NaN
         else let (hi, lo) = (if f64_lt a b then (b, a) else (a, b))
              in if f64_eq hi (Fin 0) then Fin 0
                 else let r = f64_div lo hi in f64_mul hi (f64_Sqrt (f64_add (Fin 1) (f64_mul r r))))"

end
