(* ===== verification/Map_Preview.thy ===== *)
theory Map_Preview
  imports Wm_Protocol Go_Math
begin

text \<open>
  \<^verbatim>\<open>app/map/preview.go\<close>: the software interpreter of the drawing commands. It draws with Go's \<^verbatim>\<open>image/draw\<close>
  where the window manager has loops of its own; the lemmas show that the two agree pixel by pixel.
\<close>

section \<open>image/draw\<close>

text \<open>
  \<^verbatim>\<open>draw.Over\<close> on an RGBA image. All the special cases of the library compute a channel as here: the old byte, times
  the rest of alpha widened to 16 bits, plus the source channel.
\<close>

definition over_channel :: "nat \<Rightarrow> nat \<Rightarrow> 8 word \<Rightarrow> 8 word" where
  "over_channel s sa d = word_of_nat (u32 (u32 (unat d * u32 (u32_sub 65535 sa * 257)) div 65535 + s) div 256)"

definition over_pixel :: "rgba16 \<Rightarrow> RGBA \<Rightarrow> RGBA" where
  "over_pixel src old = (case src of (sr, sg, sb, sa) \<Rightarrow>
     \<lparr>p_r = over_channel sr sa (p_r old), p_g = over_channel sg sa (p_g old), p_b = over_channel sb sa (p_b old), p_a = over_channel sa sa (p_a old)\<rparr>)"

text \<open>\<^verbatim>\<open>draw.Draw\<close> with \<^verbatim>\<open>Over\<close> on the rectangle from \<open>(x0, y0)\<close> up to but without \<open>(x1, y1)\<close>; \<open>src\<close> is the colour for a pixel.\<close>

definition draw_over :: "image \<Rightarrow> int \<Rightarrow> int \<Rightarrow> int \<Rightarrow> int \<Rightarrow> (int \<Rightarrow> int \<Rightarrow> rgba16) \<Rightarrow> image" where
  "draw_over img x0 y0 x1 y1 src =
     for_pixels y0 (y1 - 1) x0 (x1 - 1) (\<lambda>x y img. SetRGBA img x y (over_pixel (src x y) (RGBAAt img x y))) img"

section \<open>RenderPreview\<close>

datatype preview_error = ConfigError map_error | UnexpectedCommand | BeginFrameFirst | BeginFrameOnce | ImageNotWhole
  | PictureFailed string | PictureSize | CircleArguments | CircleOutside | UnsupportedCommand string | PresentMissing

text \<open>
  A circle, row by row. \<open>files\<close> below stands for opening, decoding and closing a PNG file.
\<close>

definition circle_row :: "int \<Rightarrow> int \<Rightarrow> int \<Rightarrow> Color \<Rightarrow> int \<Rightarrow> image \<Rightarrow> image" where
  "circle_row cx cy radius c dy canvas =
     (let dx = f64_int (f64_Sqrt (f64_of_int (radius * radius - dy * dy)))
      in draw_over canvas (max (cx - dx) 0) (max (cy + dy) 0) (min (cx + dx + 1) (Dx canvas)) (min (cy + dy + 1) (Dy canvas))
           (\<lambda>_ _. NRGBA_RGBA c))"

definition preview_circle :: "int \<Rightarrow> int \<Rightarrow> int \<Rightarrow> Color \<Rightarrow> image \<Rightarrow> image" where
  "preview_circle cx cy radius c canvas = fold (circle_row cx cy radius c) [- radius..radius] canvas"

record preview =
  canvas :: image
  started :: bool
  presented :: bool

definition preview_begin :: "Command \<Rightarrow> preview \<Rightarrow> (preview_error, preview) outcome" where
  "preview_begin c p =
     (case cmd_Color c of
        Some col \<Rightarrow> if started p then Err BeginFrameOnce else Ok (p\<lparr>started := True, canvas := fill (canvas p) col\<rparr>)
      | None \<Rightarrow> Err BeginFrameOnce)"

definition preview_image :: "(string \<Rightarrow> (string, picture) outcome) \<Rightarrow> Config \<Rightarrow> Command \<Rightarrow> preview \<Rightarrow> (preview_error, preview) outcome" where
  "preview_image files cfg c p =
     (if cmd_X c \<noteq> Some 0 \<or> cmd_Y c \<noteq> Some 0 \<or> cmd_Width c \<noteq> map_Width cfg \<or> cmd_Height c \<noteq> map_Height cfg then Err ImageNotWhole
      else case files (cmd_ImagePath c) of
             Err e \<Rightarrow> Err (PictureFailed e)
           | Panic \<Rightarrow> Panic
           | Ok pic \<Rightarrow>
               if pic_dx pic \<noteq> map_Width cfg \<or> pic_dy pic \<noteq> map_Height cfg then Err PictureSize
               else Ok (p\<lparr>canvas := draw_over (canvas p) 0 0 (Dx (canvas p)) (Dy (canvas p))
                      (\<lambda>x y. pic_at pic (wrap64 (pic_minX pic + x)) (wrap64 (pic_minY pic + y)))\<rparr>))"

definition preview_draw_circle :: "Config \<Rightarrow> Command \<Rightarrow> preview \<Rightarrow> (preview_error, preview) outcome" where
  "preview_draw_circle cfg c p = (case (cmd_X c, cmd_Y c, cmd_Color c) of
      (Some cx, Some cy, Some col) \<Rightarrow>
        if cmd_Radius c \<le> 0 \<or> 128 < cmd_Radius c then Err CircleArguments
        else if cx < 0 \<or> map_Width cfg \<le> cx \<or> cy < 0 \<or> map_Height cfg \<le> cy then Err CircleOutside
        else Ok (p\<lparr>canvas := preview_circle cx cy (cmd_Radius c) col (canvas p)\<rparr>)
    | _ \<Rightarrow> Err CircleArguments)"

definition preview_step :: "(string \<Rightarrow> (string, picture) outcome) \<Rightarrow> Config \<Rightarrow> Command \<Rightarrow> preview \<Rightarrow> (preview_error, preview) outcome" where
  "preview_step files cfg c p =
     (if cmd_WindowID c \<noteq> ''map'' \<or> presented p then Err UnexpectedCommand
      else if cmd_Command c \<noteq> ''BEGIN_FRAME'' \<and> \<not> started p then Err BeginFrameFirst
      else if cmd_Command c = ''BEGIN_FRAME'' then preview_begin c p
      else if cmd_Command c = ''DRAW_IMAGE'' then preview_image files cfg c p
      else if cmd_Command c = ''DRAW_CIRCLE'' then preview_draw_circle cfg c p
      else if cmd_Command c = ''PRESENT'' then Ok (p\<lparr>presented := True\<rparr>)
      else Err (UnsupportedCommand (cmd_Command c)))"

fun preview_loop :: "(string \<Rightarrow> (string, picture) outcome) \<Rightarrow> Config \<Rightarrow> Command list \<Rightarrow> preview \<Rightarrow> (preview_error, preview) outcome" where
  "preview_loop files cfg [] p = Ok p"
| "preview_loop files cfg (c # cs) p = obind (preview_step files cfg c p) (preview_loop files cfg cs)"

definition RenderPreview :: "(string \<Rightarrow> (string, picture) outcome) \<Rightarrow> Config \<Rightarrow> Command list \<Rightarrow> (preview_error, image) outcome" where
  "RenderPreview files cfg commands = (case Validate cfg of
      Err e \<Rightarrow> Err (ConfigError e)
    | Panic \<Rightarrow> Panic
    | Ok _ \<Rightarrow>
        obind (NewRGBA (map_Width cfg) (map_Height cfg)) (\<lambda>img.
        obind (preview_loop files cfg commands \<lparr>canvas = img, started = False, presented = False\<rparr>) (\<lambda>p.
          if \<not> presented p then Err PresentMissing else Ok (canvas p))))"

section \<open>image/draw and the window manager agree\<close>

lemma over_channel_blend:
  assumes "s \<le> sa" "sa \<le> 65535"
  shows "over_channel s sa d = byte (blend_channel s (widen d) sa)"
proof -
  have sub: "u32_sub 65535 sa = 65535 - sa" using assms by (simp add: u32_sub_def u32_def mod_if)
  have w: "widen d = unat d * 257" by (simp add: widen_def)
  have a: "u32 ((65535 - sa) * 257) = (65535 - sa) * 257" by (intro u32_id) simp
  have e: "unat d * ((65535 - sa) * 257) = widen d * (65535 - sa)" by (simp add: w)
  have "widen d * (65535 - sa) \<le> 65535 * 65535" using widen_le[of d] by (intro mult_le_mono) simp_all
  then have m: "u32 (unat d * ((65535 - sa) * 257)) = widen d * (65535 - sa)" unfolding e by (intro u32_id) simp
  note b = blend_channel_bound[OF assms(1) widen_le assms(2), of d]
  have "u32 (widen d * (65535 - sa) div 65535 + s) = blend_channel s (widen d) sa"
    using b by (simp add: add.commute)
  then show ?thesis unfolding over_channel_def sub a m byte_def by simp
qed

lemma over_pixel_blend: "valid16 src \<Longrightarrow> over_pixel src old = blend_pixel src old"
proof -
  assume v: "valid16 src"
  obtain sr sg sb sa where src: "src = (sr, sg, sb, sa)" by (cases src)
  have c: "over_channel s sa d = byte (blend_channel s (widen d) sa)" if "s \<le> sa" for s d
    using over_channel_blend[OF that] v src by simp
  show ?thesis
  proof (cases "sa = 0")
    case True
    have z: "blend_channel 0 (widen d) 0 = widen d" for d using blend_channel_bound(1)[of 0 0 "widen d"] widen_le[of d] by simp
    have "over_channel 0 0 d = d" for d using c[of 0 d] z[of d] True by simp
    then show ?thesis using True v by (simp add: src over_pixel_def blend_pixel_def)
  next
    case False
    have "blend_channel sa (widen d) sa \<noteq> 0" for d
      using blend_channel_bound(1)[of sa sa "widen d"] widen_le[of d] v False src by simp
    from this[of "p_a old"] show ?thesis using False v by (simp add: src over_pixel_def blend_pixel_def RGBA_RGBA_def to_RGBA_def c)
  qed
qed

lemma over_loop:
  assumes "\<And>x y. valid16 (src x y)"
  shows "pixel_loop (\<lambda>x y img. SetRGBA img x y (over_pixel (src x y) (RGBAAt img x y))) (\<lambda>x y old. blend_pixel (src x y) old)"
  using assms
  by unfold_locales (auto simp: SetRGBA_at over_pixel_blend intro!: SetRGBA_wf blend_pixel_premultiplied RGBAAt_premultiplied)

lemma draw_over_at:
  assumes "wf_image img" "\<And>x y. valid16 (src x y)"
  shows "RGBAAt (draw_over img x0 y0 x1 y1 src) x y =
      (if x0 \<le> x \<and> x < x1 \<and> y0 \<le> y \<and> y < y1 \<and> in_bounds img x y then blend_pixel (src x y) (RGBAAt img x y) else RGBAAt img x y)"
    "wf_image (draw_over img x0 y0 x1 y1 src)" "Dx (draw_over img x0 y0 x1 y1 src) = Dx img" "Dy (draw_over img x0 y0 x1 y1 src) = Dy img"
  using pixel_loop.for_pixels_at[OF over_loop[of src] assms(1)] pixel_loop.for_pixels_wf[OF over_loop[of src] assms(1)]
    pixel_loop.for_pixels_dims[OF over_loop[of src] assms(1)] assms(2)
  by (auto simp: draw_over_def)

text \<open>The half width of a row is the integer square root: the pixels of the row are those of the disc.\<close>

lemma row_width:
  assumes "0 < r" "r \<le> 128" "\<bar>dy\<bar> \<le> r"
  shows "\<bar>a\<bar> \<le> f64_int (f64_Sqrt (f64_of_int (r * r - dy * dy))) \<longleftrightarrow> a * a + dy * dy \<le> r * r"
proof -
  have d: "0 \<le> r * r - dy * dy" using assms abs_le_square_iff[of dy r] by (simp add: power2_eq_square)
  define n where "n = nat (r * r - dy * dy)"
  have n: "r * r - dy * dy = int n" using d by (simp add: n_def)
  have "r * r \<le> 128 * 128" using assms by (intro mult_mono) simp_all
  then have le: "n \<le> 16384" using n zero_le_square[of dy] by linarith
  have "f64_of_int (int n) = Fin (of_nat n)"
    using f64_of_int_exact[of "int n"] le by (simp add: f64_of_int_def f64_of_rat_def Let_def split: if_splits)
  then have w: "f64_int (f64_Sqrt (f64_of_int (r * r - dy * dy))) = int (isqrt n)"
    using Sqrt_floor[of n] le unfolding n by (simp add: f64_int_def)
  have "\<bar>a\<bar> \<le> int (isqrt n) \<longleftrightarrow> nat \<bar>a\<bar> \<le> isqrt n" by linarith
  also have "\<dots> \<longleftrightarrow> nat \<bar>a\<bar> * nat \<bar>a\<bar> \<le> n" by (rule isqrt_le_iff)
  also have "\<dots> \<longleftrightarrow> a * a \<le> int n"
  proof -
    have "int (nat \<bar>a\<bar> * nat \<bar>a\<bar>) = a * a" by simp
    then show ?thesis by (metis of_nat_le_iff)
  qed
  finally show ?thesis unfolding w n[symmetric] by (simp add: algebra_simps)
qed

lemma circle_row_at:
  assumes "wf_image img" "0 < r" "r \<le> 128" "\<bar>dy\<bar> \<le> r"
  shows "RGBAAt (circle_row cx cy r c dy img) x y =
      (if y = cy + dy \<and> (x - cx) * (x - cx) + dy * dy \<le> r * r \<and> in_bounds img x y
       then blend_pixel (NRGBA_RGBA c) (RGBAAt img x y) else RGBAAt img x y)"
    "wf_image (circle_row cx cy r c dy img)" "Dx (circle_row cx cy r c dy img) = Dx img" "Dy (circle_row cx cy r c dy img) = Dy img"
proof -
  note w = row_width[OF assms(2-4), of "x - cx"]
  note o = draw_over_at[OF assms(1), of "\<lambda>_ _. NRGBA_RGBA c", OF NRGBA_valid]
  show "RGBAAt (circle_row cx cy r c dy img) x y =
      (if y = cy + dy \<and> (x - cx) * (x - cx) + dy * dy \<le> r * r \<and> in_bounds img x y
       then blend_pixel (NRGBA_RGBA c) (RGBAAt img x y) else RGBAAt img x y)"
    unfolding circle_row_def Let_def o(1) w[symmetric] by (auto simp: in_bounds_def)
  show "wf_image (circle_row cx cy r c dy img)" "Dx (circle_row cx cy r c dy img) = Dx img" "Dy (circle_row cx cy r c dy img) = Dy img"
    using o by (simp_all add: circle_row_def Let_def)
qed

lemma circle_rows:
  assumes "wf_image img" "0 < r" "r \<le> 128" "distinct ds" "\<forall>dy \<in> set ds. \<bar>dy\<bar> \<le> r"
  shows "wf_image (fold (circle_row cx cy r c) ds img) \<and> Dx (fold (circle_row cx cy r c) ds img) = Dx img
    \<and> Dy (fold (circle_row cx cy r c) ds img) = Dy img
    \<and> RGBAAt (fold (circle_row cx cy r c) ds img) x y =
        (if y - cy \<in> set ds \<and> (x - cx) * (x - cx) + (y - cy) * (y - cy) \<le> r * r \<and> in_bounds img x y
         then blend_pixel (NRGBA_RGBA c) (RGBAAt img x y) else RGBAAt img x y)"
  using assms(1,4,5)
proof (induction ds arbitrary: img)
  case (Cons d ds)
  let ?i = "circle_row cx cy r c d img"
  have d: "\<bar>d\<bar> \<le> r" using Cons.prems(3) by simp
  note o = circle_row_at[OF Cons.prems(1) assms(2,3) d]
  have b: "in_bounds ?i x y = in_bounds img x y" using o by (simp add: in_bounds_def)
  show ?case using Cons.IH[of ?i] Cons.prems o b by auto
qed simp

lemma preview_circle_at:
  assumes "wf_image img" "0 < r" "r \<le> 128"
  shows "RGBAAt (preview_circle cx cy r c img) x y =
      (if in_bounds img x y \<and> (x - cx) * (x - cx) + (y - cy) * (y - cy) \<le> r * r
       then blend_pixel (NRGBA_RGBA c) (RGBAAt img x y) else RGBAAt img x y)"
    "wf_image (preview_circle cx cy r c img)" "Dx (preview_circle cx cy r c img) = Dx img" "Dy (preview_circle cx cy r c img) = Dy img"
proof -
  have r: "distinct [- r..r]" "\<forall>dy \<in> set [- r..r]. \<bar>dy\<bar> \<le> r" by auto
  have "y - cy \<in> {- r..r}" if "(x - cx) * (x - cx) + (y - cy) * (y - cy) \<le> r * r"
    using in_disc_box[of "y - cy" "x - cx" r] that assms(2) by (simp add: add.commute)
  then show "RGBAAt (preview_circle cx cy r c img) x y =
      (if in_bounds img x y \<and> (x - cx) * (x - cx) + (y - cy) * (y - cy) \<le> r * r
       then blend_pixel (NRGBA_RGBA c) (RGBAAt img x y) else RGBAAt img x y)"
    using circle_rows[OF assms r, of cx cy c x y] by (auto simp: preview_circle_def)
  show "wf_image (preview_circle cx cy r c img)" "Dx (preview_circle cx cy r c img) = Dx img" "Dy (preview_circle cx cy r c img) = Dy img"
    using circle_rows[OF assms r, of cx cy c x y] by (auto simp: preview_circle_def)
qed

section \<open>The commands on a headless window\<close>

text \<open>A window of the size of the map; between commands its back buffer is the canvas of the preview.\<close>

definition previewed :: "window \<Rightarrow> preview \<Rightarrow> bool" where
  "previewed w p \<longleftrightarrow> wf_window w \<and> \<not> window.closed w \<and> Dx (back_buf w) = 960 \<and> Dy (back_buf w) = 640
     \<and> wf_image (canvas p) \<and> Dx (canvas p) = 960 \<and> Dy (canvas p) = 640
     \<and> (started p \<longrightarrow> back_buf w = canvas p) \<and> (presented p \<longrightarrow> started p \<and> front_buf w = canvas p)"

lemma begin_shows:
  assumes "previewed w p" "\<not> presented p" "preview_begin c p = Ok p'"
  shows "\<exists>col. cmd_Color c = Some col \<and> previewed (fst (BeginFrame col w)) p' \<and> snd (BeginFrame col w) = Ok ()"
proof -
  obtain col where col: "cmd_Color c = Some col" "p' = p\<lparr>started := True, canvas := fill (canvas p) col\<rparr>"
    using assms(3) by (auto simp: preview_begin_def split: option.splits if_splits)
  have w: "wf_image (back_buf w)" "wf_image (canvas p)" using assms(1) by (simp_all add: previewed_def wf_window_def)
  have "fill (back_buf w) col = fill (canvas p) col"
    using assms(1) w fill_dims by (intro image_eqI fill_wf) (auto simp: previewed_def fill_at in_bounds_def)
  then show ?thesis using col assms(1,2) w fill_dims[OF w(2)] BeginFrame_wf[of w col]
    by (auto simp: previewed_def BeginFrame_def fill_wf)
qed

lemma circle_shows:
  assumes "previewed w p" "started p" "\<not> presented p" "preview_draw_circle cfg c p = Ok p'" "map_Width cfg = 960" "map_Height cfg = 640"
  shows "\<exists>x y col. cmd_X c = Some x \<and> cmd_Y c = Some y \<and> cmd_Color c = Some col \<and> 0 < cmd_Radius c
     \<and> previewed (fst (DrawCircle x y (cmd_Radius c) col w)) p' \<and> snd (DrawCircle x y (cmd_Radius c) col w) = Ok ()"
proof -
  obtain x y col where c: "cmd_X c = Some x" "cmd_Y c = Some y" "cmd_Color c = Some col" "0 < cmd_Radius c" "cmd_Radius c \<le> 128"
      "0 \<le> x" "x < 960" "0 \<le> y" "y < 640" "p' = p\<lparr>canvas := preview_circle x y (cmd_Radius c) col (canvas p)\<rparr>"
    using assms(4-6) by (auto simp: preview_draw_circle_def split: option.splits if_splits)
  let ?w = "fst (DrawCircle x y (cmd_Radius c) col w)"
  have b: "back_buf w = canvas p" "wf_window w" "\<not> window.closed w" "wf_image (canvas p)" "Dx (canvas p) = 960" "Dy (canvas p) = 640"
    using assms(1,2) by (simp_all add: previewed_def)
  note pc = preview_circle_at[OF b(4) c(4,5), of x y col]
  have wf: "wf_window ?w" using DrawCircle_wf[OF b(2)] .
  have dims: "Dx (back_buf ?w) = 960" "Dy (back_buf ?w) = 640"
    using b c(4) circle_loop.for_pixels_dims[OF b(4)] by (simp_all add: DrawCircle_def Let_def)
  have "back_buf ?w = preview_circle x y (cmd_Radius c) col (canvas p)"
  proof (rule image_eqI)
    fix px py
    show "RGBAAt (back_buf ?w) px py = RGBAAt (preview_circle x y (cmd_Radius c) col (canvas p)) px py"
      unfolding pc(1) using circle_at[OF b(2,3) c(4), of x y col px py] c b by (simp add: small_def)
  qed (use wf dims pc b in \<open>simp_all add: wf_window_def\<close>)
  then have "previewed ?w p'" using wf dims pc b assms(2,3) c(4,10) by (auto simp: previewed_def DrawCircle_def Let_def)
  then show ?thesis using c(1-4) b(3) by (simp add: DrawCircle_def Let_def)
qed

lemma image_shows:
  assumes "previewed w p" "started p" "\<not> presented p" "preview_image files cfg c p = Ok p'" "map_Width cfg = 960" "map_Height cfg = 640"
    and "valid_files files" "cmd_ImagePath c \<noteq> []"
  shows "cmd_X c = Some 0 \<and> cmd_Y c = Some 0 \<and> cmd_Width c = 960 \<and> cmd_Height c = 640
     \<and> previewed (fst (DrawImage files (cmd_ImagePath c) 0 0 960 640 w)) p' \<and> snd (DrawImage files (cmd_ImagePath c) 0 0 960 640 w) = Ok ()"
proof -
  obtain pic where c: "cmd_X c = Some 0" "cmd_Y c = Some 0" "cmd_Width c = 960" "cmd_Height c = 640" "files (cmd_ImagePath c) = Ok pic"
      "pic_dx pic = 960" "pic_dy pic = 640"
      "p' = p\<lparr>canvas := draw_over (canvas p) 0 0 (Dx (canvas p)) (Dy (canvas p))
              (\<lambda>x y. pic_at pic (wrap64 (pic_minX pic + x)) (wrap64 (pic_minY pic + y)))\<rparr>"
    using assms(4-6) by (auto simp: preview_image_def split: outcome.splits if_splits)
  have b: "back_buf w = canvas p" "wf_window w" "\<not> window.closed w" "wf_image (canvas p)" "Dx (canvas p) = 960" "Dy (canvas p) = 640"
    using assms(1,2) by (simp_all add: previewed_def)
  have v: "valid_picture pic" using assms(7) c(5) by (auto simp: valid_files_def)
  let ?src = "\<lambda>x y. pic_at pic (wrap64 (pic_minX pic + x)) (wrap64 (pic_minY pic + y))"
  let ?w = "fst (DrawImage files (cmd_ImagePath c) 0 0 960 640 w)"
  note o = draw_over_at[OF b(4), of ?src 0 0 960 640] 
  have vs: "valid16 (?src x y)" for x y using v by (simp add: valid_picture_def)
  have s: "quot (wrap64 (wrap64 (x - 0) * 960)) 960 = x" "quot (wrap64 (wrap64 (y - 0) * 640)) 640 = y"
    if "0 \<le> x" "x < 960" "0 \<le> y" "y < 640" for x y
    using that wrap64_nonneg[of x] wrap64_nonneg[of "x * 960"] wrap64_nonneg[of y] wrap64_nonneg[of "y * 640"]
    by (simp_all add: quot_nonneg)
  have w1: "wrap64 (0 + 960) = 960" "wrap64 (0 + 640) = 640" using wrap64_nonneg[of 960] wrap64_nonneg[of 640] by simp_all
  have e: "back_buf ?w = for_pixels 0 639 0 959 (\<lambda>px py img. blend img px py (pic_at pic
      (wrap64 (pic_minX pic + quot (wrap64 (wrap64 (px - 0) * 960)) 960)) (wrap64 (pic_minY pic + quot (wrap64 (wrap64 (py - 0) * 640)) 640)))) (canvas p)"
    using b c assms(8) w1 by (simp add: DrawImage_def Let_def)
  note lp = image_loop[OF v, of "\<lambda>px py. wrap64 (pic_minX pic + quot (wrap64 (wrap64 (px - 0) * 960)) 960)"
      "\<lambda>px py. wrap64 (pic_minY pic + quot (wrap64 (wrap64 (py - 0) * 640)) 640)"]
  have wf: "wf_window ?w" using DrawImage_wf[OF assms(7) b(2)] .
  have dims: "Dx (back_buf ?w) = 960" "Dy (back_buf ?w) = 640" unfolding e using pixel_loop.for_pixels_dims[OF lp b(4)] b by simp_all
  have "back_buf ?w = draw_over (canvas p) 0 0 960 640 ?src"
  proof (rule image_eqI)
    fix x y assume i: "in_bounds (back_buf ?w) x y"
    then have xy: "0 \<le> x" "x < 960" "0 \<le> y" "y < 640" using dims by (simp_all add: in_bounds_def)
    show "RGBAAt (back_buf ?w) x y = RGBAAt (draw_over (canvas p) 0 0 960 640 ?src) x y"
      unfolding e pixel_loop.for_pixels_at[OF lp b(4)] o(1)[OF vs] s[OF xy] using xy by simp
  qed (use wf dims o vs b in \<open>simp_all add: wf_window_def\<close>)
  then have "previewed ?w p'" using wf dims o vs b assms(2,3,8) c by (auto simp: previewed_def DrawImage_def Let_def)
  then show ?thesis using c b(3) assms(8) by (simp add: DrawImage_def Let_def)
qed

end
