(* ===== verification/Go_Path.thy ===== *)
theory Go_Path
  imports Tac_Prelude
begin

text \<open>
  \<^verbatim>\<open>path/filepath\<close> on Unix, as far as the program uses it: \<^verbatim>\<open>Clean\<close>, \<^verbatim>\<open>Dir\<close>, \<^verbatim>\<open>Join\<close>, \<^verbatim>\<open>IsAbs\<close> and \<^verbatim>\<open>Abs\<close>. The reference is the
  walk through the directories that a path names: from a position, given by the names on the way from the root, each
  component goes down or, for two dots, up. What the functions compute is shown to be that walk.
\<close>

section \<open>Components\<close>

fun split_slash :: "string \<Rightarrow> string list" where
  "split_slash [] = [[]]"
| "split_slash (c # cs) =
     (if c = CHR ''/'' then [] # split_slash cs
      else case split_slash cs of [] \<Rightarrow> [[c]] | w # ws \<Rightarrow> (c # w) # ws)"

fun join_slash :: "string list \<Rightarrow> string" where
  "join_slash [] = []"
| "join_slash [w] = w"
| "join_slash (w # ws) = w @ CHR ''/'' # join_slash ws"

text \<open>One component of the loop of \<^verbatim>\<open>Clean\<close>; \<open>out\<close> are the components that have been kept.\<close>

definition clean_step :: "bool \<Rightarrow> string list \<Rightarrow> string \<Rightarrow> string list" where
  "clean_step rooted out w =
     (if w = [] \<or> w = ''.'' then out
      else if w = ''..'' then
        (if out \<noteq> [] \<and> last out \<noteq> ''..'' then butlast out else if rooted then out else out @ [w])
      else out @ [w])"

definition IsAbs :: "string \<Rightarrow> bool" where
  "IsAbs p \<longleftrightarrow> p \<noteq> [] \<and> hd p = CHR ''/''"

definition Clean :: "string \<Rightarrow> string" where
  "Clean p =
     (let out = foldl (clean_step (IsAbs p)) [] (split_slash p)
      in if IsAbs p then CHR ''/'' # join_slash out else if out = [] then ''.'' else join_slash out)"

definition dir_part :: "string \<Rightarrow> string" where
  "dir_part p = rev (dropWhile (\<lambda>c. c \<noteq> CHR ''/'') (rev p))"

definition Dir :: "string \<Rightarrow> string" where
  "Dir p = Clean (dir_part p)"

definition Join :: "string \<Rightarrow> string \<Rightarrow> string" where
  "Join a b = (if a \<noteq> [] then Clean (a @ CHR ''/'' # b) else if b \<noteq> [] then Clean b else [])"

text \<open>\<open>wd\<close> is what \<^verbatim>\<open>os.Getwd\<close> returns.\<close>

definition Abs :: "(string, string) outcome \<Rightarrow> string \<Rightarrow> (string, string) outcome" where
  "Abs wd p = (if IsAbs p then Ok (Clean p) else obind wd (\<lambda>d. Ok (Join d p)))"

lemma IsAbs_simps [simp]: "\<not> IsAbs []" "IsAbs (c # cs) \<longleftrightarrow> c = CHR ''/''"
  by (simp_all add: IsAbs_def)

lemma IsAbs_append [simp]: "a \<noteq> [] \<Longrightarrow> IsAbs (a @ b) = IsAbs a"
  by (cases a) simp_all

section \<open>The walk\<close>

definition walk :: "string list \<Rightarrow> string \<Rightarrow> string list" where
  "walk pos p = foldl (clean_step True) (if IsAbs p then [] else pos) (split_slash p)"

definition path_to :: "string list \<Rightarrow> string" where
  "path_to pos = CHR ''/'' # join_slash pos"

definition dir_name :: "string \<Rightarrow> bool" where
  "dir_name w \<longleftrightarrow> w \<noteq> [] \<and> w \<noteq> ''.'' \<and> w \<noteq> ''..'' \<and> CHR ''/'' \<notin> set w"

lemma split_slash_not_Nil [simp]: "split_slash s \<noteq> []"
  by (cases s) (auto split: list.splits)

lemma split_slash_no_slash: "w \<in> set (split_slash s) \<Longrightarrow> CHR ''/'' \<notin> set w"
proof (induction s arbitrary: w)
  case (Cons c s)
  then show ?case by (cases "split_slash s") (auto split: if_splits)
qed simp

lemma split_slash_append: "split_slash (a @ CHR ''/'' # b) = split_slash a @ split_slash b"
  by (induction a) (auto split: list.splits)

lemma split_slash_word: "CHR ''/'' \<notin> set w \<Longrightarrow> split_slash w = [w]"
  by (induction w) auto

lemma split_join: "list_all (\<lambda>w. CHR ''/'' \<notin> set w) ws \<Longrightarrow> ws \<noteq> [] \<Longrightarrow> split_slash (join_slash ws) = ws"
  by (induction ws rule: join_slash.induct) (auto simp: split_slash_word split_slash_append)

lemma split_path_to: "list_all dir_name pos \<Longrightarrow> split_slash (path_to pos) = [] # (if pos = [] then [[]] else pos)"
  by (auto simp: path_to_def split_join dir_name_def list_all_iff)

text \<open>What is kept on the way of a relative path: names, and two dots before them.\<close>

definition kept :: "string \<Rightarrow> bool" where
  "kept w \<longleftrightarrow> w \<noteq> [] \<and> w \<noteq> ''.'' \<and> CHR ''/'' \<notin> set w"

lemma list_all_butlast: "list_all P xs \<Longrightarrow> list_all P (butlast xs)"
  by (induction xs) auto

lemma clean_step_kept:
  "CHR ''/'' \<notin> set w \<Longrightarrow> list_all kept out \<Longrightarrow> list_all kept (clean_step r out w)"
  "CHR ''/'' \<notin> set w \<Longrightarrow> list_all dir_name out \<Longrightarrow> list_all dir_name (clean_step True out w)"
  by (simp_all add: clean_step_def list_all_butlast) (simp_all add: kept_def dir_name_def)

lemma kept_foldl:
  "list_all (\<lambda>w. CHR ''/'' \<notin> set w) ws \<Longrightarrow> list_all kept out \<Longrightarrow> list_all kept (foldl (clean_step r) out ws)"
  by (induction ws arbitrary: out) (simp_all add: clean_step_kept)

lemma names_foldl:
  "list_all (\<lambda>w. CHR ''/'' \<notin> set w) ws \<Longrightarrow> list_all dir_name out \<Longrightarrow> list_all dir_name (foldl (clean_step True) out ws)"
  by (induction ws arbitrary: out) (simp_all add: clean_step_kept)

lemma join_kept: "list_all kept ws \<Longrightarrow> \<not> IsAbs (join_slash ws)" "list_all kept ws \<Longrightarrow> ws \<noteq> [] \<Longrightarrow> join_slash ws \<noteq> []"
proof -
  have h: "w \<noteq> [] \<and> \<not> IsAbs w" if "kept w" for w using that by (cases w) (auto simp: kept_def)
  then show "list_all kept ws \<Longrightarrow> \<not> IsAbs (join_slash ws)" "list_all kept ws \<Longrightarrow> ws \<noteq> [] \<Longrightarrow> join_slash ws \<noteq> []"
    by (cases ws rule: join_slash.cases; force)+
qed

lemma split_no_slash: "list_all (\<lambda>w. CHR ''/'' \<notin> set w) (split_slash s)"
  using split_slash_no_slash by (auto simp: list_all_iff)

lemma walk_names: "list_all dir_name pos \<Longrightarrow> list_all dir_name (walk pos p)"
  by (simp add: walk_def names_foldl split_no_slash)

text \<open>Cleaning a relative path does not change where it leads.\<close>

lemma clean_step_walk:
  assumes "list_all kept out"
  shows "foldl (clean_step True) pos (clean_step False out w) = clean_step True (foldl (clean_step True) pos out) w"
proof (cases "w = ''..'' \<and> out \<noteq> [] \<and> last out \<noteq> ''..''")
  case True
  then obtain xs n where out: "out = xs @ [n]" "n \<noteq> ''..''" by (metis append_butlast_last_id)
  then show ?thesis using True assms by (simp add: clean_step_def kept_def)
next
  case False
  then show ?thesis by (auto simp: clean_step_def)
qed

lemma foldl_clean_walk:
  "list_all (\<lambda>w. CHR ''/'' \<notin> set w) ws \<Longrightarrow> list_all kept out \<Longrightarrow>
   foldl (clean_step True) pos (foldl (clean_step False) out ws) = foldl (clean_step True) (foldl (clean_step True) pos out) ws"
proof (induction ws arbitrary: out)
  case (Cons w ws)
  have "list_all kept (clean_step False out w)" using kept_foldl[of "[w]" out False] Cons.prems by simp
  then show ?case using Cons clean_step_walk[OF Cons.prems(2)] by simp
qed simp

lemma foldl_names: "list_all dir_name ws \<Longrightarrow> foldl (clean_step True) pos ws = pos @ ws"
  by (induction ws arbitrary: pos) (auto simp: clean_step_def dir_name_def)

lemma walk_path_to: "list_all dir_name pos \<Longrightarrow> walk q (path_to pos) = pos"
  by (simp add: walk_def split_path_to IsAbs_def foldl_names) (simp add: path_to_def clean_step_def foldl_names)

lemma Clean_abs: "IsAbs p \<Longrightarrow> Clean p = path_to (walk pos p)"
  by (simp add: Clean_def walk_def path_to_def Let_def)

lemma walk_Clean: "walk pos (Clean p) = walk pos p"
proof (cases "IsAbs p")
  case True
  have "list_all dir_name (walk [] p)" by (simp add: walk_names)
  then show ?thesis using walk_path_to Clean_abs[OF True, of "[]"] True by (simp add: walk_def)
next
  case False
  let ?out = "foldl (clean_step False) [] (split_slash p)"
  have k: "list_all kept ?out" by (simp add: kept_foldl split_no_slash)
  have f: "foldl (clean_step True) pos ?out = walk pos p"
    using foldl_clean_walk[OF split_no_slash[of p], of "[]" pos] False by (simp add: walk_def)
  show ?thesis
  proof (cases "?out = []")
    case True
    then show ?thesis using f False by (simp add: Clean_def Let_def walk_def clean_step_def)
  next
    case out: False
    have "split_slash (join_slash ?out) = ?out" using k out by (intro split_join) (auto simp: kept_def list_all_iff)
    then show ?thesis using f out join_kept(1)[OF k] False by (simp add: Clean_def Let_def walk_def)
  qed
qed

lemma walk_join: "a \<noteq> [] \<Longrightarrow> \<not> IsAbs b \<Longrightarrow> walk pos (a @ CHR ''/'' # b) = walk (walk pos a) b"
  by (simp add: walk_def split_slash_append)

lemma Join_abs: "IsAbs a \<Longrightarrow> \<not> IsAbs b \<Longrightarrow> Join a b = path_to (walk (walk [] a) b)"
  using Clean_abs[of "a @ CHR ''/'' # b" "[]"] walk_join[of a b "[]"] by (cases a) (simp_all add: Join_def)

lemma IsAbs_Clean: "IsAbs (Clean p) = IsAbs p"
  using join_kept(1)[OF kept_foldl[OF split_no_slash[of p]], of "[]" False] by (simp add: Clean_def Let_def)

lemma Clean_not_Nil [simp]: "Clean p \<noteq> []"
  using join_kept(2)[OF kept_foldl[OF split_no_slash[of p]], of "[]" False] by (simp add: Clean_def Let_def)

text \<open>A file next to another one, and the absolute form of a path.\<close>

lemma Abs_walk: "IsAbs p \<or> (\<exists>d. wd = Ok d \<and> IsAbs d) \<Longrightarrow>
   Abs wd p = Ok (path_to (walk (case wd of Ok d \<Rightarrow> walk [] d | _ \<Rightarrow> []) p))"
  by (cases "IsAbs p") (auto simp: Abs_def Clean_abs[symmetric] Join_abs)

lemma walk_Join: "a \<noteq> [] \<Longrightarrow> \<not> IsAbs b \<Longrightarrow> walk pos (Join a b) = walk (walk pos a) b"
  by (simp add: Join_def walk_Clean walk_join)

lemma IsAbs_Join: "a \<noteq> [] \<Longrightarrow> IsAbs (Join a b) = IsAbs a"
  by (simp add: Join_def IsAbs_Clean)

end
