(* ===== verification/Go_Fixed.thy ===== *)
theory Go_Fixed
  imports Go_Format
begin

text \<open>
  \<^verbatim>\<open>fmt\<close> with a fixed number of decimals, as in \<^verbatim>\<open>%.4f\<close> and \<^verbatim>\<open>%+.1f\<close>: the exact decimal value is rounded half to even, the
  sign is printed for negative values and negative zero, and for all values under \<^verbatim>\<open>+\<close>.
\<close>

primrec pad_digits :: "nat \<Rightarrow> nat \<Rightarrow> string" where
  "pad_digits 0 n = []"
| "pad_digits (Suc k) n = pad_digits k (n div 10) @ [digit_char (n mod 10)]"

definition fixed_digits :: "nat \<Rightarrow> rat \<Rightarrow> nat" where
  "fixed_digits k q = nat (round_even (\<bar>q\<bar> * 10 ^ k))"

definition FormatFixed :: "bool \<Rightarrow> nat \<Rightarrow> float64 \<Rightarrow> string" where
  "FormatFixed pl k x =
     (if x = NaN then (if pl then ''+NaN'' else ''NaN'')
      else if x = PosInf then ''+Inf'' else if x = NegInf then ''-Inf''
      else let n = fixed_digits k (f64_val x)
           in (if f64_neg x then ''-'' else if pl then ''+'' else [])
              @ nat_digits (n div 10 ^ k) @ (if k = 0 then [] else CHR ''.'' # pad_digits k (n mod 10 ^ k)))"

lemma round_even_close: "\<bar>of_int (round_even q) - q\<bar> \<le> 1 / 2"
  unfolding round_even_def Let_def using floor_correct[of q] by (auto simp: abs_le_iff)

lemma pad_digits_props: "length (pad_digits k n) = k" "list_all is_digit (pad_digits k n)" "dec_val (pad_digits k n) = n mod 10 ^ k"
proof (induction k arbitrary: n)
  case (Suc k)
  { case 1 show ?case using Suc by simp }
  { case 2 show ?case using Suc digit_char_props[of "n mod 10"] by simp }
  { case 3 show ?case using Suc digit_char_props[of "n mod 10"]
      by (simp add: dec_val_snoc) (metis mod_mult2_eq add.commute mult.commute) }
qed (simp_all add: dec_val_def)

text \<open>What is printed reads as a number within half a unit of the last place.\<close>

lemma fixed_reads:
  assumes "f64_finite x" "0 < k"
  shows "\<exists>sg ip fp. FormatFixed pl k x = sg @ ip @ CHR ''.'' # fp \<and> sg = (if f64_neg x then ''-'' else if pl then ''+'' else [])
     \<and> ip \<noteq> [] \<and> list_all is_digit ip \<and> length fp = k \<and> list_all is_digit fp
     \<and> \<bar>decimal_rat (f64_neg x) ip fp - f64_val x\<bar> \<le> 1 / (2 * 10 ^ k)"
proof -
  let ?n = "fixed_digits k (f64_val x)"
  let ?ip = "nat_digits (?n div 10 ^ k)" and ?fp = "pad_digits k (?n mod 10 ^ k)"
  have f: "FormatFixed pl k x = (if f64_neg x then ''-'' else if pl then ''+'' else []) @ ?ip @ CHR ''.'' # ?fp"
    using assms by (cases x) (auto simp: FormatFixed_def f64_finite_def Let_def)
  have d: "dec_val (?ip @ ?fp) = ?n"
    by (simp add: dec_val_append pad_digits_props div_mult_mod_eq)
  have p: "(0 :: rat) < 10 ^ k" by simp
  have nn: "0 \<le> round_even (\<bar>f64_val x\<bar> * 10 ^ k)" by (simp add: round_even_def Let_def)
  have "\<bar>of_int (round_even (\<bar>f64_val x\<bar> * 10 ^ k)) - \<bar>f64_val x\<bar> * 10 ^ k\<bar> \<le> 1 / 2" by (rule round_even_close)
  then have "\<bar>of_nat ?n - \<bar>f64_val x\<bar> * 10 ^ k\<bar> \<le> 1 / 2" using nn by (simp add: fixed_digits_def)
  then have "\<bar>(of_nat ?n - \<bar>f64_val x\<bar> * 10 ^ k) / 10 ^ k\<bar> \<le> (1 / 2) / 10 ^ k" using p by (simp add: field_simps)
  then have c: "\<bar>of_nat ?n / 10 ^ k - \<bar>f64_val x\<bar>\<bar> \<le> 1 / (2 * 10 ^ k)" by (simp add: diff_divide_distrib)
  have s: "f64_val x = (if f64_neg x then - \<bar>f64_val x\<bar> else \<bar>f64_val x\<bar>)"
    using assms(1) by (cases x) (auto simp: f64_neg_def f64_finite_def)
  have r: "decimal_rat (f64_neg x) ?ip ?fp = (if f64_neg x then - (of_nat ?n / 10 ^ k) else of_nat ?n / 10 ^ k)"
    using d by (simp add: decimal_rat_def Let_def pad_digits_props)
  have "\<bar>decimal_rat (f64_neg x) ?ip ?fp - f64_val x\<bar> \<le> 1 / (2 * 10 ^ k)"
    unfolding r using s c by (cases "f64_neg x") (simp_all add: abs_minus_commute)
  then show ?thesis using f pad_digits_props[of k "?n mod 10 ^ k"] nat_digits_all[of "?n div 10 ^ k"]
    by (intro exI[of _ "if f64_neg x then ''-'' else if pl then ''+'' else []"] exI[of _ ?ip] exI[of _ ?fp]) simp
qed

lemma grid_representable: "\<bar>m\<bar> < 2 ^ 53 \<Longrightarrow> representable (of_int m / 4096)"
  unfolding representable_def by (intro exI[of _ m] exI[of _ "- 12"]) (simp add: power_int_minus)

end
