(* ===== verification/Map_Config.thy ===== *)
theory Map_Config
  imports Map_Messages Map_Preview Go_Path Go_Fixed
begin

text \<open>
  The start of the Map application: \<^verbatim>\<open>LoadConfig\<close> of \<^verbatim>\<open>app/map/config.go\<close>, the demo targets of \<^verbatim>\<open>model.go\<close>, the marker list that
  \<^verbatim>\<open>PrintMarkers\<close> of \<^verbatim>\<open>session.go\<close> writes, and the choices of \<^verbatim>\<open>cmd/map-demo/main.go\<close>. Files are arguments: what opening, reading and
  decoding them gives.
\<close>

section \<open>LoadConfig\<close>

text \<open>
  An opened configuration file: what \<^verbatim>\<open>Stat\<close> says, the bytes, and whether reading ends with an error instead of the end of
  the file.
\<close>

record config_file =
  cf_stat :: "(string, int) outcome"
  cf_bytes :: string
  cf_fails :: bool

datatype config_error = OpenConfig string | StatConfig string | ConfigTooLong | DecodeConfig json_error | ConfigExtra
  | ConfigInvalid map_error | ResolveImage string | OpenPNG string | PNGSize

definition config_limit :: nat where
  "config_limit = 64 * 1024"

text \<open>\<^verbatim>\<open>io.LimitReader\<close>: the bytes up to the limit, and whether an error follows.\<close>

definition LimitReader :: "config_file \<Rightarrow> string \<times> bool" where
  "LimitReader f = (take config_limit (cf_bytes f), cf_fails f \<and> length (cf_bytes f) < config_limit)"

text \<open>\<^verbatim>\<open>DisallowUnknownFields\<close>: an unknown key is an error; a nested struct is decoded in place.\<close>

fun set_strict :: "'r field list \<Rightarrow> (string \<times> json) list \<Rightarrow> 'r \<Rightarrow> 'r option" where
  "set_strict fs [] r = Some r"
| "set_strict fs ((k, v) # ms) r = (case field_for fs k of
      None \<Rightarrow> None
    | Some f \<Rightarrow> Option.bind (snd f v r) (set_strict fs ms))"

definition decode_strict :: "'r field list \<Rightarrow> json \<Rightarrow> 'r \<Rightarrow> 'r option" where
  "decode_strict fs v r = (case v of JObj ms \<Rightarrow> set_strict fs ms r | JNull \<Rightarrow> Some r | _ \<Rightarrow> None)"

definition bounds_fields :: "Bounds field list" where
  "bounds_fields = [float_field ''latMin'' (\<lambda>x b. b\<lparr>LatMin := x\<rparr>), float_field ''latMax'' (\<lambda>x b. b\<lparr>LatMax := x\<rparr>),
     float_field ''lonMin'' (\<lambda>x b. b\<lparr>LonMin := x\<rparr>), float_field ''lonMax'' (\<lambda>x b. b\<lparr>LonMax := x\<rparr>)]"

definition config_fields :: "Config field list" where
  "config_fields = [int_field ''version'' (\<lambda>x c. c\<lparr>Version := x\<rparr>), string_field ''image'' (\<lambda>x c. c\<lparr>cfg_Image := x\<rparr>),
     int_field ''width'' (\<lambda>x c. c\<lparr>map_Width := x\<rparr>), int_field ''height'' (\<lambda>x c. c\<lparr>map_Height := x\<rparr>),
     (''bounds'', \<lambda>v c. map_option (\<lambda>b. c\<lparr>map_Bounds := b\<rparr>) (decode_strict bounds_fields v (map_Bounds c)))]"

definition zero_config :: Config where
  "zero_config = \<lparr>Version = 0, cfg_Image = [], map_Width = 0, map_Height = 0,
     map_Bounds = \<lparr>LatMin = Fin 0, LatMax = Fin 0, LonMin = Fin 0, LonMax = Fin 0\<rparr>\<rparr>"

text \<open>The two calls of \<^verbatim>\<open>Decode\<close>: one value into the struct, then the end of the input.\<close>

definition decode_config :: "config_file \<Rightarrow> (config_error, Config) outcome" where
  "decode_config f = (let (input, fails) = LimitReader f in
     case Decode (NewDecoder input) of
       Err e \<Rightarrow> Err (DecodeConfig e)
     | Panic \<Rightarrow> Panic
     | Ok (v, dec) \<Rightarrow>
         (case decode_strict config_fields v zero_config of
            None \<Rightarrow> Err (DecodeConfig JType)
          | Some cfg \<Rightarrow> if fails \<or> Decode dec \<noteq> Err JEOF then Err ConfigExtra else Ok cfg))"

text \<open>The absolute path of the picture; a relative name is meant from the directory of the configuration file.\<close>

definition image_path :: "(string, string) outcome \<Rightarrow> string \<Rightarrow> string \<Rightarrow> (string, string) outcome" where
  "image_path wd path pic = Abs wd (if IsAbs pic then pic else Join (Dir path) pic)"

record map_files =
  getwd :: "(string, string) outcome"
  open_config :: "string \<Rightarrow> (string, config_file) outcome"
  png_size :: "string \<Rightarrow> (string, int \<times> int) outcome"

text \<open>After decoding: validation, the path and the size of the picture.\<close>

definition finish_config :: "map_files \<Rightarrow> string \<Rightarrow> Config \<Rightarrow> (config_error, Config) outcome" where
  "finish_config fs path cfg = (case Validate cfg of
      Err e \<Rightarrow> Err (ConfigInvalid e)
    | Panic \<Rightarrow> Panic
    | Ok _ \<Rightarrow> (case image_path (getwd fs) path (cfg_Image cfg) of
        Err e \<Rightarrow> Err (ResolveImage e)
      | Panic \<Rightarrow> Panic
      | Ok pic \<Rightarrow> (case png_size fs pic of
          Err e \<Rightarrow> Err (OpenPNG e)
        | Panic \<Rightarrow> Panic
        | Ok wh \<Rightarrow> if wh \<noteq> (map_Width cfg, map_Height cfg) then Err PNGSize else Ok (cfg\<lparr>cfg_Image := pic\<rparr>))))"

definition LoadConfig :: "map_files \<Rightarrow> string \<Rightarrow> (config_error, Config) outcome" where
  "LoadConfig fs path = (case open_config fs path of
      Err e \<Rightarrow> Err (OpenConfig e)
    | Panic \<Rightarrow> Panic
    | Ok f \<Rightarrow> (case cf_stat f of
        Err e \<Rightarrow> Err (StatConfig e)
      | Panic \<Rightarrow> Panic
      | Ok n \<Rightarrow> if int config_limit < n then Err ConfigTooLong else obind (decode_config f) (finish_config fs path)))"

section \<open>Demo targets and the marker list\<close>

definition demo_target :: "string \<Rightarrow> rat \<Rightarrow> rat \<Rightarrow> rat \<Rightarrow> Target" where
  "demo_target name lat lon p = \<lparr>TargetID = name, Latitude = f64_of_rat False lat, Longitude = f64_of_rat False lon,
     Probability = f64_of_rat False p, LastSeenAt = 1792022400000\<rparr>"

definition DemoTargets :: "Target list" where
  "DemoTargets =
     [demo_target ''t1'' (599505 / 10000) (303095 / 10000) (90 / 100),
      demo_target ''t2'' (599500 / 10000) (303110 / 10000) (55 / 100),
      demo_target ''t3'' (599495 / 10000) (303125 / 10000) (20 / 100),
      demo_target ''outside'' (599520 / 10000) (303110 / 10000) (80 / 100)]"

definition end_line :: string where
  "end_line = [CHR 0x0A]"

definition print_marker :: "Marker \<Rightarrow> string" where
  "print_marker m = (let t = marker_Target m in
     TargetID t @ '': lat '' @ FormatFixed False 4 (Latitude t) @ '', lon '' @ FormatFixed False 4 (Longitude t)
     @ '' -> ('' @ Itoa (fst (marker_Pixel m)) @ '', '' @ Itoa (snd (marker_Pixel m))
     @ ''), probability '' @ FormatFixed False 0 (f64_mul (Probability t) (Fin 100)) @ ''%'' @ end_line)"

definition PrintMarkers :: "Marker list \<Rightarrow> int \<Rightarrow> string" where
  "PrintMarkers markers count =
     concat (map print_marker markers)
     @ Itoa (int (length markers)) @ '' visible, '' @ Itoa (count - int (length markers)) @ '' outside map'' @ end_line"

section \<open>map-demo\<close>

record demo_flags =
  fl_config :: string
  fl_preview :: string
  fl_broker :: string
  fl_observations :: string
  fl_args :: nat

datatype demo_error = BadArguments | BadFlags | ConfigFailed config_error | AbsFailed string | OverwritesSource
  | FrameFailed map_error | PreviewFailed preview_error | SaveFailed string | ObservationsFailed string | BadObservations msg_error

text \<open>How a run goes on: a preview was saved, or a session is run with these arguments.\<close>

datatype demo_run = SavedPreview string image string | RunSession Config "Target list" | RunBroker Config string "Observation list"

definition saved_line :: "string \<Rightarrow> string" where
  "saved_line output = ''Saved preview: '' @ output @ end_line"

definition demo_preview :: "map_files \<Rightarrow> (string \<Rightarrow> (string, picture) outcome) \<Rightarrow> (string \<Rightarrow> image \<Rightarrow> string option) \<Rightarrow> demo_flags \<Rightarrow> Config
    \<Rightarrow> (demo_error, demo_run) outcome" where
  "demo_preview fs pictures save fl cfg =
     (case (Abs (getwd fs) (fl_preview fl), Abs (getwd fs) (fl_config fl)) of
        (Ok output, Ok metadata) \<Rightarrow>
          if output = cfg_Image cfg \<or> output = metadata then Err OverwritesSource
          else (case BuildFrame cfg DemoTargets of
                  Err e \<Rightarrow> Err (FrameFailed e)
                | Panic \<Rightarrow> Panic
                | Ok (commands, markers) \<Rightarrow> (case RenderPreview pictures cfg commands of
                    Err e \<Rightarrow> Err (PreviewFailed e)
                  | Panic \<Rightarrow> Panic
                  | Ok img \<Rightarrow> (case save output img of
                      Some e \<Rightarrow> Err (SaveFailed e)
                    | None \<Rightarrow> Ok (SavedPreview output img
                        (PrintMarkers markers (int (length DemoTargets)) @ saved_line output)))))
      | (Err e, _) \<Rightarrow> Err (AbsFailed e)
      | (Panic, _) \<Rightarrow> Panic
      | (_, Err e) \<Rightarrow> Err (AbsFailed e)
      | (_, Panic) \<Rightarrow> Panic)"

definition demo_main :: "map_files \<Rightarrow> (string \<Rightarrow> (string, picture) outcome) \<Rightarrow> (string \<Rightarrow> image \<Rightarrow> string option) \<Rightarrow> (string \<Rightarrow> (string, string) outcome)
    \<Rightarrow> demo_flags \<Rightarrow> (demo_error, demo_run) outcome" where
  "demo_main fs pictures save read_file fl =
     (if fl_args fl \<noteq> 0 then Err BadArguments
      else if fl_observations fl \<noteq> [] \<and> fl_broker fl = [] \<or> fl_preview fl \<noteq> [] \<and> (fl_broker fl \<noteq> [] \<or> fl_observations fl \<noteq> []) then Err BadFlags
      else case LoadConfig fs (fl_config fl) of
             Err e \<Rightarrow> Err (ConfigFailed e)
           | Panic \<Rightarrow> Panic
           | Ok cfg \<Rightarrow>
               if fl_preview fl \<noteq> [] then demo_preview fs pictures save fl cfg
               else if fl_broker fl \<noteq> [] then
                 (if fl_observations fl = [] then Ok (RunBroker cfg (fl_broker fl) [])
                  else case read_file (fl_observations fl) of
                         Err e \<Rightarrow> Err (ObservationsFailed e)
                       | Panic \<Rightarrow> Panic
                       | Ok input \<Rightarrow> (case LoadObservations input of
                           Err e \<Rightarrow> Err (BadObservations e)
                         | Panic \<Rightarrow> Panic
                         | Ok obs \<Rightarrow> Ok (RunBroker cfg (fl_broker fl) obs)))
               else Ok (RunSession cfg DemoTargets))"

section \<open>What a configuration is\<close>

lemma decode_config_Ok:
  "decode_config f = Ok cfg \<longleftrightarrow> \<not> (cf_fails f \<and> length (cf_bytes f) < config_limit)
     \<and> (\<exists>v. json_parse (take config_limit (cf_bytes f)) = Some v \<and> decode_strict config_fields v zero_config = Some cfg)"
proof (cases "parse_value max_depth (take config_limit (cf_bytes f))")
  case None
  then show ?thesis by (simp add: decode_config_def LimitReader_def Decode_top json_parse_def)
next
  case (Some vr)
  then show ?thesis
    by (cases vr) (auto simp: decode_config_def LimitReader_def Decode_top[of "take _ _"] Decode_eof json_parse_def split: option.splits)
qed

text \<open>What is loaded came from an object, and its bounds are float64 values.\<close>

lemma strict_bounds_float:
  "set_strict bounds_fields ms b = Some b' \<Longrightarrow> float_bounds b \<Longrightarrow> float_bounds b'"
proof (induction bounds_fields ms b rule: set_strict.induct)
  case (2 k v ms b)
  then obtain f b1 where f: "field_for bounds_fields k = Some f" "snd f v b = Some b1" "set_strict bounds_fields ms b1 = Some b'"
    by (auto split: option.splits simp: bind_eq_Some_conv)
  have "f \<in> set bounds_fields" using f(1) by (auto simp: field_for_def find_Some_iff split: option.splits)
  then have "float_bounds b1" using f(2) 2(3)
    by (auto simp: bounds_fields_def float_field_def float_bounds_def parse_coordinates_float split: json.splits)
  then show ?case using 2(1) f by auto
qed simp

lemma strict_config_float:
  "set_strict config_fields ms c = Some c' \<Longrightarrow> float_bounds (map_Bounds c) \<Longrightarrow> float_bounds (map_Bounds c')"
proof (induction config_fields ms c rule: set_strict.induct)
  case (2 k v ms c)
  then obtain f c1 where f: "field_for config_fields k = Some f" "snd f v c = Some c1" "set_strict config_fields ms c1 = Some c'"
    by (auto split: option.splits simp: bind_eq_Some_conv)
  have "f \<in> set config_fields" using f(1) by (auto simp: field_for_def find_Some_iff split: option.splits)
  then have "float_bounds (map_Bounds c1)" using f(2) 2(3) strict_bounds_float
    by (auto simp: config_fields_def int_field_def string_field_def decode_strict_def split: json.splits)
  then show ?case using 2(1) f by auto
qed simp

lemma zero_config_invalid: "Validate zero_config \<noteq> Ok ()"
  by (simp add: Validate_def zero_config_def)

lemma zero_config_float: "float_bounds (map_Bounds zero_config)"
  using representable_int[of 0] by (simp add: zero_config_def float_bounds_def)

lemma decode_strict_valid:
  assumes "decode_strict config_fields v zero_config = Some cfg" "Validate cfg = Ok ()"
  shows "\<exists>ms. v = JObj ms \<and> set_strict config_fields ms zero_config = Some cfg \<and> float_bounds (map_Bounds cfg)"
  using assms zero_config_invalid strict_config_float[OF _ zero_config_float]
  by (cases v) (auto simp: decode_strict_def)

text \<open>The picture of a configuration, as a walk through the directories.\<close>

definition image_place :: "string list \<Rightarrow> string \<Rightarrow> string \<Rightarrow> string" where
  "image_place cwd path pic = path_to (walk (walk cwd (dir_part path)) pic)"

lemma walk_dir_part_abs: "IsAbs (dir_part path) = IsAbs path"
proof (cases path)
  case (Cons c cs)
  show ?thesis
  proof (cases "CHR ''/'' \<in> set path")
    case True
    then obtain a b where p: "path = a @ CHR ''/'' # b" "CHR ''/'' \<notin> set b" by (meson split_list_last)
    have "dropWhile (\<lambda>c. c \<noteq> CHR ''/'') (rev b @ CHR ''/'' # rev a) = CHR ''/'' # rev a"
      using takeWhile_append_stop(2)[of "rev b" "\<lambda>c. c \<noteq> CHR ''/''" "CHR ''/'' # rev a"] p(2) by auto
    then have "dir_part path = a @ ''/''" by (simp add: dir_part_def p(1))
    then show ?thesis using p(1) by (cases a) simp_all
  next
    case False
    then have "dir_part path = []" by (auto simp: dir_part_def dropWhile_eq_Nil_conv)
    then show ?thesis using False Cons by auto
  qed
qed (simp add: dir_part_def)

lemma image_path_place:
  assumes "getwd fs = Ok cwd" "IsAbs cwd"
  shows "image_path (getwd fs) path pic = Ok (image_place (walk [] cwd) path pic)"
proof (cases "IsAbs pic")
  case True
  then show ?thesis by (simp add: image_path_def Abs_def Clean_abs[of pic "walk (walk [] cwd) (dir_part path)"] image_place_def)
next
  case False
  have "Abs (getwd fs) (Join (Dir path) pic) = Ok (path_to (walk (walk [] cwd) (Join (Dir path) pic)))"
    using Abs_walk[of "Join (Dir path) pic" "getwd fs"] assms by simp
  moreover have "walk (walk [] cwd) (Join (Dir path) pic) = walk (walk (walk [] cwd) (dir_part path)) pic"
    using False walk_Join[of "Dir path" pic] walk_Clean by (simp add: Dir_def)
  ultimately show ?thesis using False by (simp add: image_path_def image_place_def)
qed

lemma finish_config_Ok:
  assumes "getwd fs = Ok cwd" "IsAbs cwd"
  shows "finish_config fs path cfg0 = Ok cfg \<longleftrightarrow> Validate cfg0 = Ok ()
     \<and> cfg = cfg0\<lparr>cfg_Image := image_place (walk [] cwd) path (cfg_Image cfg0)\<rparr> \<and> png_size fs (cfg_Image cfg) = Ok (960, 640)"
proof (cases "Validate cfg0")
  case (Ok u)
  then have "map_Width cfg0 = 960" "map_Height cfg0 = 640" by (simp_all add: Validate_def split: if_splits)
  then show ?thesis using Ok by (auto simp: finish_config_def image_path_place[OF assms] split: outcome.splits)
qed (simp_all add: finish_config_def)

lemma LoadConfig_valid:
  assumes "LoadConfig fs path = Ok cfg"
  shows "Validate cfg = Ok ()" "float_bounds (map_Bounds cfg)"
proof -
  obtain f cfg0 where f: "decode_config f = Ok cfg0" "finish_config fs path cfg0 = Ok cfg"
    using assms by (auto simp: LoadConfig_def outcome_simps split: outcome.splits if_splits)
  have v: "Validate cfg0 = Ok ()" using f(2) by (cases "Validate cfg0") (simp_all add: finish_config_def)
  then obtain pic where c: "cfg = cfg0\<lparr>cfg_Image := pic\<rparr>" "image_path (getwd fs) path (cfg_Image cfg0) = Ok pic"
    using f(2) by (auto simp: finish_config_def split: outcome.splits if_splits)
  have "pic \<noteq> []" using c(2) v by (auto simp: image_path_def Abs_def Join_def Dir_def Validate_Ok outcome_simps split: if_splits)
  then show "Validate cfg = Ok ()" using v c(1) by (simp add: Validate_Ok)
  show "float_bounds (map_Bounds cfg)" using f(1) decode_strict_valid[OF _ v] c(1) by (auto simp: decode_config_Ok)
qed

lemma build_frame_defined:
  assumes "float_bounds (map_Bounds cfg)" "Validate cfg = Ok ()" "list_all valid_target ts" "distinct (map TargetID ts)" "[] \<notin> set (map TargetID ts)"
  shows "\<exists>cmds ms. BuildFrame cfg ts = Ok (cmds, ms) \<and> map marker_Target ms = filter (\<lambda>t. inside (map_Bounds cfg) (Latitude t) (Longitude t)) ts"
proof -
  obtain cmds ms where f: "frame_targets cfg {} ts = Ok (cmds, ms)" using frame_targets_defined[OF assms(2-4), of "{}"] assms(5) by auto
  then show ?thesis using frame_targets_Ok(2)[OF f assms(1)] assms(2) by (simp add: BuildFrame_def)
qed

text \<open>C35: \<open>LoadConfig\<close> accepts exactly the configuration files that it should: at most 64 KiB that are one JSON object, in which every
  key is known, each value has the type of its field, the values pass \<open>Validate\<close>, and whose picture has the stated
  size. The path of the picture it returns is the one that walking from the working directory to the directory of the
  file and on along the given name leads to, absolute and without dots, and the bounds are float64 numbers.\<close>

theorem LoadConfig_exact:
  assumes "getwd fs = Ok cwd" "IsAbs cwd"
  shows "LoadConfig fs path = Ok cfg \<longleftrightarrow>
     (\<exists>f n ms cfg0. open_config fs path = Ok f \<and> cf_stat f = Ok n \<and> n \<le> 65536
        \<and> \<not> (cf_fails f \<and> length (cf_bytes f) < 65536)
        \<and> json_parse (take 65536 (cf_bytes f)) = Some (JObj ms) \<and> set_strict config_fields ms zero_config = Some cfg0
        \<and> Validate cfg0 = Ok () \<and> float_bounds (map_Bounds cfg0)
        \<and> cfg = cfg0\<lparr>cfg_Image := image_place (walk [] cwd) path (cfg_Image cfg0)\<rparr>
        \<and> png_size fs (cfg_Image cfg) = Ok (960, 640))"
  (is "?l \<longleftrightarrow> ?r")
proof
  assume l: ?l
  then obtain f n cfg0 where f: "open_config fs path = Ok f" "cf_stat f = Ok n" "n \<le> int config_limit" "decode_config f = Ok cfg0"
      "finish_config fs path cfg0 = Ok cfg"
    by (auto simp: LoadConfig_def outcome_simps split: outcome.splits if_splits)
  obtain v where v: "json_parse (take config_limit (cf_bytes f)) = Some v" "decode_strict config_fields v zero_config = Some cfg0"
      "\<not> (cf_fails f \<and> length (cf_bytes f) < config_limit)"
    using f(4) by (auto simp: decode_config_Ok)
  have g: "Validate cfg0 = Ok ()" "cfg = cfg0\<lparr>cfg_Image := image_place (walk [] cwd) path (cfg_Image cfg0)\<rparr>"
      "png_size fs (cfg_Image cfg) = Ok (960, 640)" using f(5) unfolding finish_config_Ok[OF assms] by blast+
  obtain ms where ms: "v = JObj ms" "set_strict config_fields ms zero_config = Some cfg0" "float_bounds (map_Bounds cfg0)"
    using decode_strict_valid[OF v(2) g(1)] by blast
  have "config_limit = 65536" by (simp add: config_limit_def)
  then show ?r using f(1-3) v(1,3) g ms by auto
next
  assume ?r
  then obtain f n ms cfg0 where f: "open_config fs path = Ok f" "cf_stat f = Ok n" "n \<le> 65536"
      "\<not> (cf_fails f \<and> length (cf_bytes f) < 65536)"
      "json_parse (take 65536 (cf_bytes f)) = Some (JObj ms)" "set_strict config_fields ms zero_config = Some cfg0" "Validate cfg0 = Ok ()"
      "cfg = cfg0\<lparr>cfg_Image := image_place (walk [] cwd) path (cfg_Image cfg0)\<rparr>" "png_size fs (cfg_Image cfg) = Ok (960, 640)"
    by blast
  have "decode_config f = Ok cfg0" using f(4-6) by (auto simp: decode_config_Ok decode_strict_def config_limit_def)
  then show ?l using f(1-3) finish_config_Ok[OF assms, of path cfg0 cfg] f(7-9) by (simp add: LoadConfig_def config_limit_def)
qed

section \<open>The test map\<close>

text \<open>Reading a laid out object, member by member.\<close>

definition quoted :: "string \<Rightarrow> string" where
  "quoted s = CHR 0x22 # s @ [CHR 0x22]"

definition plain :: "char \<Rightarrow> bool" where
  "plain c \<longleftrightarrow> 0x20 \<le> byte_of c \<and> byte_of c < 0x80 \<and> c \<noteq> CHR 0x22 \<and> c \<noteq> CHR 0x5C"

lemma scan_plain_key: "list_all plain k \<Longrightarrow> scan_string (k @ CHR 0x22 # r) = Some (k, r)"
proof (induction k)
  case Nil
  show ?case by (simp add: scan_string.simps)
next
  case (Cons c k)
  then have "utf8_decode1 (c # k @ CHR 0x22 # r) = Some (byte_of c, 1)" by (simp add: utf8_decode1_def plain_def)
  then show ?case using Cons by (simp add: scan_string.simps plain_def)
qed

lemma skip_spaces: "list_all json_space w \<Longrightarrow> skip_ws (w @ s) = skip_ws s"
  by (induction w) (simp_all add: skip_ws_def)

lemma skip_ws_stop: "\<not> json_space c \<Longrightarrow> skip_ws (c # cs) = c # cs"
  by (simp add: skip_ws_def)

lemma member_key:
  assumes "list_all json_space w" "list_all plain k"
  shows "skip_ws (w @ quoted k @ CHR '':'' # cs) = CHR 0x22 # k @ CHR 0x22 # CHR '':'' # cs"
    and "scan_string (k @ CHR 0x22 # CHR '':'' # cs) = Some (k, CHR '':'' # cs)"
  using assms by (simp_all add: skip_spaces quoted_def scan_plain_key not_space skip_ws_stop)

lemma member_next:
  assumes "list_all json_space w" "list_all plain k" "parse_value d (vs @ CHR '','' # es) = Some (v, CHR '','' # es)"
    and "parse_members d es = Some (ms, t)"
  shows "parse_members d (w @ quoted k @ CHR '':'' # vs @ CHR '','' # es) = Some ((k, v) # ms, t)"
  apply (rule parse_members_step[THEN iffD2])
  unfolding member_step_def
  by (intro exI conjI disjI2, rule member_key[OF assms(1,2)], rule member_key[OF assms(1,2)])
     (use assms skip_ws_stop[of "CHR '',''" es] in \<open>auto simp: not_space quoted_def skip_ws_stop\<close>)

lemma member_last:
  assumes "list_all json_space w" "list_all plain k" "parse_value d cs = Some (v, r)" "skip_ws r = CHR ''}'' # t"
  shows "parse_members d (w @ quoted k @ CHR '':'' # cs) = Some ([(k, v)], t)"
  apply (rule parse_members_step[THEN iffD2])
  unfolding member_step_def
  by (intro exI conjI disjI1, rule member_key[OF assms(1,2)], rule member_key[OF assms(1,2)])
     (use assms in \<open>simp_all add: skip_ws_stop not_space quoted_def\<close>)

lemma object_open: "list_all json_space w \<Longrightarrow> parse_members d s = Some (ms, t) \<Longrightarrow> parse_value (Suc d) (w @ CHR ''{'' # s) = Some (JObj ms, t)"
  using parse_value_object[of "w @ CHR ''{'' # s" s "Suc d"] members_start[of d s ms t] by (simp add: skip_spaces skip_ws_stop not_space)

lemma object_text: "parse_members d s = Some (ms, t) \<Longrightarrow> parse_value (Suc d) (''{'' @ s) = Some (JObj ms, t)"
  using object_open[of "[]" d s ms t] by simp

lemma parse_value_skip: "parse_value d s = parse_value d (skip_ws s)"
proof (cases "skip_ws s")
  case Nil
  moreover have "skip_ws [] = []" by (simp add: skip_ws_def)
  ultimately show ?thesis by (subst (1 2) parse_value.simps) simp
next
  case (Cons c cs)
  then have "length cs < length s" "skip_ws (c # cs) = c # cs" using skip_ws_length[OF Cons] skip_ws_idem[of s] by simp_all
  then show ?thesis using Cons by (subst (1 2) parse_value.simps) simp
qed

lemma value_after_space: "\<not> json_space c \<Longrightarrow> parse_value d ('' '' @ c # cs) = parse_value d (c # cs)"
  by (subst parse_value_skip) (simp add: skip_ws_def json_space_def)

lemma number_value:
  assumes "json_number n" "stops rest"
  shows "parse_value d ('' '' @ n @ rest) = Some (JNum n, rest)"
proof -
  obtain c cs where c: "n = c # cs" "is_digit c \<or> c = CHR ''-''" using json_number_head[OF assms(1)] by blast
  then have "\<not> json_space c" using digit_not_space[of c] by (auto simp: json_space_def)
  then show ?thesis using value_after_space[of c d "cs @ rest"] parse_number[OF assms, of d] c(1) by simp
qed

lemma string_value: "list_all plain v \<Longrightarrow> parse_value d ('' '' @ quoted v @ rest) = Some (JStr v, rest)"
  using value_after_space[of "CHR 0x22" d "v @ CHR 0x22 # rest"] scan_plain_key[of v rest]
  by (simp add: quoted_def not_space parse_value.simps[of d "CHR 0x22 # _"] skip_ws_stop)

lemma member_number:
  assumes "list_all json_space w" "list_all plain k" "json_number n" "parse_members d es = Some (ms, t)"
  shows "parse_members d (w @ quoted k @ '': '' @ n @ '','' @ es) = Some ((k, JNum n) # ms, t)"
  using member_next[OF assms(1,2) _ assms(4), of "'' '' @ n" "JNum n"] number_value[OF assms(3), of "CHR '','' # es" d] by simp

lemma member_string:
  assumes "list_all json_space w" "list_all plain k" "list_all plain v" "parse_members d es = Some (ms, t)"
  shows "parse_members d (w @ quoted k @ '': '' @ quoted v @ '','' @ es) = Some ((k, JStr v) # ms, t)"
  using member_next[OF assms(1,2) _ assms(4), of "'' '' @ quoted v" "JStr v"] string_value[OF assms(3), of d "CHR '','' # es"] by simp

lemma space_stops: "list_all json_space u \<Longrightarrow> stops (u @ CHR ''}'' # t)"
  by (cases u) (auto simp: stops_def json_space_def is_digit_def)

lemma member_number_end:
  assumes "list_all json_space w" "list_all plain k" "json_number n" "list_all json_space u"
  shows "parse_members d (w @ quoted k @ '': '' @ n @ u @ ''}'' @ t) = Some ([(k, JNum n)], t)"
  using member_last[OF assms(1,2) number_value[OF assms(3) space_stops[OF assms(4)]], of t t d] assms(4)
  by (simp add: skip_spaces skip_ws_stop not_space)

lemma member_object_end:
  assumes "list_all json_space w" "list_all plain k" "parse_members d s = Some (ms, u @ ''}'' @ t)" "list_all json_space u"
  shows "parse_members (Suc d) (w @ quoted k @ '': {'' @ s) = Some ([(k, JObj ms)], t)"
  using member_last[OF assms(1,2) object_open[of "'' ''", OF _ assms(3)], of t] assms(4)
  by (simp add: skip_spaces skip_ws_stop not_space json_space_def)

text \<open>The file \<^verbatim>\<open>assets/test-map.json\<close>.\<close>

definition indent :: "nat \<Rightarrow> string" where
  "indent n = end_line @ replicate n CHR '' ''"

definition test_map_json :: string where
  "test_map_json = ''{''
     @ indent 2 @ quoted ''version'' @ '': '' @ ''1'' @ '',''
     @ indent 2 @ quoted ''image'' @ '': '' @ quoted ''test-map.png'' @ '',''
     @ indent 2 @ quoted ''width'' @ '': '' @ ''960'' @ '',''
     @ indent 2 @ quoted ''height'' @ '': '' @ ''640'' @ '',''
     @ indent 2 @ quoted ''bounds'' @ '': {''
       @ indent 4 @ quoted ''latMin'' @ '': '' @ ''59.9490'' @ '',''
       @ indent 4 @ quoted ''latMax'' @ '': '' @ ''59.9510'' @ '',''
       @ indent 4 @ quoted ''lonMin'' @ '': '' @ ''30.3080'' @ '',''
       @ indent 4 @ quoted ''lonMax'' @ '': '' @ ''30.3140'' @ indent 2 @ ''}''
     @ end_line @ ''}'' @ end_line"

lemma indent_space: "list_all json_space (indent n)" "list_all json_space end_line"
  by (simp_all add: indent_def end_line_def json_space_def list_all_iff)

definition test_bounds :: "(string \<times> json) list" where
  "test_bounds = [(''latMin'', JNum ''59.9490''), (''latMax'', JNum ''59.9510''), (''lonMin'', JNum ''30.3080''), (''lonMax'', JNum ''30.3140'')]"

definition test_members :: "(string \<times> json) list" where
  "test_members = [(''version'', JNum ''1''), (''image'', JStr ''test-map.png''), (''width'', JNum ''960''), (''height'', JNum ''640''),
      (''bounds'', JObj test_bounds)]"

lemma test_numbers: "json_number ''1''" "json_number ''960''" "json_number ''640''"
    "json_number ''59.9490''" "json_number ''59.9510''" "json_number ''30.3080''" "json_number ''30.3140''"
  by (simp_all add: json_number_def scan_number_def is_digit_def)

lemma test_words: "list_all plain ''version''" "list_all plain ''image''" "list_all plain ''width''" "list_all plain ''height''"
    "list_all plain ''bounds''" "list_all plain ''test-map.png''" "list_all plain ''latMin''" "list_all plain ''latMax''"
    "list_all plain ''lonMin''" "list_all plain ''lonMax''"
  by (simp_all add: plain_def)

lemma test_map_parsed: "json_parse test_map_json = Some (JObj test_members)"
proof -
  note line = indent_space test_words test_numbers
  have "parse_value (Suc (Suc 0)) test_map_json = Some (JObj test_members, end_line)"
    unfolding test_map_json_def test_members_def test_bounds_def
    by (rule object_text[OF member_number[OF line(1,3,13) member_string[OF line(1,4,8) member_number[OF line(1,5,14) member_number[OF line(1,6,15)
        member_object_end[OF line(1,7) member_number[OF line(1,9,16) member_number[OF line(1,10,17) member_number[OF line(1,11,18)
          member_number_end[OF line(1,12,19,1)]]]] line(2)]]]]]])
  then show ?thesis
    using parse_value_max[of "Suc (Suc 0)" test_map_json] indent_space(2) skip_spaces[of end_line "[]"]
    by (simp add: json_parse_def max_depth_def skip_ws_def)
qed

definition test_config :: Config where
  "test_config = \<lparr>Version = 1, cfg_Image = ''test-map.png'', map_Width = 960, map_Height = 640,
     map_Bounds = \<lparr>LatMin = f64_of_rat False (599490 / 10000), LatMax = f64_of_rat False (599510 / 10000),
       LonMin = f64_of_rat False (303080 / 10000), LonMax = f64_of_rat False (303140 / 10000)\<rparr>\<rparr>"

lemma small_rat:
  assumes "\<bar>q\<bar> \<le> 1000"
  shows "f64_finite (f64_of_rat False q)" "f64_val (f64_of_rat False q) = round_rat q"
  using f64_of_rat_in_range[of q 1000] assms by simp_all

lemma test_floats:
  "ParseFloat ''59.9490'' = Some (f64_of_rat False (599490 / 10000))" "ParseFloat ''59.9510'' = Some (f64_of_rat False (599510 / 10000))"
  "ParseFloat ''30.3080'' = Some (f64_of_rat False (303080 / 10000))" "ParseFloat ''30.3140'' = Some (f64_of_rat False (303140 / 10000))"
  using small_rat(1)[of "599490 / 10000"] small_rat(1)[of "599510 / 10000"] small_rat(1)[of "303080 / 10000"] small_rat(1)[of "303140 / 10000"]
  by (simp_all add: ParseFloat_def is_digit_def literal_rat_def dec_val_def digit_val_def exp_val_def f64_finite_def power_int_minus field_simps)

lemma test_strict: "set_strict config_fields test_members zero_config = Some test_config"
proof -
  have i: "Itoa 1 = ''1''" "Itoa 960 = ''960''" "Itoa 640 = ''640''" by code_simp+
  have n: "map_option sint (ParseInt64 ''1'') = Some 1" "map_option sint (ParseInt64 ''960'') = Some 960" "map_option sint (ParseInt64 ''640'') = Some 640"
    using ParseInt64_sint[of 1] ParseInt64_sint[of 960] ParseInt64_sint[of 640] i by simp_all
  then show ?thesis
    by (auto simp: test_members_def test_bounds_def config_fields_def bounds_fields_def field_for_def decode_strict_def int_field_def string_field_def
        float_field_def test_floats zero_config_def test_config_def)
qed

text \<open>Numbers with a multiple of 1/4096 and the next one between them stay apart when they are rounded.\<close>

lemma round_apart:
  assumes "p \<le> of_int m / 4096" "of_int (m + 1) / 4096 \<le> q" "\<bar>m\<bar> < 2 ^ 52"
  shows "round_rat p < round_rat q"
proof -
  have "round_rat p \<le> of_int m / 4096" using assms by (intro round_rat_le grid_representable) auto
  moreover have "of_int (m + 1) / 4096 \<le> round_rat q" using assms by (intro le_round_rat grid_representable) auto
  moreover have "of_int m / 4096 < (of_int (m + 1) / 4096 :: rat)" by simp
  ultimately show ?thesis by linarith
qed

lemma round_small: "0 \<le> q \<Longrightarrow> q \<le> 90 \<Longrightarrow> 0 \<le> round_rat q \<and> round_rat q \<le> 90"
  using round_rat_nonneg[of q] round_rat_le[OF representable_int[of 90], of q] by simp

lemma test_config_valid: "Validate test_config = Ok ()"
proof -
  note s = small_rat[of "599490 / 10000"] small_rat[of "599510 / 10000"] small_rat[of "303080 / 10000"] small_rat[of "303140 / 10000"]
  have "round_rat (599490 / 10000) < round_rat (599510 / 10000)" by (rule round_apart[of _ 245552]) simp_all
  moreover have "round_rat (303080 / 10000) < round_rat (303140 / 10000)" by (rule round_apart[of _ 124144]) simp_all
  ultimately show ?thesis
    using s round_small[of "599490 / 10000"] round_small[of "599510 / 10000"] round_small[of "303080 / 10000"] round_small[of "303140 / 10000"]
    by (simp add: Validate_Ok test_config_def Bounds_validate_def f64_cmp not_less)
qed

text \<open>The demo targets are valid, and on the test map three of them are visible.\<close>

lemma demo_targets_valid: "list_all valid_target DemoTargets" "distinct (map TargetID DemoTargets)" "[] \<notin> set (map TargetID DemoTargets)"
proof -
  have v: "valid_target (demo_target name lat lon p)" if "0 \<le> lat" "lat \<le> 90" "0 \<le> lon" "lon \<le> 90" "0 \<le> p" "p \<le> 1" for name lat lon p
    using small_rat[of lat] small_rat[of lon] small_rat[of p] round_small[of lat] round_small[of lon] round_rat_nonneg[of p]
      round_rat_le[OF representable_int[of 1], of p] that
    by (simp add: valid_target_def demo_target_def)
  show "list_all valid_target DemoTargets" unfolding DemoTargets_def list.pred_inject by (intro conjI v) simp_all
qed (simp_all add: DemoTargets_def demo_target_def)

lemma demo_visible:
  "map TargetID (filter (\<lambda>t. inside (map_Bounds test_config) (Latitude t) (Longitude t)) DemoTargets) = [''t1'', ''t2'', ''t3'']"
proof -
  have a: "round_rat (599510 / 10000) < round_rat (599520 / 10000)" by (rule round_apart[of _ 245560]) simp_all
  have m: "round_rat p \<le> round_rat q" if "p \<le> q" for p q using that by (rule round_rat_mono)
  have "inside (map_Bounds test_config) (Latitude (demo_target name lat lon p)) (Longitude (demo_target name lat lon p))"
    if "599490 / 10000 \<le> lat" "lat \<le> 599510 / 10000" "303080 / 10000 \<le> lon" "lon \<le> 303140 / 10000" for name lat lon p
    using that by (auto simp: inside_def test_config_def demo_target_def small_rat intro!: m)
  moreover have "\<not> inside (map_Bounds test_config) (Latitude (demo_target name (599520 / 10000) lon p)) lon'" for name lon p lon'
    using a by (simp add: inside_def test_config_def demo_target_def small_rat)
  ultimately show ?thesis by (simp add: DemoTargets_def) (simp add: demo_target_def)
qed

definition test_files :: map_files where
  "test_files = \<lparr>getwd = Ok ''/srv/map'',
     open_config = (\<lambda>p. if p = ''assets/test-map.json'' then Ok \<lparr>cf_stat = Ok 240, cf_bytes = test_map_json, cf_fails = False\<rparr> else Err ''no such file''),
     png_size = (\<lambda>p. if p = ''/srv/map/assets/test-map.png'' then Ok (960, 640) else Err ''no such file'')\<rparr>"

lemma test_place: "image_place (walk [] ''/srv/map'') ''assets/test-map.json'' ''test-map.png'' = ''/srv/map/assets/test-map.png''"
  by (simp add: image_place_def walk_def dir_part_def path_to_def clean_step_def)

lemma test_map_short: "take 65536 test_map_json = test_map_json"
  by (simp add: test_map_json_def indent_def end_line_def quoted_def)

lemma test_map_loaded:
  "LoadConfig test_files ''assets/test-map.json'' = Ok (test_config\<lparr>cfg_Image := ''/srv/map/assets/test-map.png''\<rparr>)"
proof -
  have wd: "getwd test_files = Ok ''/srv/map''" "IsAbs ''/srv/map''" by (simp_all add: test_files_def)
  let ?f = "\<lparr>cf_stat = Ok 240, cf_bytes = test_map_json, cf_fails = False\<rparr>"
  have "decode_config ?f = Ok test_config"
    using test_map_parsed test_strict by (simp add: decode_config_Ok config_limit_def test_map_short decode_strict_def)
  moreover have "finish_config test_files ''assets/test-map.json'' test_config = Ok (test_config\<lparr>cfg_Image := ''/srv/map/assets/test-map.png''\<rparr>)"
    unfolding finish_config_Ok[OF wd] using test_config_valid test_place by (simp add: test_config_def test_files_def)
  ultimately show ?thesis by (simp add: LoadConfig_def test_files_def config_limit_def)
qed

lemma LoadConfig_exact_witness:
  "\<exists>ms cfg0. json_parse (take 65536 test_map_json) = Some (JObj ms) \<and> set_strict config_fields ms zero_config = Some cfg0
     \<and> Validate cfg0 = Ok () \<and> LoadConfig test_files ''assets/test-map.json'' = Ok (cfg0\<lparr>cfg_Image := ''/srv/map/assets/test-map.png''\<rparr>)"
proof -
  have wd: "getwd test_files = Ok ''/srv/map''" "IsAbs ''/srv/map''" by (simp_all add: test_files_def)
  obtain f n ms cfg0 where f: "open_config test_files ''assets/test-map.json'' = Ok f" "json_parse (take 65536 (cf_bytes f)) = Some (JObj ms)"
      "set_strict config_fields ms zero_config = Some cfg0" "Validate cfg0 = Ok ()"
      "test_config\<lparr>cfg_Image := ''/srv/map/assets/test-map.png''\<rparr> = cfg0\<lparr>cfg_Image := image_place (walk [] ''/srv/map'') ''assets/test-map.json'' (cfg_Image cfg0)\<rparr>"
    using LoadConfig_exact[OF wd, THEN iffD1, OF test_map_loaded] by blast
  have "cfg_Image (test_config\<lparr>cfg_Image := ''/srv/map/assets/test-map.png''\<rparr>) = ''/srv/map/assets/test-map.png''" by simp
  then have "image_place (walk [] ''/srv/map'') ''assets/test-map.json'' (cfg_Image cfg0) = ''/srv/map/assets/test-map.png''" using f(5) by simp
  moreover have "cf_bytes f = test_map_json" using f(1) by (auto simp: test_files_def)
  ultimately show ?thesis using f test_map_loaded by metis
qed

end
