(* ===== verification/Service_Commands.thy ===== *)
theory Service_Commands
  imports Broker Target_Service Dbms_Service Socket_Server Map_Config
begin

text \<open>
  The commands around the services: \<^verbatim>\<open>main\<close> and the accept loop of \<^verbatim>\<open>broker/main.go\<close>, \<^verbatim>\<open>main\<close> and the connection of \<^verbatim>\<open>run\<close> in
  \<^verbatim>\<open>target-service/main.go\<close>, \<^verbatim>\<open>cmd/tacdb\<close> and \<^verbatim>\<open>cmd/tacdb-server\<close> of the DBMS, \<^verbatim>\<open>main\<close> of \<^verbatim>\<open>app/map/cmd/map-demo\<close> and \<^verbatim>\<open>SavePNG\<close>.
  A process ends with an exit code and the lines it wrote to standard error; the positional arguments behind the flags and the
  outcomes of the system calls are arguments.
\<close>

section \<open>The Broker\<close>

definition broker_port :: "string list \<Rightarrow> int option" where
  "broker_port args = (case args of
      [arg] \<Rightarrow> (case ParseInt64 arg of
          None \<Rightarrow> None
        | Some w \<Rightarrow> if sint w < 1 \<or> sint w > 65535 then None else Some (sint w))
    | _ \<Rightarrow> None)"

definition broker_usage :: "string \<Rightarrow> string list \<Rightarrow> string" where
  "broker_usage program args =
     (if length args \<noteq> 1 then ''Usage: '' @ program @ '' <port>'' else ''port must be an integer from 1 to 65535'')"

datatype accepted_conn = AcceptConn client | AcceptClosed | AcceptError string

text \<open>The connections whose handlers were started, and the error with which the loop returned, if it has.\<close>

fun broker_serve :: "accepted_conn list \<Rightarrow> client list \<times> string option option" where
  "broker_serve [] = ([], None)"
| "broker_serve (AcceptConn c # as) = (let (cs, r) = broker_serve as in (c # cs, r))"
| "broker_serve (AcceptClosed # as) = ([], Some None)"
| "broker_serve (AcceptError e # as) = ([], Some (Some e))"

text \<open>\<^verbatim>\<open>log.Fatal\<close> ends the process with code 1 and runs no deferred function.\<close>

record command_end =
  exit_code :: "int option"
  error_lines :: "string list"

definition broker_listening :: "string \<Rightarrow> string" where
  "broker_listening addr = ''Broker listening on '' @ addr"

definition broker_main :: "string \<Rightarrow> string list \<Rightarrow> (int \<Rightarrow> string + string) \<Rightarrow> accepted_conn list \<Rightarrow> command_end \<times> client list" where
  "broker_main program args listen accepts = (case broker_port args of
      None \<Rightarrow> (\<lparr>exit_code = Some 2, error_lines = [broker_usage program args]\<rparr>, [])
    | Some port \<Rightarrow> (case listen port of
        Inr addr \<Rightarrow> (case broker_serve accepts of
            (cs, None) \<Rightarrow> (\<lparr>exit_code = None, error_lines = [broker_listening addr]\<rparr>, cs)
          | (cs, Some (Some e)) \<Rightarrow> (\<lparr>exit_code = Some 1, error_lines = [broker_listening addr, e]\<rparr>, cs)
          | (cs, Some None) \<Rightarrow> (\<lparr>exit_code = Some 0, error_lines = [broker_listening addr]\<rparr>, cs))
      | Inl e \<Rightarrow> (\<lparr>exit_code = Some 1, error_lines = [e]\<rparr>, [])))"

section \<open>The Target Service\<close>

text \<open>The texts of the errors of \<^verbatim>\<open>run\<close>; the errors of the connection are arguments.\<close>

definition connect_error :: "string \<Rightarrow> string \<Rightarrow> string" where
  "connect_error address e = ''connect to Broker '' @ address @ '': '' @ e"

definition ts_connected :: "string \<Rightarrow> string" where
  "ts_connected address = ''connected to Broker '' @ address @ ''; subscribed to observations''"

definition run_error :: "string \<Rightarrow> run_result \<Rightarrow> string option" where
  "run_error e r = (case r of
      run_result.Cancelled \<Rightarrow> None
    | run_result.SubscribeError \<Rightarrow> Some (''subscribe: '' @ e)
    | run_result.ReadError \<Rightarrow> Some (''Broker read: '' @ e)
    | run_result.Disconnected \<Rightarrow> Some ''Broker disconnected'')"

text \<open>
  \<open>dial\<close> is the error of the connection attempt, \<open>sub_ok\<close> whether the subscription is written, then what the Broker sends and how the
  stream ends. The result holds the error of \<^verbatim>\<open>run\<close>, the lines logged and the store.
\<close>

record service_run =
  sr_error :: "string option"
  sr_log :: "string list"
  sr_entries :: "ts_log list"
  sr_store :: Store

definition run_service :: "string \<Rightarrow> string option \<Rightarrow> bool \<Rightarrow> string \<Rightarrow> string \<Rightarrow> bool \<Rightarrow> bool \<Rightarrow> service_run" where
  "run_service address dial sub_ok io_error received_bytes failed cancelled = (case dial of
      Some e \<Rightarrow> \<lparr>sr_error = Some (connect_error address e), sr_log = [], sr_entries = [], sr_store = newStore\<rparr>
    | None \<Rightarrow> (case Target_Service.run sub_ok received_bytes failed cancelled of (result, st, entries) \<Rightarrow>
        \<lparr>sr_error = run_error io_error result, sr_log = (if sub_ok then [ts_connected address] else []), sr_entries = entries, sr_store = st\<rparr>))"

definition service_main :: "nat \<Rightarrow> service_run \<Rightarrow> command_end" where
  "service_main args r =
     (if args \<noteq> 0 then \<lparr>exit_code = Some 2, error_lines = [''usage: target-service [-broker host:port]'']\<rparr>
      else case sr_error r of
             None \<Rightarrow> \<lparr>exit_code = Some 0, error_lines = sr_log r\<rparr>
           | Some e \<Rightarrow> \<lparr>exit_code = Some 1, error_lines = sr_log r @ [e]\<rparr>)"

section \<open>The DBMS commands\<close>

text \<open>\<^verbatim>\<open>tacdb\<close> is the command line on an empty database.\<close>

definition tacdb_main :: "(nat \<Rightarrow> bool) \<Rightarrow> (nat \<Rightarrow> bool) \<Rightarrow> Dbms_Wire.read_error \<Rightarrow> string \<Rightarrow> (cli_output list \<times> int) option" where
  "tacdb_main out_ok err_ok fin input = cli_Run out_ok err_ok fin 0 0 0 new_Database input"

text \<open>\<^verbatim>\<open>run\<close> of \<^verbatim>\<open>tacdb-server\<close>: the exit code, the two outputs, and the table of the server once the deferred \<^verbatim>\<open>Close\<close> has run.\<close>

definition tacdb_server_run :: "nat \<Rightarrow> string \<Rightarrow> string option \<Rightarrow> serve_state \<Rightarrow> string option \<Rightarrow> int \<times> string list \<times> string list \<times> conn_table option" where
  "tacdb_server_run args path listen_error served serve_error =
     (if args \<noteq> 0 then (2, [], [''Unexpected positional arguments''], None)
      else case listen_error of
             Some e \<Rightarrow> (1, [], [e], None)
           | None \<Rightarrow>
               let t = shut True (tab served); out = [''Listening on '' @ path]
               in (case serve_error of Some e \<Rightarrow> (1, out, [e], Some t) | None \<Rightarrow> (0, out, [], Some t)))"

section \<open>The Map command\<close>

datatype file_call = CreateFile string | EncodePNG image | CloseFile

definition SavePNG :: "string option \<Rightarrow> string option \<Rightarrow> string option \<Rightarrow> string \<Rightarrow> image \<Rightarrow> string option \<times> file_call list" where
  "SavePNG create_error encode_error close_error path img = (case create_error of
      Some e \<Rightarrow> (Some (''create preview: '' @ e), [])
    | None \<Rightarrow> (case encode_error of
        Some e \<Rightarrow> Some (''encode preview: '' @ e)
      | None \<Rightarrow> close_error, [CreateFile path, EncodePNG img, CloseFile]))"

text \<open>\<^verbatim>\<open>main\<close>: \<open>describe\<close> is the text of an error of \<^verbatim>\<open>run\<close> before a session starts, \<open>session\<close> the error the session returns.\<close>

definition map_demo_main :: "(demo_error \<Rightarrow> string) \<Rightarrow> (demo_run \<Rightarrow> string option) \<Rightarrow> (demo_error, demo_run) outcome \<Rightarrow> command_end" where
  "map_demo_main describe session result =
     (let failure = (case result of Err e \<Rightarrow> Some (describe e) | Ok r \<Rightarrow> session r | Panic \<Rightarrow> None)
      in if result = Panic then \<lparr>exit_code = Some 2, error_lines = []\<rparr>
         else case failure of
                Some e \<Rightarrow> \<lparr>exit_code = Some 1, error_lines = [''map-demo: '' @ e]\<rparr>
              | None \<Rightarrow> \<lparr>exit_code = Some 0, error_lines = []\<rparr>)"

section \<open>Facts\<close>

lemma ParseInt64_Some:
  "map_option sint (ParseInt64 s) = Some n \<longleftrightarrow>
     (\<exists>neg ds. split_sign s = (neg, ds) \<and> ds \<noteq> [] \<and> list_all is_digit ds \<and> n = (if neg then - int (dec_val ds) else int (dec_val ds))
        \<and> - (2 ^ 63) \<le> n \<and> n < 2 ^ 63)"
proof -
  obtain neg ds where s: "split_sign s = (neg, ds)" by fastforce
  have i: "sint (word_of_int m :: 64 word) = m" if "- (2 ^ 63) \<le> m" "m < 2 ^ 63" for m :: int using that by (simp add: int_word_sint)
  show ?thesis using i[of "if neg then - int (dec_val ds) else int (dec_val ds)"] by (auto simp: ParseInt64_def s Let_def)
qed

lemma broker_port_Some: "broker_port args = Some p \<longleftrightarrow> 1 \<le> p \<and> p \<le> 65535 \<and> (\<exists>s. args = [s] \<and> map_option sint (ParseInt64 s) = Some p)"
  by (auto simp: broker_port_def split: list.splits option.splits)

text \<open>A port is accepted exactly if it is written in decimal, possibly with a plus sign or leading zeros, and in range.\<close>

lemma broker_port_exact:
  "broker_port args = Some p \<longleftrightarrow> 1 \<le> p \<and> p \<le> 65535
     \<and> (\<exists>ds. (args = [ds] \<or> args = [CHR ''+'' # ds]) \<and> ds \<noteq> [] \<and> list_all is_digit ds \<and> int (dec_val ds) = p)"
proof -
  have s: "split_sign s = (False, ds) \<longleftrightarrow> s = ds \<or> s = CHR ''+'' # ds" if "list_all is_digit ds" for s ds
    using split_sign_digits[OF that] digit_not_sign that by (cases s) (auto split: if_splits)
  have p: "map_option sint (ParseInt64 s) = Some p \<longleftrightarrow> (\<exists>ds. (s = ds \<or> s = CHR ''+'' # ds) \<and> ds \<noteq> [] \<and> list_all is_digit ds \<and> int (dec_val ds) = p)"
    if "1 \<le> p" "p \<le> 65535" for s
  proof -
    have "map_option sint (ParseInt64 s) = Some p \<longleftrightarrow> (\<exists>ds. split_sign s = (False, ds) \<and> ds \<noteq> [] \<and> list_all is_digit ds \<and> int (dec_val ds) = p)"
      using that unfolding ParseInt64_Some by (auto split: if_splits)
    then show ?thesis using s by blast
  qed
  have "(\<exists>s. args = [s] \<and> map_option sint (ParseInt64 s) = Some p) \<longleftrightarrow>
      (\<exists>ds. (args = [ds] \<or> args = [CHR ''+'' # ds]) \<and> ds \<noteq> [] \<and> list_all is_digit ds \<and> int (dec_val ds) = p)"
    if r: "1 \<le> p" "p \<le> 65535" unfolding p[OF r] by (simp only: ex_simps[symmetric]) auto
  then show ?thesis unfolding broker_port_Some by (intro conj_cong refl)
qed

text \<open>The handlers that the accept loop starts, on connections that differ, are the ones of a run of the Broker.\<close>

lemma broker_serve_run:
  assumes "distinct cs"
  shows "\<exists>s. Broker.run (map Accepted cs) s \<and> (\<forall>c. Broker.handlers s c = (if c \<in> set cs then Broker.Reading (fst (scan_lines scan_limit (input c))) else Broker.NoConn))"
  using assms
proof (induction cs rule: rev_induct)
  case Nil
  show ?case using Broker.run.init by (intro exI[of _ init_system]) (simp add: init_system_def)
next
  case (snoc c cs)
  then obtain s where s: "Broker.run (map Accepted cs) s"
    "\<And>d. Broker.handlers s d = (if d \<in> set cs then Broker.Reading (fst (scan_lines scan_limit (input d))) else Broker.NoConn)" by auto
  have "Broker.step s (Accepted c) (set_handler c (Broker.Reading (fst (scan_lines scan_limit (input c)))) s)"
    using snoc s(2) by (intro Broker.step.accept) simp
  then have "Broker.run (map Accepted (cs @ [c])) (set_handler c (Broker.Reading (fst (scan_lines scan_limit (input c)))) s)"
    using Broker.run.more[OF s(1)] by simp
  then show ?case using s(2) by (intro exI conjI) (auto simp: set_handler_def)
qed

lemma service_exit:
  "exit_code (service_main args (run_service address dial sub_ok e received_bytes failed cancelled)) =
     Some (if args \<noteq> 0 then 2 else if dial = None \<and> sub_ok \<and> cancelled then 0 else 1)"
  by (auto simp: service_main_def run_service_def Target_Service.run_def run_error_def Let_def split: option.splits prod.splits if_splits)

lemma tacdb_server_clean:
  assumes "serve_step\<^sup>*\<^sup>* init_serve s" "acc s = acceptor.Returned" "tacdb_server_run args path le s se = (code, out, err, Some t)"
  shows "Socket_Server.handlers t = {} \<and> registered t = {} \<and> open_conns t = {} \<and> \<not> listener_open t"
  using serve_reach_inv[OF assms(1)] assms(2,3)
  by (auto simp: tacdb_server_run_def serve_inv_def table_inv_def shut_def Let_def split: if_splits option.splits)

end
