(* ===== verification/Smoke_Harness.thy ===== *)
theory Smoke_Harness
  imports Service_Commands Wm_Protocol
begin

text \<open>
  The system smoke test, \<^verbatim>\<open>tests/system-smoke\<close>: the processes it starts, watches and stops (\<^verbatim>\<open>process.go\<close>), the search for the
  repository (\<^verbatim>\<open>build.go\<close>), the scenarios with their clean-up (\<^verbatim>\<open>scenarios.go\<close>) and the command (\<^verbatim>\<open>main.go\<close>). What the started programs and the
  system do is an argument; the exchanges with the window manager are bytes.
\<close>

section \<open>Processes\<close>

definition log_limit :: nat where
  "log_limit = 64 * 1024"

text \<open>The contents of the buffer after a write.\<close>

definition log_Write :: "string \<Rightarrow> string \<Rightarrow> string" where
  "log_Write b p =
     (if length p \<ge> log_limit then drop (length p - log_limit) p
      else (if length b + length p > log_limit then drop (length b + length p - log_limit) b else b) @ p)"

definition Contains :: "string \<Rightarrow> string \<Rightarrow> bool" where
  "Contains s sub \<longleftrightarrow> list_ex (\<lambda>i. HasPrefix (drop i s) sub) [0..<Suc (length s)]"

datatype kill_result = Delivered | ESRCH | KillError string

definition process_signal :: "kill_result \<Rightarrow> string option" where
  "process_signal r = (case r of KillError e \<Rightarrow> Some e | _ \<Rightarrow> None)"

datatype signal = SIGTERM | SIGKILL

text \<open>What \<^verbatim>\<open>stop\<close> meets: whether the process is over before, within three seconds of SIGTERM and within three seconds of SIGKILL.\<close>

record stop_env =
  se_done :: bool
  se_term :: kill_result
  se_ended :: bool
  se_kill :: kill_result
  se_killed :: bool

definition process_stop :: "string \<Rightarrow> string \<Rightarrow> stop_env \<Rightarrow> string option \<times> signal list" where
  "process_stop name logs env =
     (if se_done env then (None, [])
      else case process_signal (se_term env) of
             Some e \<Rightarrow> (Some (''stop '' @ name @ '': '' @ e), [SIGTERM])
           | None \<Rightarrow>
               if se_ended env then (None, [SIGTERM])
               else case process_signal (se_kill env) of
                      Some e \<Rightarrow> (Some (''kill '' @ name @ '': '' @ e), [SIGTERM, SIGKILL])
                    | None \<Rightarrow>
                        (Some (if se_killed env then name @ '' required SIGKILL'' @ [newline] @ logs
                               else name @ '' did not exit after SIGKILL''), [SIGTERM, SIGKILL]))"

text \<open>\<open>exited\<close> holds the error of \<^verbatim>\<open>Wait\<close> once \<^verbatim>\<open>done\<close> is closed; \<^verbatim>\<open>%v\<close> prints a nil error as \<open><nil>\<close>.\<close>

definition process_alive :: "string \<Rightarrow> string \<Rightarrow> string option option \<Rightarrow> string option" where
  "process_alive name logs exited = (case exited of
      None \<Rightarrow> None
    | Some e \<Rightarrow> Some (name @ '' exited unexpectedly ('' @ (case e of None \<Rightarrow> ''<nil>'' | Some m \<Rightarrow> m) @ '')'' @ [newline] @ logs))"

text \<open>One round of the loop of \<^verbatim>\<open>waitFor\<close>: the error of the context, the errors of \<^verbatim>\<open>alive\<close>, what \<^verbatim>\<open>ready\<close> answers, and the error of the
  context if it ends before the next tick. The result is \<^const>\<open>None\<close> while the loop waits.\<close>

record wait_round =
  wr_ctx :: "string option"
  wr_alive :: "string option list"
  wr_ready :: "(string, bool) outcome"
  wr_done :: "string option"

fun waitFor :: "string \<Rightarrow> wait_round list \<Rightarrow> (string, unit) outcome option" where
  "waitFor desc [] = None"
| "waitFor desc (w # ws) =
     (let failed = (\<lambda>e. Some (Err (desc @ '': '' @ e))) in
      case wr_ctx w of Some e \<Rightarrow> failed e
      | None \<Rightarrow> (case List.map_filter id (wr_alive w) of
          e # _ \<Rightarrow> failed e
        | [] \<Rightarrow> (case wr_ready w of
            Err e \<Rightarrow> failed e
          | Panic \<Rightarrow> Some Panic
          | Ok True \<Rightarrow> Some (Ok ())
          | Ok False \<Rightarrow> (case wr_done w of Some e \<Rightarrow> failed e | None \<Rightarrow> waitFor desc ws))))"

datatype lstat_result = NotExist | Exists | LstatError string

fun checkAbsent :: "(string \<Rightarrow> lstat_result) \<Rightarrow> string list \<Rightarrow> string option" where
  "checkAbsent lstat [] = None"
| "checkAbsent lstat (p # ps) = (case lstat p of
      NotExist \<Rightarrow> checkAbsent lstat ps
    | Exists \<Rightarrow> Some (''resource remains or cannot be checked: '' @ p @ '' (<nil>)'')
    | LstatError e \<Rightarrow> Some (''resource remains or cannot be checked: '' @ p @ '' ('' @ e @ '')''))"

section \<open>The repository\<close>

definition marker_file :: string where
  "marker_file = ''tests/system-smoke/go.mod''"

text \<open>The loop of \<^verbatim>\<open>repositoryRoot\<close>; \<open>stat\<close> says whether a path exists.\<close>

partial_function (option) find_root :: "(string \<Rightarrow> bool) \<Rightarrow> string \<Rightarrow> (string, string) outcome option" where
  "find_root stat dir =
     (if stat (Join dir marker_file) then Some (Ok dir)
      else let parent = Dir dir in if parent = dir then Some (Err ''run from inside the tac-os checkout'') else find_root stat parent)"

definition repositoryRoot :: "(string \<Rightarrow> bool) \<Rightarrow> (string, string) outcome \<Rightarrow> (string, string) outcome option" where
  "repositoryRoot stat wd = (case wd of Ok d \<Rightarrow> find_root stat d | r \<Rightarrow> Some r)"

text \<open>The components in the order they are built: binary, directory and package. The first failure ends the loop.\<close>

definition components :: "(string \<times> string \<times> string) list" where
  "components = [(''broker'', ''broker'', ''.''), (''target-service'', ''target-service'', ''.''),
     (''wm-headless'', ''tests/system-smoke'', ''./cmd/wm-headless''), (''map-demo'', ''app/map'', ''./cmd/map-demo'')]"

definition offlineEnv :: "string list \<Rightarrow> string list" where
  "offlineEnv environ = environ @ [''GOWORK=off'', ''GOPROXY=off'', ''GOSUMDB=off'', ''GOTOOLCHAIN=local'', ''CGO_ENABLED=0'', ''GOFLAGS='', ''GOOS='', ''GOARCH='']"

record build_command =
  bc_args :: "string list"
  bc_dir :: string
  bc_env :: "string list"

definition build_command_of :: "string list \<Rightarrow> string \<Rightarrow> string \<Rightarrow> string \<times> string \<times> string \<Rightarrow> build_command" where
  "build_command_of environ root_dir dir c = (case c of (name, directory, pkg) \<Rightarrow>
     \<lparr>bc_args = [''go'', ''build'', ''-mod=readonly'', ''-buildvcs=false'', ''-o'', Join dir name, pkg],
      bc_dir = Join root_dir directory, bc_env = offlineEnv environ\<rparr>)"

text \<open>The binaries, or the error; \<open>build\<close> is the error and the output of a command.\<close>

fun buildComponents :: "(build_command \<Rightarrow> (string \<times> string) option) \<Rightarrow> string list \<Rightarrow> string \<Rightarrow> string \<Rightarrow> (string \<times> string \<times> string) list \<Rightarrow> (string, string list) outcome" where
  "buildComponents build environ root_dir dir [] = Ok []"
| "buildComponents build environ root_dir dir (c # cs) = (case build (build_command_of environ root_dir dir c) of
      Some (e, output) \<Rightarrow> Err (''build '' @ fst c @ '': '' @ e @ [newline] @ output)
    | None \<Rightarrow> obind (buildComponents build environ root_dir dir cs) (\<lambda>bs. Ok (Join dir (fst c) # bs)))"

section \<open>The suite\<close>

text \<open>One attempt of \<^verbatim>\<open>startBroker\<close>; a process is its number.\<close>

record attempt =
  at_port :: "string + int"
  at_close :: "string option"
  at_start :: "string + nat"
  at_ready :: "string option"
  at_done :: bool
  at_logs :: string

definition collided :: "attempt \<Rightarrow> bool" where
  "collided a \<longleftrightarrow> at_done a \<and> Contains (at_logs a) ''bind: address already in use''"

primrec startBroker :: "nat \<Rightarrow> (nat \<Rightarrow> attempt) \<Rightarrow> nat \<Rightarrow> nat list \<Rightarrow> nat list \<times> (string + nat \<times> string)" where
  "startBroker 0 as i ps = (ps, Inl ''Broker port collided on all five attempts'')"
| "startBroker (Suc n) as i ps = (case at_port (as i) of
      Inl e \<Rightarrow> (ps, Inl e)
    | Inr port \<Rightarrow> (case at_close (as i) of
        Some e \<Rightarrow> (ps, Inl e)
      | None \<Rightarrow> (case at_start (as i) of
          Inl e \<Rightarrow> (ps, Inl e)
        | Inr p \<Rightarrow> (case at_ready (as i) of
            None \<Rightarrow> (ps @ [p], Inr (p, ''127.0.0.1:'' @ Itoa port))
          | Some e \<Rightarrow> if collided (as i) then startBroker n as (Suc i) ps else (ps @ [p], Inl e)))))"

record suite =
  processes :: "nat list"
  sockets :: "string list"

text \<open>The processes are stopped from the newest to the oldest; the errors are joined.\<close>

definition suite_cleanup :: "(nat \<Rightarrow> string option) \<Rightarrow> (string \<Rightarrow> lstat_result) \<Rightarrow> suite \<Rightarrow> string list" where
  "suite_cleanup stop lstat s =
     List.map_filter stop (rev (processes s)) @ (case checkAbsent lstat (sockets s) of None \<Rightarrow> [] | Some e \<Rightarrow> [e])"

definition diagnostics :: "(nat \<Rightarrow> string) \<Rightarrow> (nat \<Rightarrow> string) \<Rightarrow> suite \<Rightarrow> string" where
  "diagnostics name logs s = concat (map (\<lambda>p. [newline] @ ''--- '' @ name p @ '' ---'' @ [newline] @ logs p) (processes s))"

section \<open>The scenarios\<close>

datatype smoke_step = StartTarget | AwaitSubscription | DialAddress | MarshalObservation | AwaitDelivery | CloseDial
  | StartWm | AwaitSockets | StartMap | AwaitFrame | InterruptMap | WaitMap | ShowRefused | CreateAgain | CloseAgain
  | AliveBroker | AliveTarget | AliveWm | QuitWm | WaitWm

definition scenario :: "smoke_step list" where
  "scenario = [StartTarget, AwaitSubscription, DialAddress, MarshalObservation, AwaitDelivery, CloseDial, StartWm, AwaitSockets, StartMap, AwaitFrame,
     InterruptMap, WaitMap, ShowRefused, CreateAgain, CloseAgain, AliveBroker, AliveTarget, AliveWm, QuitWm, WaitWm]"

text \<open>The lines printed after a step.\<close>

definition pass_lines :: "smoke_step \<Rightarrow> string list" where
  "pass_lines x =
     (if x = CloseDial then [''PASS Broker -> Target Service (matching Observation receipt)'']
      else if x = AliveWm then [''PASS Map -> headless Window Manager (frame, markers, CLOSE, reuse)'']
      else [])"

definition wm_sockets :: "string \<Rightarrow> string list" where
  "wm_sockets dir = [Join dir ''wm.sock'', Join dir ''events.sock'']"

text \<open>\<open>outcome_of\<close> gives the error of a step, and the process for the three that start one.\<close>

fun run_steps :: "string \<Rightarrow> (smoke_step \<Rightarrow> string + nat) \<Rightarrow> smoke_step list \<Rightarrow> suite \<Rightarrow> suite \<times> string option \<times> string list" where
  "run_steps dir outcome_of [] s = (s, None, [])"
| "run_steps dir outcome_of (x # xs) s =
     (let s1 = (if x = StartWm then s\<lparr>sockets := wm_sockets dir\<rparr> else s)
      in case outcome_of x of
           Inr p \<Rightarrow>
             (let s2 = (if x \<in> {StartTarget, StartWm, StartMap} then s1\<lparr>processes := processes s1 @ [p]\<rparr> else s1);
                  (s3, e, out) = run_steps dir outcome_of xs s2
              in (s3, e, pass_lines x @ out))
         | Inl e \<Rightarrow> (s1, Some e, []))"

text \<open>The errors joined by the deferred function, the processes stopped in this order, and the output.\<close>

definition positiveScenario :: "string \<Rightarrow> (nat \<Rightarrow> attempt) \<Rightarrow> (smoke_step \<Rightarrow> string + nat) \<Rightarrow> (nat \<Rightarrow> string option) \<Rightarrow> (string \<Rightarrow> lstat_result)
    \<Rightarrow> string list \<times> nat list \<times> string list" where
  "positiveScenario dir as outcome_of stop lstat =
     (let (ps, broker) = startBroker 5 as 0 [];
          s = \<lparr>processes = ps, sockets = []\<rparr>;
          (s1, e, out) = (case broker of Inr _ \<Rightarrow> run_steps dir outcome_of scenario s | Inl e \<Rightarrow> (s, Some e, []))
      in ((case e of None \<Rightarrow> [] | Some m \<Rightarrow> [m]) @ suite_cleanup stop lstat s1, rev (processes s1), out))"

text \<open>The check of \<^verbatim>\<open>unavailableBrokerScenario\<close> on how the Target Service ended.\<close>

definition unavailable_ok :: "command_end \<Rightarrow> bool" where
  "unavailable_ok r \<longleftrightarrow> (\<exists>code. exit_code r = Some code \<and> code > 0) \<and> Contains (concat (map (\<lambda>l. l @ [newline]) (error_lines r))) ''connect to Broker''"

text \<open>The exchange of \<^verbatim>\<open>wmCommand\<close>; a Go map is encoded with its keys in order.\<close>

record wm_answer =
  wa_OK :: "bool option"
  wa_Message :: string

definition wm_answer_fields :: "wm_answer field list" where
  "wm_answer_fields = [bool_ptr_field ''ok'' (\<lambda>x r. r\<lparr>wa_OK := x\<rparr>), string_field ''message'' (\<lambda>x r. r\<lparr>wa_Message := x\<rparr>)]"

definition wm_request_bytes :: "string \<Rightarrow> string" where
  "wm_request_bytes c = json_print (JObj [(''command'', JStr c), (''window_id'', JStr ''map'')]) @ [newline]"

datatype wm_check = Accepted_answer | NoAnswer | BadAnswer json_error | Unexpected string

definition wmCommand :: "(string \<Rightarrow> string) \<Rightarrow> string \<Rightarrow> bool \<Rightarrow> wm_check" where
  "wmCommand server c wantOK =
     (let answer = server (wm_request_bytes c); l = takeWhile (\<lambda>x. x \<noteq> newline) answer
      in if dropWhile (\<lambda>x. x \<noteq> newline) answer = [] then NoAnswer
         else case Unmarshal_struct wm_answer_fields (l @ [newline]) \<lparr>wa_OK = None, wa_Message = []\<rparr> of
                Err e \<Rightarrow> BadAnswer e
              | Panic \<Rightarrow> NoAnswer
              | Ok r \<Rightarrow> if wa_OK r \<noteq> Some wantOK \<or> \<not> wantOK \<and> wa_Message r \<noteq> ''no window; send CREATE first'' then Unexpected c
                       else Accepted_answer)"

text \<open>The commands the scenario sends after the map has gone, each on the state the one before left.\<close>

fun wm_commands :: "('s \<Rightarrow> string \<Rightarrow> 's \<times> string) \<Rightarrow> (string \<times> bool) list \<Rightarrow> 's \<Rightarrow> 's \<times> wm_check list" where
  "wm_commands server [] s = (s, [])"
| "wm_commands server ((c, want) # cs) s =
     (let r = wmCommand (\<lambda>input. snd (server s input)) c want; (s1, rs) = wm_commands server cs (fst (server s (wm_request_bytes c)))
      in (s1, r # rs))"

definition reuse_commands :: "(string \<times> bool) list" where
  "reuse_commands = [(''SHOW'', False), (''CREATE'', True), (''CLOSE'', True), (''QUIT'', True)]"

section \<open>The command\<close>

text \<open>The results of the parts of \<^verbatim>\<open>run\<close> in order: the first error ends it, then the directory is removed in any case.\<close>

definition smoke_run :: "string \<Rightarrow> string option \<Rightarrow> string option \<Rightarrow> string list \<times> string list \<Rightarrow> string option \<Rightarrow> string option \<Rightarrow> (string \<Rightarrow> lstat_result)
    \<Rightarrow> string list \<times> string list" where
  "smoke_run dir mkdir_error build_error positive unavailable remove_error lstat = (case mkdir_error of
      Some e \<Rightarrow> ([e], [])
    | None \<Rightarrow>
        let (errs, out) =
              (case build_error of
                 Some e \<Rightarrow> ([e], [])
               | None \<Rightarrow> (case positive of (es, pass) \<Rightarrow>
                   let built = ''PASS build components (offline, headless)'' # pass in
                   if es \<noteq> [] then (es, built)
                   else case unavailable of Some e \<Rightarrow> ([e], built) | None \<Rightarrow> ([], built @ [''PASS unavailable Broker''])));
            result = errs @ (case remove_error of None \<Rightarrow> [] | Some e \<Rightarrow> [e]) @ (case checkAbsent lstat [dir] of None \<Rightarrow> [] | Some e \<Rightarrow> [e])
        in (result, (''Resources: '' @ dir) # out @ (if result = [] then [''PASS cleanup''] else [])))"

definition smoke_main :: "nat \<Rightarrow> int \<Rightarrow> string \<Rightarrow> (string, string) outcome \<Rightarrow> (string \<Rightarrow> string list) \<Rightarrow> int" where
  "smoke_main args timeout_ns goos found run_root =
     (if args \<noteq> 0 \<or> timeout_ns \<le> 0 then 2
      else if goos \<noteq> ''linux'' \<and> goos \<noteq> ''darwin'' then 2
      else case found of Ok r \<Rightarrow> if run_root r = [] then 0 else 1 | _ \<Rightarrow> 1)"

section \<open>Facts\<close>

lemma log_Write_last: "log_Write (drop (length w - log_limit) w) p = drop (length (w @ p) - log_limit) (w @ p)"
proof -
  let ?d = "length w - log_limit"
  have "length w + length p - log_limit = ?d" if "\<not> log_limit < length w + length p - ?d" using that by arith
  then show ?thesis by (auto simp: log_Write_def)
qed

lemma log_Write_all: "foldl log_Write (drop (length w - log_limit) w) ps = drop (length (w @ concat ps) - log_limit) (w @ concat ps)"
proof (induction ps arbitrary: w)
  case (Cons p ps)
  show ?case using Cons[of "w @ p"] by (simp add: log_Write_last del: drop_append)
qed simp

lemma startBroker_keeps:
  "startBroker n as i ps = (ps', r) \<Longrightarrow> (ps' = ps \<or> (\<exists>p. ps' = ps @ [p])) \<and> (\<forall>p a. r = Inr (p, a) \<longrightarrow> ps' = ps @ [p])"
  by (induction n arbitrary: i) (auto split: sum.splits option.splits if_splits)

lemma stop_ends: "process_stop name logs env = (None, sigs) \<Longrightarrow> se_done env \<or> se_ended env"
  by (auto simp: process_stop_def split: if_splits option.splits)

lemma waitFor_ready: "waitFor desc ws = Some (Ok ()) \<Longrightarrow> \<exists>w \<in> set ws. wr_ready w = Ok True \<and> wr_ctx w = None \<and> list_all (\<lambda>r. r = None) (wr_alive w)"
  by (induction ws) (auto simp: Let_def List.map_filter_def filter_empty_conv list_all_iff split: option.splits outcome.splits bool.splits list.splits)

text \<open>The request of \<^verbatim>\<open>wmCommand\<close> is the one of a command of the map, and its answer is read as the server wrote it.\<close>

lemma wm_request_command: "wm_request_bytes c = encode_command (command c)"
  by (simp add: wm_request_bytes_def encode_command_def command_json_def command_def omit_string_def omit_int_def omit_ptr_def)

lemma wm_answer_read:
  assumes "utf8_valid (resp_Message r)" "utf8_valid (resp_WindowID r)" "resp_Event r = []"
  shows "wmCommand (\<lambda>_. WriteResponse r) c wantOK =
     (if resp_OK r = wantOK \<and> (wantOK \<or> resp_Message r = no_window) then Accepted_answer else Unexpected c)"
proof -
  have w: "wf_json max_depth (wm_response_json r)" unfolding max_depth_Suc using assms by (intro wm_response_json_wf) simp_all
  note l = printed_line[OF w]
  have f: "find (\<lambda>f. fst f = ''message'') wm_answer_fields = Some (string_field ''message'' (\<lambda>x r. r\<lparr>wa_Message := x\<rparr>))"
    by (simp add: wm_answer_fields_def field_defs)
  have n: "fold_name ''message'' \<noteq> fold_name ''window_id''" "fold_name ''ok'' \<noteq> fold_name ''window_id''" by code_simp+
  have skip: "set_members wm_answer_fields (omit_string ''window_id'' x) a = Some a" for x a
    using n by (simp add: omit_string_def wm_answer_fields_def field_defs)
  have ok: "set_members wm_answer_fields ((''ok'', JBool x) # ms) a = set_members wm_answer_fields ms (a\<lparr>wa_OK := Some x\<rparr>)" for x ms a
    by (simp add: wm_answer_fields_def field_defs)
  have "decode_struct wm_answer_fields (wm_response_json r) \<lparr>wa_OK = None, wa_Message = []\<rparr> = Some \<lparr>wa_OK = Some (resp_OK r), wa_Message = resp_Message r\<rparr>"
    by (simp add: decode_struct_def wm_response_json_def set_members_append ok assms(3) omit_string_def[of "''event''"] set_string[OF f] skip del: set_members.simps)
  then have "Unmarshal_struct wm_answer_fields (json_print (wm_response_json r) @ [newline]) \<lparr>wa_OK = None, wa_Message = []\<rparr>
      = Ok \<lparr>wa_OK = Some (resp_OK r), wa_Message = resp_Message r\<rparr>" by (simp add: Unmarshal_struct_def l(2))
  then show ?thesis using newline_split[OF l(1), of "[]"] by (auto simp: wmCommand_def WriteResponse_def Let_def no_window_def)
qed

lemma wm_exchange:
  assumes "c \<in> {''SHOW'', ''CREATE'', ''CLOSE'', ''QUIT''}" "handleRequest upper ops True (Ok (to_request (command c))) s b = (s', b', Some r)"
    and "utf8_valid (resp_Message r)" "utf8_valid (resp_WindowID r)" "resp_Event r = []"
  shows "serve_bytes upper describe ops s b (wm_request_bytes c) = (s', b', WriteResponse r)"
    and "wmCommand (\<lambda>input. snd (snd (serve_bytes upper describe ops s b input))) c wantOK =
      (if resp_OK r = wantOK \<and> (wantOK \<or> resp_Message r = no_window) then Accepted_answer else Unexpected c)"
proof -
  have v: "utf8_valid c" using assms(1) by (auto intro!: utf8_valid_printable simp: printable_def)
  have w: "wf_command (command c)" "cmd_Command (command c) \<noteq> []"
    using assms(1) v by (auto simp: wf_command_def command_def int64_def utf8_valid_printable printable_def)
  have "ReadRequest True (wm_request_bytes c) = Ok (to_request (command c))"
    using request_arrives[OF w, of True "[]"] by (simp add: wm_request_command)
  then show e: "serve_bytes upper describe ops s b (wm_request_bytes c) = (s', b', WriteResponse r)"
    using assms(2) by (simp add: serve_bytes_def Let_def)
  have "wmCommand (\<lambda>input. snd (snd (serve_bytes upper describe ops s b input))) c wantOK = wmCommand (\<lambda>_. WriteResponse r) c wantOK"
    by (simp add: wmCommand_def e)
  then show "wmCommand (\<lambda>input. snd (snd (serve_bytes upper describe ops s b input))) c wantOK =
      (if resp_OK r = wantOK \<and> (wantOK \<or> resp_Message r = no_window) then Accepted_answer else Unexpected c)"
    using wm_answer_read[OF assms(3-5)] by simp
qed

lemma smoke_command_words: "c \<in> {''SHOW'', ''CREATE'', ''CLOSE'', ''QUIT''} \<Longrightarrow> command_of upper (to_request (command c)) = c"
  by (auto simp: command_of_def to_request_def command_def intro!: command_word)

lemma answers_valid: "utf8_valid no_window" "utf8_valid ''created''" "utf8_valid ''closed''" "utf8_valid ''stopping''" "utf8_valid ''shown''" "utf8_valid ''map''"
  "utf8_valid ''window already exists''"
  by (simp_all add: no_window_def utf8_valid_printable printable_def)

text \<open>The four commands on the headless backend.\<close>

definition headless_server :: "(nat \<Rightarrow> nat) \<Rightarrow> (Wm_Protocol.read_error \<Rightarrow> string) \<Rightarrow> (string \<Rightarrow> (string, picture) outcome)
    \<Rightarrow> Server \<times> Backend \<Rightarrow> string \<Rightarrow> (Server \<times> Backend) \<times> string" where
  "headless_server upper describe files sb input =
     (let (s', b', out) = serve_bytes upper describe (headless_ops files) (fst sb) (snd sb) input in ((s', b'), out))"

lemma headless_calls:
  "live_window b \<Longrightarrow> \<exists>b'. on_window Show b = (b', Ok ()) \<and> live_window b'"
  "live_window b \<Longrightarrow> \<exists>b'. on_window Close b = (b', Ok ()) \<and> \<not> live_window b'"
  "\<not> live_window b \<Longrightarrow> \<exists>b'. Create (create_config (to_request (command c))) b = (b', Ok ()) \<and> live_window b'"
  by (auto simp: on_window_def Show_def Close_def live_window_def Create_def create_config_def to_request_def command_def NewRGBA_def Let_def split: option.splits)

lemmas smoke_handler_defs = handleRequest_def smoke_command_words dispatch_def handler_defs headless_ops_def answer_def forget_window_def

lemma wm_commands_step:
  assumes "c \<in> {''SHOW'', ''CREATE'', ''CLOSE'', ''QUIT''}" "handleRequest upper (headless_ops files) True (Ok (to_request (command c))) s b = (s', b', Some r)"
    and "utf8_valid (resp_Message r)" "utf8_valid (resp_WindowID r)" "resp_Event r = []"
  shows "wm_commands (headless_server upper describe files) ((c, want) # cs) (s, b) =
     (let (t, rs) = wm_commands (headless_server upper describe files) cs (s', b')
      in (t, (if resp_OK r = want \<and> (want \<or> resp_Message r = no_window) then Accepted_answer else Unexpected c) # rs))"
  using wm_exchange(1)[OF assms, of describe] wm_exchange(2)[OF assms, of describe want] by (simp add: headless_server_def case_prod_beta Let_def)

lemma no_window_commands:
  assumes "\<not> has_window s" "\<not> live_window b"
  shows "\<exists>s' b'. wm_commands (headless_server upper describe files) reuse_commands (s, b) = ((s', b'), replicate 4 Accepted_answer)
     \<and> stopped s' \<and> \<not> has_window s' \<and> \<not> live_window b'"
proof -
  let ?ops = "headless_ops files" and ?s1 = "s\<lparr>has_window := True, windowID := ''map''\<rparr>"
  obtain b1 where c: "Create (create_config (to_request (command ''CREATE''))) b = (b1, Ok ())" "live_window b1" using headless_calls(3)[OF assms(2)] by blast
  obtain b2 where d: "on_window Close b1 = (b2, Ok ())" "\<not> live_window b2" using headless_calls(2)[OF c(2)] by blast
  have id: "cfg_ID (create_config (to_request (command ''CREATE''))) = ''map''" by (simp add: create_config_def to_request_def command_def)
  have h: "handleRequest upper ?ops True (Ok (to_request (command ''SHOW''))) s b = (s, b, Some (reply False no_window))"
    "handleRequest upper ?ops True (Ok (to_request (command ''CREATE''))) s b = (?s1, b1, Some ((reply True ''created'')\<lparr>resp_WindowID := ''map''\<rparr>))"
    "handleRequest upper ?ops True (Ok (to_request (command ''CLOSE''))) ?s1 b1 = (forget_window ?s1, b2, Some (reply True ''closed''))"
    "handleRequest upper ?ops True (Ok (to_request (command ''QUIT''))) (forget_window ?s1) b2 = ((forget_window ?s1)\<lparr>stopped := True\<rparr>, b2, Some (reply True ''stopping''))"
    using assms c d id by (simp_all add: smoke_handler_defs)
  note st = wm_commands_step[OF _ h(1)] wm_commands_step[OF _ h(2)] wm_commands_step[OF _ h(3)] wm_commands_step[OF _ h(4)]
  have "wm_commands (headless_server upper describe files) reuse_commands (s, b) = (((forget_window ?s1)\<lparr>stopped := True\<rparr>, b2), replicate 4 Accepted_answer)"
    unfolding reuse_commands_def by (simp add: st answers_valid reply_def numeral_eq_Suc del: wm_commands.simps(2))
  then show ?thesis using d by (intro exI conjI) (auto simp: forget_window_def)
qed

lemma left_window_commands:
  assumes "has_window s" "live_window b"
  shows "hd (snd (wm_commands (headless_server upper describe files) reuse_commands (s, b))) = Unexpected ''SHOW''"
proof -
  obtain b1 where c: "on_window Show b = (b1, Ok ())" using headless_calls(1)[OF assms(2)] by blast
  have "handleRequest upper (headless_ops files) True (Ok (to_request (command ''SHOW''))) s b = (s, b1, Some (reply True ''shown''))"
    using assms(1) c by (simp add: smoke_handler_defs)
  note st = wm_commands_step[OF _ this]
  show ?thesis unfolding reuse_commands_def by (simp add: st answers_valid reply_def case_prod_beta del: wm_commands.simps(2))
qed

lemma path_to_inject: "list_all dir_name a \<Longrightarrow> list_all dir_name b \<Longrightarrow> path_to a = path_to b \<longleftrightarrow> a = b"
  by (metis walk_path_to)

lemma dir_part_slash: "CHR ''/'' \<notin> set w \<Longrightarrow> dir_part (a @ CHR ''/'' # w) = a @ ''/''"
proof -
  assume w: "CHR ''/'' \<notin> set w"
  have "dropWhile (\<lambda>c. c \<noteq> CHR ''/'') (rev w @ CHR ''/'' # rev a) = CHR ''/'' # rev a"
    using w by (subst dropWhile_append2) auto
  then show ?thesis by (simp add: dir_part_def)
qed

lemma Dir_path_to:
  assumes "list_all dir_name pos"
  shows "Dir (path_to pos) = path_to (butlast pos)"
proof (cases pos rule: rev_cases)
  case Nil
  have "Dir ''/'' = ''/''" by code_simp
  then show ?thesis using Nil by (simp add: path_to_def)
next
  case (snoc xs w)
  have w: "CHR ''/'' \<notin> set w" using assms snoc by (simp add: dir_name_def)
  have j: "path_to (xs @ [w]) = (if xs = [] then [] else path_to xs) @ CHR ''/'' # w"
    by (induction xs rule: join_slash.induct) (auto simp: path_to_def)
  have xs: "list_all dir_name xs" using assms snoc by simp
  have "walk [] ((if xs = [] then [] else path_to xs) @ ''/'') = xs"
  proof (cases "xs = []")
    case True
    then show ?thesis by (simp add: walk_def clean_step_def)
  next
    case False
    have "walk [] (path_to xs @ CHR ''/'' # []) = walk (walk [] (path_to xs)) []" by (rule walk_join) (simp_all add: path_to_def)
    moreover have "walk pos [] = pos" for pos by (simp add: walk_def clean_step_def)
    ultimately show ?thesis using walk_path_to[OF xs] False by simp
  qed
  moreover have "IsAbs ((if xs = [] then [] else path_to xs) @ ''/'')" by (simp add: path_to_def)
  ultimately have "Clean ((if xs = [] then [] else path_to xs) @ ''/'') = path_to xs" using Clean_abs by metis
  then show ?thesis using snoc dir_part_slash[OF w] j by (simp add: Dir_def)
qed

text \<open>A directory and the ones above it, the root last.\<close>

definition ancestors :: "string list \<Rightarrow> string list" where
  "ancestors pos = map (\<lambda>n. path_to (take n pos)) (rev [0..<Suc (length pos)])"

lemma ancestors_simps: "ancestors [] = [path_to []]" "ancestors (pos @ [w]) = path_to (pos @ [w]) # ancestors pos"
proof -
  have "map (\<lambda>n. path_to (take n (pos @ [w]))) (rev [0..<Suc (length pos)]) = map (\<lambda>n. path_to (take n pos)) (rev [0..<Suc (length pos)])"
    by (intro map_cong) auto
  then show "ancestors (pos @ [w]) = path_to (pos @ [w]) # ancestors pos" unfolding ancestors_def by (simp only: length_append_singleton) simp
qed (simp add: ancestors_def)

text \<open>The search ends in every directory, with the nearest directory above it that holds the module of the smoke test.\<close>

lemma find_root_nearest:
  "list_all dir_name pos \<Longrightarrow> find_root stat (path_to pos) =
     Some (case find (\<lambda>d. stat (Join d marker_file)) (ancestors pos) of
             Some d \<Rightarrow> Ok d | None \<Rightarrow> Err ''run from inside the tac-os checkout'')"
proof (induction pos rule: rev_induct)
  case Nil
  then show ?case using Dir_path_to[of "[]"] by (subst find_root.simps) (simp add: Let_def ancestors_simps)
next
  case (snoc w pos)
  have "path_to pos \<noteq> path_to (pos @ [w])" using path_to_inject[of pos "pos @ [w]"] snoc.prems by simp
  then show ?case using snoc Dir_path_to[OF snoc.prems] by (subst find_root.simps) (simp add: Let_def ancestors_simps)
qed

lemma run_steps_done:
  "run_steps dir oc xs s = (s', None, out) \<Longrightarrow>
   (\<forall>x \<in> set xs. \<exists>p. oc x = Inr p) \<and> sockets s' = (if StartWm \<in> set xs then wm_sockets dir else sockets s)"
  by (induction xs arbitrary: s out) (fastforce simp: Let_def split: sum.splits prod.splits if_splits)+

lemma checkAbsent_None: "checkAbsent lstat ps = None \<longleftrightarrow> (\<forall>p \<in> set ps. lstat p = NotExist)"
  by (induction ps) (auto split: lstat_result.splits)

text \<open>A scenario passes only if every step succeeded, every process it had started was stopped without an error and the sockets are gone.\<close>

lemma positive_passes:
  assumes "positiveScenario dir as oc stop lstat = ([], qs, out)"
  shows "(\<forall>x \<in> set scenario. \<exists>p. oc x = Inr p) \<and> (\<forall>p \<in> set qs. stop p = None) \<and> (\<forall>q \<in> set (wm_sockets dir). lstat q = NotExist)"
proof -
  obtain ps br where b: "startBroker 5 as 0 [] = (ps, br)" by fastforce
  define s where "s = \<lparr>processes = ps, sockets = []\<rparr>"
  obtain q where br: "br = Inr q" using assms b by (cases br) (auto simp: positiveScenario_def)
  obtain s1 e o1 where r: "run_steps dir oc scenario s = (s1, e, o1)" by (cases "run_steps dir oc scenario s")
  have a: "e = None" "suite_cleanup stop lstat s1 = []" "qs = rev (processes s1)"
    using assms b br r by (auto simp: positiveScenario_def s_def Let_def split: option.splits)
  note d = run_steps_done[OF r[unfolded a(1)]]
  have "sockets s1 = wm_sockets dir" using d by (simp add: scenario_def)
  then show ?thesis using d a(2,3)
    by (auto simp: suite_cleanup_def List.map_filter_def filter_empty_conv checkAbsent_None[symmetric] split: option.splits)
qed

lemma Contains_prefix: "Contains (sub @ t) sub"
  unfolding Contains_def list_ex_iff by (rule bexI[of _ 0]) (simp_all add: HasPrefix_def)

text \<open>The Target Service that cannot reach the Broker ends as the second scenario expects.\<close>

lemma unavailable_passes: "unavailable_ok (service_main 0 (run_service address (Some e) sub_ok io received failed cancelled))"
  using Contains_prefix[of "''connect to Broker''"] by (simp add: unavailable_ok_def service_main_def run_service_def connect_error_def)

section \<open>Properties\<close>

text \<open>The search for the repository ends from every working directory, although its loop is written without a bound: it returns the nearest
  directory, from the working directory up to the root, that contains the module of the smoke test, and an error if there is none.\<close>

theorem repository_found:
  assumes "list_all dir_name pos"
  shows "repositoryRoot stat (Ok (path_to pos)) =
     Some (case find (\<lambda>d. stat (Join d marker_file)) (ancestors pos) of Some d \<Rightarrow> Ok d | None \<Rightarrow> Err ''run from inside the tac-os checkout'')"
  using find_root_nearest[OF assms] by (simp add: repositoryRoot_def)

lemma repository_found_witness:
  "repositoryRoot (\<lambda>p. p = ''/src/tests/system-smoke/go.mod'') (Ok ''/src/app/map'') = Some (Ok ''/src'')"
proof -
  have d: "list_all dir_name [''src'', ''app'', ''map'']" by code_simp
  have p: "path_to [''src'', ''app'', ''map''] = ''/src/app/map''" by code_simp
  have "ancestors [''src'', ''app'', ''map''] = [''/src/app/map'', ''/src/app'', ''/src'', ''/'']" by code_simp
  moreover have "Join ''/src/app/map'' marker_file \<noteq> ''/src/tests/system-smoke/go.mod''" "Join ''/src/app'' marker_file \<noteq> ''/src/tests/system-smoke/go.mod''"
    "Join ''/src'' marker_file = ''/src/tests/system-smoke/go.mod''" by code_simp+
  ultimately show ?thesis using repository_found[OF d, of "\<lambda>p. p = ''/src/tests/system-smoke/go.mod''"] by (simp add: p)
qed

text \<open>Whatever a process writes and in whatever pieces, the log buffer of the smoke test holds the last 64 KiB of it, all of it when
  it is shorter.\<close>

theorem log_keeps_last: "foldl log_Write [] ps = drop (length (concat ps) - log_limit) (concat ps)"
  using log_Write_all[of "[]" ps] by simp

text \<open>The check of the smoke test on the window manager is exact. Over the bytes on the socket, the four commands after the map
  has gone, SHOW to be refused and CREATE, CLOSE and QUIT to succeed, are all accepted exactly if the map left no window behind; then the window manager
  is stopped without a window.\<close>

theorem smoke_wm_reuse:
  assumes "has_window s = live_window b"
  shows "case wm_commands (headless_server upper describe files) reuse_commands (s, b) of ((s', b'), rs) \<Rightarrow>
       (list_all (\<lambda>r. r = Accepted_answer) rs \<longleftrightarrow> \<not> has_window s) \<and> (\<not> has_window s \<longrightarrow> stopped s' \<and> \<not> has_window s' \<and> \<not> live_window b')"
proof (cases "has_window s")
  case True
  obtain t rs where w: "wm_commands (headless_server upper describe files) reuse_commands (s, b) = (t, rs)" by fastforce
  then have "hd rs = Unexpected ''SHOW''" using left_window_commands[of s b upper describe files] True assms by simp
  moreover have "rs \<noteq> []" using w by (auto simp: reuse_commands_def Let_def split: prod.splits)
  ultimately show ?thesis using w True by (cases rs; cases t) auto
next
  case False
  then obtain s' b' where "wm_commands (headless_server upper describe files) reuse_commands (s, b) = ((s', b'), replicate 4 Accepted_answer)"
    "stopped s'" "\<not> has_window s'" "\<not> live_window b'" using no_window_commands[of s b upper describe files] assms by auto
  then show ?thesis using False by (simp add: numeral_eq_Suc)
qed

lemma smoke_wm_reuse_witness:
  "list_all (\<lambda>r. r = Accepted_answer) (snd (wm_commands (headless_server (\<lambda>r. r) (\<lambda>_. []) (\<lambda>_. Err [])) reuse_commands (new_Server, None)))"
proof -
  have "has_window new_Server = live_window None" by (simp add: new_Server_def live_window_def)
  from smoke_wm_reuse[OF this, of "\<lambda>r. r" "\<lambda>_. []" "\<lambda>_. Err []"] show ?thesis by (auto simp: new_Server_def split: prod.splits)
qed

end
