(* ===== verification/Wm_Sdl.thy ===== *)
theory Wm_Sdl
  imports Wm_Server
begin

text \<open>
  \<^verbatim>\<open>window-manager/backend/sdl\<close>: the backend that opens a native window. The SDL library is an argument
  of the model: what a call returns is an arbitrary function of the calls made before it, so that every theorem
  holds for every behaviour of the library and of the desktop. The state of the backend is the trace of the
  calls it made and the window it created last; drawing happens in an image of the backend's own, which \<open>Present\<close>
  converts to the pixel format of the window surface.
\<close>

section \<open>The library\<close>

datatype sdl_call = Init | CreateWindow string int int | GetSurface | ShowWindow | UpdateSurface | Destroy | Quit
  | PollEvent | LockSurface | UnlockSurface

text \<open>A call with whether it succeeded.\<close>

type_synonym sdl_trace = "(sdl_call \<times> bool) list"

text \<open>The event types that the poll loop tells apart; a window event has its kind.\<close>

datatype sdl_event = QuitEvent | WindowEvent "8 word" | OtherEvent

definition WINDOWEVENT_CLOSE :: "8 word" where
  "WINDOWEVENT_CLOSE = 14"

text \<open>What \<^verbatim>\<open>Pixels()\<close>, \<^verbatim>\<open>Pitch\<close>, \<^verbatim>\<open>Format.BytesPerPixel\<close> and \<^verbatim>\<open>MapRGBA\<close> of the format give for a surface.\<close>

record surface =
  Pixels :: "8 word list"
  Pitch :: int
  BytesPerPixel :: int
  MapRGBA :: "Color \<Rightarrow> 32 word"

text \<open>
  The error of a call after the calls of a trace, if it fails; the events that \<^verbatim>\<open>PollEvent\<close> returns one by one
  before it returns nil, of which there are finitely many since SDL puts an end mark behind the events it pumped;
  the surface of the window.
\<close>

record sdl_lib =
  lib_error :: "sdl_trace \<Rightarrow> sdl_call \<Rightarrow> string option"
  lib_events :: "sdl_trace \<Rightarrow> sdl_event list"
  lib_surface :: "sdl_trace \<Rightarrow> surface"

text \<open>
  A colour as \<^verbatim>\<open>At\<close> of a decoded picture returns it: \<^verbatim>\<open>color.NRGBA\<close>, which \<^verbatim>\<open>NRGBAModel.Convert\<close> does not change,
  or another type, by its \<^verbatim>\<open>RGBA()\<close>.
\<close>

datatype go_color = Straight Color | Premultiplied rgba16

primrec color_RGBA :: "go_color \<Rightarrow> rgba16" where
  "color_RGBA (Straight c) = NRGBA_RGBA c"
| "color_RGBA (Premultiplied q) = q"

record sdl_picture =
  sp_minX :: int
  sp_minY :: int
  sp_dx :: int
  sp_dy :: int
  sp_at :: "int \<Rightarrow> int \<Rightarrow> go_color"

text \<open>\<^verbatim>\<open>color.NRGBAModel.Convert\<close>\<close>

definition to_NRGBA :: "rgba16 \<Rightarrow> Color" where
  "to_NRGBA q = (case q of (r, g, b, a) \<Rightarrow>
     if a = 65535 then \<lparr>c_r = byte r, c_g = byte g, c_b = byte b, c_a = 255\<rparr>
     else if a = 0 then \<lparr>c_r = 0, c_g = 0, c_b = 0, c_a = 0\<rparr>
     else \<lparr>c_r = byte (u32 (r * 65535) div a), c_g = byte (u32 (g * 65535) div a), c_b = byte (u32 (b * 65535) div a), c_a = byte a\<rparr>)"

primrec NRGBAModel :: "go_color \<Rightarrow> Color" where
  "NRGBAModel (Straight c) = c"
| "NRGBAModel (Premultiplied q) = to_NRGBA q"

section \<open>The backend\<close>

record sdl_window =
  win_closed :: bool
  win_back :: image
  win_pixels :: "8 word list"

record sdl_state =
  calls :: sdl_trace
  win :: "sdl_window option"

text \<open>One call of the library: it is noted with its success.\<close>

definition sdl_do :: "sdl_lib \<Rightarrow> sdl_call \<Rightarrow> sdl_state \<Rightarrow> sdl_state \<times> string option" where
  "sdl_do lib c b = (let e = lib_error lib (calls b) c in (b\<lparr>calls := calls b @ [(c, e = None)]\<rparr>, e))"

text \<open>A call without a result, or whose error is dropped.\<close>

definition sdl_note :: "sdl_lib \<Rightarrow> sdl_call \<Rightarrow> sdl_state \<Rightarrow> sdl_state" where
  "sdl_note lib c b = fst (sdl_do lib c b)"

definition wrap32 :: "int \<Rightarrow> int" where
  "wrap32 n = (n + 2 ^ 31) mod 2 ^ 32 - 2 ^ 31"

definition sdl_config :: "WindowConfig \<Rightarrow> WindowConfig" where
  "sdl_config cfg = cfg\<lparr>cfg_Width := if cfg_Width cfg \<le> 0 then 960 else cfg_Width cfg,
     cfg_Height := if cfg_Height cfg \<le> 0 then 640 else cfg_Height cfg,
     cfg_Title := if cfg_Title cfg = [] then ''Tactical Map'' else cfg_Title cfg\<rparr>"

definition sdl_Create :: "sdl_lib \<Rightarrow> WindowConfig \<Rightarrow> (sdl_state, unit) backend_call" where
  "sdl_Create lib cfg0 b = (let cfg = sdl_config cfg0; (b1, e1) = sdl_do lib Init b in
     case e1 of Some e \<Rightarrow> (b1, Err e) | None \<Rightarrow>
     (let (b2, e2) = sdl_do lib (CreateWindow (cfg_Title cfg) (wrap32 (cfg_Width cfg)) (wrap32 (cfg_Height cfg))) b1 in
      case e2 of Some e \<Rightarrow> (sdl_note lib Quit b2, Err e) | None \<Rightarrow>
      (let (b3, e3) = sdl_do lib GetSurface b2 in
       case e3 of Some e \<Rightarrow> (sdl_note lib Quit (sdl_note lib Destroy b3), Err e) | None \<Rightarrow>
       (case NewRGBA (cfg_Width cfg) (cfg_Height cfg) of
          Panic \<Rightarrow> (b3, Panic)
        | Err e \<Rightarrow> (b3, Err e)
        | Ok img \<Rightarrow> (b3\<lparr>win := Some \<lparr>win_closed = False, win_back = img, win_pixels = []\<rparr>\<rparr>, Ok ())))))"

text \<open>The methods lock the window's mutex and begin with the closed check.\<close>

definition sdl_open :: "(sdl_window \<Rightarrow> (sdl_state, 'a) backend_call) \<Rightarrow> (sdl_state, 'a) backend_call" where
  "sdl_open f b = (case win b of None \<Rightarrow> (b, Panic)
     | Some w \<Rightarrow> if win_closed w then (b, Err ErrWindowClosed) else f w b)"

definition answer_call :: "sdl_state \<times> string option \<Rightarrow> sdl_state \<times> (string, unit) outcome" where
  "answer_call r = (fst r, case snd r of None \<Rightarrow> Ok () | Some e \<Rightarrow> Err e)"

definition sdl_Show :: "sdl_lib \<Rightarrow> (sdl_state, unit) backend_call" where
  "sdl_Show lib = sdl_open (\<lambda>w b. answer_call (sdl_do lib UpdateSurface (sdl_note lib ShowWindow b)))"

definition sdl_Close :: "sdl_lib \<Rightarrow> (sdl_state, unit) backend_call" where
  "sdl_Close lib b = (case win b of None \<Rightarrow> (b, Panic)
     | Some w \<Rightarrow> if win_closed w then (b, Ok ())
         else (sdl_note lib Quit (sdl_note lib Destroy (b\<lparr>win := Some (w\<lparr>win_closed := True\<rparr>)\<rparr>)), Ok ()))"

text \<open>The poll loop over the events that are pending: the events it returns and the number of \<^verbatim>\<open>PollEvent\<close> calls.\<close>

fun poll_loop :: "sdl_event list \<Rightarrow> string list \<times> nat" where
  "poll_loop [] = ([], 1)"
| "poll_loop (QuitEvent # es) = ([''window_close''], 1)"
| "poll_loop (WindowEvent k # es) = (if k = WINDOWEVENT_CLOSE then ([''window_close''], 1) else (let (r, n) = poll_loop es in (r, Suc n)))"
| "poll_loop (OtherEvent # es) = (let (r, n) = poll_loop es in (r, Suc n))"

definition sdl_PollEvents :: "sdl_lib \<Rightarrow> (sdl_state, string list) backend_call" where
  "sdl_PollEvents lib b = (case win b of None \<Rightarrow> (b, Panic)
     | Some w \<Rightarrow> if win_closed w then (b, Ok [])
         else let (events, n) = poll_loop (lib_events lib (calls b))
              in (b\<lparr>calls := calls b @ replicate n (PollEvent, True)\<rparr>, Ok events))"

section \<open>Drawing\<close>

text \<open>\<^verbatim>\<open>blend\<close> of the SDL backend works on straight colours, in \<^verbatim>\<open>uint32\<close>, and stores the result through \<^verbatim>\<open>Set\<close>.\<close>

definition out_alpha :: "8 word \<Rightarrow> 8 word \<Rightarrow> nat" where
  "out_alpha a da = u32 (unat a + u32 (unat da * (255 - unat a)) div 255)"

definition channel :: "8 word \<Rightarrow> 8 word \<Rightarrow> 8 word \<Rightarrow> 8 word \<Rightarrow> 8 word" where
  "channel a da s d =
     (let n = u32 (u32 (unat s * unat a) + u32 (u32 (unat d * unat da) * (255 - unat a)) div 255)
      in word_of_nat (n div out_alpha a da))"

definition straight_blend :: "Color \<Rightarrow> Color \<Rightarrow> Color" where
  "straight_blend src dst =
     (if out_alpha (c_a src) (c_a dst) = 0 then \<lparr>c_r = 0, c_g = 0, c_b = 0, c_a = 0\<rparr>
      else \<lparr>c_r = channel (c_a src) (c_a dst) (c_r src) (c_r dst), c_g = channel (c_a src) (c_a dst) (c_g src) (c_g dst),
            c_b = channel (c_a src) (c_a dst) (c_b src) (c_b dst), c_a = word_of_nat (out_alpha (c_a src) (c_a dst))\<rparr>)"

definition sdl_pixel :: "Color \<Rightarrow> RGBA \<Rightarrow> RGBA" where
  "sdl_pixel src old = (if c_a src = 0 then old else to_RGBA (NRGBA_RGBA (straight_blend src (to_NRGBA (RGBA_RGBA old)))))"

definition sdl_blend :: "image \<Rightarrow> int \<Rightarrow> int \<Rightarrow> Color \<Rightarrow> image" where
  "sdl_blend dst x y src = (if c_a src = 0 then dst
     else SetRGBA dst x y (to_RGBA (NRGBA_RGBA (straight_blend src (to_NRGBA (RGBA_RGBA (RGBAAt dst x y)))))))"

definition set_back :: "sdl_window \<Rightarrow> image \<Rightarrow> sdl_state \<Rightarrow> sdl_state" where
  "set_back w img b = b\<lparr>win := Some (w\<lparr>win_back := img\<rparr>)\<rparr>"

definition sdl_BeginFrame :: "Color \<Rightarrow> (sdl_state, unit) backend_call" where
  "sdl_BeginFrame c = sdl_open (\<lambda>w b. (set_back w (fill (win_back w) c) b, Ok ()))"

definition sdl_scale :: "sdl_picture \<Rightarrow> int \<Rightarrow> int \<Rightarrow> int \<Rightarrow> int \<Rightarrow> image \<Rightarrow> image" where
  "sdl_scale src x y width height back =
     (let x1 = wrap64 (x + width); y1 = wrap64 (y + height);
          minX = max (min x x1) 0; maxX = min (max x x1) (Dx back);
          minY = max (min y y1) 0; maxY = min (max y y1) (Dy back)
      in if maxX \<le> minX \<or> maxY \<le> minY then back
         else for_pixels minY (maxY - 1) minX (maxX - 1)
                (\<lambda>px py img.
                   let sx = quot (wrap64 (wrap64 (px - x) * sp_dx src)) width;
                       sy = quot (wrap64 (wrap64 (py - y) * sp_dy src)) height
                   in sdl_blend img px py (NRGBAModel (sp_at src (wrap64 (sp_minX src + sx)) (wrap64 (sp_minY src + sy)))))
                back)"

definition sdl_DrawImage :: "(string \<Rightarrow> (string, sdl_picture) outcome) \<Rightarrow> string \<Rightarrow> int \<Rightarrow> int \<Rightarrow> int \<Rightarrow> int
    \<Rightarrow> (sdl_state, unit) backend_call" where
  "sdl_DrawImage files path x y width height = sdl_open (\<lambda>w b.
     if path = [] \<or> width \<le> 0 \<or> height \<le> 0 then (b, Err ''invalid image parameters'')
     else case files path of
            Err e \<Rightarrow> (b, Err e)
          | Panic \<Rightarrow> (b, Panic)
          | Ok src \<Rightarrow> (set_back w (sdl_scale src x y width height (win_back w)) b, Ok ()))"

definition sdl_disc :: "int \<Rightarrow> int \<Rightarrow> int \<Rightarrow> Color \<Rightarrow> image \<Rightarrow> image" where
  "sdl_disc x y radius c back =
     (let r2 = wrap64 (radius * radius);
          minX = max (wrap64 (x - radius)) 0; maxX = min (wrap64 (x + radius)) (Dx back - 1);
          minY = max (wrap64 (y - radius)) 0; maxY = min (wrap64 (y + radius)) (Dy back - 1)
      in for_pixels minY maxY minX maxX
           (\<lambda>px py img.
              let dx = wrap64 (px - x); dy = wrap64 (py - y)
              in if wrap64 (wrap64 (dx * dx) + wrap64 (dy * dy)) \<le> r2 then sdl_blend img px py c else img)
           back)"

definition sdl_DrawCircle :: "int \<Rightarrow> int \<Rightarrow> int \<Rightarrow> Color \<Rightarrow> (sdl_state, unit) backend_call" where
  "sdl_DrawCircle x y radius c = sdl_open (\<lambda>w b.
     if radius \<le> 0 then (b, Err ''radius must be positive'')
     else (set_back w (sdl_disc x y radius c (win_back w)) b, Ok ()))"

section \<open>Present\<close>

definition put_byte :: "int \<Rightarrow> 8 word \<Rightarrow> 8 word list \<Rightarrow> ('e, 8 word list) outcome" where
  "put_byte i v ps = (if i < 0 then Panic else slice_set ps (nat i) v)"

definition put_pixel :: "int \<Rightarrow> 32 word \<Rightarrow> 8 word list \<Rightarrow> ('e, 8 word list) outcome" where
  "put_pixel offset v ps =
     obind (put_byte offset (ucast v) ps) (\<lambda>ps.
     obind (put_byte (wrap64 (offset + 1)) (ucast (drop_bit 8 v)) ps) (\<lambda>ps.
     obind (put_byte (wrap64 (offset + 2)) (ucast (drop_bit 16 v)) ps) (\<lambda>ps.
       put_byte (wrap64 (offset + 3)) (ucast (drop_bit 24 v)) ps)))"

definition present_pixel :: "surface \<Rightarrow> image \<Rightarrow> int \<Rightarrow> int \<Rightarrow> 8 word list \<Rightarrow> ('e, 8 word list) outcome" where
  "present_pixel sf back x y ps =
     (let c = to_NRGBA (RGBA_RGBA (RGBAAt back x y));
          offset = wrap64 (wrap64 (y * Pitch sf) + wrap64 (x * BytesPerPixel sf))
      in if BytesPerPixel sf = 4 then put_pixel offset (MapRGBA sf c) ps else Ok ps)"

fun each :: "('a \<Rightarrow> 'p \<Rightarrow> ('e, 'p) outcome) \<Rightarrow> 'a list \<Rightarrow> 'p \<Rightarrow> ('e, 'p) outcome" where
  "each f [] p = Ok p"
| "each f (x # xs) p = obind (f x p) (each f xs)"

definition present_pixels :: "surface \<Rightarrow> image \<Rightarrow> ('e, 8 word list) outcome" where
  "present_pixels sf back =
     each (\<lambda>y. each (\<lambda>x. present_pixel sf back x y) [0..Dx back - 1]) [0..Dy back - 1] (Pixels sf)"

text \<open>The surface is unlocked when the function returns, after \<open>UpdateSurface\<close>.\<close>

definition sdl_Present :: "sdl_lib \<Rightarrow> (sdl_state, unit) backend_call" where
  "sdl_Present lib = sdl_open (\<lambda>w b.
     let (b1, e) = sdl_do lib LockSurface b in
     case e of Some e \<Rightarrow> (b1, Err e) | None \<Rightarrow>
     (case present_pixels (lib_surface lib (calls b1)) (win_back w) of
        Panic \<Rightarrow> (sdl_note lib UnlockSurface b1, Panic)
      | Err e \<Rightarrow> (sdl_note lib UnlockSurface b1, Err e)
      | Ok ps \<Rightarrow> (let (b2, r) = answer_call (sdl_do lib UpdateSurface (b1\<lparr>win := Some (w\<lparr>win_pixels := ps\<rparr>)\<rparr>))
                 in (sdl_note lib UnlockSurface b2, r))))"

definition sdl_ops :: "sdl_lib \<Rightarrow> (string \<Rightarrow> (string, sdl_picture) outcome) \<Rightarrow> sdl_state backend_ops" where
  "sdl_ops lib files = \<lparr>op_create = sdl_Create lib, op_show = sdl_Show lib, op_close = sdl_Close lib,
     op_poll = sdl_PollEvents lib, op_drawing = (\<lambda>_. True), op_begin = sdl_BeginFrame, op_image = sdl_DrawImage files,
     op_circle = sdl_DrawCircle, op_present = sdl_Present lib\<rparr>"

definition sdl_New :: sdl_state where
  "sdl_New = \<lparr>calls = [], win = None\<rparr>"

text \<open>Without the build tag \<^verbatim>\<open>sdl\<close> there is a backend that refuses every window; it has no window type.\<close>

definition ErrSDLBuildTag :: string where
  "ErrSDLBuildTag = ''SDL backend not compiled; rebuild with -tags sdl''"

definition disabled_Create :: "WindowConfig \<Rightarrow> ('b, unit) backend_call" where
  "disabled_Create cfg b = (b, Err ErrSDLBuildTag)"

section \<open>The protocol of the library\<close>

text \<open>
  The order in which the library may be called: a window is created only between \<open>Init\<close> and \<open>Quit\<close> and destroyed
  before \<open>Quit\<close>, its surface is used only while it exists, and a lock is released before the next one.
\<close>

datatype sdl_phase = Down | Up | Opened | Locked

fun sdl_next :: "sdl_phase \<Rightarrow> sdl_call \<times> bool \<Rightarrow> sdl_phase option" where
  "sdl_next Down (Init, ok) = Some (if ok then Up else Down)"
| "sdl_next Up (CreateWindow t wd ht, ok) = Some (if ok then Opened else Up)"
| "sdl_next Up (Quit, ok) = Some Down"
| "sdl_next Opened (GetSurface, ok) = Some Opened"
| "sdl_next Opened (ShowWindow, ok) = Some Opened"
| "sdl_next Opened (UpdateSurface, ok) = Some Opened"
| "sdl_next Opened (PollEvent, ok) = Some Opened"
| "sdl_next Opened (LockSurface, ok) = Some (if ok then Locked else Opened)"
| "sdl_next Opened (Destroy, ok) = Some Up"
| "sdl_next Locked (UpdateSurface, ok) = Some Locked"
| "sdl_next Locked (UnlockSurface, ok) = Some Opened"
| "sdl_next p c = None"

fun sdl_run :: "sdl_phase \<Rightarrow> sdl_trace \<Rightarrow> sdl_phase option" where
  "sdl_run p [] = Some p"
| "sdl_run p (c # cs) = Option.bind (sdl_next p c) (\<lambda>q. sdl_run q cs)"

lemma sdl_run_append: "sdl_run p (cs @ ds) = Option.bind (sdl_run p cs) (\<lambda>q. sdl_run q ds)"
  by (induction cs arbitrary: p) (auto split: bind_split)

lemma sdl_run_polls: "sdl_run Opened (replicate n (PollEvent, ok)) = Some Opened"
  by (induction n) simp_all

definition sdl_live :: "sdl_state \<Rightarrow> bool" where
  "sdl_live b \<longleftrightarrow> (case win b of None \<Rightarrow> False | Some w \<Rightarrow> \<not> win_closed w)"

definition sdl_good :: "sdl_state \<Rightarrow> bool" where
  "sdl_good b \<longleftrightarrow> sdl_run Down (calls b) = Some (if sdl_live b then Opened else Down)
     \<and> (\<forall>w. win b = Some w \<longrightarrow> wf_image (win_back w))"

lemma sdl_do_simps [simp]:
  "calls (fst (sdl_do lib c b)) = calls b @ [(c, lib_error lib (calls b) c = None)]" "win (fst (sdl_do lib c b)) = win b"
  "snd (sdl_do lib c b) = lib_error lib (calls b) c"
  "calls (sdl_note lib c b) = calls b @ [(c, lib_error lib (calls b) c = None)]" "win (sdl_note lib c b) = win b"
  by (simp_all add: sdl_do_def sdl_note_def Let_def)

lemma sdl_blend_at:
  "wf_image img \<Longrightarrow> RGBAAt (sdl_blend img x y src) x' y' =
     (if x' = x \<and> y' = y \<and> in_bounds img x y then sdl_pixel src (RGBAAt img x y) else RGBAAt img x' y')"
  by (auto simp: sdl_blend_def SetRGBA_at sdl_pixel_def)

lemma sdl_pixel_premultiplied: "premultiplied old \<Longrightarrow> premultiplied (sdl_pixel src old)"
  by (simp add: sdl_pixel_def to_RGBA_premultiplied NRGBA_valid)

lemma sdl_blend_wf: "wf_image img \<Longrightarrow> wf_image (sdl_blend img x y src)"
  by (simp add: sdl_blend_def SetRGBA_wf to_RGBA_premultiplied NRGBA_valid)

lemma sdl_blend_dims [simp]: "Dx (sdl_blend img x y src) = Dx img" "Dy (sdl_blend img x y src) = Dy img"
  by (simp_all add: sdl_blend_def)

interpretation sdl_circle_loop: pixel_loop
  "\<lambda>px py img. if P px py then sdl_blend img px py c else img"
  "\<lambda>px py old. if P px py then sdl_pixel c old else old" for P c
  by unfold_locales (auto simp: sdl_blend_at sdl_blend_wf)

interpretation sdl_image_loop: pixel_loop
  "\<lambda>px py img. sdl_blend img px py (src px py)" "\<lambda>px py old. sdl_pixel (src px py) old" for src
  by unfold_locales (auto simp: sdl_blend_at sdl_blend_wf)

text \<open>Calls that do not touch the library keep the trace.\<close>

lemma sdl_openE:
  assumes "sdl_open f b = (b', r)" "r \<noteq> Panic"
  obtains (closed) w where "win b = Some w" "win_closed w" "b' = b"
  | (live) w where "win b = Some w" "\<not> win_closed w" "f w b = (b', r)"
  using assms by (auto simp: sdl_open_def split: option.splits if_splits)

lemma NewRGBA_no_error [simp]: "NewRGBA wd ht \<noteq> Err e"
  by (simp add: NewRGBA_def)

lemma sdl_create_result:
  assumes "sdl_Create lib cfg b = (b', r)" "r \<noteq> Panic"
  shows "(case r of Ok _ \<Rightarrow> sdl_live b' | _ \<Rightarrow> win b' = win b)"
    and "\<not> sdl_live b \<Longrightarrow> sdl_good b \<Longrightarrow> sdl_good b'"
  using assms
  by (auto simp: sdl_Create_def sdl_good_def sdl_live_def sdl_run_append split_def Let_def
      split: option.splits outcome.splits dest!: NewRGBA_wf)


lemma sdl_close_result: "sdl_Close lib b = (b', r) \<Longrightarrow> r \<noteq> Panic \<Longrightarrow> \<not> sdl_live b' \<and> r = Ok () \<and> (sdl_good b \<longrightarrow> sdl_good b')"
  by (auto simp: sdl_Close_def sdl_good_def sdl_live_def sdl_run_append split: option.splits if_splits)

lemma sdl_poll_result: "sdl_PollEvents lib b = (b', r) \<Longrightarrow> r \<noteq> Panic \<Longrightarrow> sdl_live b' = sdl_live b \<and> (sdl_good b \<longrightarrow> sdl_good b')"
  by (auto simp: sdl_PollEvents_def sdl_good_def sdl_live_def sdl_run_append sdl_run_polls split_def Let_def
      split: option.splits if_splits)

lemma sdl_show_result: "sdl_Show lib b = (b', r) \<Longrightarrow> r \<noteq> Panic \<Longrightarrow> sdl_live b' = sdl_live b \<and> (sdl_good b \<longrightarrow> sdl_good b')"
  unfolding sdl_Show_def
  by (erule (1) sdl_openE) (auto simp: answer_call_def sdl_good_def sdl_live_def sdl_run_append)

lemma set_back_live: "win b = Some w \<Longrightarrow> sdl_live (set_back w img b) = sdl_live b"
  by (simp add: set_back_def sdl_live_def)

lemma set_back_good: "win b = Some w \<Longrightarrow> sdl_good b \<Longrightarrow> (wf_image (win_back w) \<Longrightarrow> wf_image img) \<Longrightarrow> sdl_good (set_back w img b)"
  by (auto simp: set_back_def sdl_good_def sdl_live_def)

lemma sdl_begin_result: "sdl_BeginFrame c b = (b', r) \<Longrightarrow> r \<noteq> Panic \<Longrightarrow> sdl_live b' = sdl_live b \<and> (sdl_good b \<longrightarrow> sdl_good b')"
  unfolding sdl_BeginFrame_def by (erule (1) sdl_openE) (auto simp: set_back_live set_back_good fill_wf)

lemma sdl_disc_wf: "wf_image img \<Longrightarrow> wf_image (sdl_disc x y rad c img)"
  by (simp add: sdl_disc_def Let_def sdl_circle_loop.for_pixels_wf)

lemma sdl_scale_wf: "wf_image img \<Longrightarrow> wf_image (sdl_scale src x y wd ht img)"
  by (simp add: sdl_scale_def Let_def sdl_image_loop.for_pixels_wf)

lemma sdl_circle_result:
  "sdl_DrawCircle x y rad c b = (b', r) \<Longrightarrow> r \<noteq> Panic \<Longrightarrow> sdl_live b' = sdl_live b \<and> (sdl_good b \<longrightarrow> sdl_good b')"
  unfolding sdl_DrawCircle_def
  by (erule (1) sdl_openE) (auto simp: set_back_live set_back_good sdl_disc_wf split: if_splits)

lemma sdl_image_result:
  "sdl_DrawImage files path x y wd ht b = (b', r) \<Longrightarrow> r \<noteq> Panic \<Longrightarrow> sdl_live b' = sdl_live b \<and> (sdl_good b \<longrightarrow> sdl_good b')"
  unfolding sdl_DrawImage_def
  by (erule (1) sdl_openE) (auto simp: set_back_live set_back_good sdl_scale_wf split: if_splits outcome.splits)

lemma sdl_present_result: "sdl_Present lib b = (b', r) \<Longrightarrow> r \<noteq> Panic \<Longrightarrow> sdl_live b' = sdl_live b \<and> (sdl_good b \<longrightarrow> sdl_good b')"
  unfolding sdl_Present_def
  by (erule (1) sdl_openE)
     (auto simp: answer_call_def sdl_good_def sdl_live_def sdl_run_append split_def Let_def split: option.splits outcome.splits)

lemmas sdl_results = sdl_close_result sdl_poll_result sdl_show_result sdl_begin_result sdl_circle_result sdl_image_result sdl_present_result

interpretation sdl: window_backend "sdl_ops lib files" sdl_live for lib files
proof unfold_locales
  fix cfg b b' assume "op_create (sdl_ops lib files) cfg b = (b', Ok ())"
  then show "sdl_live b'" using sdl_create_result(1)[of lib cfg b b'] by (auto simp: sdl_ops_def)
next
  fix cfg b b' e assume "op_create (sdl_ops lib files) cfg b = (b', Err e)"
  then show "sdl_live b' = sdl_live b" using sdl_create_result(1)[of lib cfg b b'] by (auto simp: sdl_ops_def sdl_live_def)
qed (auto simp: sdl_ops_def dest: sdl_results)


section \<open>Invariants that need the guard of the server\<close>

text \<open>
  A property of the backend state that every call keeps, where a window is created only while there is none: that
  is how the server calls its backend.
\<close>

locale guarded_backend = window_backend +
  fixes good :: "'a \<Rightarrow> bool"
  assumes guarded_create: "op_create ops cfg b = (b', r) \<Longrightarrow> r \<noteq> Panic \<Longrightarrow> \<not> live b \<Longrightarrow> good b \<Longrightarrow> good b'"
    and guarded_show: "op_show ops b = (b', r) \<Longrightarrow> r \<noteq> Panic \<Longrightarrow> good b \<Longrightarrow> good b'"
    and guarded_close: "op_close ops b = (b', r) \<Longrightarrow> r \<noteq> Panic \<Longrightarrow> good b \<Longrightarrow> good b'"
    and guarded_poll: "op_poll ops b = (b', q) \<Longrightarrow> q \<noteq> Panic \<Longrightarrow> good b \<Longrightarrow> good b'"
    and guarded_begin: "op_begin ops c b = (b', r) \<Longrightarrow> r \<noteq> Panic \<Longrightarrow> good b \<Longrightarrow> good b'"
    and guarded_image: "op_image ops path x y wd ht b = (b', r) \<Longrightarrow> r \<noteq> Panic \<Longrightarrow> good b \<Longrightarrow> good b'"
    and guarded_circle: "op_circle ops x y rad c b = (b', r) \<Longrightarrow> r \<noteq> Panic \<Longrightarrow> good b \<Longrightarrow> good b'"
    and guarded_present: "op_present ops b = (b', r) \<Longrightarrow> r \<noteq> Panic \<Longrightarrow> good b \<Longrightarrow> good b'"
begin

lemmas guarded_calls = guarded_show guarded_close guarded_begin guarded_image guarded_circle guarded_present

lemma answer_Some: "answer msg q = Some resp \<Longrightarrow> q \<noteq> Panic"
  by (auto simp: answer_def)

lemma handler_guarded:
  assumes "good b"
  shows "handle_show ops s b = (s', b', Some resp) \<Longrightarrow> good b'"
    and "handle_close ops s b = (s', b', Some resp) \<Longrightarrow> good b'"
    and "handle_quit ops ok s b = (s', b', Some resp) \<Longrightarrow> good b'"
    and "handle_begin_frame ops req s b = (s', b', Some resp) \<Longrightarrow> good b'"
    and "handle_draw_image ops req s b = (s', b', Some resp) \<Longrightarrow> good b'"
    and "handle_draw_circle ops req s b = (s', b', Some resp) \<Longrightarrow> good b'"
    and "handle_present ops s b = (s', b', Some resp) \<Longrightarrow> good b'"
    and "has_window s = live b \<Longrightarrow> handle_create ops req s b = (s', b', Some resp) \<Longrightarrow> good b'"
  using assms
  by (auto simp: handle_show_def handle_close_def handle_quit_def handle_begin_frame_def handle_draw_image_def handle_draw_circle_def
      handle_present_def handle_create_def Let_def split: if_splits prod.splits outcome.splits option.splits
      dest: guarded_calls guarded_create answer_Some)

lemma dispatch_guarded:
  assumes "good b" "has_window s = live b" "dispatch ops ok cmd req s b = (s', b', Some resp)"
  shows "good b'"
  using assms(1,3) unfolding dispatch_def
  by (simp only: split: if_splits) (erule (1) handler_guarded handler_guarded(8)[OF _ assms(2)] | simp)+

lemma poll_guarded:
  "pollWindowEvents ops s b = (s', b', ev, r) \<Longrightarrow> r \<noteq> Panic \<Longrightarrow> good b \<Longrightarrow> good b'"
  by (auto simp: pollWindowEvents_def Let_def split: if_splits prod.splits outcome.splits dest: guarded_poll guarded_close)

lemma step_guarded:
  assumes "wm_step upper ops m m'" "has_window (srv m) = live (bk m)" "good (bk m)" "status m' \<noteq> Crashed"
  shows "good (bk m')"
  using assms
proof (induction rule: wm_step.induct)
  case (request m received write_ok)
  obtain s b resp where h: "handleRequest upper ops write_ok received (srv m) (bk m) = (s, b, resp)"
    by (cases "handleRequest upper ops write_ok received (srv m) (bk m)")
  then obtain q where q: "resp = Some q" using request by (cases resp) (auto simp: request_step_def)
  have "good b"
    using h q request by (cases received) (auto simp: handleRequest_def dest: dispatch_guarded[OF request(4,3)])
  then show ?case using h q by (simp add: request_step_def)
next
  case (tick m failing)
  obtain s b ev q where h: "pollWindowEvents ops (srv m) (bk m) = (s, b, ev, q)"
    by (cases "pollWindowEvents ops (srv m) (bk m)")
  have "q \<noteq> Panic" using tick h by (auto simp: tick_step_def)
  then show ?case using h poll_guarded[OF h] tick(3)
    by (cases q; cases ev) (simp_all add: tick_step_def broadcastEvent_def Let_def)
qed (simp_all add: accept_event_client_def)

lemma reach_guarded:
  "wm_reach upper ops b m \<Longrightarrow> \<not> live b \<Longrightarrow> good b \<Longrightarrow> status m \<noteq> Crashed \<Longrightarrow> good (bk m)"
proof (induction rule: wm_reach.induct)
  case start
  then show ?case by (simp add: init_wm_def)
next
  case (further m m')
  have s: "status m = Serving" using further(2) by (cases rule: wm_step.cases) auto
  then show ?case using further step_guarded reach_keeps[OF further(1)] by simp
qed

end

interpretation sdl_guarded: guarded_backend "sdl_ops lib files" sdl_live sdl_good for lib files
  by unfold_locales (auto simp: sdl_ops_def dest: sdl_results sdl_create_result(2))

section \<open>Colour arithmetic\<close>

text \<open>On an opaque pixel the blending is exact: the rounded-down weighted mean of the two colours.\<close>

definition mean :: "8 word \<Rightarrow> 8 word \<Rightarrow> 8 word \<Rightarrow> nat" where
  "mean a s d = (unat s * unat a + unat d * (255 - unat a)) div 255"

lemma mean_le: "mean a s d \<le> 255"
proof -
  have "unat s * unat a + unat d * (255 - unat a) \<le> 255 * unat a + 255 * (255 - unat a)"
    by (intro add_mono mult_right_mono unat8) simp_all
  also have "\<dots> = 255 * 255" using unat8[of a] by (simp add: algebra_simps flip: distrib_left)
  finally show ?thesis unfolding mean_def using div_le_mono[of _ "255 * 255" 255] by simp
qed

lemma out_alpha_opaque: "out_alpha a 255 = 255"
proof -
  have "255 * (255 - unat a) < 2 ^ 32" by simp
  then show ?thesis using unat8[of a] by (simp add: out_alpha_def)
qed

lemma channel_opaque: "channel a 255 s d = word_of_nat (mean a s d)"
proof -
  have b: "unat s * unat a \<le> 255 * 255" "unat d * (255 - unat a) \<le> 255 * 255" "unat d * 255 \<le> 255 * 255"
    by (intro mult_mono unat8; simp)+
  then have "unat d * 255 * (255 - unat a) \<le> 255 * 255 * 255" by (intro mult_mono) simp_all
  moreover have "unat d * 255 * (255 - unat a) div 255 = unat d * (255 - unat a)" by (simp add: mult.assoc mult.left_commute)
  ultimately show ?thesis using b by (simp add: channel_def out_alpha_opaque mean_def)
qed


lemma opaque_straight: "p_a old = 255 \<Longrightarrow> to_NRGBA (RGBA_RGBA old) = \<lparr>c_r = p_r old, c_g = p_g old, c_b = p_b old, c_a = 255\<rparr>"
  by (simp add: to_NRGBA_def RGBA_RGBA_def) (simp add: widen_def)

lemma sdl_pixel_opaque:
  assumes "p_a old = 255"
  shows "sdl_pixel c old = \<lparr>p_r = word_of_nat (mean (c_a c) (c_r c) (p_r old)), p_g = word_of_nat (mean (c_a c) (c_g c) (p_g old)),
     p_b = word_of_nat (mean (c_a c) (c_b c) (p_b old)), p_a = 255\<rparr>"
proof (cases "c_a c = 0")
  case True
  have "mean 0 s d = unat d" for s d by (simp add: mean_def)
  then show ?thesis using True assms by (simp add: sdl_pixel_def)
next
  case False
  then show ?thesis
    by (simp add: sdl_pixel_def opaque_straight[OF assms] straight_blend_def out_alpha_opaque channel_opaque opaque_colour)
qed

text \<open>The blending of the headless backend, on 16-bit channels, rounds at most one level differently.\<close>

lemma rounding:
  fixes A B :: nat
  assumes "A + B \<le> 255 * 255"
  shows "(A + B) div 255 \<le> (257 * A div 255 + 257 * B div 255) div 256"
    and "(257 * A div 255 + 257 * B div 255) div 256 \<le> (A + B) div 255 + 1"
proof -
  define m t x y ra rb where d: "m = (A + B) div 255" "t = (A + B) mod 255" "x = 257 * A div 255" "y = 257 * B div 255"
    "ra = 257 * A mod 255" "rb = 257 * B mod 255"
  have e: "A + B = 255 * m + t" "257 * A = 255 * x + ra" "257 * B = 255 * y + rb" "t \<le> 254" "ra \<le> 254" "rb \<le> 254"
    unfolding d by (simp_all add: mult.commute less_Suc_eq_le[symmetric])
  have m: "m \<le> 255" using assms unfolding d by (simp add: div_le_mono[of _ "255 * 255" 255, simplified])
  have u: "x + y \<le> 257 * m + 255" using e by linarith
  have l: "256 * m \<le> x + y"
  proof (cases "t = 0")
    case True
    have "255 * (x + y) + (ra + rb) = 257 * (A + B)" using e(2,3) by (simp only: distrib_left)
    then have "255 * (x + y) + (ra + rb) = 255 * (257 * m)" unfolding e(1) using True by simp
    then have "ra + rb = 255 * (257 * m - (x + y))" by (simp add: diff_mult_distrib2)
    then have "257 * m - (x + y) \<le> 1" using e by linarith
    then show ?thesis by (cases "m = 0") simp_all
  qed (use e in linarith)
  show "(A + B) div 255 \<le> (257 * A div 255 + 257 * B div 255) div 256"
    unfolding d(1,3,4)[symmetric] using div_le_mono[OF l, of 256] by simp
  have "x + y < 256 * (m + 2)" using u m by simp
  then show "(257 * A div 255 + 257 * B div 255) div 256 \<le> (A + B) div 255 + 1"
    unfolding d(1,3,4)[symmetric] using less_mult_imp_div_less[of "x + y" "m + 2" 256] by (simp add: mult.commute)
qed

lemma headless_channel:
  "unat (byte (blend_channel (u32 (widen s * unat a) div 255) (widen d) (widen a)))
     = (257 * (unat s * unat a) div 255 + 257 * (unat d * (255 - unat a)) div 255) div 256"
proof -
  have b: "widen s * unat a \<le> 65535 * 255" by (intro mult_mono widen_le unat8) simp_all
  have sl: "widen s * unat a div 255 \<le> widen a"
  proof -
    have "unat s * (257 * unat a) \<le> 255 * (257 * unat a)" by (intro mult_right_mono unat8) simp
    then have "widen s * unat a \<le> 255 * widen a" by (simp add: widen_def algebra_simps)
    from div_le_mono[OF this, of 255] show ?thesis by simp
  qed
  have w: "widen d * (65535 - widen a) div 65535 = 257 * (unat d * (255 - unat a)) div 255"
  proof -
    have "widen d * (65535 - widen a) = 257 * (257 * (unat d * (255 - unat a)))"
      using unat8[of a] by (simp add: widen_def diff_mult_distrib2 algebra_simps)
    moreover have "(65535::nat) = 257 * 255" by simp
    ultimately show ?thesis by (simp only: div_mult_mult1)
  qed
  note c = blend_channel_bound[OF sl widen_le[of d] widen_le[of a]]
  have u: "u32 (widen s * unat a) = widen s * unat a" using b by simp
  have v: "widen s * unat a = 257 * (unat s * unat a)" by (simp add: widen_def)
  show ?thesis unfolding u unat_byte[OF c(2)] unfolding c(1) w unfolding v by (rule refl)
qed


lemma backend_levels:
  fixes a s d :: "8 word"
  shows "unat (word_of_nat (mean a s d) :: 8 word) \<le> unat (byte (blend_channel (u32 (widen s * unat a) div 255) (widen d) (widen a)))"
    and "unat (byte (blend_channel (u32 (widen s * unat a) div 255) (widen d) (widen a))) \<le> unat (word_of_nat (mean a s d) :: 8 word) + 1"
proof -
  have l: "unat s * unat a + unat d * (255 - unat a) \<le> 255 * 255"
  proof -
    have "unat s * unat a + unat d * (255 - unat a) \<le> 255 * unat a + 255 * (255 - unat a)"
      by (intro add_mono mult_right_mono unat8) simp_all
    then show ?thesis using unat8[of a] by (simp add: diff_mult_distrib2)
  qed
  have m: "unat (word_of_nat (mean a s d) :: 8 word) = mean a s d"
    using mean_le[of a s d] by (simp add: unsigned_of_nat take_bit_eq_mod)
  show "unat (word_of_nat (mean a s d) :: 8 word) \<le> unat (byte (blend_channel (u32 (widen s * unat a) div 255) (widen d) (widen a)))"
    "unat (byte (blend_channel (u32 (widen s * unat a) div 255) (widen d) (widen a))) \<le> unat (word_of_nat (mean a s d) :: 8 word) + 1"
    unfolding m headless_channel unfolding mean_def using rounding[OF l] by simp_all
qed

lemma headless_opaque:
  assumes "p_a old = 255" "c_a c \<noteq> 0"
  shows "blend_pixel (NRGBA_RGBA c) old =
    \<lparr>p_r = byte (blend_channel (u32 (widen (c_r c) * unat (c_a c)) div 255) (widen (p_r old)) (widen (c_a c))),
     p_g = byte (blend_channel (u32 (widen (c_g c) * unat (c_a c)) div 255) (widen (p_g old)) (widen (c_a c))),
     p_b = byte (blend_channel (u32 (widen (c_b c) * unat (c_a c)) div 255) (widen (p_b old)) (widen (c_a c))), p_a = 255\<rparr>"
proof -
  have "unat (c_a c) \<noteq> 0" using assms(2) by (simp add: unat_eq_zero)
  then have "widen (c_a c) \<noteq> 0" by (simp add: widen_def)
  moreover have "blend_channel (widen (c_a c)) (widen 255) (widen (c_a c)) = 65535"
    using blend_channel_bound(1)[OF order_refl widen_le widen_le, of "c_a c" 255] widen_le[of "c_a c"] by (simp add: widen_def[of 255])
  ultimately show ?thesis using assms(1) by (simp add: blend_pixel_def NRGBA_RGBA_def RGBA_RGBA_def to_RGBA_def Let_def byte_def[of 65535])
qed


section \<open>The bytes of a surface\<close>

lemma each_writes:
  assumes "\<And>x p. x \<in> set xs \<Longrightarrow> length p = n \<Longrightarrow>
      \<exists>p'. f x p = Ok p' \<and> length p' = n \<and> (\<forall>i < n. p' ! i = (if C x i then g i else p ! i))"
    and "length p = n"
  shows "\<exists>p'. each f xs p = Ok p' \<and> length p' = n \<and> (\<forall>i < n. p' ! i = (if \<exists>x \<in> set xs. C x i then g i else p ! i))"
  using assms
proof (induction xs arbitrary: p)
  case (Cons x xs)
  obtain q where q: "f x p = Ok q" "length q = n" "\<forall>i < n. q ! i = (if C x i then g i else p ! i)"
    using Cons.prems(1)[of x p] Cons.prems(2) by auto
  obtain p' where "each f xs q = Ok p'" "length p' = n" "\<forall>i < n. p' ! i = (if \<exists>x \<in> set xs. C x i then g i else q ! i)"
    using Cons.IH[of q] Cons.prems(1) q(2) by auto
  then show ?case using q by auto
qed simp

lemma put_pixel_writes:
  assumes "0 \<le> off" "off + 4 \<le> int (length ps)" "int (length ps) < 2 ^ 63"
  shows "\<exists>ps'. put_pixel off v ps = Ok ps' \<and> length ps' = length ps \<and> (\<forall>i < length ps.
      ps' ! i = (if off \<le> int i \<and> int i < off + 4 then ucast (drop_bit (8 * (i - nat off)) v) else ps ! i))"
proof -
  define o' where "o' = nat off"
  have o: "off = int o'" "o' + 4 \<le> length ps" using assms by (simp_all add: o'_def)
  have w: "wrap64 (off + 1) = int (o' + 1)" "wrap64 (off + 2) = int (o' + 2)" "wrap64 (off + 3) = int (o' + 3)"
    using assms o by (simp_all add: wrap64_nonneg)
  have n: "nat (int o') = o'" "nat (int (o' + 1)) = o' + 1" "nat (int (o' + 2)) = o' + 2" "nat (int (o' + 3)) = o' + 3" by simp_all
  let ?ps = "ps[o' := ucast v, o' + 1 := ucast (drop_bit 8 v), o' + 2 := ucast (drop_bit 16 v), o' + 3 := ucast (drop_bit 24 v)]"
  have "put_pixel off v ps = Ok ?ps"
    unfolding put_pixel_def w unfolding put_byte_def o(1) n using o(2) by (simp add: slice_set_def)
  moreover have "?ps ! i = (if off \<le> int i \<and> int i < off + 4 then ucast (drop_bit (8 * (i - nat off)) v) else ps ! i)"
    if "i < length ps" for i
  proof (cases "o' \<le> i \<and> i < o' + 4")
    case True
    then consider "i = o'" | "i = o' + 1" | "i = o' + 2" | "i = o' + 3" by linarith
    then show ?thesis using o by cases (simp_all add: nth_list_update)
  next
    case False
    then show ?thesis using o by (auto simp: nth_list_update)
  qed
  ultimately show ?thesis by auto
qed

text \<open>The byte that belongs at an index of the pixel buffer, if one does.\<close>

definition surface_byte :: "surface \<Rightarrow> image \<Rightarrow> nat \<Rightarrow> 8 word" where
  "surface_byte sf back i = (let y = int i div Pitch sf; o' = int i mod Pitch sf in
     ucast (drop_bit (8 * nat (o' mod 4)) (MapRGBA sf (to_NRGBA (RGBA_RGBA (RGBAAt back (o' div 4) y))))))"

definition pixel_bytes :: "surface \<Rightarrow> int \<Rightarrow> int \<Rightarrow> nat \<Rightarrow> bool" where
  "pixel_bytes sf y x i \<longleftrightarrow> y * Pitch sf + 4 * x \<le> int i \<and> int i < y * Pitch sf + 4 * x + 4"

lemma pixel_bytes_byte:
  assumes "pixel_bytes sf y x i" "0 \<le> x" "4 * (x + 1) \<le> Pitch sf" "0 \<le> y"
  shows "surface_byte sf back i = ucast (drop_bit (8 * (i - nat (y * Pitch sf + 4 * x)))
     (MapRGBA sf (to_NRGBA (RGBA_RGBA (RGBAAt back x y)))))"
proof -
  define k where "k = int i - (y * Pitch sf + 4 * x)"
  have i: "int i = (4 * x + k) + y * Pitch sf" "0 \<le> k" "k < 4" using assms(1) by (simp_all add: k_def pixel_bytes_def)
  have r: "0 \<le> 4 * x + k" "4 * x + k < Pitch sf" using i(2,3) assms(2,3) by auto
  have d: "int i div Pitch sf = y" "int i mod Pitch sf = 4 * x + k" unfolding i(1) using r by simp_all
  have x: "(4 * x + k) div 4 = x" "(4 * x + k) mod 4 = k" "k mod 4 = k" using i(2,3) by simp_all
  have "0 \<le> y * Pitch sf" using assms(2-4) by simp
  then have "i - nat (y * Pitch sf + 4 * x) = nat k" using i assms(2) by linarith
  then show ?thesis by (simp add: surface_byte_def Let_def d x)
qed


lemma present_pixel_writes:
  assumes "BytesPerPixel sf = 4" "0 \<le> x" "4 * (x + 1) \<le> Pitch sf" "0 \<le> y" "(y + 1) * Pitch sf \<le> int (length ps)"
    "int (length ps) < 2 ^ 63"
  shows "\<exists>ps'. present_pixel sf back x y ps = Ok ps' \<and> length ps' = length ps
     \<and> (\<forall>i < length ps. ps' ! i = (if pixel_bytes sf y x i then surface_byte sf back i else ps ! i))"
proof -
  have p: "0 \<le> y * Pitch sf" "y * Pitch sf + Pitch sf \<le> int (length ps)" using assms by (simp_all add: distrib_right)
  have o: "wrap64 (wrap64 (y * Pitch sf) + wrap64 (x * BytesPerPixel sf)) = y * Pitch sf + 4 * x"
    using p assms(1-3,6) wrap64_nonneg[of "y * Pitch sf"] wrap64_nonneg[of "x * 4"] wrap64_nonneg[of "y * Pitch sf + 4 * x"]
    by (simp add: mult.commute)
  have "0 \<le> y * Pitch sf + 4 * x" "y * Pitch sf + 4 * x + 4 \<le> int (length ps)" using p assms(2,3) by auto
  from put_pixel_writes[OF this assms(6), of "MapRGBA sf (to_NRGBA (RGBA_RGBA (RGBAAt back x y)))"]
  show ?thesis
    using assms(1) pixel_bytes_byte[OF _ assms(2-4)] unfolding present_pixel_def Let_def o
    by (auto simp: pixel_bytes_def)
qed

lemma present_pixels_writes:
  assumes "BytesPerPixel sf = 4" "4 * Dx back \<le> Pitch sf" "Dy back * Pitch sf \<le> int (length (Pixels sf))"
    "int (length (Pixels sf)) < 2 ^ 63"
  shows "\<exists>ps. present_pixels sf back = Ok ps \<and> length ps = length (Pixels sf) \<and> (\<forall>i < length (Pixels sf). ps ! i =
     (if \<exists>y \<in> set [0..Dy back - 1]. \<exists>x \<in> set [0..Dx back - 1]. pixel_bytes sf y x i then surface_byte sf back i else Pixels sf ! i))"
proof -
  let ?n = "length (Pixels sf)"
  have fit: "(y + 1) * Pitch sf \<le> int ?n" if "y \<in> set [0..Dy back - 1]" "x \<in> set [0..Dx back - 1]" for x y
  proof -
    have "0 \<le> Pitch sf" using that(2) assms(2) by simp
    then have "(y + 1) * Pitch sf \<le> Dy back * Pitch sf" using that(1) by (intro mult_right_mono) auto
    then show ?thesis using assms(3) by linarith
  qed
  have pix: "\<exists>p'. present_pixel sf back x y p = Ok p' \<and> length p' = ?n
      \<and> (\<forall>i < ?n. p' ! i = (if pixel_bytes sf y x i then surface_byte sf back i else p ! i))"
    if "y \<in> set [0..Dy back - 1]" "x \<in> set [0..Dx back - 1]" "length p = ?n" for x y p
    using present_pixel_writes[of sf x y p "back"] fit[OF that(1,2)] that assms by auto
  have row: "\<exists>p'. each (\<lambda>x. present_pixel sf back x y) [0..Dx back - 1] p = Ok p' \<and> length p' = ?n
      \<and> (\<forall>i < ?n. p' ! i = (if \<exists>x \<in> set [0..Dx back - 1]. pixel_bytes sf y x i then surface_byte sf back i else p ! i))"
    if "y \<in> set [0..Dy back - 1]" "length p = ?n" for y p
    by (rule each_writes[OF pix[OF that(1)] that(2)])
  show ?thesis unfolding present_pixels_def by (rule each_writes[OF row refl])
qed

lemma pixel_bytes_row:
  assumes "pixel_bytes sf y x i" "0 \<le> x" "4 * (x + 1) \<le> Pitch sf"
  shows "int i div Pitch sf = y" "int i mod Pitch sf div 4 = x"
proof -
  define k where "k = int i - (y * Pitch sf + 4 * x)"
  have i: "int i = (4 * x + k) + y * Pitch sf" "0 \<le> k" "k < 4" using assms(1) by (simp_all add: k_def pixel_bytes_def)
  have "0 \<le> 4 * x + k" "4 * x + k < Pitch sf" using i(2,3) assms(2,3) by auto
  then show "int i div Pitch sf = y" "int i mod Pitch sf div 4 = x" unfolding i(1) using i(2,3) by simp_all
qed

section \<open>Properties\<close>

text \<open>C25: Over the SDL backend, in every state the event loop of the server reaches without a panic, whatever the library answers and
  whatever events the desktop delivers: the server holds a window exactly if the backend has one that is not closed; the
  library was called in its order, with one initialisation and one native window open exactly while the server holds a
  window and none of them leaked, also after failed calls; and the image of the window is well-formed.\<close>

theorem sdl_consistent:
  assumes "wm_reach upper (sdl_ops lib files) sdl_New m" "status m \<noteq> Crashed"
  shows "has_window (srv m) = sdl_live (bk m)
     \<and> sdl_run Down (calls (bk m)) = Some (if has_window (srv m) then Opened else Down)
     \<and> (\<forall>w. win (bk m) = Some w \<longrightarrow> wf_image (win_back w))"
proof -
  have n: "\<not> sdl_live sdl_New" "sdl_good sdl_New" by (simp_all add: sdl_live_def sdl_good_def sdl_New_def)
  show ?thesis
    using sdl.reach_keeps[OF assms(1) n(1) assms(2)] sdl_guarded.reach_guarded[OF assms(1) n assms(2)]
    by (simp add: sdl_good_def)
qed

definition quiet_lib :: sdl_lib where
  "quiet_lib = \<lparr>lib_error = (\<lambda>_ _. None), lib_events = (\<lambda>_. []),
     lib_surface = (\<lambda>_. \<lparr>Pixels = replicate 12 7, Pitch = 12, BytesPerPixel = 4, MapRGBA = (\<lambda>c. ucast (c_r c))\<rparr>)\<rparr>"

lemma sdl_consistent_witness:
  "\<exists>m. wm_reach (\<lambda>r. r) (sdl_ops quiet_lib (\<lambda>_. Panic)) sdl_New m \<and> has_window (srv m) \<and> sdl_run Down (calls (bk m)) = Some Opened"
proof -
  define m where "m = request_step (\<lambda>r. r) (sdl_ops quiet_lib (\<lambda>_. Panic)) True (Ok (create_request 2 1)) (init_wm sdl_New)"
  have r: "wm_reach (\<lambda>r. r) (sdl_ops quiet_lib (\<lambda>_. Panic)) sdl_New m"
    unfolding m_def by (rule wm_reach.further[OF wm_reach.start wm_step.request]) (simp_all add: init_wm_def)
  have h: "has_window (srv m)" "status m \<noteq> Crashed"
    unfolding m_def request_step_def handleRequest_def outcome.case command_create dispatch_def
    by (simp_all add: init_wm_def handle_create_def new_Server_def sdl_ops_def sdl_Create_def sdl_do_def quiet_lib_def sdl_New_def
        sdl_config_def create_config_def create_request_def NewRGBA_def Let_def)
  show ?thesis using sdl_consistent[OF r h(2)] r h by auto
qed

text \<open>The two backends draw the same picture up to rounding: blending any colour into an opaque pixel gives the
  rounded-down mean weighted by alpha in the SDL backend, the headless backend gives the same or one level more in each
  channel, both pixels stay opaque, and for an opaque or a fully transparent colour the two are equal.\<close>

theorem sdl_headless_levels:
  assumes "p_a old = 255"
  shows "let sdl = sdl_pixel c old; headless = blend_pixel (NRGBA_RGBA c) old in
       unat (p_r sdl) = mean (c_a c) (c_r c) (p_r old)
     \<and> unat (p_g sdl) = mean (c_a c) (c_g c) (p_g old)
     \<and> unat (p_b sdl) = mean (c_a c) (c_b c) (p_b old)
     \<and> p_a sdl = 255 \<and> p_a headless = 255
     \<and> unat (p_r headless) - unat (p_r sdl) \<le> 1 \<and> p_r sdl \<le> p_r headless
     \<and> unat (p_g headless) - unat (p_g sdl) \<le> 1 \<and> p_g sdl \<le> p_g headless
     \<and> unat (p_b headless) - unat (p_b sdl) \<le> 1 \<and> p_b sdl \<le> p_b headless
     \<and> (c_a c = 0 \<or> (c_a c = 255 \<and> premultiplied old) \<longrightarrow> sdl = headless)"
proof -
  have m: "unat (word_of_nat (mean a s d) :: 8 word) = mean a s d" for a s d
    using mean_le[of a s d] by (simp add: unsigned_of_nat take_bit_eq_mod)
  have full: "mean 255 s d = unat s" "mean 0 s d = unat d" for s d by (simp_all add: mean_def)
  show ?thesis
  proof (cases "c_a c = 0")
    case True
    then show ?thesis using assms by (simp add: sdl_pixel_def full blend_pixel_def NRGBA_RGBA_def widen_def Let_def)
  next
    case False
    note h = headless_opaque[OF assms False]
    have e: "sdl_pixel c old = blend_pixel (NRGBA_RGBA c) old" if "c_a c = 255" "premultiplied old"
      using that by (simp add: blend_opaque opaque_colour sdl_pixel_opaque[OF assms] full)
    have l: "unat (p_r (blend_pixel (NRGBA_RGBA c) old)) - unat (p_r (sdl_pixel c old)) \<le> 1 \<and> p_r (sdl_pixel c old) \<le> p_r (blend_pixel (NRGBA_RGBA c) old)"
      "unat (p_g (blend_pixel (NRGBA_RGBA c) old)) - unat (p_g (sdl_pixel c old)) \<le> 1 \<and> p_g (sdl_pixel c old) \<le> p_g (blend_pixel (NRGBA_RGBA c) old)"
      "unat (p_b (blend_pixel (NRGBA_RGBA c) old)) - unat (p_b (sdl_pixel c old)) \<le> 1 \<and> p_b (sdl_pixel c old) \<le> p_b (blend_pixel (NRGBA_RGBA c) old)"
      unfolding h sdl_pixel_opaque[OF assms] word_le_nat_alt RGBA.select_convs
      using backend_levels[where a = "c_a c" and s = "c_r c" and d = "p_r old"] backend_levels[where a = "c_a c" and s = "c_g c" and d = "p_g old"] backend_levels[where a = "c_a c" and s = "c_b c" and d = "p_b old"]
      by (intro conjI; linarith)+
    have "unat (p_r (sdl_pixel c old)) = mean (c_a c) (c_r c) (p_r old)" "unat (p_g (sdl_pixel c old)) = mean (c_a c) (c_g c) (p_g old)"
      "unat (p_b (sdl_pixel c old)) = mean (c_a c) (c_b c) (p_b old)" "p_a (sdl_pixel c old) = 255"
      "p_a (blend_pixel (NRGBA_RGBA c) old) = 255"
      by (simp_all add: sdl_pixel_opaque[OF assms] m h)
    then show ?thesis using l e False unfolding Let_def by blast
  qed
qed

lemma sdl_headless_levels_witness:
  "sdl_pixel white \<lparr>p_r = 1, p_g = 2, p_b = 3, p_a = 255\<rparr> = blend_pixel (NRGBA_RGBA white) \<lparr>p_r = 1, p_g = 2, p_b = 3, p_a = 255\<rparr>"
  using sdl_headless_levels[of "\<lparr>p_r = 1, p_g = 2, p_b = 3, p_a = 255\<rparr>" white]
  by (simp add: Let_def white_def premultiplied_def)


text \<open>\<open>Present\<close> on a surface of four bytes for each pixel that is large enough never panics; afterwards the pixel buffer
  holds, for every pixel of the window, the little-endian bytes of the value that the surface format gives for its colour,
  every byte of the padding is what it was, and the call fails exactly if updating the window surface fails.\<close>

theorem sdl_Present_shows:
  assumes "win b = Some w" "\<not> win_closed w" "lib_error lib (calls b) LockSurface = None"
    and sf: "sf = lib_surface lib (calls b @ [(LockSurface, True)])" "BytesPerPixel sf = 4"
    and fits: "4 * Dx (win_back w) \<le> Pitch sf" "Dy (win_back w) * Pitch sf \<le> int (length (Pixels sf))" "int (length (Pixels sf)) < 2 ^ 63"
  shows "\<exists>b' r ps. sdl_Present lib b = (b', r) \<and> win b' = Some (w\<lparr>win_pixels := ps\<rparr>) \<and> length ps = length (Pixels sf)
     \<and> r = (case lib_error lib (calls b @ [(LockSurface, True)]) UpdateSurface of None \<Rightarrow> Ok () | Some e \<Rightarrow> Err e)
     \<and> (\<forall>x y k. in_bounds (win_back w) x y \<and> k < 4 \<longrightarrow> ps ! (nat (y * Pitch sf + 4 * x) + k) =
          ucast (drop_bit (8 * k) (MapRGBA sf (to_NRGBA (RGBA_RGBA (RGBAAt (win_back w) x y))))))
     \<and> (\<forall>i < length ps. Dy (win_back w) \<le> int i div Pitch sf \<or> 4 * Dx (win_back w) \<le> int i mod Pitch sf \<longrightarrow> ps ! i = Pixels sf ! i)"
proof -
  let ?im = "win_back w"
  obtain ps where ps: "\<And>e. present_pixels sf ?im = (Ok ps :: (string, _) outcome)" "length ps = length (Pixels sf)"
      "\<And>i. i < length ps \<Longrightarrow> ps ! i = (if \<exists>y \<in> set [0..Dy ?im - 1]. \<exists>x \<in> set [0..Dx ?im - 1]. pixel_bytes sf y x i
         then surface_byte sf ?im i else Pixels sf ! i)"
    using present_pixels_writes[OF sf(2) fits] by fastforce
  have in_pix: "ps ! (nat (y * Pitch sf + 4 * x) + k) = ucast (drop_bit (8 * k) (MapRGBA sf (to_NRGBA (RGBA_RGBA (RGBAAt ?im x y)))))"
    if b: "in_bounds ?im x y" and k: "k < 4" for x y k
  proof -
    let ?i = "nat (y * Pitch sf + 4 * x) + k"
    have xy: "0 \<le> x" "x + 1 \<le> Dx ?im" "0 \<le> y" "y + 1 \<le> Dy ?im" using b by (auto simp: in_bounds_def)
    have p: "4 * (x + 1) \<le> Pitch sf" using mult_left_mono[OF xy(2), of 4] fits(1) by (rule order_trans) simp
    have m: "(y + 1) * Pitch sf \<le> Dy ?im * Pitch sf" "0 \<le> y * Pitch sf" using xy p by (auto intro!: mult_right_mono)
    have i: "int ?i = y * Pitch sf + 4 * x + int k" using xy m by simp
    have "int ?i < int (length ps)" using i k p m fits(2) ps(2) by (simp add: distrib_right)
    then have lt: "?i < length ps" by (simp only: of_nat_less_iff)
    have pb: "pixel_bytes sf y x ?i" using i k by (simp add: pixel_bytes_def)
    then have "\<exists>y \<in> set [0..Dy ?im - 1]. \<exists>x \<in> set [0..Dx ?im - 1]. pixel_bytes sf y x ?i"
      using xy by (intro bexI[of _ y] bexI[of _ x]) auto
    then show ?thesis using ps(3)[OF lt] pixel_bytes_byte[OF pb xy(1) p xy(3), of ?im] by simp
  qed
  have pad: "ps ! i = Pixels sf ! i"
    if i: "i < length ps" "Dy ?im \<le> int i div Pitch sf \<or> 4 * Dx ?im \<le> int i mod Pitch sf" for i
  proof -
    have "\<not> pixel_bytes sf y x i" if xy: "y \<in> set [0..Dy ?im - 1]" "x \<in> set [0..Dx ?im - 1]" for x y
    proof
      assume pb: "pixel_bytes sf y x i"
      have "0 \<le> x" "4 * (x + 1) \<le> Pitch sf" using xy(2) fits(1) by auto
      note r = pixel_bytes_row[OF pb this]
      have "Dx ?im \<le> int i mod Pitch sf div 4" if "4 * Dx ?im \<le> int i mod Pitch sf" using zdiv_mono1[OF that, of 4] by simp
      then show False using i(2) r xy by auto
    qed
    then show ?thesis using ps(3)[OF i(1)] by auto
  qed
  obtain b' where "sdl_Present lib b = (b', case lib_error lib (calls b @ [(LockSurface, True)]) UpdateSurface of None \<Rightarrow> Ok () | Some e \<Rightarrow> Err e)"
      "win b' = Some (w\<lparr>win_pixels := ps\<rparr>)"
    using assms(1-3) ps(1) sf(1) by (simp add: sdl_Present_def sdl_open_def split_def Let_def answer_call_def)
  then show ?thesis using in_pix pad ps(2) by blast
qed

definition quiet_state :: sdl_state where
  "quiet_state = \<lparr>calls = [(Init, True), (CreateWindow ''t'' 2 1, True), (GetSurface, True)],
     win = Some \<lparr>win_closed = False, win_back = sample_image, win_pixels = []\<rparr>\<rparr>"

lemma sdl_Present_shows_witness:
  "\<exists>b' ps. sdl_Present quiet_lib quiet_state = (b', Ok ()) \<and> win b' = Some \<lparr>win_closed = False, win_back = sample_image, win_pixels = ps\<rparr>
     \<and> ps ! 4 = 0 \<and> ps ! 11 = 7"
proof -
  let ?sf = "\<lparr>Pixels = replicate 12 7, Pitch = 12, BytesPerPixel = 4, MapRGBA = (\<lambda>c. ucast (c_r c))\<rparr>"
  let ?w = "\<lparr>win_closed = False, win_back = sample_image, win_pixels = []\<rparr>"
  obtain b' r ps where p: "sdl_Present quiet_lib quiet_state = (b', r)" "win b' = Some (?w\<lparr>win_pixels := ps\<rparr>)" "length ps = 12" "r = Ok ()"
      and px: "\<And>x y k. in_bounds sample_image x y \<Longrightarrow> k < 4 \<Longrightarrow> ps ! (nat (y * 12 + 4 * x) + k) =
        ucast (drop_bit (8 * k) (MapRGBA ?sf (to_NRGBA (RGBA_RGBA (RGBAAt sample_image x y)))))"
      and pd: "\<And>i. i < 12 \<Longrightarrow> 8 \<le> int i mod 12 \<Longrightarrow> ps ! i = 7"
    using sdl_Present_shows[of quiet_state ?w quiet_lib ?sf]
    by (fastforce simp: quiet_state_def quiet_lib_def sample_image_def nth_Cons' numeral_eq_Suc)
  have "to_NRGBA (RGBA_RGBA (RGBAAt sample_image 1 0)) = \<lparr>c_r = 0, c_g = 0, c_b = 0, c_a = 0\<rparr>"
    by (simp add: sample_image_def RGBAAt_def in_bounds_def pix_index_def zero_RGBA_def RGBA_RGBA_def to_NRGBA_def widen_def)
  then have "ps ! 4 = 0" using px[of 1 0 0] by (simp add: sample_image_def in_bounds_def)
  then show ?thesis using p pd[of 11] by simp
qed

text \<open>\<open>blend\<close> of the SDL backend overflows its 8-bit channels on nearly transparent pixels: the output alpha is rounded down,
  the colour sum is divided by it, and the quotient is cut to a byte, so that white with alpha 1 drawn over white with alpha 2
  gives a grey of level 125 (381 modulo 256) instead of white.\<close>

theorem sdl_blend_wraps:
  "straight_blend \<lparr>c_r = 255, c_g = 255, c_b = 255, c_a = 1\<rparr> \<lparr>c_r = 255, c_g = 255, c_b = 255, c_a = 2\<rparr>
     = \<lparr>c_r = 125, c_g = 125, c_b = 125, c_a = 2\<rparr>
   \<and> to_NRGBA (RGBA_RGBA (to_RGBA (NRGBA_RGBA \<lparr>c_r = 255, c_g = 255, c_b = 255, c_a = 2\<rparr>))) = \<lparr>c_r = 255, c_g = 255, c_b = 255, c_a = 2\<rparr>"
proof
  show "straight_blend \<lparr>c_r = 255, c_g = 255, c_b = 255, c_a = 1\<rparr> \<lparr>c_r = 255, c_g = 255, c_b = 255, c_a = 2\<rparr>
     = \<lparr>c_r = 125, c_g = 125, c_b = 125, c_a = 2\<rparr>"
    by (simp add: straight_blend_def out_alpha_def channel_def Let_def flip: numeral_2_eq_2)
  show "to_NRGBA (RGBA_RGBA (to_RGBA (NRGBA_RGBA \<lparr>c_r = 255, c_g = 255, c_b = 255, c_a = 2\<rparr>))) = \<lparr>c_r = 255, c_g = 255, c_b = 255, c_a = 2\<rparr>"
    by (simp add: to_NRGBA_def RGBA_RGBA_def to_RGBA_def NRGBA_RGBA_def widen_def byte_def Let_def)
qed

end
