(* ===== verification/Map_Session.thy ===== *)
theory Map_Session
  imports Wm_Protocol
begin

text \<open>
  The session of the Map application, \<^verbatim>\<open>app/map/session.go\<close>: the window is created, drawn and shown, then the
  loop reacts to window events, target updates, notices and cancellation until it returns, and the deferred
  functions run. The results of the calls to the window manager are arguments: for the n-th \<^verbatim>\<open>Send\<close>, its error
  if it fails and whether the context is done then.
\<close>

section \<open>State\<close>

datatype log_entry = LogMarkers "Marker list" nat | LogShown | LogClosed | LogUpdated string | LogNotice string

record session =
  s_targets :: "Target list"
  windowExists :: bool
  s_sent :: "Command list"
  s_log :: "log_entry list"

type_synonym sends = "nat \<Rightarrow> (client_error \<times> bool) option"

datatype session_error = FrameError map_error | SubscribeFailed client_error | SendError client_error | EventStreamError client_error
  | CloseError "session_error option" client_error

definition send :: "sends \<Rightarrow> Command \<Rightarrow> session \<Rightarrow> session \<times> (client_error \<times> bool) option" where
  "send env c st = (st\<lparr>s_sent := s_sent st @ [c]\<rparr>, env (length (s_sent st)))"

fun send_frame :: "sends \<Rightarrow> Command list \<Rightarrow> session \<Rightarrow> session \<times> (client_error \<times> bool) option" where
  "send_frame env [] st = (st, None)"
| "send_frame env (c # cs) st = (case send env c st of
      (st1, None) \<Rightarrow> send_frame env cs st1
    | (st1, Some e) \<Rightarrow> (st1, Some e))"

definition log_it :: "log_entry \<Rightarrow> session \<Rightarrow> session" where
  "log_it l st = st\<lparr>s_log := s_log st @ [l]\<rparr>"

section \<open>The loop\<close>

text \<open>
  What the select delivers. After a redraw that the window manager refuses because it has no window, the loop
  waits for the next window event, the context or a timer: \<open>wait\<close> is what that wait delivers.
\<close>

datatype wait = WaitEvent "(client_error, map_response) outcome" | WaitDone | WaitTimeout

datatype session_event = CtxDone | WindowEvent "(client_error, map_response) outcome" bool | TargetUpdate Target wait | UpdatesClosed
  | NoticeMessage string | NoticesClosed

datatype step_result = Continue session | Return session "session_error option"

definition is_close :: "map_response \<Rightarrow> bool" where
  "is_close r \<longleftrightarrow> mr_Event r = ''window_close'' \<and> mr_WindowID r = ''map''"

definition window_closed :: "session \<Rightarrow> session" where
  "window_closed st = log_it LogClosed (st\<lparr>windowExists := False\<rparr>)"

definition redraw_failed :: "client_error \<Rightarrow> bool \<Rightarrow> wait \<Rightarrow> session \<Rightarrow> step_result" where
  "redraw_failed e cancelled wait st =
     (if cancelled then Return st None
      else if e = Rejection ''no window; send CREATE first'' then
        (case wait of
           WaitEvent (Ok r) \<Rightarrow> if is_close r then Return (window_closed st) None else Return st (Some (SendError e))
         | WaitDone \<Rightarrow> Return st None
         | _ \<Rightarrow> Return st (Some (SendError e)))
      else Return st (Some (SendError e)))"

definition target_update :: "sends \<Rightarrow> Config \<Rightarrow> Target \<Rightarrow> wait \<Rightarrow> session \<Rightarrow> step_result" where
  "target_update env cfg t wait st =
     (let ts = update_target (s_targets st) t; st1 = st\<lparr>s_targets := ts\<rparr>
      in case BuildFrame cfg ts of
           Err e \<Rightarrow> Return st1 (Some (FrameError e))
         | Panic \<Rightarrow> Return st1 None
         | Ok (cmds, ms) \<Rightarrow> (case send_frame env cmds st1 of
             (st2, None) \<Rightarrow> Continue (log_it (LogMarkers ms (length ts)) (log_it (LogUpdated (TargetID t)) st2))
           | (st2, Some (e, cancelled)) \<Rightarrow> redraw_failed e cancelled wait st2))"

definition session_step :: "sends \<Rightarrow> Config \<Rightarrow> session_event \<Rightarrow> session \<Rightarrow> step_result" where
  "session_step env cfg ev st = (case ev of
      CtxDone \<Rightarrow> Return st None
    | WindowEvent (Err e) cancelled \<Rightarrow> Return st (if cancelled then None else Some (EventStreamError e))
    | WindowEvent (Ok r) _ \<Rightarrow> if is_close r then Return (window_closed st) None else Continue st
    | WindowEvent Panic _ \<Rightarrow> Return st None
    | TargetUpdate t wait \<Rightarrow> target_update env cfg t wait st
    | UpdatesClosed \<Rightarrow> Continue st
    | NoticeMessage m \<Rightarrow> Continue (log_it (LogNotice m) st)
    | NoticesClosed \<Rightarrow> Continue st)"

text \<open>The deferred CLOSE, sent with a context of its own.\<close>

definition cleanup :: "sends \<Rightarrow> session \<Rightarrow> session_error option \<Rightarrow> session \<times> session_error option" where
  "cleanup env st result =
     (if windowExists st
      then case send env (command ''CLOSE'') st of
             (st1, None) \<Rightarrow> (st1, result)
           | (st1, Some (e, _)) \<Rightarrow> (st1, Some (CloseError result e))
      else (st, result))"

datatype session_run = Running session | Finished session "session_error option"

definition return :: "sends \<Rightarrow> session \<Rightarrow> session_error option \<Rightarrow> session_run" where
  "return env st result = (case cleanup env st result of (st', result') \<Rightarrow> Finished st' result')"

fun session_loop :: "sends \<Rightarrow> Config \<Rightarrow> session_event list \<Rightarrow> session \<Rightarrow> session_run" where
  "session_loop env cfg [] st = Running st"
| "session_loop env cfg (ev # evs) st = (case session_step env cfg ev st of
      Continue st' \<Rightarrow> session_loop env cfg evs st'
    | Return st' result \<Rightarrow> return env st' result)"

section \<open>The whole session\<close>

definition create_command :: "Config \<Rightarrow> Command" where
  "create_command cfg = (command ''CREATE'')\<lparr>cmd_Title := ''Tactical Map'', cmd_Width := map_Width cfg, cmd_Height := map_Height cfg\<rparr>"

definition new_session :: "Target list \<Rightarrow> session" where
  "new_session ts = \<lparr>s_targets = ts, windowExists = False, s_sent = [], s_log = []\<rparr>"

text \<open>From the successful CREATE on; the returns before it leave no window behind.\<close>

definition show_map :: "sends \<Rightarrow> Config \<Rightarrow> Command list \<Rightarrow> Marker list \<Rightarrow> session_event list \<Rightarrow> session \<Rightarrow> session_run" where
  "show_map env cfg commands markers evs st = (case send_frame env commands st of
      (st1, Some (e, cancelled)) \<Rightarrow> return env st1 (if cancelled then None else Some (SendError e))
    | (st1, None) \<Rightarrow> (case send env (command ''SHOW'') st1 of
        (st2, Some (e, _)) \<Rightarrow> return env st2 (Some (SendError e))
      | (st2, None) \<Rightarrow> session_loop env cfg evs (log_it LogShown (log_it (LogMarkers markers (length (s_targets st2))) st2))))"

definition runMap :: "sends \<Rightarrow> (client_error \<times> bool) option \<Rightarrow> Config \<Rightarrow> Target list \<Rightarrow> session_event list \<Rightarrow> session_run" where
  "runMap env subscription cfg targets evs = (case BuildFrame cfg targets of
      Err e \<Rightarrow> Finished (new_session targets) (Some (FrameError e))
    | Panic \<Rightarrow> Finished (new_session targets) None
    | Ok (commands, markers) \<Rightarrow> (case subscription of
        Some (e, cancelled) \<Rightarrow> Finished (new_session targets) (if cancelled then None else Some (SubscribeFailed e))
      | None \<Rightarrow> (case send env (create_command cfg) (new_session targets) of
          (st, Some (e, _)) \<Rightarrow> Finished st (Some (SendError e))
        | (st, None) \<Rightarrow> show_map env cfg commands markers evs (st\<lparr>windowExists := True\<rparr>))))"

section \<open>Which commands are sent\<close>

definition closes :: "Command list \<Rightarrow> Command list" where
  "closes cs = filter (\<lambda>c. cmd_Command c = ''CLOSE'') cs"

lemma closes_simps [simp]:
  "closes [] = []" "closes (xs @ ys) = closes xs @ closes ys"
  "closes (c # cs) = (if cmd_Command c = ''CLOSE'' then c # closes cs else closes cs)"
  by (simp_all add: closes_def)

lemma command_name [simp]: "cmd_Command (command x) = x"
  by (simp add: command_def)

lemma frame_targets_closes: "frame_targets cfg seen ts = Ok (cmds, ms) \<Longrightarrow> closes cmds = []"
proof (induction cfg seen ts arbitrary: cmds ms rule: frame_targets.induct)
  case (2 cfg seen t ts)
  then show ?case
    by (auto simp: outcome_simps marker_circles_def circle_def split: if_splits outcome.splits prod.splits)
qed simp

lemma BuildFrame_closes: "BuildFrame cfg ts = Ok (cmds, ms) \<Longrightarrow> closes cmds = []"
  using frame_targets_closes by (fastforce simp: BuildFrame_def frame_head_def outcome_simps)

text \<open>What the deferred CLOSE leaves to do, and the steps that keep it.\<close>

definition open_session :: "Command \<Rightarrow> session \<Rightarrow> bool" where
  "open_session c st \<longleftrightarrow> windowExists st \<and> s_sent st \<noteq> [] \<and> hd (s_sent st) = c \<and> closes (s_sent st) = []"

lemma send_open: "open_session c st \<Longrightarrow> cmd_Command d \<noteq> ''CLOSE'' \<Longrightarrow> send env d st = (st', r) \<Longrightarrow> open_session c st' \<and> s_targets st' = s_targets st"
  by (auto simp: open_session_def send_def)

lemma send_frame_open:
  "open_session c st \<Longrightarrow> closes cs = [] \<Longrightarrow> send_frame env cs st = (st', r) \<Longrightarrow> open_session c st' \<and> s_targets st' = s_targets st"
proof (induction env cs st arbitrary: st' r rule: send_frame.induct)
  case (2 env d ds st)
  obtain st1 x where s: "send env d st = (st1, x)" by fastforce
  have d: "cmd_Command d \<noteq> ''CLOSE''" "closes ds = []" using "2.prems"(2) by (auto split: if_splits)
  note o1 = send_open[OF "2.prems"(1) d(1) s]
  show ?case
  proof (cases x)
    case None
    then show ?thesis using "2.IH"[OF s[symmetric] None] o1 d(2) "2.prems"(3) s by simp
  next
    case (Some e)
    then show ?thesis using o1 "2.prems"(3) s by simp
  qed
qed simp

lemma log_it_open [simp]: "open_session c (log_it l st) = open_session c st" "s_targets (log_it l st) = s_targets st"
  by (simp_all add: open_session_def log_it_def)

text \<open>Events that tell the map that its window is gone.\<close>

definition reports_close :: "session_event \<Rightarrow> bool" where
  "reports_close ev = (case ev of
      WindowEvent (Ok r) _ \<Rightarrow> is_close r
    | TargetUpdate _ (WaitEvent (Ok r)) \<Rightarrow> is_close r
    | _ \<Rightarrow> False)"

definition closed_session :: "Command \<Rightarrow> session \<Rightarrow> bool" where
  "closed_session c st \<longleftrightarrow> \<not> windowExists st \<and> s_sent st \<noteq> [] \<and> hd (s_sent st) = c \<and> closes (s_sent st) = []"

lemma window_closed_session: "open_session c st \<Longrightarrow> closed_session c (window_closed st)"
  by (simp add: open_session_def closed_session_def window_closed_def log_it_def)

definition step_ok :: "Command \<Rightarrow> session_event \<Rightarrow> step_result \<Rightarrow> bool" where
  "step_ok c ev r = (case r of
      Continue st \<Rightarrow> open_session c st
    | Return st _ \<Rightarrow> open_session c st \<or> closed_session c st \<and> reports_close ev)"

lemma redraw_failed_ok: "open_session c st \<Longrightarrow> step_ok c (TargetUpdate t wait) (redraw_failed e cancelled wait st)"
  by (auto simp: redraw_failed_def step_ok_def reports_close_def window_closed_session split: wait.splits outcome.splits)

lemma target_update_ok:
  assumes "open_session c st"
  shows "step_ok c (TargetUpdate t wait) (target_update env cfg t wait st)"
proof -
  let ?st = "st\<lparr>s_targets := update_target (s_targets st) t\<rparr>"
  have st1: "open_session c ?st" using assms by (simp add: open_session_def)
  show ?thesis
  proof (cases "BuildFrame cfg (update_target (s_targets st) t)")
    case (Ok fr)
    then obtain cmds ms where f: "BuildFrame cfg (update_target (s_targets st) t) = Ok (cmds, ms)" by (cases fr) simp
    obtain st2 x where s: "send_frame env cmds ?st = (st2, x)" by fastforce
    then have "open_session c st2" using send_frame_open[OF st1 BuildFrame_closes[OF f] s] by simp
    then show ?thesis using f s redraw_failed_ok
      by (auto simp: target_update_def Let_def step_ok_def split: option.splits)
  qed (use st1 in \<open>auto simp: target_update_def Let_def step_ok_def\<close>)
qed

lemma session_step_ok: "open_session c st \<Longrightarrow> step_ok c ev (session_step env cfg ev st)"
  using target_update_ok
  by (auto simp: session_step_def step_ok_def reports_close_def window_closed_session split: session_event.splits outcome.splits)

text \<open>How a session ends: with a CLOSE as its last command, or with the window reported closed and no CLOSE.\<close>

definition settled :: "Command \<Rightarrow> session_event list \<Rightarrow> session \<Rightarrow> bool" where
  "settled c evs st \<longleftrightarrow> hd (s_sent st) = c
     \<and> (if windowExists st then closes (butlast (s_sent st)) = [] \<and> last (s_sent st) = command ''CLOSE''
        else closes (s_sent st) = [] \<and> list_ex reports_close evs)"

lemma return_settled:
  assumes "open_session c st \<or> closed_session c st \<and> list_ex reports_close evs" "return env st result = Finished st' result'"
  shows "settled c evs st'"
  using assms by (auto simp: return_def cleanup_def send_def settled_def open_session_def closed_session_def split: option.splits if_splits)

lemma session_loop_settled:
  "open_session c st \<Longrightarrow> session_loop env cfg evs st = Finished st' result \<Longrightarrow> settled c evs st'"
proof (induction env cfg evs st rule: session_loop.induct)
  case (2 env cfg ev evs st)
  show ?case
  proof (cases "session_step env cfg ev st")
    case (Continue st1)
    then have "open_session c st1" using session_step_ok[OF "2.prems"(1), of ev env cfg] by (simp add: step_ok_def)
    then have "settled c evs st'" using "2.IH"[OF Continue] "2.prems"(2) Continue by simp
    then show ?thesis by (auto simp: settled_def)
  next
    case (Return st1 r)
    then have "open_session c st1 \<or> closed_session c st1 \<and> reports_close ev"
      using session_step_ok[OF "2.prems"(1), of ev env cfg] by (simp add: step_ok_def)
    then show ?thesis using return_settled[of c st1 "ev # evs" env r st' result] "2.prems"(2) Return by auto
  qed
qed simp

lemma show_map_settled:
  assumes "open_session c st" "closes cmds = []" "show_map env cfg cmds ms evs st = Finished st' result"
  shows "settled c evs st'"
proof -
  obtain st1 x where s: "send_frame env cmds st = (st1, x)" by fastforce
  have o1: "open_session c st1" using send_frame_open[OF assms(1,2) s] by simp
  obtain st2 y where t: "send env (command ''SHOW'') st1 = (st2, y)" by fastforce
  have o2: "open_session c st2" using send_open[OF o1 _ t] by simp
  show ?thesis
  proof (cases x)
    case (Some e)
    then show ?thesis using assms(3) s return_settled[of c st1] o1 by (auto simp: show_map_def split: prod.splits)
  next
    case None
    show ?thesis
    proof (cases y)
      case (Some e)
      then show ?thesis using assms(3) s t None return_settled[of c st2] o2 by (auto simp: show_map_def split: prod.splits)
    next
      case y: None
      let ?st = "log_it LogShown (log_it (LogMarkers ms (length (s_targets st2))) st2)"
      have "session_loop env cfg evs ?st = Finished st' result" using assms(3) s t None y by (simp add: show_map_def)
      then show ?thesis using session_loop_settled[of c ?st] o2 by simp
    qed
  qed
qed

section \<open>Frames of received targets\<close>

definition no_frame_error :: "session_error option \<Rightarrow> bool" where
  "no_frame_error r = (case r of Some (FrameError _) \<Rightarrow> False | Some (CloseError (Some (FrameError _)) _) \<Rightarrow> False | _ \<Rightarrow> True)"

definition step_drawable :: "step_result \<Rightarrow> bool" where
  "step_drawable r = (case r of
      Continue st \<Rightarrow> drawable_targets (s_targets st)
    | Return _ result \<Rightarrow> (case result of Some (FrameError _) \<Rightarrow> False | Some (CloseError _ _) \<Rightarrow> False | _ \<Rightarrow> True))"

lemma send_frame_targets: "send_frame env cs st = (st', r) \<Longrightarrow> s_targets st' = s_targets st"
proof (induction env cs st arbitrary: st' r rule: send_frame.induct)
  case (2 env c cs st)
  obtain st1 x where s: "send env c st = (st1, x)" by fastforce
  then have t: "s_targets st1 = s_targets st" by (auto simp: send_def)
  show ?case
  proof (cases x)
    case None
    then have "send_frame env cs st1 = (st', r)" using "2.prems" s by simp
    then show ?thesis using "2.IH"[OF s[symmetric] None] t by metis
  next
    case (Some e)
    then show ?thesis using "2.prems" s t by simp
  qed
qed simp

lemma send_frame_all: "(\<And>n. env n = None) \<Longrightarrow> send_frame env cs st = (st\<lparr>s_sent := s_sent st @ cs\<rparr>, None)"
  by (induction cs arbitrary: st) (simp_all add: send_def)

definition good_event :: "session_event \<Rightarrow> bool" where
  "good_event ev = (case ev of TargetUpdate t _ \<Rightarrow> valid_target t \<and> TargetID t \<noteq> [] | _ \<Rightarrow> True)"

lemma session_step_drawable:
  assumes "Validate cfg = Ok ()" "drawable_targets (s_targets st)" "good_event ev"
  shows "step_drawable (session_step env cfg ev st)"
proof (cases ev)
  case (TargetUpdate t w)
  let ?ts = "update_target (s_targets st) t"
  have d: "drawable_targets ?ts" using assms(2,3) TargetUpdate by (intro drawable_targets_update) (simp_all add: good_event_def)
  obtain cmds ms where f: "BuildFrame cfg ?ts = Ok (cmds, ms)" using drawable_targets_BuildFrame[OF assms(1) d] by blast
  obtain st2 x where s: "send_frame env cmds (st\<lparr>s_targets := ?ts\<rparr>) = (st2, x)" by fastforce
  have "s_targets st2 = ?ts" using send_frame_targets[OF s] by simp
  then show ?thesis using TargetUpdate f s d
    by (auto simp: session_step_def target_update_def Let_def step_drawable_def redraw_failed_def split: option.splits wait.splits outcome.splits)
qed (use assms(2) in \<open>auto simp: session_step_def step_drawable_def log_it_def split: outcome.splits\<close>)

lemma return_no_frame_error:
  "(case result of Some (FrameError _) \<Rightarrow> False | Some (CloseError _ _) \<Rightarrow> False | _ \<Rightarrow> True) \<Longrightarrow>
   return env st result = Finished st' result' \<Longrightarrow> no_frame_error result'"
  by (auto simp: return_def cleanup_def no_frame_error_def split: option.splits session_error.splits if_splits prod.splits)

lemma session_loop_no_frame_error:
  "Validate cfg = Ok () \<Longrightarrow> drawable_targets (s_targets st) \<Longrightarrow>
   list_all good_event evs \<Longrightarrow>
   session_loop env cfg evs st = Finished st' result \<Longrightarrow> no_frame_error result"
proof (induction env cfg evs st rule: session_loop.induct)
  case (2 env cfg ev evs st)
  have d: "step_drawable (session_step env cfg ev st)" using "2.prems"(1-3) by (intro session_step_drawable) auto
  show ?case
  proof (cases "session_step env cfg ev st")
    case (Continue st1)
    then show ?thesis using "2.IH"[OF Continue] "2.prems" d by (simp add: step_drawable_def)
  next
    case (Return st1 r)
    then show ?thesis using return_no_frame_error[of r env st1] "2.prems"(4) d by (simp add: step_drawable_def)
  qed
qed simp

section \<open>Properties\<close>


definition close_response :: map_response where
  "close_response = \<lparr>mr_OK = Some True, mr_Message = [], mr_Event = ''window_close'', mr_WindowID = ''map''\<rparr>"


text \<open>Whatever bytes the Broker sends, and in whatever order window events, notices and answers of the window
  manager come, the targets taken from the Broker never end the session: no frame is ever rejected.\<close>

theorem runMap_no_frame_error:
  assumes "Validate cfg = Ok ()" "\<forall>t w. TargetUpdate t w \<in> set evs \<longrightarrow> t \<in> set (updates (receive_loop s))"
    and "runMap env subscription cfg [] evs = Finished st result"
  shows "result \<noteq> Some (FrameError e) \<and> result \<noteq> Some (CloseError (Some (FrameError e)) ce)"
proof -
  have v: "list_all good_event evs" using assms(2) receive_loop_valid by (auto simp: list_all_iff good_event_def split: session_event.splits)
  have d: "drawable_targets []" by (simp add: drawable_targets_def)
  obtain cmds ms where f: "BuildFrame cfg [] = Ok (cmds, ms)" using drawable_targets_BuildFrame[OF assms(1) d] by blast
  have "no_frame_error result"
  proof (cases "subscription = None \<and> env 0 = None")
    case True
    let ?st = "(new_session [])\<lparr>s_sent := [create_command cfg], windowExists := True\<rparr>"
    have m: "show_map env cfg cmds ms evs ?st = Finished st result" using assms(3) f True by (simp add: runMap_def send_def new_session_def)
    obtain st1 x where s: "send_frame env cmds ?st = (st1, x)" by fastforce
    then have t: "s_targets st1 = []" using send_frame_targets[OF s] by (simp add: new_session_def)
    show ?thesis
    proof (cases x)
      case (Some ec)
      then show ?thesis using m s return_no_frame_error[of "if snd ec then None else Some (SendError (fst ec))" env st1]
        by (auto simp: show_map_def split: prod.splits if_splits)
    next
      case None
      let ?l = "log_it LogShown (log_it (LogMarkers ms (length (s_targets st1))) (st1\<lparr>s_sent := s_sent st1 @ [command ''SHOW'']\<rparr>))"
      show ?thesis
      proof (cases "env (length (s_sent st1))")
        case y: None
        then have "session_loop env cfg evs ?l = Finished st result" using m s None by (simp add: show_map_def send_def)
        then show ?thesis using session_loop_no_frame_error[OF assms(1) _ v, of ?l] t d by simp
      next
        case y: (Some ec)
        then show ?thesis using m s None return_no_frame_error[of "Some (SendError (fst ec))" env]
          by (auto simp: show_map_def send_def split: prod.splits)
      qed
    qed
  next
    case False
    then show ?thesis using assms(3) f by (auto simp: runMap_def send_def no_frame_error_def new_session_def split: option.splits if_splits)
  qed
  then show ?thesis by (auto simp: no_frame_error_def)
qed

lemma runMap_no_frame_error_witness:
  "\<exists>st result. runMap (\<lambda>_. None) None sample_config [] [TargetUpdate (hd (updates (receive_loop sample_frames))) WaitTimeout, CtxDone]
       = Finished st result \<and> result \<noteq> Some (FrameError BadBounds) \<and> map TargetID (s_targets st) = [''17'']"
proof -
  let ?t = "hd (updates (receive_loop sample_frames))"
  let ?evs = "[TargetUpdate ?t WaitTimeout, CtxDone]"
  have t: "?t \<in> set (updates (receive_loop sample_frames))" "TargetID ?t = ''17''" by (simp_all add: sample_frames_received)
  have c: "Validate sample_config = Ok ()"
    by (simp add: Validate_def sample_config_def Bounds_validate_def unit_bounds_def f64_le_def)
  obtain cmds0 ms0 where f0: "BuildFrame sample_config [] = Ok (cmds0, ms0)"
    using drawable_targets_BuildFrame[OF c, of "[]"] by (auto simp: drawable_targets_def)
  obtain cmds ms where f: "BuildFrame sample_config [?t] = Ok (cmds, ms)"
    using drawable_targets_BuildFrame[OF c, of "[?t]"] receive_loop_valid[OF t(1)] by (auto simp: drawable_targets_def)
  obtain st result where r: "runMap (\<lambda>_. None) None sample_config [] ?evs = Finished st result" "s_targets st = [?t]"
    using f by (simp add: runMap_def f0 send_def show_map_def send_frame_all new_session_def session_step_def target_update_def
      log_it_def return_def cleanup_def)
  then show ?thesis using runMap_no_frame_error[OF c _ r(1), of sample_frames] t by auto
qed

end
