(* ===== verification/Map_Events.thy ===== *)
theory Map_Events
  imports Wm_Sdl Map_Session
begin

text \<open>
  The event channel between the window manager and the Map application: \<^verbatim>\<open>Client.timeout\<close>, \<^verbatim>\<open>Client.subscribe\<close> and \<^verbatim>\<open>events.close\<close> of
  \<^verbatim>\<open>app/map/client.go\<close> with the operations on the connection, and the goroutine of \<^verbatim>\<open>runMap\<close> (\<^verbatim>\<open>app/map/session.go\<close>) that reads the events.
\<close>

section \<open>The subscription\<close>

record Client =
  Socket :: string
  EventSocket :: string
  Timeout :: int

text \<open>Durations are nanoseconds.\<close>

definition timeout :: "Client \<Rightarrow> int" where
  "timeout c = (if Timeout c > 0 then Timeout c else 5 * 10 ^ 9)"

text \<open>What happens to the connection: \<open>Watched\<close> is \<^verbatim>\<open>context.AfterFunc\<close>, which closes the connection when the context ends, and \<open>Unwatched\<close> its
  \<^verbatim>\<open>stop\<close>; \<open>Deadline None\<close> clears the deadline.\<close>

datatype conn_op = Dialled string | Watched | Deadline "int option" | Unwatched | ConnClosed

datatype subscribe_error = DialEvents | DeadlineError | SubscriptionError client_error | NoAcknowledgement

definition events_close :: "conn_op list" where
  "events_close = [Unwatched, ConnClosed]"

text \<open>\<open>now\<close> is the time of the call; the next arguments say which calls succeed, and \<open>input\<close> is what the window manager sends.\<close>

definition subscribe_window :: "Client \<Rightarrow> int \<Rightarrow> bool \<Rightarrow> bool \<Rightarrow> bool \<Rightarrow> string \<Rightarrow> (subscribe_error, string) outcome \<times> conn_op list" where
  "subscribe_window c now dial_ok set_ok clear_ok input =
     (if \<not> dial_ok then (Err DialEvents, [])
      else let opened = [Dialled (EventSocket c), Watched]
      in if \<not> set_ok then (Err DeadlineError, opened @ events_close)
      else let limited = opened @ [Deadline (Some (now + timeout c))]
      in case readResponse input of
           (Err e, _) \<Rightarrow> (Err (SubscriptionError e), limited @ events_close)
         | (Panic, _) \<Rightarrow> (Panic, limited)
         | (Ok resp, rest) \<Rightarrow>
             if mr_Event resp \<noteq> [] \<or> mr_Message resp \<noteq> ''subscribed'' then (Err NoAcknowledgement, limited @ events_close)
             else if \<not> clear_ok then (Err DeadlineError, limited @ events_close)
             else (Ok rest, limited @ [Deadline None]))"

section \<open>The event goroutine\<close>

lemma readResponse_shorter: "readResponse input = (Ok r, rest) \<Longrightarrow> length rest < length input"
  by (auto simp: readResponse_def split: slice_read.splits outcome.splits option.splits bool.splits dest: ReadSlice_shorter)

text \<open>What it sends to \<^verbatim>\<open>windowEvents\<close> while nobody cancels it: every response, and the first error.\<close>

function read_events :: "string \<Rightarrow> (client_error, map_response) outcome list" where
  "read_events input = (case readResponse input of
      (Ok r, rest) \<Rightarrow> Ok r # read_events rest
    | (e, _) \<Rightarrow> [e])"
  by pat_completeness auto
termination by (relation "measure length") (auto dest: readResponse_shorter[OF sym])

declare read_events.simps [simp del]

section \<open>Facts\<close>

text \<open>A failed subscription leaves no connection open.\<close>

lemma subscribe_closes:
  assumes "subscribe_window c now dial_ok set_ok clear_ok input = (Err e, ops)" "Dialled path \<in> set ops"
  shows "last ops = ConnClosed"
  using assms by (auto simp: subscribe_window_def events_close_def Let_def split: if_splits prod.splits outcome.splits)

lemma subscribe_bytes: "fst (subscribe_window c now True True True input) = Ok rest \<longleftrightarrow> subscribe_events input = Ok rest"
  by (auto simp: subscribe_window_def subscribe_events_def Let_def split: prod.splits outcome.splits)

definition close_of :: "string \<Rightarrow> map_response" where
  "close_of wid = \<lparr>mr_OK = Some True, mr_Message = [], mr_Event = ''window_close'', mr_WindowID = wid\<rparr>"

lemma torn_read:
  assumes "newline \<notin> set part"
  shows "fst (readResponse part) = Err ReadResponseError"
proof -
  have "dropWhile (\<lambda>c. c \<noteq> newline) part = []" using assms by (simp add: dropWhile_eq_Nil_conv) blast
  moreover have "takeWhile (\<lambda>c. c \<noteq> newline) part = part" using assms by (simp add: takeWhile_eq_all_conv) blast
  ultimately have "ReadSlice client_buffer part = BufferFull \<or> ReadSlice client_buffer part = AtEOF part"
    by (simp only: ReadSlice_def Let_def list.case) simp
  then show ?thesis by (auto simp: readResponse_def)
qed

lemma read_events_lines:
  assumes "list_all wf_response (map close_event ids)" "newline \<notin> set part"
  shows "read_events (concat (map (\<lambda>i. WriteResponse (close_event i)) ids) @ part) = map (\<lambda>i. Ok (close_of i)) ids @ [Err ReadResponseError]"
  using assms(1)
proof (induction ids)
  case Nil
  obtain rest where "readResponse part = (Err ReadResponseError, rest)" using torn_read[OF assms(2)] by (metis prod.collapse)
  then show ?case by (subst read_events.simps) simp
next
  case (Cons i ids)
  then have "readResponse (WriteResponse (close_event i) @ r) = (Ok (close_of i), r)" for r
    using response_arrives[of "close_event i"] by (simp add: close_event_def close_of_def)
  then show ?case using Cons by (subst read_events.simps) simp
qed

lemma subscribed_line_wf: "wf_response (reply True ''subscribed'')"
proof -
  have "length (WriteResponse (reply True ''subscribed'')) < 100" by code_simp
  then show ?thesis by (simp add: wf_response_def reply_def utf8_valid_printable printable_def client_buffer_def)
qed

text \<open>Everything an event client is sent: the acknowledgement first, then the windows that were closed.\<close>

definition event_lines :: "Response list \<Rightarrow> bool" where
  "event_lines rs \<longleftrightarrow> (\<exists>ids. rs = reply True ''subscribed'' # map close_event ids)"

definition event_inv :: "'b wm \<Rightarrow> bool" where
  "event_inv m \<longleftrightarrow> (\<forall>c. (c \<in> eventClients m \<longrightarrow> written m c \<noteq> []) \<and> (written m c \<noteq> [] \<longrightarrow> event_lines (written m c)))"

lemma event_lines_more: "event_lines rs \<Longrightarrow> event_lines (rs @ [close_event i])"
proof -
  assume "event_lines rs"
  then obtain ids where "rs = reply True ''subscribed'' # map close_event ids" by (auto simp: event_lines_def)
  then show ?thesis unfolding event_lines_def by (intro exI[of _ "ids @ [i]"]) simp
qed

lemma broadcast_inv: "event_inv m \<Longrightarrow> event_inv (broadcastEvent failing (close_event i) m)"
  by (auto simp: event_inv_def broadcastEvent_def intro: event_lines_more)

lemma event_step:
  assumes "wm_step upper ops m m'" "event_inv m"
  shows "event_inv m'"
  using assms
proof (induction rule: wm_step.induct)
  case (event_client m c write_ok)
  then have "event_lines [reply True ''subscribed'']" unfolding event_lines_def by (intro exI[of _ "[]"]) simp
  then show ?case using event_client by (auto simp: event_inv_def accept_event_client_def)
next
  case (request m received write_ok)
  then show ?case by (auto simp: event_inv_def request_step_def Let_def split: prod.splits)
next
  case (tick m failing)
  then have "event_inv (m\<lparr>srv := s, bk := b\<rparr>)" for s b by (simp add: event_inv_def)
  then have b: "event_inv (broadcastEvent failing (close_event i) (m\<lparr>srv := s, bk := b\<rparr>))" for s b i by (rule broadcast_inv)
  then show ?case using tick
    by (auto simp: tick_step_def Let_def event_inv_def split: prod.splits outcome.splits option.splits)
qed (auto simp: event_inv_def)

lemma event_reach: "wm_reach upper ops b m \<Longrightarrow> event_inv m"
proof (induction rule: wm_reach.induct)
  case start
  then show ?case by (simp add: event_inv_def init_wm_def)
qed (rule event_step)

lemma session_on_events:
  "session_loop env cfg (map (\<lambda>e. session_event.WindowEvent e False) (map (\<lambda>i. Ok (close_of i)) ids @ [Err ce])) st
     = (if ''map'' \<in> set ids then Finished (window_closed st) None else return env st (Some (EventStreamError ce)))"
proof (induction ids)
  case (Cons i ids)
  have "return env (window_closed st) None = Finished (window_closed st) None"
    by (simp add: return_def cleanup_def window_closed_def log_it_def)
  then show ?case using Cons by (simp add: session_step_def is_close_def close_of_def)
qed (simp add: session_step_def)

section \<open>Properties\<close>

text \<open>C16: The event channel from end to end. Whatever the window manager has done, the bytes it has written to an event client, the last line
  possibly torn, let \<^verbatim>\<open>subscribe\<close> succeed with the deadline cleared, and the event goroutine then reads exactly the closed windows, in order, before its
  error: the session learns that the user closed its window and ends without an error and without a CLOSE of its own, and otherwise ends with
  the error of the stream.\<close>

theorem map_sees_close:
  assumes "wm_reach upper ops b m" "written m k \<noteq> []" "list_all wf_response (written m k)" "newline \<notin> set torn"
  shows "\<exists>ids rest. written m k = reply True ''subscribed'' # map close_event ids
     \<and> subscribe_window c now True True True (concat (map WriteResponse (written m k)) @ torn)
         = (Ok rest, [Dialled (EventSocket c), Watched, Deadline (Some (now + timeout c)), Deadline None])
     \<and> read_events rest = map (\<lambda>i. Ok (close_of i)) ids @ [Err ReadResponseError]
     \<and> session_loop env cfg (map (\<lambda>e. session_event.WindowEvent e False) (read_events rest)) st
         = (if ''map'' \<in> set ids then Finished (window_closed st) None else return env st (Some (EventStreamError ReadResponseError)))"
proof -
  obtain ids where ids: "written m k = reply True ''subscribed'' # map close_event ids"
    using event_reach[OF assms(1)] assms(2) by (auto simp: event_inv_def event_lines_def)
  let ?rest = "concat (map (\<lambda>i. WriteResponse (close_event i)) ids) @ torn"
  have "readResponse (WriteResponse (reply True ''subscribed'') @ ?rest)
      = (Ok \<lparr>mr_OK = Some True, mr_Message = ''subscribed'', mr_Event = [], mr_WindowID = []\<rparr>, ?rest)"
    using response_arrives[OF subscribed_line_wf, of ?rest] by (simp add: reply_def)
  then have s: "subscribe_window c now True True True (concat (map WriteResponse (written m k)) @ torn)
         = (Ok ?rest, [Dialled (EventSocket c), Watched, Deadline (Some (now + timeout c)), Deadline None])"
    by (simp add: subscribe_window_def ids comp_def Let_def)
  have e: "read_events ?rest = map (\<lambda>i. Ok (close_of i)) ids @ [Err ReadResponseError]"
    using assms(3,4) ids by (intro read_events_lines) simp_all
  show ?thesis using ids s e session_on_events[of env cfg ids ReadResponseError st] by (intro exI conjI) auto
qed

text \<open>A window manager over SDL whose user closes the window at once.\<close>

definition quitting_lib :: sdl_lib where
  "quitting_lib = quiet_lib\<lparr>lib_events := (\<lambda>_. [QuitEvent])\<rparr>"

definition quitting_ops :: "sdl_state backend_ops" where
  "quitting_ops = sdl_ops quitting_lib (\<lambda>_. Panic)"

definition closed_wm :: "sdl_state wm" where
  "closed_wm = tick_step quitting_ops {} (request_step (\<lambda>r. r) quitting_ops True (Ok (create_request 2 1)) (accept_event_client 0 True (init_wm sdl_New)))"

lemma closed_wm_reach: "wm_reach (\<lambda>r. r) quitting_ops sdl_New closed_wm"
proof -
  have st: "status (accept_event_client 0 True (init_wm sdl_New)) = Serving" by (simp add: accept_event_client_def init_wm_def)
  have a: "wm_reach (\<lambda>r. r) quitting_ops sdl_New (accept_event_client 0 True (init_wm sdl_New))"
    by (rule wm_reach.further[OF wm_reach.start wm_step.event_client]) (simp_all add: init_wm_def)
  have r: "status (request_step (\<lambda>r. r) quitting_ops True (Ok (create_request 2 1)) (accept_event_client 0 True (init_wm sdl_New))) = Serving"
    unfolding request_step_def handleRequest_def outcome.case command_create dispatch_def
    by (simp add: init_wm_def accept_event_client_def handle_create_def new_Server_def sdl_ops_def quitting_ops_def sdl_Create_def sdl_do_def quitting_lib_def
        quiet_lib_def sdl_New_def sdl_config_def create_config_def create_request_def NewRGBA_def Let_def)
  show ?thesis unfolding closed_wm_def
    by (rule wm_reach.further[OF wm_reach.further[OF a wm_step.request[OF st]] wm_step.tick[OF r]]) simp
qed

lemma closed_wm_written: "written closed_wm 0 = [reply True ''subscribed'', close_event ''map'']"
  unfolding closed_wm_def request_step_def handleRequest_def outcome.case command_create dispatch_def
  by (simp add: tick_step_def pollWindowEvents_def init_wm_def accept_event_client_def broadcastEvent_def handle_create_def new_Server_def sdl_ops_def
      quitting_ops_def sdl_Create_def sdl_Close_def sdl_PollEvents_def sdl_note_def sdl_do_def quitting_lib_def quiet_lib_def sdl_New_def sdl_config_def create_config_def
      create_request_def NewRGBA_def forget_window_def Let_def)

lemma map_sees_close_witness:
  "\<exists>rest. fst (subscribe_window \<lparr>Socket = [], EventSocket = [], Timeout = 0\<rparr> 0 True True True (concat (map WriteResponse (written closed_wm 0)))) = Ok rest
     \<and> session_loop (\<lambda>_. None) sample_config (map (\<lambda>e. session_event.WindowEvent e False) (read_events rest)) (new_session [])
         = Finished (window_closed (new_session [])) None"
proof -
  have "length (WriteResponse (close_event ''map'')) < 100" by code_simp
  then have "wf_response (close_event ''map'')" by (simp add: wf_response_def close_event_def utf8_valid_printable printable_def client_buffer_def)
  then have w: "list_all wf_response (written closed_wm 0)" by (simp add: closed_wm_written subscribed_line_wf)
  have n: "written closed_wm 0 \<noteq> []" by (simp add: closed_wm_written)
  have i: "close_event x = close_event y \<longleftrightarrow> x = y" for x y by (simp add: close_event_def)
  show ?thesis
    using map_sees_close[OF closed_wm_reach n w, of "[]" "\<lparr>Socket = [], EventSocket = [], Timeout = 0\<rparr>" 0 "\<lambda>_. None" sample_config "new_session []"]
    by (auto simp: closed_wm_written i)
qed

end
