(* ===== verification/Marker_Detect.thy ===== *)
theory Marker_Detect
  imports Go_Strings "HOL-Library.Multiset"
begin

text \<open>
  The marker detector service under \<^verbatim>\<open>prototypes/marker-detect\<close>: marker numbers (\<^verbatim>\<open>marker/marker.go\<close>), the
  normalisation of raw detections and the synthetic source (\<^verbatim>\<open>ipc/source.go\<close>), the check of a result before
  it is sent (\<^verbatim>\<open>ipc/protocol.go\<close>), one DETECT request (\<^verbatim>\<open>ipc/server.go\<close>) and the camera source
  (\<^verbatim>\<open>cmd/marker-detect/serve.go\<close>), with the OpenCV calls as arguments.
\<close>

section \<open>Markers\<close>

definition TeamCount :: int where "TeamCount = 6"
definition PlayersPerTeam :: int where "PlayersPerTeam = 12"
definition Count :: int where "Count = TeamCount * PlayersPerTeam"

definition IsValid :: "int \<Rightarrow> bool" where
  "IsValid m \<longleftrightarrow> 0 \<le> m \<and> m < Count"

text \<open>Go's \<^verbatim>\<open>/\<close> and \<^verbatim>\<open>%\<close> truncate towards zero.\<close>

definition Team :: "int \<Rightarrow> int" where
  "Team m = sgn m * (\<bar>m\<bar> div PlayersPerTeam)"

definition Player :: "int \<Rightarrow> int" where
  "Player m = sgn m * (\<bar>m\<bar> mod PlayersPerTeam)"

definition marker_TargetID :: "int \<Rightarrow> string" where
  "marker_TargetID m = Itoa m"

record Detection =
  det_ID :: int
  RelativeAngleDeg :: float64
  DistanceM :: float64

section \<open>Normalize\<close>

text \<open>The map of the nearest detection for each marker.\<close>

definition nearest_step :: "(int \<rightharpoonup> Detection) \<Rightarrow> Detection \<Rightarrow> (int \<rightharpoonup> Detection)" where
  "nearest_step m d = (case m (det_ID d) of
      None \<Rightarrow> m(det_ID d \<mapsto> d)
    | Some prev \<Rightarrow> if f64_lt (DistanceM d) (DistanceM prev) then m(det_ID d \<mapsto> d) else m)"

definition nearest :: "Detection list \<Rightarrow> (int \<rightharpoonup> Detection)" where
  "nearest ds = foldl nearest_step Map.empty ds"

text \<open>
  The values of the map in some order, then sorted by marker. The order of a Go map iteration does not
  matter, since the markers are distinct: the lemma \<open>Normalize_order\<close> below.
\<close>

definition Normalize :: "Detection list \<Rightarrow> Detection list" where
  "Normalize ds = map (the \<circ> nearest ds) (sorted_list_of_set (det_ID ` set ds))"

section \<open>validate\<close>

datatype detection_error = BadID nat int | BadAngle nat int | BadDistance nat int | BadOrder nat

fun validate_from :: "nat \<Rightarrow> int option \<Rightarrow> Detection list \<Rightarrow> (detection_error, unit) outcome" where
  "validate_from i prev [] = Ok ()"
| "validate_from i prev (d # ds) =
     (if \<not> IsValid (det_ID d) then Err (BadID i (det_ID d))
      else if IsNaN (RelativeAngleDeg d) \<or> IsInf (RelativeAngleDeg d) then Err (BadAngle i (det_ID d))
      else if IsNaN (DistanceM d) \<or> IsInf (DistanceM d) \<or> \<not> f64_lt (Fin 0) (DistanceM d) then Err (BadDistance i (det_ID d))
      else if (case prev of None \<Rightarrow> False | Some p \<Rightarrow> det_ID d \<le> p) then Err (BadOrder i)
      else validate_from (i + 1) (Some (det_ID d)) ds)"

definition validate :: "Detection list \<Rightarrow> (detection_error, unit) outcome" where
  "validate ds = validate_from 0 None ds"

section \<open>One DETECT request\<close>

datatype source_error = ErrCameraUnavailable | OtherError string

datatype wire_code = CAMERA_UNAVAILABLE | DETECTION_FAILED | BAD_REQUEST

text \<open>The content of a response line: \<^verbatim>\<open>successJSON\<close> with its detections, or \<^verbatim>\<open>failureJSON\<close> with its code.\<close>

datatype detect_response = Success "(int \<times> float64 \<times> float64) list" | Failure wire_code

text \<open>\<^verbatim>\<open>encodeSuccess\<close> writes a zero angle without its sign.\<close>

definition success_of :: "Detection list \<Rightarrow> detect_response" where
  "success_of ds = Success (map (\<lambda>d. (det_ID d,
     if f64_eq (RelativeAngleDeg d) (Fin 0) then Fin 0 else RelativeAngleDeg d, DistanceM d)) ds)"

definition detect :: "(source_error, Detection list) outcome \<Rightarrow> detect_response option" where
  "detect result = (case result of
      Panic \<Rightarrow> None
    | Err ErrCameraUnavailable \<Rightarrow> Some (Failure CAMERA_UNAVAILABLE)
    | Err (OtherError _) \<Rightarrow> Some (Failure DETECTION_FAILED)
    | Ok dets \<Rightarrow> (case validate dets of
        Err _ \<Rightarrow> Some (Failure DETECTION_FAILED)
      | Panic \<Rightarrow> None
      | Ok _ \<Rightarrow> Some (success_of dets)))"

text \<open>\<^verbatim>\<open>NewFakeSource\<close>: the fixed result of each mode, \<^const>\<open>None\<close> for an unknown mode.\<close>

definition NewFakeSource :: "string \<Rightarrow> (source_error, Detection list) outcome option" where
  "NewFakeSource mode =
     (if mode = ''two'' then Some (Ok
        [\<lparr>det_ID = 17, RelativeAngleDeg = f64_of_rat False (25 / 2), DistanceM = f64_of_rat False (32 / 10)\<rparr>,
         \<lparr>det_ID = 23, RelativeAngleDeg = f64_of_rat True (- 84 / 10), DistanceM = f64_of_rat False (57 / 10)\<rparr>])
      else if mode = ''empty'' then Some (Ok [])
      else if mode = ''camera-unavailable'' then Some (Err ErrCameraUnavailable)
      else if mode = ''detection-failed'' then Some (Err (OtherError ''synthetic detection failure''))
      else None)"

section \<open>The camera source\<close>

text \<open>
  The state of \<^verbatim>\<open>cameraSource\<close>: whether a camera is open and whether the source is closed; the counters of
  opened and released cameras are the calls it has made. The arguments of a request are what the
  camera and the recogniser do: opening, reading a frame, and the recognised markers of the frame.
\<close>

record cameraSource =
  camera :: bool
  src_closed :: bool
  opened :: nat
  released :: nat

definition new_cameraSource :: cameraSource where
  "new_cameraSource = \<lparr>camera = False, src_closed = False, opened = 0, released = 0\<rparr>"

definition dropCamera :: "cameraSource \<Rightarrow> cameraSource" where
  "dropCamera s = (if camera s then s\<lparr>camera := False, released := released s + 1\<rparr> else s)"

definition source_Detect :: "bool \<Rightarrow> bool \<Rightarrow> (string, Detection list) outcome \<Rightarrow> cameraSource
    \<Rightarrow> cameraSource \<times> (source_error, Detection list) outcome" where
  "source_Detect open_ok frame_ok recognised s =
     (if src_closed s then (s, Err (OtherError ''the camera source is closed''))
      else if \<not> camera s \<and> \<not> open_ok then (s, Err ErrCameraUnavailable)
      else let s1 = (if camera s then s else s\<lparr>camera := True, opened := opened s + 1\<rparr>)
           in if \<not> frame_ok then (dropCamera s1, Err ErrCameraUnavailable)
              else case recognised of
                     Err e \<Rightarrow> (s1, Err (OtherError e))
                   | Panic \<Rightarrow> (s1, Panic)
                   | Ok dets \<Rightarrow> (s1, Ok (Normalize dets)))"

definition source_Close :: "cameraSource \<Rightarrow> cameraSource" where
  "source_Close s = dropCamera (s\<lparr>src_closed := True\<rparr>)"

inductive source_reach :: "cameraSource \<Rightarrow> bool" where
  new: "source_reach new_cameraSource"
| request: "source_reach s \<Longrightarrow> source_reach (fst (source_Detect open_ok frame_ok recognised s))"
| close: "source_reach s \<Longrightarrow> source_reach (source_Close s)"

section \<open>Lemmas\<close>

lemma nearest_snoc: "nearest (ds @ [d]) = nearest_step (nearest ds) d"
  by (simp add: nearest_def)

lemma nearest_dom: "dom (nearest ds) = det_ID ` set ds"
proof (induction ds rule: rev_induct)
  case (snoc d ds)
  then show ?case by (auto simp: nearest_snoc nearest_step_def split: option.splits if_splits)
qed (simp add: nearest_def)

lemma nearest_Some: "nearest ds i = Some d \<Longrightarrow> d \<in> set ds \<and> det_ID d = i"
proof (induction ds arbitrary: d rule: rev_induct)
  case (snoc x xs)
  then show ?case
    by (cases "nearest xs (det_ID x)") (auto simp: nearest_snoc nearest_step_def split: if_splits)
qed (simp add: nearest_def)

lemma nearest_least:
  assumes "\<forall>x \<in> set ds. f64_finite (DistanceM x)" "nearest ds i = Some d" "x \<in> set ds" "det_ID x = i"
  shows "f64_le (DistanceM d) (DistanceM x)"
  using assms
proof (induction ds arbitrary: d x rule: rev_induct)
  case (snoc y ys)
  show ?case
  proof (cases "nearest ys (det_ID y)")
    case None
    then have "det_ID y \<notin> dom (nearest ys)" by auto
    then have n: "det_ID z \<noteq> det_ID y" if "z \<in> set ys" for z using that unfolding nearest_dom by (metis imageI)
    show ?thesis
    proof (cases "i = det_ID y")
      case True
      then have "d = y" "x = y" using None snoc.prems n by (auto simp: nearest_snoc nearest_step_def)
      then show ?thesis using snoc.prems(1) by (simp add: f64_cmp)
    next
      case False
      then show ?thesis using None snoc by (auto simp: nearest_snoc nearest_step_def)
    qed
  next
    case (Some prev)
    have f: "f64_finite (DistanceM prev)" "f64_finite (DistanceM y)" using nearest_Some[OF Some] snoc.prems(1) by auto
    show ?thesis
    proof (cases "i = det_ID y")
      case True
      have le: "f64_le (DistanceM prev) (DistanceM z)" if "z \<in> set ys" "det_ID z = i" for z
        using snoc.IH[of prev z] snoc.prems(1) Some True that by auto
      have "d = (if f64_lt (DistanceM y) (DistanceM prev) then y else prev)"
        using snoc.prems(2) Some True by (auto simp: nearest_snoc nearest_step_def split: if_splits)
      moreover have "f64_le (DistanceM prev) (DistanceM x) \<or> x = y" using le snoc.prems(3,4) by auto
      moreover have "f64_finite (DistanceM x)" using snoc.prems(1,3) by auto
      ultimately show ?thesis using f by (auto simp: f64_cmp not_less split: if_splits)
    next
      case False
      then show ?thesis using snoc by (auto simp: nearest_snoc nearest_step_def split: option.splits if_splits)
    qed
  qed
qed simp

lemma Normalize_ids: "map det_ID (Normalize ds) = sorted_list_of_set (det_ID ` set ds)"
proof -
  have "det_ID (the (nearest ds i)) = i" if "i \<in> det_ID ` set ds" for i
  proof -
    have "i \<in> dom (nearest ds)" using that nearest_dom[of ds] by simp
    then obtain d where d: "nearest ds i = Some d" by auto
    then show ?thesis using nearest_Some[OF d] by simp
  qed
  then show ?thesis unfolding Normalize_def map_map by (intro map_idI) simp
qed

lemma Normalize_set: "set (Normalize ds) = ran (nearest ds)"
  using nearest_dom[of ds] by (force simp: Normalize_def ran_def dom_def image_iff)

lemma Normalize_order:
  assumes "distinct out" "set out = ran (nearest ds)"
  shows "sort_key det_ID out = Normalize ds"
proof -
  have own: "nearest ds (det_ID d) = Some d" if "d \<in> ran (nearest ds)" for d
    using that nearest_Some by (auto simp: ran_def)
  have inj: "inj_on det_ID (ran (nearest ds))" using own by (intro inj_onI) (metis option.inject)
  have o: "distinct (map det_ID out)" using assms inj by (simp add: distinct_map)
  have n: "distinct (map det_ID (Normalize ds))" by (simp add: Normalize_ids)
  show ?thesis
  proof (rule map_sorted_distinct_set_unique)
    show "distinct (map det_ID (sort_key det_ID out))"
      using o assms(2) inj by (simp add: distinct_map)
  qed (use n assms(2) inj Normalize_set Normalize_ids in simp_all)
qed

lemma Normalize_least:
  assumes "\<forall>x \<in> set ds. f64_finite (DistanceM x)" "d \<in> set (Normalize ds)" "x \<in> set ds" "det_ID x = det_ID d"
  shows "f64_le (DistanceM d) (DistanceM x)"
proof -
  obtain i where i: "nearest ds i = Some d" using assms(2) by (auto simp: Normalize_set ran_def)
  then show ?thesis using nearest_least[OF assms(1) i assms(3)] nearest_Some[OF i] assms(4) by simp
qed

definition good_detection :: "Detection \<Rightarrow> bool" where
  "good_detection d \<longleftrightarrow> IsValid (det_ID d) \<and> f64_finite (RelativeAngleDeg d) \<and> f64_finite (DistanceM d) \<and> 0 < f64_val (DistanceM d)"

lemma validate_from_Ok:
  "validate_from i prev ds = Ok u \<longleftrightarrow> list_all good_detection ds
     \<and> sorted_wrt (<) (map det_ID ds) \<and> (case prev of None \<Rightarrow> True | Some p \<Rightarrow> ds \<noteq> [] \<longrightarrow> p < det_ID (hd ds))"
proof (induction i prev ds rule: validate_from.induct)
  case (2 i prev d ds)
  have "f64_finite (DistanceM d) \<Longrightarrow> f64_lt (Fin 0) (DistanceM d) \<longleftrightarrow> 0 < f64_val (DistanceM d)" by (simp add: f64_cmp)
  then have g: "good_detection d \<longleftrightarrow> IsValid (det_ID d) \<and> \<not> (IsNaN (RelativeAngleDeg d) \<or> IsInf (RelativeAngleDeg d))
      \<and> \<not> (IsNaN (DistanceM d) \<or> IsInf (DistanceM d) \<or> \<not> f64_lt (Fin 0) (DistanceM d))"
    by (auto simp: good_detection_def f64_finite_def)
  have s: "sorted_wrt (<) (map det_ID (d # ds)) \<longleftrightarrow>
      sorted_wrt (<) (map det_ID ds) \<and> (ds \<noteq> [] \<longrightarrow> det_ID d < det_ID (hd ds))"
    by (cases ds) auto
  show ?case
  proof (cases "good_detection d \<and> \<not> (case prev of None \<Rightarrow> False | Some p \<Rightarrow> det_ID d \<le> p)")
    case True
    then have "validate_from i prev (d # ds) = validate_from (i + 1) (Some (det_ID d)) ds" using g by simp
    moreover have "validate_from (i + 1) (Some (det_ID d)) ds = Ok u \<longleftrightarrow> list_all good_detection ds
       \<and> sorted_wrt (<) (map det_ID ds) \<and> (ds \<noteq> [] \<longrightarrow> det_ID d < det_ID (hd ds))"
      using 2 True g by simp
    ultimately show ?thesis using True s by (auto simp: not_le split: option.splits)
  next
    case False
    then show ?thesis using g by (auto simp: not_le split: option.splits)
  qed
qed (auto split: option.splits)

lemma validate_Ok: "validate ds = Ok u \<longleftrightarrow> list_all good_detection ds \<and> sorted_wrt (<) (map det_ID ds)"
  by (simp add: validate_def validate_from_Ok)

lemma validate_no_panic: "validate ds \<noteq> Panic"
proof -
  have "validate_from i prev ds \<noteq> Panic" for i prev
    by (induction i prev ds rule: validate_from.induct) auto
  then show ?thesis by (simp add: validate_def)
qed

lemma Normalize_valid: "list_all good_detection ds \<Longrightarrow> validate (Normalize ds) = Ok ()"
proof -
  assume g: "list_all good_detection ds"
  have "set (Normalize ds) \<subseteq> set ds" using nearest_Some by (fastforce simp: Normalize_set ran_def)
  then show ?thesis using g unfolding validate_Ok Normalize_ids by (auto simp: list_all_iff)
qed

section \<open>Properties\<close>

text \<open>\<open>Normalize\<close> returns one detection per marker seen, sorted by marker, each one of the raw detections and,
  when all distances are finite, the nearest of its marker; whatever order the map is walked in.\<close>

theorem Normalize_sound:
  shows "sorted_wrt (<) (map det_ID (Normalize ds)) \<and> det_ID ` set (Normalize ds) = det_ID ` set ds
     \<and> set (Normalize ds) \<subseteq> set ds
     \<and> ((\<forall>x \<in> set ds. f64_finite (DistanceM x)) \<longrightarrow>
         (\<forall>d \<in> set (Normalize ds). \<forall>x \<in> set ds. det_ID x = det_ID d \<longrightarrow> f64_le (DistanceM d) (DistanceM x)))
     \<and> (\<forall>out. distinct out \<and> set out = ran (nearest ds) \<longrightarrow> sort_key det_ID out = Normalize ds)"
proof -
  have "det_ID ` set (Normalize ds) = det_ID ` set ds"
    using arg_cong[OF Normalize_ids[of ds], of set] by simp
  moreover have "set (Normalize ds) \<subseteq> set ds" using nearest_Some by (fastforce simp: Normalize_set ran_def)
  ultimately show ?thesis using Normalize_least Normalize_order by (auto simp: Normalize_ids)
qed

definition two_copies :: "Detection list" where
  "two_copies = [\<lparr>det_ID = 7, RelativeAngleDeg = Fin 1, DistanceM = Fin 5\<rparr>, \<lparr>det_ID = 7, RelativeAngleDeg = Fin 2, DistanceM = Fin 3\<rparr>]"

lemma Normalize_sound_witness:
  "Normalize two_copies \<noteq> [] \<and> f64_val (DistanceM (hd (Normalize two_copies))) = 3"
proof
  note s = Normalize_sound[of two_copies]
  have "det_ID ` set (Normalize two_copies) \<noteq> {}" using s by (simp add: two_copies_def)
  then show n: "Normalize two_copies \<noteq> []" by auto
  then have d: "hd (Normalize two_copies) \<in> set (Normalize two_copies)" by simp
  then have m: "hd (Normalize two_copies) \<in> set two_copies" using s by blast
  moreover have "f64_le (DistanceM (hd (Normalize two_copies))) (Fin 3)"
    using s d m by (auto simp: two_copies_def)
  ultimately show "f64_val (DistanceM (hd (Normalize two_copies))) = 3" by (auto simp: two_copies_def f64_le_def)
qed

text \<open>A DETECT request is answered with detections only when they meet the protocol: known markers,
  unique and ascending, finite angles, finite positive distances; every other result of the source is
  reported as a failure. What \<open>Normalize\<close> makes of good raw detections is never refused.\<close>

theorem detect_sound:
  "(detect (Ok ds) = Some (success_of ds) \<longleftrightarrow> list_all good_detection ds \<and> sorted_wrt (<) (map det_ID ds))
   \<and> (detect (Ok ds) = Some (success_of ds) \<or> detect (Ok ds) = Some (Failure DETECTION_FAILED))
   \<and> (list_all good_detection raw \<longrightarrow> detect (Ok (Normalize raw)) = Some (success_of (Normalize raw)))"
proof -
  have f: "success_of ds \<noteq> Failure c" "Failure c \<noteq> success_of ds" for ds c by (simp_all add: success_of_def)
  have d: "detect (Ok ds) = (case validate ds of Ok _ \<Rightarrow> Some (success_of ds) | _ \<Rightarrow> Some (Failure DETECTION_FAILED))" for ds
    using validate_no_panic[of ds] by (simp add: detect_def split: outcome.split)
  show ?thesis using validate_Ok[of ds "()"] Normalize_valid[of raw] validate_no_panic[of ds]
    by (cases "validate ds") (auto simp: d f)
qed

lemma detect_sound_witness:
  "detect (Ok (Normalize two_copies)) = Some (success_of (Normalize two_copies))"
  using detect_sound[of "[]" two_copies] by (simp add: two_copies_def good_detection_def IsValid_def Count_def TeamCount_def PlayersPerTeam_def)

text \<open>The camera is never leaked: at every moment the cameras opened and not released are exactly the one the
  source holds, and a closed source holds none.\<close>

theorem camera_not_leaked:
  assumes "source_reach s"
  shows "opened s = released s + (if camera s then 1 else 0) \<and> (src_closed s \<longrightarrow> \<not> camera s)"
  using assms
  by (induction rule: source_reach.induct)
     (auto simp: new_cameraSource_def source_Detect_def source_Close_def dropCamera_def Let_def split: outcome.splits)

lemma camera_not_leaked_witness:
  "opened (source_Close (fst (source_Detect True True (Ok []) new_cameraSource))) = 1
   \<and> released (source_Close (fst (source_Detect True True (Ok []) new_cameraSource))) = 1"
  using camera_not_leaked[OF source_reach.close[OF source_reach.request[OF source_reach.new, of True True "Ok []"]]]
  by (simp add: source_Close_def source_Detect_def dropCamera_def new_cameraSource_def)

text \<open>A game marker number is a team and a player: the two are in range and determine the number, and the
  decimal target identifier determines it too.\<close>

theorem marker_numbers:
  assumes "IsValid m" "IsValid n"
  shows "0 \<le> Team m \<and> Team m < TeamCount \<and> 0 \<le> Player m \<and> Player m < PlayersPerTeam
     \<and> m = Team m * PlayersPerTeam + Player m
     \<and> (marker_TargetID m = marker_TargetID n \<longleftrightarrow> m = n)"
proof -
  have r: "0 \<le> m" "m < 72" "0 \<le> n" "n < 72" using assms by (simp_all add: IsValid_def Count_def TeamCount_def PlayersPerTeam_def)
  have "sgn m * (\<bar>m\<bar> div 12) = m div 12" "sgn m * (\<bar>m\<bar> mod 12) = m mod 12" using r by (cases "m = 0"; simp)+
  moreover have "word_of_int m = (word_of_int n :: 64 word) \<longleftrightarrow> m = n"
    using r by (auto dest!: arg_cong[of _ _ uint] simp: uint_word_of_int)
  moreover have "marker_TargetID m = marker_TargetID n \<Longrightarrow> word_of_int m = (word_of_int n :: 64 word)"
    using ParseInt64_Itoa[of m] ParseInt64_Itoa[of n] r by (simp add: marker_TargetID_def)
  ultimately show ?thesis using r by (auto simp: Team_def Player_def TeamCount_def PlayersPerTeam_def)
qed

lemma marker_numbers_witness: "Team 17 = 1 \<and> Player 17 = 5 \<and> marker_TargetID 17 \<noteq> marker_TargetID 23"
  using marker_numbers[of 17 23]
  by (simp add: IsValid_def Count_def TeamCount_def PlayersPerTeam_def Team_def Player_def)

end
