(* ===== verification/Marker_Detector.thy ===== *)
theory Marker_Detector
  imports Marker_Pose Marker_Detect Wm_Image
begin

text \<open>
  \<^verbatim>\<open>prototypes/marker-detect/detector/detector.go\<close>, the recogniser around the ArUco detector of OpenCV, and the parts of
  \<^verbatim>\<open>cmd/marker-detect/main.go\<close> with logic of their own: the choice of the mode from the options and the drawing of a
  printable marker. OpenCV, \<^verbatim>\<open>math.Tan\<close>, \<^verbatim>\<open>math.Atan2\<close> and the order in which \<^verbatim>\<open>sort.Slice\<close> leaves equal markers are arguments.
\<close>

section \<open>Angles and distances\<close>

definition f64_Pi :: float64 where
  "f64_Pi = Fin (884279719003555 / 281474976710656)"

definition CameraFromHorizontalFOV :: "(float64 \<Rightarrow> float64) \<Rightarrow> int \<Rightarrow> int \<Rightarrow> float64 \<Rightarrow> float64 Camera" where
  "CameraFromHorizontalFOV tan' width height hfovDeg =
     (let fx = f64_div (f64_div (f64_of_int width) (Fin 2)) (tan' (f64_div (f64_mul hfovDeg f64_Pi) (Fin 360)))
      in \<lparr>Fx = fx, Fy = fx, Cx = f64_div (f64_of_int width) (Fin 2), Cy = f64_div (f64_of_int height) (Fin 2)\<rparr>)"

definition AngleDeg :: "(float64 \<Rightarrow> float64 \<Rightarrow> float64) \<Rightarrow> float64 Position \<Rightarrow> float64" where
  "AngleDeg atan2 p = f64_div (f64_mul (atan2 (pos_X p) (pos_Z p)) (Fin 180)) f64_Pi"

definition Distance :: "float64 Position \<Rightarrow> float64" where
  "Distance p = f64_Sqrt (f64_add (f64_add (f64_mul (pos_X p) (pos_X p)) (f64_mul (pos_Y p) (pos_Y p))) (f64_mul (pos_Z p) (pos_Z p)))"

section \<open>The detector\<close>

record GrayFrame =
  fr_Width :: int
  fr_Height :: int
  fr_Pix :: "8 word list"

record Result = Detection +
  Corners :: "float64 Point list"

record Detector =
  markerSizeM :: float64
  det_closed :: bool

text \<open>
  What the recogniser calls: copying the frame into an OpenCV matrix, which may fail, \<^verbatim>\<open>DetectMarkers\<close>, \<^verbatim>\<open>math.Atan2\<close> and
  the sorting function.
\<close>

record vision =
  mat_error :: "GrayFrame \<Rightarrow> string option"
  aruco :: "GrayFrame \<Rightarrow> float64 Point list list \<times> int list"
  atan2_fn :: "float64 \<Rightarrow> float64 \<Rightarrow> float64"
  sort_results :: "Result list \<Rightarrow> Result list"

definition det_New :: "float64 \<Rightarrow> (string, Detector) outcome" where
  "det_New s = (if \<not> f64_lt (Fin 0) s then Err ''detector: marker size must be positive'' else Ok \<lparr>markerSizeM = s, det_closed = False\<rparr>)"

text \<open>\<^verbatim>\<open>Close\<close> returns what closing the OpenCV object returns, the first time only.\<close>

definition det_Close :: "(string, unit) outcome \<Rightarrow> Detector \<Rightarrow> Detector \<times> (string, unit) outcome" where
  "det_Close aruco_close d = (if det_closed d then (d, Ok ()) else (d\<lparr>det_closed := True\<rparr>, aruco_close))"

definition result_of :: "(float64 \<Rightarrow> float64 \<Rightarrow> float64) \<Rightarrow> int \<Rightarrow> float64 Point list \<Rightarrow> float64 Position \<Rightarrow> Result" where
  "result_of atan2 i pts pos = \<lparr>det_ID = i, RelativeAngleDeg = AngleDeg atan2 pos, DistanceM = Distance pos, Corners = pts\<rparr>"

text \<open>The loop over the recognised identifiers; \<^verbatim>\<open>corners[i]\<close> is read only for a valid marker.\<close>

fun detect_loop :: "(float64 \<Rightarrow> float64 \<Rightarrow> float64) \<Rightarrow> float64 \<Rightarrow> float64 Camera \<Rightarrow> float64 Point list list \<Rightarrow> nat \<Rightarrow> int list
    \<Rightarrow> Result list \<Rightarrow> (string, Result list) outcome" where
  "detect_loop atan2 s cam corners i [] results = Ok results"
| "detect_loop atan2 s cam corners i (m # ids) results =
     (if \<not> IsValid m then detect_loop atan2 s cam corners (Suc i) ids results
      else obind (slice_get corners i) (\<lambda>pts.
        if length pts \<noteq> 4 then detect_loop atan2 s cam corners (Suc i) ids results
        else case EstimatePosition f64_ops pts s cam of
               Ok pos \<Rightarrow> detect_loop atan2 s cam corners (Suc i) ids (results @ [result_of atan2 m pts pos])
             | Err _ \<Rightarrow> detect_loop atan2 s cam corners (Suc i) ids results
             | Panic \<Rightarrow> Panic))"

definition Detect :: "vision \<Rightarrow> Detector \<Rightarrow> GrayFrame \<Rightarrow> float64 Camera \<Rightarrow> (string, Result list) outcome" where
  "Detect v d frame cam =
     (if fr_Width frame \<le> 0 \<or> fr_Height frame \<le> 0 \<or> int (length (fr_Pix frame)) \<noteq> wrap64 (fr_Width frame * fr_Height frame)
      then Err ''detector: invalid frame''
      else if \<not> f64_lt (Fin 0) (Fx cam) \<or> \<not> f64_lt (Fin 0) (Fy cam) then Err ''detector: invalid camera model''
      else if det_closed d then Err ''detector: closed''
      else case mat_error v frame of
             Some e \<Rightarrow> Err (''detector: '' @ e)
           | None \<Rightarrow>
               let (corners, ids) = aruco v frame
               in obind (detect_loop (atan2_fn v) (markerSizeM d) cam corners 0 ids []) (\<lambda>results. Ok (sort_results v results)))"

definition dictionarySize :: int where
  "dictionarySize = 100"

text \<open>\<^verbatim>\<open>RenderMarker\<close>; the argument is the matrix that OpenCV draws: its rows, columns and bytes.\<close>

definition RenderMarker :: "(int \<Rightarrow> int \<Rightarrow> int \<times> int \<times> 8 word list) \<Rightarrow> int \<Rightarrow> int \<Rightarrow> (string, GrayFrame) outcome" where
  "RenderMarker generate i sidePx =
     (if i < 0 \<or> dictionarySize \<le> i \<or> sidePx \<le> 0 then Err ''detector: invalid marker id or size''
      else let (rows, cols, bytes) = generate i sidePx
           in if bytes = [] \<or> rows \<noteq> sidePx \<or> cols \<noteq> sidePx then Err ''detector: cannot render the marker''
              else Ok \<lparr>fr_Width = cols, fr_Height = rows, fr_Pix = bytes\<rparr>)"

section \<open>The command line\<close>

record options =
  opt_camera :: int
  opt_hfovDeg :: float64
  opt_markerSizeM :: float64
  opt_show :: bool
  opt_imagePath :: string
  opt_genID :: int
  opt_genPath :: string
  opt_socket :: string
  opt_fake :: string

datatype run_mode = RunServe | GenerateMarker | RunOnImage | RunOnCamera

text \<open>\<^verbatim>\<open>run\<close> after the flags are parsed: the exit code 2 of a wrong combination, or the mode.\<close>

definition run_options :: "options \<Rightarrow> int + run_mode" where
  "run_options opt =
     (if \<not> (f64_lt (Fin 10) (opt_hfovDeg opt) \<and> f64_lt (opt_hfovDeg opt) (Fin 170)) \<or> \<not> f64_lt (Fin 0) (opt_markerSizeM opt) then Inl 2
      else if opt_fake opt \<noteq> [] \<and> opt_socket opt = [] then Inl 2
      else if opt_socket opt \<noteq> [] \<and> (opt_show opt \<or> opt_imagePath opt \<noteq> [] \<or> 0 \<le> opt_genID opt) then Inl 2
      else Inr (if opt_socket opt \<noteq> [] then RunServe
                else if 0 \<le> opt_genID opt then GenerateMarker
                else if opt_imagePath opt \<noteq> [] then RunOnImage else RunOnCamera))"

text \<open>The white sheet with the marker in the middle: one \<^verbatim>\<open>copy\<close> for each row, with the bounds checks of the slices.\<close>

definition margin :: int where
  "margin = 100"

definition slice_from :: "'a list \<Rightarrow> int \<Rightarrow> int \<Rightarrow> (int, 'a list) outcome" where
  "slice_from xs lo hi = (if 0 \<le> lo \<and> lo \<le> hi \<and> hi \<le> int (length xs) then Ok (take (nat (hi - lo)) (drop (nat lo) xs)) else Panic)"

definition copy_into :: "'a list \<Rightarrow> int \<Rightarrow> 'a list \<Rightarrow> (int, 'a list) outcome" where
  "copy_into dst off src =
     (if 0 \<le> off \<and> off \<le> int (length dst)
      then let n = min (length src) (length dst - nat off) in Ok (take (nat off) dst @ take n src @ drop (nat off + n) dst)
      else Panic)"

fun copy_rows :: "GrayFrame \<Rightarrow> int \<Rightarrow> int list \<Rightarrow> 8 word list \<Rightarrow> (int, 8 word list) outcome" where
  "copy_rows frame stride [] pix = Ok pix"
| "copy_rows frame stride (y # ys) pix =
     obind (slice_from (fr_Pix frame) (y * fr_Width frame) ((y + 1) * fr_Width frame)) (\<lambda>row.
     obind (copy_into pix ((y + margin) * stride + margin) row) (copy_rows frame stride ys))"

definition marker_sheet :: "GrayFrame \<Rightarrow> (int, GrayFrame) outcome" where
  "marker_sheet frame =
     (let wd = fr_Width frame + 2 * margin; ht = fr_Height frame + 2 * margin
      in obind (copy_rows frame wd [0..fr_Height frame - 1] (replicate (nat (wd * ht)) 255)) (\<lambda>pix.
           Ok \<lparr>fr_Width = wd, fr_Height = ht, fr_Pix = pix\<rparr>))"

text \<open>\<^verbatim>\<open>generateMarker\<close> up to the writing of the PNG file: the exit code, or the sheet.\<close>

definition generateMarker :: "(int \<Rightarrow> int \<Rightarrow> int \<times> int \<times> 8 word list) \<Rightarrow> int \<Rightarrow> (int, GrayFrame) outcome" where
  "generateMarker generate i =
     (if \<not> IsValid i then Err 1
      else case RenderMarker generate i 600 of
             Err _ \<Rightarrow> Err 1
           | Panic \<Rightarrow> Panic
           | Ok frame \<Rightarrow> marker_sheet frame)"

section \<open>One frame of the camera\<close>

text \<open>\<^verbatim>\<open>detectGray\<close>, and the detections that the camera source of \<^verbatim>\<open>serve.go\<close> takes from its results\<close>

definition detectGray :: "(float64 \<Rightarrow> float64) \<Rightarrow> vision \<Rightarrow> Detector \<Rightarrow> GrayFrame \<Rightarrow> float64 \<Rightarrow> (string, Result list) outcome" where
  "detectGray tan' v d frame hfovDeg = Detect v d frame (CameraFromHorizontalFOV tan' (fr_Width frame) (fr_Height frame) hfovDeg)"

definition frame_detections :: "(string, Result list) outcome \<Rightarrow> (string, Detection list) outcome" where
  "frame_detections r = obind r (\<lambda>results. Ok (map Detection.truncate results))"

section \<open>What is recognised\<close>

definition recognise :: "(float64 \<Rightarrow> float64 \<Rightarrow> float64) \<Rightarrow> float64 \<Rightarrow> float64 Camera \<Rightarrow> int \<times> float64 Point list \<Rightarrow> Result option" where
  "recognise atan2 s cam mp = (case mp of (m, pts) \<Rightarrow>
     if IsValid m \<and> length pts = 4
     then (case EstimatePosition f64_ops pts s cam of Ok pos \<Rightarrow> Some (result_of atan2 m pts pos) | _ \<Rightarrow> None) else None)"

lemma recognise_pair: "recognise atan2 s cam (m, pts) = (if IsValid m \<and> length pts = 4
     then (case EstimatePosition f64_ops pts s cam of Ok pos \<Rightarrow> Some (result_of atan2 m pts pos) | _ \<Rightarrow> None) else None)"
  by (simp add: recognise_def)

lemma EstimatePosition_no_panic: "EstimatePosition f64_ops pts s cam \<noteq> Panic"
  by (simp add: EstimatePosition_def Let_def split: option.split)

lemma detect_loop_filter:
  assumes "i + length ids \<le> length corners"
  shows "detect_loop atan2 s cam corners i ids results =
     Ok (results @ List.map_filter (recognise atan2 s cam) (zip ids (drop i corners)))"
  using assms
proof (induction ids arbitrary: i results)
  case Nil
  then show ?case by (simp add: map_filter_simps)
next
  case (Cons m ids)
  have i: "i < length corners" using Cons.prems by simp
  have d: "drop i corners = corners ! i # drop (Suc i) corners" using i by (rule Cons_nth_drop_Suc[symmetric])
  have IH: "detect_loop atan2 s cam corners (Suc i) ids rs = Ok (rs @ List.map_filter (recognise atan2 s cam) (zip ids (drop (Suc i) corners)))" for rs
    using Cons.IH[of "Suc i" rs] Cons.prems by simp
  show ?case using EstimatePosition_no_panic[of "corners ! i" s cam]
    by (cases "EstimatePosition f64_ops (corners ! i) s cam") (auto simp: IH i d slice_get_def recognise_pair map_filter_simps)
qed

lemma recognised_position:
  assumes "recognise atan2 s cam mp = Some r"
  obtains pos where "EstimatePosition f64_ops (snd mp) s cam = Ok pos" "r = result_of atan2 (fst mp) (snd mp) pos" "IsValid (fst mp)"
  using assms by (auto simp: recognise_def split: prod.splits if_splits outcome.splits)

lemma of_rat_number: "f64_of_rat neg q \<noteq> NaN"
  using f64_of_rat_not_NaN[of neg q] by (metis IsNaN.simps(1))

lemma f64_Sqrt_unsigned: "unsigned_f64 x \<Longrightarrow> x \<noteq> NaN \<Longrightarrow> unsigned_f64 (f64_Sqrt x) \<and> f64_Sqrt x \<noteq> NaN"
proof -
  have "0 \<le> sqrt_grid q" for q by (simp add: sqrt_grid_def Let_def)
  then show "unsigned_f64 x \<Longrightarrow> x \<noteq> NaN \<Longrightarrow> unsigned_f64 (f64_Sqrt x) \<and> f64_Sqrt x \<noteq> NaN"
    by (elim unsigned_cases) (auto simp: unsigned_of_rat of_rat_number)
qed

lemma square_unsigned: "f64_finite x \<Longrightarrow> unsigned_f64 (f64_mul x x) \<and> f64_mul x x \<noteq> NaN"
  by (auto elim!: f64_finite_cases simp: f64_mul_def Let_def unsigned_of_rat of_rat_number)

lemma add_unsigned: "unsigned_f64 x \<Longrightarrow> x \<noteq> NaN \<Longrightarrow> unsigned_f64 y \<Longrightarrow> y \<noteq> NaN \<Longrightarrow> unsigned_f64 (f64_add x y) \<and> f64_add x y \<noteq> NaN"
  by (elim unsigned_cases) (auto simp: unsigned_of_rat of_rat_number)

lemma Distance_unsigned:
  assumes "f64_finite (pos_X p)" "f64_finite (pos_Y p)" "f64_finite (pos_Z p)"
  shows "unsigned_f64 (Distance p) \<and> Distance p \<noteq> NaN"
  unfolding Distance_def
  using square_unsigned[OF assms(1)] square_unsigned[OF assms(2)] square_unsigned[OF assms(3)] by (intro f64_Sqrt_unsigned) (auto dest: add_unsigned intro: add_unsigned[THEN conjunct1] add_unsigned[THEN conjunct2])

text \<open>The documented range of \<^verbatim>\<open>math.Atan2\<close> on finite arguments.\<close>

definition atan2_bounded :: "(float64 \<Rightarrow> float64 \<Rightarrow> float64) \<Rightarrow> bool" where
  "atan2_bounded f \<longleftrightarrow> (\<forall>x y. f64_finite x \<and> f64_finite y \<longrightarrow> f64_finite (f x y) \<and> \<bar>f64_val (f x y)\<bar> \<le> 4)"

lemma round_720: "\<bar>q\<bar> \<le> 720 \<Longrightarrow> \<bar>round_rat q\<bar> \<le> 720"
  using round_rat_le[of 720 q] le_round_rat[of "- 720" q] representable_int[of 720] representable_minus[of 720] by (simp add: abs_le_iff)

lemma AngleDeg_range:
  assumes "atan2_bounded f" "f64_finite (pos_X p)" "f64_finite (pos_Z p)"
  shows "f64_finite (AngleDeg f p)" "\<bar>f64_val (AngleDeg f p)\<bar> \<le> 720"
proof -
  let ?a = "f (pos_X p) (pos_Z p)"
  have a: "f64_finite ?a" "\<bar>f64_val ?a\<bar> \<le> 4" using assms by (auto simp: atan2_bounded_def)
  have m: "\<bar>f64_val ?a * f64_val (Fin 180)\<bar> \<le> of_int 720" using a(2) by (simp add: abs_mult)
  note f = f64_mul_finite[OF a(1) _ m]
  have fm: "f64_finite (f64_mul ?a (Fin 180))" "f64_val (f64_mul ?a (Fin 180)) = round_rat (f64_val ?a * 180)" using f by simp_all
  have v: "\<bar>f64_val (f64_mul ?a (Fin 180))\<bar> \<le> 720" unfolding fm(2) by (rule round_720) (use m in simp)
  have p: "f64_finite f64_Pi" "f64_val f64_Pi \<noteq> 0" by (simp_all add: f64_Pi_def f64_finite_def)
  have d: "\<bar>f64_val (f64_mul ?a (Fin 180)) / f64_val f64_Pi\<bar> \<le> 720"
    using v by (simp add: f64_Pi_def abs_mult)
  from f64_div_finite[OF fm(1) p, of 720] d round_720[OF d]
  show "f64_finite (AngleDeg f p)" "\<bar>f64_val (AngleDeg f p)\<bar> \<le> 720" by (simp_all add: AngleDeg_def)
qed

section \<open>The printed sheet\<close>

lemma copy_into_nth:
  assumes "0 \<le> off" "off + int (length src) \<le> int (length dst)"
  shows "\<exists>d. copy_into dst off src = Ok d \<and> length d = length dst
    \<and> (\<forall>i < length dst. d ! i = (if off \<le> int i \<and> int i < off + int (length src) then src ! nat (int i - off) else dst ! i))"
proof -
  define k where "k = nat off"
  have k: "off = int k" "k + length src \<le> length dst" using assms by (simp_all add: k_def)
  let ?d = "take k dst @ src @ drop (k + length src) dst"
  have "min (length src) (length dst - k) = length src" using k by simp
  then have "copy_into dst off src = Ok ?d" using k by (simp add: copy_into_def Let_def)
  moreover have "length ?d = length dst" using k by simp
  moreover have "?d ! i = (if off \<le> int i \<and> int i < off + int (length src) then src ! nat (int i - off) else dst ! i)" if "i < length dst" for i
  proof -
    have "nat (int i - off) = i - k" using k by simp
    then show ?thesis using k that by (auto simp: nth_append)
  qed
  ultimately show ?thesis by blast
qed

lemma row_index:
  fixes i s W y :: int
  assumes "0 \<le> i" "s = W + 2 * margin" "0 \<le> W"
  shows "(y + margin) * s + margin \<le> i \<and> i < (y + margin) * s + margin + W
     \<longleftrightarrow> i div s = y + margin \<and> margin \<le> i mod s \<and> i mod s < margin + W"
proof
  assume a: "(y + margin) * s + margin \<le> i \<and> i < (y + margin) * s + margin + W"
  define k where "k = i - (y + margin) * s"
  have k: "i = k + (y + margin) * s" "margin \<le> k" "k < margin + W" using a by (simp_all add: k_def)
  have "0 \<le> k" "k < s" using k assms by (auto simp: margin_def)
  then have "i div s = y + margin" "i mod s = k" unfolding k(1) by simp_all
  then show "i div s = y + margin \<and> margin \<le> i mod s \<and> i mod s < margin + W" using k by simp
next
  assume a: "i div s = y + margin \<and> margin \<le> i mod s \<and> i mod s < margin + W"
  then have "i = (y + margin) * s + i mod s" by (metis div_mult_mod_eq)
  then show "(y + margin) * s + margin \<le> i \<and> i < (y + margin) * s + margin + W" using a by (intro conjI) linarith+
qed

definition sheet_pixel :: "GrayFrame \<Rightarrow> int \<Rightarrow> 8 word" where
  "sheet_pixel frame i = (let s = fr_Width frame + 2 * margin in fr_Pix frame ! nat ((i div s - margin) * fr_Width frame + (i mod s - margin)))"

definition in_row :: "GrayFrame \<Rightarrow> int \<Rightarrow> int \<Rightarrow> bool" where
  "in_row frame y i \<longleftrightarrow> (let s = fr_Width frame + 2 * margin in i div s = y + margin \<and> margin \<le> i mod s \<and> i mod s < margin + fr_Width frame)"

definition wf_frame :: "GrayFrame \<Rightarrow> bool" where
  "wf_frame f \<longleftrightarrow> 0 \<le> fr_Width f \<and> 0 \<le> fr_Height f \<and> int (length (fr_Pix f)) = fr_Width f * fr_Height f"

lemma copy_row:
  assumes f: "wf_frame frame" and y: "0 \<le> y" "y < fr_Height frame"
    and n: "int (length pix) = (fr_Width frame + 2 * margin) * (fr_Height frame + 2 * margin)"
  shows "\<exists>row pix'. slice_from (fr_Pix frame) (y * fr_Width frame) ((y + 1) * fr_Width frame) = Ok row
     \<and> copy_into pix ((y + margin) * (fr_Width frame + 2 * margin) + margin) row = Ok pix' \<and> length pix' = length pix
     \<and> (\<forall>i < length pix. pix' ! i = (if in_row frame y (int i) then sheet_pixel frame (int i) else pix ! i))"
proof -
  define W H s where d: "W = fr_Width frame" "H = fr_Height frame" "s = fr_Width frame + 2 * margin"
  have w: "0 \<le> W" "0 < s" "s = W + 2 * margin" using f by (simp_all add: wf_frame_def d margin_def)
  have len: "int (length (fr_Pix frame)) = W * H" using f by (simp add: wf_frame_def d)
  have yW: "0 \<le> y * W" "(y + 1) * W \<le> H * W" using y w by (auto simp: d intro!: mult_right_mono)
  have e1: "(y + 1) * W = y * W + W" by (simp add: distrib_right)
  let ?row = "take (nat W) (drop (nat (y * W)) (fr_Pix frame))"
  have row: "slice_from (fr_Pix frame) (y * W) ((y + 1) * W) = Ok ?row"
    using yW len w e1 by (simp add: slice_from_def mult.commute[of H])
  have lr: "int (length ?row) = W" using yW len w e1 by (simp add: mult.commute[of H])
  have "(y + margin + 1) * s \<le> (H + 2 * margin) * s" using y w by (intro mult_right_mono) (auto simp: d margin_def)
  then have bnd: "(y + margin) * s + margin + W \<le> int (length pix)" using n w by (simp add: d[symmetric] distrib_right mult.commute margin_def)
  have off: "0 \<le> (y + margin) * s + margin" using y w by (simp add: margin_def)
  obtain pix' where p: "copy_into pix ((y + margin) * s + margin) ?row = Ok pix'" "length pix' = length pix"
      "\<forall>i < length pix. pix' ! i = (if (y + margin) * s + margin \<le> int i \<and> int i < (y + margin) * s + margin + W
        then ?row ! nat (int i - ((y + margin) * s + margin)) else pix ! i)"
    using copy_into_nth[OF off, of ?row pix] bnd lr by auto
  have "?row ! nat (int i - ((y + margin) * s + margin)) = sheet_pixel frame (int i)" if r: "in_row frame y (int i)" for i
  proof -
    have c: "int i div s = y + margin" "margin \<le> int i mod s" "int i mod s < margin + W" using r by (simp_all add: in_row_def Let_def d)
    have "int i = (y + margin) * s + int i mod s" using c(1) div_mult_mod_eq[of "int i" s] by simp
    then have o: "int i - ((y + margin) * s + margin) = int i mod s - margin" by linarith
    have b: "nat (int i mod s - margin) < nat W" "nat (y * W) + nat (int i mod s - margin) \<le> length (fr_Pix frame)"
      using c yW len w e1 by (simp_all add: mult.commute[of H])
    have e: "nat (y * W) + nat (int i mod s - margin) = nat (y * W + (int i mod s - margin))" using c yW by simp
    have "sheet_pixel frame (int i) = fr_Pix frame ! nat (y * W + (int i mod s - margin))"
      unfolding sheet_pixel_def Let_def d(3)[symmetric] unfolding d(1)[symmetric] c(1) by simp
    then show ?thesis unfolding o using b e by simp
  qed
  moreover have "in_row frame y (int i) \<longleftrightarrow> (y + margin) * s + margin \<le> int i \<and> int i < (y + margin) * s + margin + W" for i
    using row_index[OF _ w(3,1), of "int i" y] by (simp add: in_row_def Let_def d)
  ultimately show ?thesis using row p unfolding d by auto
qed


lemma copy_rows_nth:
  assumes "wf_frame frame" "set ys \<subseteq> {0..<fr_Height frame}"
    and "int (length pix) = (fr_Width frame + 2 * margin) * (fr_Height frame + 2 * margin)"
  shows "\<exists>pix'. copy_rows frame (fr_Width frame + 2 * margin) ys pix = Ok pix' \<and> length pix' = length pix
     \<and> (\<forall>i < length pix. pix' ! i = (if \<exists>y \<in> set ys. in_row frame y (int i) then sheet_pixel frame (int i) else pix ! i))"
  using assms(2,3)
proof (induction ys arbitrary: pix)
  case (Cons y ys)
  obtain row pix1 where r: "slice_from (fr_Pix frame) (y * fr_Width frame) ((y + 1) * fr_Width frame) = Ok row"
      "copy_into pix ((y + margin) * (fr_Width frame + 2 * margin) + margin) row = Ok pix1" "length pix1 = length pix"
      "\<forall>i < length pix. pix1 ! i = (if in_row frame y (int i) then sheet_pixel frame (int i) else pix ! i)"
    using copy_row[OF assms(1), of y pix] Cons.prems by auto
  obtain pix' where "copy_rows frame (fr_Width frame + 2 * margin) ys pix1 = Ok pix'" "length pix' = length pix1"
      "\<forall>i < length pix1. pix' ! i = (if \<exists>y \<in> set ys. in_row frame y (int i) then sheet_pixel frame (int i) else pix1 ! i)"
    using Cons.IH[of pix1] Cons.prems r(3) by auto
  then show ?case using r by auto
qed simp

section \<open>The results of a frame\<close>

definition accepts :: "vision \<Rightarrow> Detector \<Rightarrow> GrayFrame \<Rightarrow> float64 Camera \<Rightarrow> bool" where
  "accepts v d frame cam \<longleftrightarrow> 0 < fr_Width frame \<and> 0 < fr_Height frame
     \<and> int (length (fr_Pix frame)) = wrap64 (fr_Width frame * fr_Height frame)
     \<and> f64_lt (Fin 0) (Fx cam) \<and> f64_lt (Fin 0) (Fy cam) \<and> \<not> det_closed d \<and> mat_error v frame = None"

text \<open>The documented behaviour of \<^verbatim>\<open>sort.Slice\<close>, and of \<^verbatim>\<open>DetectMarkers\<close>, which returns corners for each identifier.\<close>

definition sorts_by_id :: "(Result list \<Rightarrow> Result list) \<Rightarrow> bool" where
  "sorts_by_id f \<longleftrightarrow> (\<forall>rs. mset (f rs) = mset rs \<and> sorted (map det_ID (f rs)))"

definition recognised :: "vision \<Rightarrow> Detector \<Rightarrow> GrayFrame \<Rightarrow> float64 Camera \<Rightarrow> Result list" where
  "recognised v d frame cam = List.map_filter (recognise (atan2_fn v) (markerSizeM d) cam) (zip (snd (aruco v frame)) (fst (aruco v frame)))"

lemma Detect_accepts:
  assumes "length (snd (aruco v frame)) \<le> length (fst (aruco v frame))"
  shows "accepts v d frame cam \<Longrightarrow> Detect v d frame cam = Ok (sort_results v (recognised v d frame cam))"
    and "\<not> accepts v d frame cam \<Longrightarrow> \<exists>e. Detect v d frame cam = Err e"
  using assms detect_loop_filter[of 0 "snd (aruco v frame)" "fst (aruco v frame)"]
  by (auto simp: Detect_def accepts_def recognised_def split_def Let_def not_less split: option.split)

lemma recognised_result:
  assumes "r \<in> set (recognised v d frame cam)"
  shows "IsValid (det_ID r) \<and> unsigned_f64 (DistanceM r) \<and> DistanceM r \<noteq> NaN"
    and "atan2_bounded (atan2_fn v) \<Longrightarrow> f64_finite (RelativeAngleDeg r) \<and> \<bar>f64_val (RelativeAngleDeg r)\<bar> \<le> 720"
proof -
  obtain mp where mp: "recognise (atan2_fn v) (markerSizeM d) cam mp = Some r"
    using assms by (auto simp: recognised_def List.map_filter_def)
  obtain pos where pos: "EstimatePosition f64_ops (snd mp) (markerSizeM d) cam = Ok pos" "r = result_of (atan2_fn v) (fst mp) (snd mp) pos" "IsValid (fst mp)"
    using recognised_position[OF mp] .
  have f: "f64_finite (pos_X pos)" "f64_finite (pos_Y pos)" "f64_finite (pos_Z pos)" using position_usable[OF pos(1)] by simp_all
  show "IsValid (det_ID r) \<and> unsigned_f64 (DistanceM r) \<and> DistanceM r \<noteq> NaN" using pos(2,3) Distance_unsigned[OF f] by (simp add: result_of_def)
  show "f64_finite (RelativeAngleDeg r) \<and> \<bar>f64_val (RelativeAngleDeg r)\<bar> \<le> 720" if "atan2_bounded (atan2_fn v)"
    using pos(2) AngleDeg_range[OF that f(1,3)] by (simp add: result_of_def)
qed

lemma truncate_simps [simp]:
  "det_ID (Detection.truncate r) = det_ID r" "RelativeAngleDeg (Detection.truncate r) = RelativeAngleDeg r" "DistanceM (Detection.truncate r) = DistanceM r"
  by (simp_all add: Detection.defs)

section \<open>Properties\<close>

text \<open>The printed sheet is the marker in the middle of a white border of 100 pixels: drawing it never leaves the bounds of a
  slice, and each pixel of the sheet is the pixel of the marker at its place, or white.\<close>

theorem sheet_drawn:
  assumes "wf_frame frame"
  shows "\<exists>sheet. marker_sheet frame = Ok sheet \<and> fr_Width sheet = fr_Width frame + 200 \<and> fr_Height sheet = fr_Height frame + 200 \<and> wf_frame sheet
     \<and> (\<forall>x y. 0 \<le> x \<and> x < fr_Width sheet \<and> 0 \<le> y \<and> y < fr_Height sheet \<longrightarrow>
          fr_Pix sheet ! nat (y * fr_Width sheet + x) =
            (if 100 \<le> x \<and> x < 100 + fr_Width frame \<and> 100 \<le> y \<and> y < 100 + fr_Height frame
             then fr_Pix frame ! nat ((y - 100) * fr_Width frame + (x - 100)) else 255))"
proof -
  define s t where d: "s = fr_Width frame + 2 * margin" "t = fr_Height frame + 2 * margin"
  have w: "0 < s" "0 < t" using assms by (simp_all add: d wf_frame_def margin_def)
  let ?pix = "replicate (nat (s * t)) (255 :: 8 word)"
  have l: "int (length ?pix) = s * t" using w by simp
  obtain pix where p: "copy_rows frame s [0..fr_Height frame - 1] ?pix = Ok pix" "length pix = length ?pix"
      "\<forall>i < length ?pix. pix ! i = (if \<exists>y \<in> set [0..fr_Height frame - 1]. in_row frame y (int i) then sheet_pixel frame (int i) else ?pix ! i)"
    using copy_rows_nth[OF assms, of "[0..fr_Height frame - 1]" ?pix] l unfolding d by (auto simp: subset_iff)
  have px: "pix ! nat (y * s + x) = (if 100 \<le> x \<and> x < 100 + fr_Width frame \<and> 100 \<le> y \<and> y < 100 + fr_Height frame
      then fr_Pix frame ! nat ((y - 100) * fr_Width frame + (x - 100)) else 255)" if xy: "0 \<le> x" "x < s" "0 \<le> y" "y < t" for x y
  proof -
    have i: "int (nat (y * s + x)) = y * s + x" using xy w by simp
    have dm: "(y * s + x) div s = y" "(y * s + x) mod s = x" using xy by simp_all
    have "(y + 1) * s \<le> t * s" using xy w by (intro mult_right_mono) auto
    moreover have "(y + 1) * s = y * s + s" by (simp add: distrib_right)
    ultimately have "y * s + x < s * t" using xy by (simp add: mult.commute[of s t])
    then have lt: "nat (y * s + x) < length ?pix" using xy w by (simp add: nat_less_eq_zless)
    have "(\<exists>r \<in> set [0..fr_Height frame - 1]. in_row frame r (y * s + x)) \<longleftrightarrow> 100 \<le> x \<and> x < 100 + fr_Width frame \<and> 100 \<le> y \<and> y < 100 + fr_Height frame"
      unfolding in_row_def Let_def d(1)[symmetric] dm by (auto simp: margin_def intro!: bexI[of _ "y - 100"])
    moreover have "sheet_pixel frame (y * s + x) = fr_Pix frame ! nat ((y - 100) * fr_Width frame + (x - 100))"
      unfolding sheet_pixel_def Let_def d(1)[symmetric] dm by (simp add: margin_def)
    ultimately show ?thesis using p(3)[rule_format, OF lt] lt unfolding i by simp
  qed
  have "marker_sheet frame = Ok \<lparr>fr_Width = s, fr_Height = t, fr_Pix = pix\<rparr>" using p(1) by (simp add: marker_sheet_def Let_def d)
  moreover have "s = fr_Width frame + 200" "t = fr_Height frame + 200" by (simp_all add: d margin_def)
  moreover have "wf_frame \<lparr>fr_Width = s, fr_Height = t, fr_Pix = pix\<rparr>" using w p(2) l by (simp add: wf_frame_def)
  ultimately show ?thesis using px by (intro exI[of _ "\<lparr>fr_Width = s, fr_Height = t, fr_Pix = pix\<rparr>"]) simp
qed


definition small_frame :: GrayFrame where
  "small_frame = \<lparr>fr_Width = 1, fr_Height = 1, fr_Pix = [0]\<rparr>"

lemma sheet_drawn_witness: "\<exists>sheet. marker_sheet small_frame = Ok sheet \<and> fr_Pix sheet ! nat (100 * 201 + 100) = 0 \<and> fr_Pix sheet ! 0 = 255"
proof -
  have f: "wf_frame small_frame" "fr_Width small_frame = 1" "fr_Height small_frame = 1" "fr_Pix small_frame = [0]" by (simp_all add: wf_frame_def small_frame_def)
  obtain sheet where s: "marker_sheet small_frame = Ok sheet" "fr_Width sheet = 201" "fr_Height sheet = 201"
      and px: "\<And>x y. 0 \<le> x \<and> x < 201 \<and> 0 \<le> y \<and> y < 201 \<Longrightarrow> fr_Pix sheet ! nat (y * 201 + x) =
        (if 100 \<le> x \<and> x < 101 \<and> 100 \<le> y \<and> y < 101 then [0] ! nat ((y - 100) * 1 + (x - 100)) else 255)"
    using sheet_drawn[OF f(1)] unfolding f(2-4) by auto
  show ?thesis using s(1) px[of 100 100] px[of 0 0] by auto
qed

text \<open>The detector accepts exactly the well-formed frames with a positive focal length while it is open, and returns for each
  marker of the game that OpenCV found with four corners and a position one result, in the order of the markers; identifiers are
  valid and distances are numbers that are not negative. It never panics.\<close>

theorem Detect_sound:
  assumes "sorts_by_id (sort_results v)" "length (snd (aruco v frame)) \<le> length (fst (aruco v frame))"
  shows "if accepts v d frame cam
     then \<exists>results. Detect v d frame cam = Ok results \<and> sorted (map det_ID results) \<and> mset results = mset (recognised v d frame cam)
       \<and> list_all (\<lambda>r. IsValid (det_ID r) \<and> unsigned_f64 (DistanceM r) \<and> DistanceM r \<noteq> NaN) results
     else \<exists>e. Detect v d frame cam = Err e"
proof -
  have "mset (sort_results v (recognised v d frame cam)) = mset (recognised v d frame cam)"
    "sorted (map det_ID (sort_results v (recognised v d frame cam)))" using assms(1) by (simp_all add: sorts_by_id_def)
  moreover from this(1) have "set (sort_results v (recognised v d frame cam)) = set (recognised v d frame cam)" by (rule mset_eq_setD)
  ultimately show ?thesis using Detect_accepts[OF assms(2), of d cam] recognised_result(1)[of _ v d frame cam] by (simp add: list_all_iff)
qed

definition blind :: vision where
  "blind = \<lparr>mat_error = (\<lambda>_. None), aruco = (\<lambda>_. ([[]], [200])), atan2_fn = (\<lambda>_ _. Fin 0), sort_results = sort_key det_ID\<rparr>"

lemma blind_laws: "sorts_by_id (sort_results blind)" "length (snd (aruco blind frame)) \<le> length (fst (aruco blind frame))" "atan2_bounded (atan2_fn blind)"
  by (simp_all add: blind_def sorts_by_id_def atan2_bounded_def f64_finite_def)

definition plain_camera :: "float64 Camera" where
  "plain_camera = \<lparr>Fx = Fin 1, Fy = Fin 1, Cx = Fin 0, Cy = Fin 0\<rparr>"

lemma blind_accepts: "accepts blind \<lparr>markerSizeM = Fin 1, det_closed = False\<rparr> small_frame plain_camera"
  by (simp add: accepts_def blind_def small_frame_def plain_camera_def wrap64_def)

lemma Detect_sound_witness: "Detect blind \<lparr>markerSizeM = Fin 1, det_closed = False\<rparr> small_frame plain_camera = Ok []"
proof -
  have "recognised blind \<lparr>markerSizeM = Fin 1, det_closed = False\<rparr> small_frame plain_camera = []"
    by (simp add: recognised_def blind_def recognise_def IsValid_def Count_def TeamCount_def PlayersPerTeam_def map_filter_simps)
  then show ?thesis
    using Detect_sound[OF blind_laws(1,2), where frame = small_frame and d = "\<lparr>markerSizeM = Fin 1, det_closed = False\<rparr>" and cam = plain_camera] blind_accepts by auto
qed


definition far_tan :: "float64 \<Rightarrow> float64" where
  "far_tan x = Fin 1"

lemma blind_recognised: "recognised blind d small_frame c = []"
  by (simp add: recognised_def blind_def recognise_def IsValid_def Count_def TeamCount_def PlayersPerTeam_def map_filter_simps)

lemma far_accepts:
  "accepts blind \<lparr>markerSizeM = Fin 1, det_closed = False\<rparr> small_frame
     (CameraFromHorizontalFOV far_tan (fr_Width small_frame) (fr_Height small_frame) (Fin 60))"
proof -
  have h: "f64_finite (f64_of_int 1)" "f64_val (f64_of_int 1) = 1" using f64_of_int_exact[of 1] by simp_all
  have "representable (1 / 2)" using representable_pow2[of "- 1"] by (simp add: power_int_minus inverse_eq_divide)
  then have r: "round_rat (1 / 2) = 1 / 2" by (rule round_rat_exact)
  then have v: "f64_div (f64_of_int 1) (Fin 2) = Fin (1 / 2)"
    using h by (auto simp: f64_div_def f64_neg_def f64_of_rat_def Let_def elim!: f64_finite_cases)
  have "f64_div (Fin (1 / 2)) (Fin 1) = Fin (1 / 2)" using r by (simp add: f64_div_def f64_neg_def f64_of_rat_def Let_def)
  then show ?thesis
    using v by (simp add: accepts_def blind_def small_frame_def wrap64_def CameraFromHorizontalFOV_def far_tan_def Let_def)
qed


end
