(* ===== verification/Marker_Command.thy ===== *)
theory Marker_Command
  imports Marker_Detector Map_Frame Go_Fixed Go_Bufio
begin

text \<open>
  The command \<^verbatim>\<open>marker-detect\<close> on an image file or a camera, and with \<^verbatim>\<open>-gen-marker\<close>: the rest of
  \<^verbatim>\<open>prototypes/marker-detect/cmd/marker-detect/main.go\<close>. OpenCV answers are arguments; what a mode opens and closes is a trace of
  calls, with the deferred calls in their order, and a panic runs them too before the process ends with code 2.
\<close>

section \<open>The printed table\<close>

definition printed_angle :: "float64 \<Rightarrow> float64" where
  "printed_angle a = (let angle = f64_div (f64_Round (f64_mul a (Fin 10))) (Fin 10) in if f64_eq angle (Fin 0) then Fin 0 else angle)"

definition result_line :: "Result \<Rightarrow> string" where
  "result_line r = ''id='' @ Itoa (det_ID r) @ '' team='' @ Itoa (Team (det_ID r)) @ '' player='' @ Itoa (Player (det_ID r))
     @ '' angle='' @ FormatFixed True 1 (printed_angle (RelativeAngleDeg r))
     @ '' deg distance='' @ FormatFixed False 2 (DistanceM r) @ '' m'' @ [newline]"

definition printResults :: "Result list \<Rightarrow> string" where
  "printResults rs = concat (map result_line rs)"

text \<open>The outline of each marker and its number, as calls of OpenCV.\<close>

datatype draw_call = DrawLine "int \<times> int" "int \<times> int" | PutText string "int \<times> int"

definition corner_point :: "float64 Point \<Rightarrow> int \<times> int" where
  "corner_point c = (f64_int (f64_Round (fst c)), f64_int (f64_Round (snd c)))"

definition draw_result :: "Result \<Rightarrow> draw_call list" where
  "draw_result r = (let pts = map corner_point (Corners r)
     in map (\<lambda>i. DrawLine (pts ! i) (pts ! ((i + 1) mod 4))) [0..<4] @ [PutText (Itoa (det_ID r)) (pts ! 0)])"

definition drawResults :: "Result list \<Rightarrow> draw_call list" where
  "drawResults rs = concat (map draw_result rs)"

section \<open>The modes\<close>

datatype handle = ImageMat | CameraHandle | DetectorHandle | WindowHandle | FrameMat | GrayMat | OutFile

datatype call = Opens handle | Closes handle

text \<open>What a mode did: the exit code, or \<^const>\<open>None\<close> while it runs, the calls, and what was printed.\<close>

type_synonym mode_run = "int option \<times> call list \<times> string"

definition panic_code :: int where
  "panic_code = 2"

text \<open>\<^verbatim>\<open>IMRead\<close> gives an empty matrix, here \<^const>\<open>None\<close>, for a file that it cannot read.\<close>

definition runOnImage :: "(float64 \<Rightarrow> float64) \<Rightarrow> vision \<Rightarrow> (string \<Rightarrow> GrayFrame option) \<Rightarrow> options \<Rightarrow> mode_run" where
  "runOnImage tan' v imread opt = (case imread (opt_imagePath opt) of
      None \<Rightarrow> (Some 1, [Opens ImageMat, Closes ImageMat], [])
    | Some img \<Rightarrow> (case det_New (opt_markerSizeM opt) of
        Err _ \<Rightarrow> (Some 1, [Opens ImageMat, Closes ImageMat], [])
      | Panic \<Rightarrow> (Some panic_code, [Opens ImageMat, Closes ImageMat], [])
      | Ok d \<Rightarrow> (let calls = [Opens ImageMat, Opens DetectorHandle, Closes DetectorHandle, Closes ImageMat]
          in case detectGray tan' v d img (opt_hfovDeg opt) of
               Err _ \<Rightarrow> (Some 1, calls, [])
             | Panic \<Rightarrow> (Some panic_code, calls, [])
             | Ok results \<Rightarrow> (Some 0, calls, printResults results))))"

text \<open>
  One turn of the camera loop: whether a signal has arrived, the gray frame if one could be read, and the key that the preview
  window reports. The turns are a list; a loop that has used them all is still running.
\<close>

record turn =
  stop_signal :: bool
  gray_frame :: "GrayFrame option"
  pressed_key :: int

fun camera_loop :: "(float64 \<Rightarrow> float64) \<Rightarrow> vision \<Rightarrow> Detector \<Rightarrow> float64 \<Rightarrow> bool \<Rightarrow> turn list \<Rightarrow> int option \<times> string \<times> draw_call list list" where
  "camera_loop tan' v d hfov window [] = (None, [], [])"
| "camera_loop tan' v d hfov window (t # ts) =
     (if stop_signal t then (Some 0, [], [])
      else case gray_frame t of
             None \<Rightarrow> (Some 1, [], [])
           | Some gray \<Rightarrow> (case detectGray tan' v d gray hfov of
               Err _ \<Rightarrow> (Some 1, [], [])
             | Panic \<Rightarrow> (Some panic_code, [], [])
             | Ok results \<Rightarrow>
                 (let shown = (if window then [drawResults results] else [])
                  in if window \<and> (pressed_key t = 27 \<or> pressed_key t = 113) then (Some 0, printResults results, shown)
                     else case camera_loop tan' v d hfov window ts of
                            (code, out, frames) \<Rightarrow> (code, printResults results @ out, shown @ frames))))"

datatype capture = CaptureError | CaptureNotOpened | CaptureReady

definition camera_handles :: "bool \<Rightarrow> handle list" where
  "camera_handles window = [CameraHandle, DetectorHandle] @ (if window then [WindowHandle] else []) @ [FrameMat, GrayMat]"

text \<open>A capture object that is not opened is not closed here, unlike in \<^verbatim>\<open>openCamera\<close>.\<close>

definition runOnCamera :: "(float64 \<Rightarrow> float64) \<Rightarrow> vision \<Rightarrow> capture \<Rightarrow> options \<Rightarrow> turn list \<Rightarrow> mode_run" where
  "runOnCamera tan' v cam opt turns = (case cam of
      CaptureError \<Rightarrow> (Some 1, [], [])
    | CaptureNotOpened \<Rightarrow> (Some 1, [Opens CameraHandle], [])
    | CaptureReady \<Rightarrow> (case det_New (opt_markerSizeM opt) of
        Err _ \<Rightarrow> (Some 1, [Opens CameraHandle, Closes CameraHandle], [])
      | Panic \<Rightarrow> (Some panic_code, [Opens CameraHandle, Closes CameraHandle], [])
      | Ok d \<Rightarrow> (let hs = camera_handles (opt_show opt)
          in case camera_loop tan' v d (opt_hfovDeg opt) (opt_show opt) turns of
               (None, out, _) \<Rightarrow> (None, map Opens hs, out)
             | (Some code, out, _) \<Rightarrow> (Some code, map Opens hs @ map Closes (rev hs), out))))"

text \<open>\<^verbatim>\<open>generateMarker\<close> with the file: creating it, encoding the sheet and closing the file can fail.\<close>

definition wrote_line :: "string \<Rightarrow> int \<Rightarrow> string" where
  "wrote_line path i = ''wrote '' @ path @ '' (id '' @ Itoa i @ '', team '' @ Itoa (Team i) @ '', player '' @ Itoa (Player i)
     @ ''). The black square must be exactly the size passed as -marker-size.'' @ [newline]"

definition write_marker :: "(int \<Rightarrow> int \<Rightarrow> int \<times> int \<times> 8 word list) \<Rightarrow> bool \<Rightarrow> (GrayFrame \<Rightarrow> bool) \<Rightarrow> bool \<Rightarrow> int \<Rightarrow> string \<Rightarrow> mode_run" where
  "write_marker generate create encode close i path = (case generateMarker generate i of
      Err code \<Rightarrow> (Some code, [], [])
    | Panic \<Rightarrow> (Some panic_code, [], [])
    | Ok sheet \<Rightarrow>
        if \<not> create then (Some 1, [], [])
        else if \<not> encode sheet then (Some 1, [Opens OutFile, Closes OutFile], [])
        else if \<not> close then (Some 1, [Opens OutFile, Closes OutFile], [])
        else (Some 0, [Opens OutFile, Closes OutFile], wrote_line path i))"

text \<open>What \<^verbatim>\<open>run\<close> depends on: OpenCV, files, the camera and the mode with a socket.\<close>

record world_calls =
  w_tan :: "float64 \<Rightarrow> float64"
  w_vision :: vision
  w_imread :: "string \<Rightarrow> GrayFrame option"
  w_generate :: "int \<Rightarrow> int \<Rightarrow> int \<times> int \<times> 8 word list"
  w_create :: bool
  w_encode :: "GrayFrame \<Rightarrow> bool"
  w_close :: bool
  w_capture :: capture
  w_turns :: "turn list"
  w_serve :: mode_run

definition marker_run :: "world_calls \<Rightarrow> options \<Rightarrow> mode_run" where
  "marker_run w opt = (case run_options opt of
      Inl code \<Rightarrow> (Some code, [], [])
    | Inr RunServe \<Rightarrow> w_serve w
    | Inr GenerateMarker \<Rightarrow> write_marker (w_generate w) (w_create w) (w_encode w) (w_close w) (opt_genID opt) (opt_genPath opt)
    | Inr RunOnImage \<Rightarrow> runOnImage (w_tan w) (w_vision w) (w_imread w) opt
    | Inr RunOnCamera \<Rightarrow> runOnCamera (w_tan w) (w_vision w) (w_capture w) opt (w_turns w))"

section \<open>Handles\<close>

text \<open>Handles are closed in the opposite order of opening: the calls as a stack.\<close>

fun open_after :: "call list \<Rightarrow> handle list \<Rightarrow> handle list option" where
  "open_after [] st = Some st"
| "open_after (Opens h # cs) st = (if h \<in> set st then None else open_after cs (h # st))"
| "open_after (Closes h # cs) st = (case st of [] \<Rightarrow> None | h' # st' \<Rightarrow> if h = h' then open_after cs st' else None)"

lemma camera_handles_stack: "open_after (map Opens (camera_handles b) @ map Closes (rev (camera_handles b))) [] = Some []"
  "open_after (map Opens (camera_handles b)) [] = Some (rev (camera_handles b))"
  by (simp_all add: camera_handles_def)

lemma det_New_no_panic: "det_New s \<noteq> Panic"
  by (simp add: det_New_def)

lemma runOnCamera_stack:
  "runOnCamera tan' v cam opt turns = (code, calls, out) \<Longrightarrow>
   open_after calls [] = Some (if cam = CaptureNotOpened then [CameraHandle] else if code = None then rev (camera_handles (opt_show opt)) else [])"
  using det_New_no_panic camera_handles_stack
  by (auto simp: runOnCamera_def Let_def split: capture.splits outcome.splits prod.splits option.splits)

lemma other_modes_stack:
  "runOnImage tan' v imread opt = (code, calls, out) \<Longrightarrow> open_after calls [] = Some [] \<and> code \<noteq> None"
  "write_marker generate create encode close i path = (code, calls, out) \<Longrightarrow> open_after calls [] = Some [] \<and> code \<noteq> None"
  by (auto simp: runOnImage_def write_marker_def Let_def split: option.splits outcome.splits if_splits)

section \<open>Tenths of a degree\<close>

lemma round_close:
  assumes "\<bar>q\<bar> \<le> 2 ^ 40"
  shows "\<bar>round_rat q - q\<bar> \<le> 1 / 4096"
proof -
  define m where "m = \<lfloor>q * 4096\<rfloor>"
  have f: "of_int m \<le> q * 4096" "q * 4096 < of_int m + 1" using floor_correct[of "q * 4096"] by (simp_all add: m_def)
  have "of_int m < (2 ^ 53 :: rat)" "- (2 ^ 53) + 1 < (of_int m :: rat)" using f assms by (auto simp: abs_le_iff)
  then have "of_int m < (of_int (2 ^ 53) :: rat)" "of_int (- (2 ^ 53) + 1) < (of_int m :: rat)" by simp_all
  then have b: "\<bar>m\<bar> < 2 ^ 53" "\<bar>m + 1\<bar> < 2 ^ 53" unfolding of_int_less_iff using f assms by (auto simp: abs_le_iff abs_less_iff)
  have "of_int m / 4096 \<le> round_rat q" by (rule le_round_rat[OF grid_representable[OF b(1)]]) (use f in simp)
  moreover have "round_rat q \<le> of_int (m + 1) / 4096" by (rule round_rat_le[OF grid_representable[OF b(2)]]) (use f in simp)
  moreover have "of_int (m + 1) / 4096 = (of_int m / 4096 + 1 / 4096 :: rat)" by (simp add: add_divide_distrib)
  ultimately show ?thesis using f by linarith
qed

lemma round_away_close: "\<bar>of_int (round_away q) - q\<bar> \<le> 1 / 2"
proof (cases "q < 0")
  case True
  have "of_int \<lfloor>1 / 2 - q\<rfloor> \<le> 1 / 2 - q" "1 / 2 - q < of_int \<lfloor>1 / 2 - q\<rfloor> + 1" using floor_correct[of "1 / 2 - q"] by simp_all
  then show ?thesis using True unfolding round_away_def by (simp only: if_True of_int_minus)
next
  case False
  have "of_int \<lfloor>q + 1 / 2\<rfloor> \<le> q + 1 / 2" "q + 1 / 2 < of_int \<lfloor>q + 1 / 2\<rfloor> + 1" using floor_correct[of "q + 1 / 2"] by simp_all
  then show ?thesis using False unfolding round_away_def by (simp only: if_False)
qed

lemma round_even_near: "\<bar>q - of_int n\<bar> < 1 / 2 \<Longrightarrow> round_even q = n"
proof -
  assume a: "\<bar>q - of_int n\<bar> < 1 / 2"
  have "\<bar>of_int (round_even q) - q\<bar> \<le> 1 / 2" by (rule round_even_close)
  then have "\<bar>of_int (round_even q) - (of_int n :: rat)\<bar> < 1" using a by linarith
  then have "\<bar>of_int (round_even q - n)\<bar> < (1 :: rat)" by simp
  then have "\<bar>round_even q - n\<bar> < 1" by (metis of_int_abs of_int_less_1_iff)
  then show ?thesis by linarith
qed


text \<open>The angle in tenths of a degree that is printed.\<close>

definition tenths :: "float64 \<Rightarrow> int" where
  "tenths a = round_away (round_rat (f64_val a * 10))"

lemma tenths_close:
  assumes "\<bar>f64_val a\<bar> \<le> 2 ^ 32"
  shows "\<bar>of_int (tenths a) - 10 * f64_val a\<bar> \<le> 1 / 2 + 1 / 4096"
proof -
  have "\<bar>f64_val a * 10\<bar> \<le> 2 ^ 40" using assms by (simp add: abs_mult)
  then have "\<bar>round_rat (f64_val a * 10) - f64_val a * 10\<bar> \<le> 1 / 4096" by (rule round_close)
  then show ?thesis using round_away_close[of "round_rat (f64_val a * 10)"] unfolding tenths_def by linarith
qed

lemma tenths_bound:
  assumes "\<bar>f64_val a\<bar> \<le> 2 ^ 32"
  shows "\<bar>of_int (tenths a) / 10\<bar> \<le> (2 ^ 40 :: rat)"
proof -
  have "\<bar>of_int (tenths a)\<bar> \<le> 10 * (2 ^ 32) + (1 :: rat)" using tenths_close[OF assms] assms by linarith
  then show ?thesis by simp
qed

lemma f64_Round_value: "f64_finite x \<Longrightarrow> f64_finite (f64_Round x) \<and> f64_val (f64_Round x) = of_int (round_away (f64_val x))"
  by (cases x) (auto simp: f64_finite_def round_away_0)

lemma rounded_tenths:
  assumes "f64_finite a" "\<bar>f64_val a\<bar> \<le> 2 ^ 32"
  shows "f64_finite (f64_Round (f64_mul a (Fin 10)))" "f64_val (f64_Round (f64_mul a (Fin 10))) = of_int (tenths a)"
proof -
  have "\<bar>f64_val a * f64_val (Fin 10)\<bar> \<le> of_int (2 ^ 40)" using assms(2) by (simp add: abs_mult)
  from f64_mul_finite[OF assms(1) _ this] have m: "f64_finite (f64_mul a (Fin 10))" "f64_val (f64_mul a (Fin 10)) = round_rat (f64_val a * 10)"
    by simp_all
  from f64_Round_value[OF m(1)]
  show "f64_finite (f64_Round (f64_mul a (Fin 10)))" "f64_val (f64_Round (f64_mul a (Fin 10))) = of_int (tenths a)"
    unfolding m(2) tenths_def by blast+
qed

lemma printed_angle_value:
  assumes "f64_finite a" "\<bar>f64_val a\<bar> \<le> 2 ^ 32"
  shows "f64_finite (printed_angle a)" "f64_val (printed_angle a) = round_rat (of_int (tenths a) / 10)" "f64_neg (printed_angle a) \<longleftrightarrow> tenths a < 0"
proof -
  let ?n = "tenths a" and ?q = "f64_div (f64_Round (f64_mul a (Fin 10))) (Fin 10)"
  note t = rounded_tenths[OF assms]
  have b: "\<bar>of_int ?n / 10\<bar> \<le> (2 ^ 40 :: rat)" by (rule tenths_bound[OF assms(2)])
  have d: "f64_finite ?q" "f64_val ?q = round_rat (of_int ?n / 10)"
    using f64_div_finite[OF t(1), of "Fin 10" "2 ^ 40"] t(2) b by simp_all
  have pos: "0 < round_rat (of_int k / 10)" if "0 < k" for k
  proof -
    have "representable (of_int 1 / 4096)" by (rule grid_representable) simp
    moreover have "of_int 1 / 4096 \<le> (of_int k / 10 :: rat)" using that by simp
    ultimately have "of_int 1 / 4096 \<le> round_rat (of_int k / 10)" by (rule le_round_rat)
    then show ?thesis by simp
  qed
  have sg: "sgn (round_rat (of_int ?n / 10)) = of_int (sgn ?n)"
    using pos[of ?n] pos[of "- ?n"] round_rat_minus[of "of_int ?n / 10"] by (cases ?n "0 :: int" rule: linorder_cases) auto
  have z: "f64_eq ?q (Fin 0) \<longleftrightarrow> ?n = 0" using d sg by (auto simp: f64_cmp sgn_if split: if_splits)
  show "f64_finite (printed_angle a)" "f64_val (printed_angle a) = round_rat (of_int ?n / 10)"
    using d z by (auto simp: printed_angle_def Let_def)
  show "f64_neg (printed_angle a) \<longleftrightarrow> ?n < 0"
    using d z sg by (cases ?q) (auto simp: printed_angle_def Let_def f64_neg_def sgn_if split: if_splits)
qed

lemma printed_tenths:
  assumes "f64_finite a" "\<bar>f64_val a\<bar> \<le> 2 ^ 32"
  shows "FormatFixed True 1 (printed_angle a) =
     (if tenths a < 0 then ''-'' else ''+'') @ nat_digits (nat \<bar>tenths a\<bar> div 10) @ [CHR ''.'', digit_char (nat \<bar>tenths a\<bar> mod 10)]"
proof -
  let ?n = "tenths a"
  note v = printed_angle_value[OF assms]
  have b: "\<bar>of_int ?n / 10\<bar> \<le> (2 ^ 40 :: rat)" by (rule tenths_bound[OF assms(2)])
  have "\<bar>round_rat (of_int ?n / 10) - of_int ?n / 10\<bar> \<le> 1 / 4096" by (rule round_close[OF b])
  then have "\<bar>\<bar>round_rat (of_int ?n / 10)\<bar> * 10 - \<bar>of_int ?n\<bar>\<bar> < 1 / 2" by linarith
  then have "round_even (\<bar>f64_val (printed_angle a)\<bar> * 10) = \<bar>?n\<bar>" unfolding v(2) by (intro round_even_near) simp
  then have f: "fixed_digits 1 (f64_val (printed_angle a)) = nat \<bar>?n\<bar>" by (simp add: fixed_digits_def)
  show ?thesis using v(1) by (cases "printed_angle a") (use v(3) f in \<open>auto simp: FormatFixed_def Let_def f64_finite_def\<close>)
qed

section \<open>Properties\<close>


definition silent_world :: world_calls where
  "silent_world = \<lparr>w_tan = (\<lambda>_. Fin 1), w_vision = blind, w_imread = (\<lambda>_. None), w_generate = (\<lambda>_ _. (0, 0, [])), w_create = True,
     w_encode = (\<lambda>_. True), w_close = True, w_capture = CaptureReady,
     w_turns = [\<lparr>stop_signal = True, gray_frame = None, pressed_key = 0\<rparr>], w_serve = (None, [], [])\<rparr>"

definition camera_options :: options where
  "camera_options = \<lparr>opt_camera = 0, opt_hfovDeg = Fin 60, opt_markerSizeM = Fin 1, opt_show = True, opt_imagePath = [], opt_genID = - 1,
     opt_genPath = [], opt_socket = [], opt_fake = []\<rparr>"




definition image_world :: world_calls where
  "image_world = silent_world\<lparr>w_tan := far_tan, w_imread := (\<lambda>_. Some small_frame)\<rparr>"

definition image_options :: options where
  "image_options = camera_options\<lparr>opt_show := False, opt_imagePath := ''frame.png''\<rparr>"


end
