(* ===== verification/Marker_Serve.thy ===== *)
theory Marker_Serve
  imports Marker_Command Socket_Server
begin

text \<open>
  The process around the socket server of the marker detector: \<^verbatim>\<open>runServe\<close> and \<^verbatim>\<open>openCamera\<close> of \<^verbatim>\<open>cmd/marker-detect/serve.go\<close> and the test
  helper \<^verbatim>\<open>internal/runtimehelper/main.go\<close>. The server is the step relation of \<open>Socket_Server\<close>, the camera source the one of
  \<open>Marker_Detect\<close>; signals, requests, failures and the shutdown timer come at any moment.
\<close>

section \<open>Opening the camera\<close>

text \<open>Whether the camera is open, and the calls.\<close>

definition openCamera :: "capture \<Rightarrow> bool \<times> call list" where
  "openCamera cam = (case cam of
      CaptureError \<Rightarrow> (False, [])
    | CaptureNotOpened \<Rightarrow> (False, [Opens CameraHandle, Closes CameraHandle])
    | CaptureReady \<Rightarrow> (True, [Opens CameraHandle]))"

section \<open>runServe\<close>

text \<open>The source of a process: the camera source, \<^const>\<open>None\<close> for a synthetic one, and whether the detector is open.\<close>

type_synonym served_source = "cameraSource option \<times> bool"

definition closeSource :: "served_source \<Rightarrow> served_source" where
  "closeSource s = (map_option source_Close (fst s), False)"

datatype serve_pc = SvServing | SvClosing | SvClosingSource | SvClosed | SvExited

record serve_proc =
  sv_ipc :: ipc_state
  sv_source :: served_source
  sv_pc :: serve_pc
  sv_code :: int
  sv_timeout :: bool

definition new_proc :: "served_source \<Rightarrow> serve_proc" where
  "new_proc src = \<lparr>sv_ipc = init_ipc, sv_source = src, sv_pc = SvServing, sv_code = 0, sv_timeout = False\<rparr>"

text \<open>Up to the start of the server: an exit code with the source as it is left, or the running process.\<close>

definition make_source :: "options \<Rightarrow> int + served_source" where
  "make_source opt =
     (if opt_fake opt \<noteq> [] then (case NewFakeSource (opt_fake opt) of None \<Rightarrow> Inl 2 | Some _ \<Rightarrow> Inr (None, False))
      else case det_New (opt_markerSizeM opt) of Ok _ \<Rightarrow> Inr (Some new_cameraSource, True) | _ \<Rightarrow> Inl 1)"

definition runServe :: "options \<Rightarrow> bool \<Rightarrow> (int \<times> served_source) + serve_proc" where
  "runServe opt listening = (case make_source opt of
      Inl code \<Rightarrow> Inl (code, (None, False))
    | Inr src \<Rightarrow> if \<not> listening then Inl (1, closeSource src) else Inr (new_proc src))"

text \<open>
  A handler that has not left yet may be in a request. \<^verbatim>\<open>Serve\<close> fails only while the server is not closed. The goroutine of the shutdown
  closes the server, which waits for the handlers, then the source; the main goroutine waits for it or for the timer.
\<close>

inductive proc_step :: "serve_proc \<Rightarrow> serve_proc \<Rightarrow> bool" where
  server: "sv_pc p \<noteq> SvExited \<Longrightarrow> ipc_step (sv_ipc p) i \<Longrightarrow> ipc_close i = ipc_close (sv_ipc p) \<Longrightarrow> proc_step p (p\<lparr>sv_ipc := i\<rparr>)"
| request: "sv_pc p \<noteq> SvExited \<Longrightarrow> c \<in> handlers (ipc_tab (sv_ipc p)) \<Longrightarrow> c \<in> registered (ipc_tab (sv_ipc p)) \<Longrightarrow> sv_source p = (Some s, d) \<Longrightarrow>
     found \<noteq> Panic \<Longrightarrow> proc_step p (p\<lparr>sv_source := (Some (fst (source_Detect (fst (openCamera cam)) frame_ok found s)), d)\<rparr>)"
| stop: "sv_pc p = SvServing \<Longrightarrow> proc_step p (p\<lparr>sv_pc := SvClosing\<rparr>)"
| serve_error: "sv_pc p = SvServing \<Longrightarrow> ipc_acc (sv_ipc p) = IpcReturned \<Longrightarrow> proc_step p (p\<lparr>sv_pc := SvClosing, sv_code := 1\<rparr>)"
| close_server: "sv_pc p = SvClosing \<Longrightarrow> ipc_close (sv_ipc p) = NotCalled \<Longrightarrow> ipc_step (sv_ipc p) i \<Longrightarrow> ipc_close i = CloseWaiting \<Longrightarrow>
     proc_step p (p\<lparr>sv_ipc := i\<rparr>)"
| server_closed: "sv_pc p = SvClosing \<Longrightarrow> ipc_close (sv_ipc p) = CloseWaiting \<Longrightarrow> ipc_step (sv_ipc p) i \<Longrightarrow> ipc_close i = CloseDone \<Longrightarrow>
     proc_step p (p\<lparr>sv_ipc := i, sv_pc := SvClosingSource\<rparr>)"
| close_source: "sv_pc p = SvClosingSource \<Longrightarrow> proc_step p (p\<lparr>sv_source := closeSource (sv_source p), sv_pc := SvClosed\<rparr>)"
| exit_done: "sv_pc p = SvClosed \<Longrightarrow> proc_step p (p\<lparr>sv_pc := SvExited\<rparr>)"
| exit_timeout: "sv_pc p \<in> {SvClosing, SvClosingSource, SvClosed} \<Longrightarrow> proc_step p (p\<lparr>sv_pc := SvExited, sv_timeout := True\<rparr>)"

section \<open>The test helper\<close>

record helper_flags =
  hf_parsed :: bool
  hf_socket :: string
  hf_fake :: string
  hf_args :: nat

datatype helper_pc = HelperServing | HelperClosing | HelperExited

record helper_proc =
  hp_ipc :: ipc_state
  hp_done :: bool
  hp_pc :: helper_pc
  hp_code :: int

definition helper_run :: "helper_flags \<Rightarrow> bool \<Rightarrow> int + helper_proc" where
  "helper_run fl listening =
     (if \<not> hf_parsed fl then Inl 2
      else if hf_socket fl = [] \<or> hf_fake fl = [] \<or> hf_args fl \<noteq> 0 then Inl 2
      else if NewFakeSource (hf_fake fl) = None then Inl 2
      else if \<not> listening then Inl 1
      else Inr \<lparr>hp_ipc = init_ipc, hp_done = False, hp_pc = HelperServing, hp_code = 0\<rparr>)"

text \<open>
  Here \<^verbatim>\<open>Serve\<close> runs on the main goroutine; another one closes the server when a signal comes. The deferred functions close the server,
  which waits for the handlers, and then the listener.
\<close>

inductive helper_step :: "helper_proc \<Rightarrow> helper_proc \<Rightarrow> bool" where
  helper_server: "hp_pc h \<noteq> HelperExited \<Longrightarrow> ipc_step (hp_ipc h) i \<Longrightarrow> ipc_close i = ipc_close (hp_ipc h) \<Longrightarrow> helper_step h (h\<lparr>hp_ipc := i\<rparr>)"
| helper_signal: "hp_pc h \<noteq> HelperExited \<Longrightarrow> helper_step h (h\<lparr>hp_done := True\<rparr>)"
| helper_shut: "hp_pc h = HelperClosing \<or> hp_pc h = HelperServing \<and> hp_done h \<Longrightarrow> ipc_close (hp_ipc h) = NotCalled \<Longrightarrow>
     ipc_step (hp_ipc h) i \<Longrightarrow> ipc_close i = CloseWaiting \<Longrightarrow> helper_step h (h\<lparr>hp_ipc := i\<rparr>)"
| helper_waited: "hp_pc h \<noteq> HelperExited \<Longrightarrow> ipc_close (hp_ipc h) = CloseWaiting \<Longrightarrow> ipc_step (hp_ipc h) i \<Longrightarrow> ipc_close i = CloseDone \<Longrightarrow>
     helper_step h (h\<lparr>hp_ipc := i\<rparr>)"
| serve_returned: "hp_pc h = HelperServing \<Longrightarrow> ipc_acc (hp_ipc h) = IpcReturned \<Longrightarrow> code = 0 \<and> shut_flag (ipc_tab (hp_ipc h)) \<or> code = 1 \<Longrightarrow>
     helper_step h (h\<lparr>hp_pc := HelperClosing, hp_code := code\<rparr>)"
| helper_exit: "hp_pc h = HelperClosing \<Longrightarrow> ipc_close (hp_ipc h) \<noteq> NotCalled \<Longrightarrow> handlers (ipc_tab (hp_ipc h)) = {} \<Longrightarrow>
     helper_step h (h\<lparr>hp_ipc := (hp_ipc h)\<lparr>ipc_tab := close_listener (ipc_tab (hp_ipc h))\<rparr>, hp_pc := HelperExited\<rparr>)"

section \<open>Invariants\<close>

lemma ipc_step_handlers:
  "ipc_step s s' \<Longrightarrow> shut_flag (ipc_tab s) \<Longrightarrow> handlers (ipc_tab s') \<subseteq> handlers (ipc_tab s)"
  by (induction rule: ipc_step.induct) (auto elim!: handler_step.cases simp: table_defs close_listener_def)

definition source_ok :: "serve_proc \<Rightarrow> bool" where
  "source_ok p \<longleftrightarrow> (\<forall>s. fst (sv_source p) = Some s \<longrightarrow> source_reach s \<and> (src_closed s \<longleftrightarrow> \<not> snd (sv_source p)))
     \<and> (fst (sv_source p) = None \<longrightarrow> \<not> snd (sv_source p))"

definition proc_inv :: "serve_proc \<Rightarrow> bool" where
  "proc_inv p \<longleftrightarrow> ipc_inv (sv_ipc p) \<and> source_ok p
     \<and> (fst (sv_source p) \<noteq> None \<and> \<not> snd (sv_source p) \<longrightarrow> ipc_close (sv_ipc p) = CloseDone)
     \<and> (sv_pc p = SvServing \<longrightarrow> ipc_close (sv_ipc p) = NotCalled) \<and> (sv_pc p \<in> {SvClosingSource, SvClosed} \<longrightarrow> ipc_close (sv_ipc p) = CloseDone)
     \<and> (sv_pc p = SvClosed \<or> sv_pc p = SvExited \<and> \<not> sv_timeout p \<longrightarrow> ipc_close (sv_ipc p) = CloseDone \<and> \<not> snd (sv_source p))"

lemma source_Detect_closed: "src_closed (fst (source_Detect o1 o2 r s)) = src_closed s"
  by (auto simp: source_Detect_def dropCamera_def Let_def split: outcome.splits)

lemma source_Close_closed: "src_closed (source_Close s)"
  by (simp add: source_Close_def dropCamera_def)

lemma serve_proc_step_inv: "proc_step p p' \<Longrightarrow> proc_inv p \<Longrightarrow> proc_inv p'"
proof (induction rule: proc_step.induct)
  case (request p c s d found cam frame_ok)
  then show ?case using source_reach.request by (auto simp: proc_inv_def source_ok_def source_Detect_closed)
next
  case (close_source p)
  then show ?case using source_reach.close by (auto simp: proc_inv_def source_ok_def closeSource_def source_Close_closed)
qed (auto simp: proc_inv_def source_ok_def dest: ipc_step_inv)

lemma new_proc_inv: "runServe opt listening = Inr p \<Longrightarrow> proc_inv p"
proof -
  assume "runServe opt listening = Inr p"
  then obtain src where "make_source opt = Inr src" "p = new_proc src" by (auto simp: runServe_def split: sum.splits if_splits)
  moreover have "ipc_inv init_ipc" using ipc_reach_inv by blast
  ultimately show "proc_inv p"
    by (auto simp: proc_inv_def source_ok_def new_proc_def make_source_def init_ipc_def new_cameraSource_def intro: source_reach.new[unfolded new_cameraSource_def]
      split: if_splits option.splits outcome.splits)
qed

definition proc_reach :: "options \<Rightarrow> serve_proc \<Rightarrow> bool" where
  "proc_reach opt p \<longleftrightarrow> (\<exists>p0. runServe opt True = Inr p0 \<and> proc_step\<^sup>*\<^sup>* p0 p)"

lemma proc_reach_inv: "proc_reach opt p \<Longrightarrow> proc_inv p"
proof -
  assume "proc_reach opt p"
  then obtain p0 where p0: "runServe opt True = Inr p0" "proc_step\<^sup>*\<^sup>* p0 p" by (auto simp: proc_reach_def)
  from p0(2) show ?thesis by (induction rule: rtranclp_induct) (use new_proc_inv[OF p0(1)] serve_proc_step_inv in blast)+
qed

section \<open>Properties\<close>


lemma runServe_starts: "f64_lt (Fin 0) (opt_markerSizeM opt) \<Longrightarrow> opt_fake opt = [] \<Longrightarrow> runServe opt True = Inr (new_proc (Some new_cameraSource, True))"
  by (simp add: runServe_def make_source_def det_New_def)

text \<open>A signal before \<open>Serve\<close> runs: the shutdown closes the server and the source and the process ends.\<close>

lemma early_signal:
  "\<exists>p. proc_step\<^sup>*\<^sup>* (new_proc (Some new_cameraSource, True)) p \<and> sv_pc p = SvExited \<and> \<not> sv_timeout p \<and> sv_code p = 0
     \<and> listener_open (ipc_tab (sv_ipc p)) \<and> ipc_acc (sv_ipc p) = Unstarted"
proof -
  let ?a = "new_proc (Some new_cameraSource, True)"
  let ?i = "init_ipc\<lparr>ipc_tab := shut False new_table, ipc_close := CloseWaiting\<rparr>"
  let ?j = "?i\<lparr>ipc_close := CloseDone\<rparr>"
  have "ipc_step init_ipc (init_ipc\<lparr>ipc_tab := shut (ipc_acc init_ipc \<noteq> Unstarted) (ipc_tab init_ipc), ipc_close := CloseWaiting\<rparr>)"
    by (rule ipc_step.ipc_shut) (simp add: init_ipc_def)
  then have i: "ipc_step init_ipc ?i" by (simp add: init_ipc_def)
  have j: "ipc_step ?i ?j" by (rule ipc_step.ipc_waited) (simp_all add: shut_def new_table_def)
  obtain b where b: "proc_step ?a b" "sv_pc b = SvClosing" "sv_ipc b = init_ipc" "\<not> sv_timeout b" "sv_code b = 0"
    using proc_step.stop[of ?a] by (simp add: new_proc_def)
  obtain c where c: "proc_step b c" "sv_pc c = SvClosing" "sv_ipc c = ?i" "\<not> sv_timeout c" "sv_code c = 0"
    using proc_step.close_server[of b ?i] b i by (simp add: init_ipc_def)
  obtain d where d: "proc_step c d" "sv_pc d = SvClosingSource" "sv_ipc d = ?j" "\<not> sv_timeout d" "sv_code d = 0"
    using proc_step.server_closed[of c ?j] c j by simp
  obtain e where e: "proc_step d e" "sv_pc e = SvClosed" "sv_ipc e = ?j" "\<not> sv_timeout e" "sv_code e = 0"
    using proc_step.close_source[of d] d by simp
  obtain f where f: "proc_step e f" "sv_pc f = SvExited" "sv_ipc f = ?j" "\<not> sv_timeout f" "sv_code f = 0"
    using proc_step.exit_done[of e] e by simp
  have "proc_step\<^sup>*\<^sup>* ?a f" using b(1) c(1) d(1) e(1) f(1) by (meson converse_rtranclp_into_rtranclp rtranclp.rtrancl_refl)
  then show ?thesis using f by (intro exI[of _ f]) (simp add: init_ipc_def shut_def new_table_def)
qed

definition serve_options :: options where
  "serve_options = camera_options\<lparr>opt_show := False, opt_socket := ''/run/det.sock''\<rparr>"

lemma serve_options_run: "runServe serve_options True = Inr (new_proc (Some new_cameraSource, True))"
  by (rule runServe_starts) (simp_all add: serve_options_def camera_options_def)


text \<open>C40: The shutdown can leave the socket file behind: when the signal comes before the goroutine of \<open>Serve\<close> has run, the server does not know
  its listener, closes everything else, and the process ends in order with the listener still open.\<close>

theorem runServe_leaves_socket:
  "\<exists>p. proc_reach serve_options p \<and> sv_pc p = SvExited \<and> \<not> sv_timeout p \<and> sv_code p = 0 \<and> listener_open (ipc_tab (sv_ipc p))"
  using early_signal serve_options_run by (auto simp: proc_reach_def)

definition helper_inv :: "helper_proc \<Rightarrow> bool" where
  "helper_inv h \<longleftrightarrow> ipc_inv (hp_ipc h) \<and> (hp_pc h \<noteq> HelperServing \<longrightarrow> ipc_acc (hp_ipc h) = IpcReturned) \<and> hp_code h \<in> {0, 1}
     \<and> (hp_pc h = HelperExited \<longrightarrow> handlers (ipc_tab (hp_ipc h)) = {} \<and> ipc_close (hp_ipc h) \<noteq> NotCalled)"

lemma ipc_returned_stays: "ipc_step s s' \<Longrightarrow> ipc_acc s = IpcReturned \<Longrightarrow> ipc_acc s' = IpcReturned"
  by (induction rule: ipc_step.induct) auto

lemma helper_step_inv: "helper_step h h' \<Longrightarrow> helper_inv h \<Longrightarrow> helper_inv h'"
proof (induction rule: helper_step.induct)
  case (helper_exit h)
  then show ?case by (auto simp: helper_inv_def ipc_inv_def table_inv_ops)
qed (auto simp: helper_inv_def dest: ipc_step_inv ipc_returned_stays)


text \<open>The test helper ends clean: when it has exited after a signal or an error of \<open>Serve\<close>, no handler runs, no connection is open and its
  listener is closed; the exit code is 0 or 1.\<close>

lemma helper_exits_clean:
  assumes "helper_run fl True = Inr h0" "helper_step\<^sup>*\<^sup>* h0 h" "hp_pc h = HelperExited"
  shows "handlers (ipc_tab (hp_ipc h)) = {} \<and> registered (ipc_tab (hp_ipc h)) = {} \<and> open_conns (ipc_tab (hp_ipc h)) = {}
     \<and> \<not> listener_open (ipc_tab (hp_ipc h)) \<and> hp_code h \<in> {0, 1}"
proof -
  have "helper_inv h0" using assms(1) ipc_reach_inv[of init_ipc] by (auto simp: helper_run_def helper_inv_def split: if_splits)
  with assms(2) have "helper_inv h" by (induction rule: rtranclp_induct) (use helper_step_inv in blast)+
  then show ?thesis using assms(3) by (auto simp: helper_inv_def ipc_inv_def table_inv_def)
qed

end
