(* ===== verification/Wm_Commands.thy ===== *)
theory Wm_Commands
  imports Wm_Protocol Wm_Sdl Go_Json_Decode
begin

text \<open>
  The commands of the window manager: the client \<^verbatim>\<open>cmd/wm-client/main.go\<close> over the bytes of its connection, the choice of the backend in
  \<^verbatim>\<open>cmd/wm-server/main.go\<close> and \<^verbatim>\<open>tests/system-smoke/cmd/wm-headless/main.go\<close>, and the socket files that \<^verbatim>\<open>Run\<close> of \<^verbatim>\<open>server/server.go\<close> creates
  and removes.
\<close>

section \<open>wm-client\<close>

definition request_json :: "Request \<Rightarrow> json" where
  "request_json r = JObj ((''command'', JStr (Command r)) # omit_string ''window_id'' (WindowID r)
     @ omit_string ''title'' (Title r) @ omit_int ''width'' (Width r) @ omit_int ''height'' (Height r)
     @ omit_string ''image_path'' (ImagePath r) @ omit_ptr ''x'' (X r) @ omit_ptr ''y'' (Y r)
     @ omit_int ''radius'' (Radius r)
     @ (case req_Color r of None \<Rightarrow> [] | Some k \<Rightarrow> [(''color'', color_json k)]))"

definition encode_request :: "Request \<Rightarrow> string" where
  "encode_request r = json_print (request_json r) @ [newline]"

record client_flags =
  wc_title :: string
  wc_width :: int
  wc_height :: int
  wc_args :: "string list"

definition client_request :: "(nat \<Rightarrow> nat) \<Rightarrow> client_flags \<Rightarrow> string \<Rightarrow> Request" where
  "client_request upper fl arg = \<lparr>Command = ToUpper upper arg, WindowID = ''map'', Title = wc_title fl, Width = wc_width fl, Height = wc_height fl,
     ImagePath = [], X = None, Y = None, Radius = 0, req_Color = None\<rparr>"

definition response_fields :: "Response field list" where
  "response_fields = [bool_field ''ok'' (\<lambda>x r. r\<lparr>resp_OK := x\<rparr>), string_field ''message'' (\<lambda>x r. r\<lparr>resp_Message := x\<rparr>),
     string_field ''event'' (\<lambda>x r. r\<lparr>resp_Event := x\<rparr>), string_field ''window_id'' (\<lambda>x r. r\<lparr>resp_WindowID := x\<rparr>)]"

text \<open>\<^verbatim>\<open>Decoder.Decode\<close> of one value from the stream into a \<^verbatim>\<open>Response\<close>.\<close>

definition decode_response :: "string \<Rightarrow> Response option" where
  "decode_response input = (case Decode (NewDecoder input) of
      Ok (v, _) \<Rightarrow> decode_struct response_fields v (reply False [])
    | _ \<Rightarrow> None)"

definition response_line :: "Response \<Rightarrow> string" where
  "response_line r = ''ok='' @ (if resp_OK r then ''true'' else ''false'') @ '' message='' @ resp_Message r @ [newline]"

text \<open>The exit code and what is printed. The arguments are as for \<^const>\<open>Send\<close>.\<close>

definition client_main :: "(nat \<Rightarrow> nat) \<Rightarrow> bool \<Rightarrow> bool \<Rightarrow> (string \<Rightarrow> string) \<Rightarrow> client_flags \<Rightarrow> int \<times> string" where
  "client_main upper dialled wrote server fl = (case wc_args fl of
      [] \<Rightarrow> (2, [])
    | arg # _ \<Rightarrow>
        if \<not> dialled then (1, [])
        else if \<not> wrote then (1, [])
        else case decode_response (server (encode_request (client_request upper fl arg))) of
               None \<Rightarrow> (1, [])
             | Some resp \<Rightarrow> (if resp_OK resp then 0 else 1, response_line resp))"

section \<open>wm-server and wm-headless\<close>

datatype backend_choice = HeadlessBackend | SdlBackend

text \<open>An exit code, or the backend and the socket paths that \<^verbatim>\<open>Run\<close> is called with.\<close>

definition wm_server_main :: "string \<Rightarrow> string \<Rightarrow> int + backend_choice \<times> string \<times> string" where
  "wm_server_main socket backendName =
     (if backendName = ''headless'' then Inr (HeadlessBackend, socket, [])
      else if backendName = ''sdl'' then Inr (SdlBackend, socket, [])
      else Inl 2)"

definition wm_headless_main :: "string \<Rightarrow> string \<Rightarrow> nat \<Rightarrow> int + backend_choice \<times> string \<times> string" where
  "wm_headless_main cmd events args =
     (if cmd = [] \<or> events = [] \<or> cmd = events \<or> args \<noteq> 0 then Inl 2 else Inr (HeadlessBackend, cmd, events))"

definition run_exit :: "(string, unit) outcome \<Rightarrow> int" where
  "run_exit r = (case r of Ok _ \<Rightarrow> 0 | Err _ \<Rightarrow> 1 | Panic \<Rightarrow> 2)"

section \<open>The socket files of Run\<close>

text \<open>
  Which listener a path leads to, and which listeners are open. \<^verbatim>\<open>net.Listen\<close> fails on a path that exists; closing a Unix listener
  removes the path by its name.
\<close>

record sockets =
  at_path :: "string \<Rightarrow> nat option"
  listening :: "nat set"
  next_socket :: nat

definition remove_path :: "string \<Rightarrow> sockets \<Rightarrow> sockets" where
  "remove_path p w = w\<lparr>at_path := (at_path w)(p := None)\<rparr>"

definition listen_path :: "string \<Rightarrow> sockets \<Rightarrow> (nat \<times> sockets) option" where
  "listen_path p w = (if at_path w p \<noteq> None then None
     else Some (next_socket w, w\<lparr>at_path := (at_path w)(p \<mapsto> next_socket w), listening := insert (next_socket w) (listening w),
       next_socket := Suc (next_socket w)\<rparr>))"

definition close_socket :: "string \<Rightarrow> nat \<Rightarrow> sockets \<Rightarrow> sockets" where
  "close_socket p i w = (if i \<in> listening w then remove_path p (w\<lparr>listening := listening w - {i}\<rparr>) else w)"

definition default_path :: "string \<Rightarrow> string \<Rightarrow> string" where
  "default_path d p = (if p = [] then d else p)"

text \<open>Up to the first accept; \<open>ok1\<close> and \<open>ok2\<close> say whether the system lets the two listeners be made.\<close>

definition run_listen :: "bool \<Rightarrow> bool \<Rightarrow> string \<Rightarrow> string \<Rightarrow> sockets \<Rightarrow> (nat \<times> nat) option \<times> sockets" where
  "run_listen ok1 ok2 cmd events w =
     (let w1 = remove_path cmd w
      in case (if ok1 then listen_path cmd w1 else None) of
           None \<Rightarrow> (None, w1)
         | Some (i, w2) \<Rightarrow>
             (let w3 = remove_path events w2
              in case (if ok2 then listen_path events w3 else None) of
                   None \<Rightarrow> (None, remove_path cmd (close_socket cmd i w3))
                 | Some (j, w4) \<Rightarrow> (Some (i, j), w4)))"

definition run_unlisten :: "string \<Rightarrow> string \<Rightarrow> nat \<times> nat \<Rightarrow> sockets \<Rightarrow> sockets" where
  "run_unlisten cmd events ij w =
     remove_path events (remove_path cmd (close_socket events (snd ij) (close_socket cmd (fst ij) w)))"

section \<open>Lemmas\<close>

lemma encode_to_request: "encode_request (to_request c) = encode_command c"
  by (simp add: encode_request_def request_json_def encode_command_def command_json_def to_request_def)

lemma client_to_request:
  "client_request upper fl arg = to_request ((command (ToUpper upper arg))\<lparr>cmd_WindowID := ''map'', cmd_Title := wc_title fl,
     cmd_Width := wc_width fl, cmd_Height := wc_height fl\<rparr>)"
  by (simp add: client_request_def to_request_def command_def)

lemma response_struct:
  "decode_struct response_fields (wm_response_json r) (reply False []) = Some r"
proof -
  have f: "find (\<lambda>f. fst f = ''message'') response_fields = Some (string_field ''message'' (\<lambda>x r. r\<lparr>resp_Message := x\<rparr>))"
    "find (\<lambda>f. fst f = ''event'') response_fields = Some (string_field ''event'' (\<lambda>x r. r\<lparr>resp_Event := x\<rparr>))"
    "find (\<lambda>f. fst f = ''window_id'') response_fields = Some (string_field ''window_id'' (\<lambda>x r. r\<lparr>resp_WindowID := x\<rparr>))"
    by (simp_all add: response_fields_def field_defs)
  have ok: "set_members response_fields ((''ok'', JBool x) # ms) r = set_members response_fields ms (r\<lparr>resp_OK := x\<rparr>)" for x ms r
    by (simp add: response_fields_def field_defs)
  show ?thesis by (cases r) (simp add: decode_struct_def wm_response_json_def set_members_append ok reply_def
    set_string[OF f(1)] set_string[OF f(2)] set_string[OF f(3)] del: set_members.simps)
qed


lemma client_response_decoded:
  assumes "utf8_valid (resp_Message r)" "utf8_valid (resp_Event r)" "utf8_valid (resp_WindowID r)"
  shows "decode_response (WriteResponse r) = Some r"
proof -
  have w: "wf_json max_depth (wm_response_json r)" unfolding max_depth_Suc by (rule wm_response_json_wf[OF assms])
  from printed_line(2)[OF w] obtain rest where "parse_value max_depth (WriteResponse r) = Some (wm_response_json r, rest)"
    by (auto simp: json_parse_def WriteResponse_def split: option.splits prod.splits if_splits)
  then show ?thesis by (simp add: decode_response_def Decode_top response_struct)
qed

lemma decode_nothing: "decode_response [] = None"
proof -
  have "Decode (NewDecoder []) = Err JEOF" by (simp only: Decode_eof) (simp add: skip_ws_def)
  then show ?thesis by (simp add: decode_response_def)
qed

text \<open>A set-up that fails on the second path takes the first one back.\<close>

lemma run_listen_fails:
  assumes "run_listen ok1 ok2 cmd evs w = (None, w')" "finite (listening w)" "\<forall>i \<in> listening w. i < next_socket w"
  shows "listening w' = listening w \<and> at_path w' cmd = None"
  using assms by (auto simp: run_listen_def listen_path_def close_socket_def remove_path_def Let_def split: if_splits option.splits)

text \<open>
  A second server takes the path of a running one, and when the first one ends it removes the path of the second: then
  the second still listens, but no client reaches it.
\<close>

lemma wm_path_stolen:
  assumes "run_listen True True cmd evs w = (Some a, w1)" "run_listen True True cmd evs w1 = (Some b, w2)" "cmd \<noteq> evs"
    and "\<forall>i \<in> listening w. i < next_socket w"
  shows "at_path w2 cmd = Some (fst b) \<and> fst a \<in> listening w2
     \<and> fst b \<in> listening (run_unlisten cmd evs a w2) \<and> at_path (run_unlisten cmd evs a w2) cmd = None"
  using assms by (auto simp: run_listen_def run_unlisten_def listen_path_def close_socket_def remove_path_def Let_def split: if_splits option.splits)

section \<open>Properties\<close>

text \<open>One run of the client command against the window manager, over the bytes of the connection: the server handles exactly the
  request that the flags mean, and the command prints the answer and exits with 0 exactly when the server accepted it; when the server crashes
  it exits with 1.\<close>

theorem wm_client_exchange:
  assumes "wc_args fl = arg # args" "utf8_valid (ToUpper upper arg)" "ToUpper upper arg \<noteq> []" "utf8_valid (wc_title fl)"
    and "int64 (wc_width fl)" "int64 (wc_height fl)"
    and "handleRequest upper ops True (Ok (client_request upper fl arg)) s b = (s', b', resp)"
    and "pred_option (\<lambda>r. utf8_valid (resp_Message r) \<and> utf8_valid (resp_Event r) \<and> utf8_valid (resp_WindowID r)) resp"
  shows "serve_bytes upper text_of ops s b (encode_request (client_request upper fl arg)) = (s', b', case resp of None \<Rightarrow> [] | Some r \<Rightarrow> WriteResponse r)
     \<and> client_main upper True True (\<lambda>input. snd (snd (serve_bytes upper text_of ops s b input))) fl =
         (case resp of None \<Rightarrow> (1, []) | Some r \<Rightarrow> (if resp_OK r then 0 else 1, response_line r))"
proof -
  let ?c = "(command (ToUpper upper arg))\<lparr>cmd_WindowID := ''map'', cmd_Title := wc_title fl, cmd_Width := wc_width fl, cmd_Height := wc_height fl\<rparr>"
  have "wf_command ?c" "cmd_Command ?c \<noteq> []"
    using assms(2-6) by (simp_all add: wf_command_def command_def utf8_valid_printable printable_def int64_def)
  from request_arrives[OF this, of True "[]"]
  have r: "ReadRequest True (encode_request (client_request upper fl arg)) = Ok (client_request upper fl arg)"
    by (simp add: client_to_request encode_to_request)
  then have sb: "serve_bytes upper text_of ops s b (encode_request (client_request upper fl arg)) = (s', b', case resp of None \<Rightarrow> [] | Some r \<Rightarrow> WriteResponse r)"
    using assms(7) by (simp add: serve_bytes_def Let_def)
  moreover have "decode_response (case resp of None \<Rightarrow> [] | Some r \<Rightarrow> WriteResponse r) = resp"
    using assms(8) client_response_decoded by (cases resp) (auto simp: decode_nothing)
  ultimately show ?thesis using assms(1) by (simp add: client_main_def split: option.splits)
qed

definition quit_flags :: client_flags where
  "quit_flags = \<lparr>wc_title = ''Map'', wc_width = 960, wc_height = 640, wc_args = [''QUIT'']\<rparr>"

lemma wm_client_exchange_witness:
  "client_main (\<lambda>r. r) True True (\<lambda>input. snd (snd (serve_bytes (\<lambda>r. r) (\<lambda>_. []) (headless_ops (\<lambda>_. Err [])) new_Server None input))) quit_flags
     = (0, ''ok=true message=stopping'' @ [newline])"
proof -
  have u: "ToUpper (\<lambda>r. r) ''QUIT'' = ''QUIT''" by code_simp
  have q: "command_of (\<lambda>r. r) (client_request (\<lambda>r. r) quit_flags ''QUIT'') = ''QUIT''" by code_simp
  have h: "handleRequest (\<lambda>r. r) (headless_ops (\<lambda>_. Err [])) True (Ok (client_request (\<lambda>r. r) quit_flags ''QUIT'')) new_Server None
      = (new_Server\<lparr>stopped := True\<rparr>, None, Some (reply True ''stopping''))"
    using q by (simp add: handleRequest_def dispatch_def handle_quit_def new_Server_def Let_def)
  have a: "wc_args quit_flags = ''QUIT'' # []" "utf8_valid (ToUpper (\<lambda>r. r) ''QUIT'')" "ToUpper (\<lambda>r. r) ''QUIT'' \<noteq> []" "utf8_valid (wc_title quit_flags)"
      "int64 (wc_width quit_flags)" "int64 (wc_height quit_flags)"
    by (simp_all add: quit_flags_def u utf8_valid_printable printable_def int64_def)
  show ?thesis using wm_client_exchange[OF a h, of "\<lambda>_. []"]
    by (simp add: reply_def response_line_def utf8_valid_printable printable_def)
qed

end
