(* ===== verification/Wm_Run.thy ===== *)
theory Wm_Run
  imports Wm_Sdl Socket_Server
begin

text \<open>
  \<^verbatim>\<open>Run\<close> of \<^verbatim>\<open>window-manager/server/server.go\<close> with its goroutines: the loop that accepts command connections, a reader for each of
  them that hands its request to the event loop or gives up, the loop that accepts event clients, the goroutine that closes the
  listeners when the context ends, and the deferred clean-up. The event loop itself is the one of \<open>Wm_Server\<close>; a panic
  ends the process and has no step. Shown are that the event loop behaves as in \<open>Wm_Server\<close>, and what is released in the end.
\<close>

section \<open>The goroutines\<close>

datatype reader = Reading | Sending "(string, Request) outcome"

datatype evt_pc = EvtAccepting | EvtHolding conn | EvtGone

datatype loop_pc = LoopRunning | LoopLeft | ListenersClosed | RunReturned

record 'b run_state =
  wm_of :: "'b wm"
  loop :: loop_pc
  ctx_done :: bool
  cmd_on :: bool
  cmd_accepting :: bool
  evt_on :: bool
  evt :: evt_pc
  readers :: "conn \<Rightarrow> reader option"
  live :: "conn set"

definition init_run :: "'b \<Rightarrow> 'b run_state" where
  "init_run b = \<lparr>wm_of = init_wm b, loop = LoopRunning, ctx_done = False, cmd_on = True, cmd_accepting = True, evt_on = True,
     evt = EvtAccepting, readers = (\<lambda>_. None), live = {}\<rparr>"

abbreviation stop_closed :: "'b run_state \<Rightarrow> bool" where
  "stop_closed s \<equiv> stopped (srv (wm_of s))"

text \<open>A connection that nobody knows yet.\<close>

definition fresh :: "conn \<Rightarrow> 'b run_state \<Rightarrow> bool" where
  "fresh c s \<longleftrightarrow> c \<notin> live s \<and> readers s c = None \<and> c \<notin> eventClients (wm_of s) \<and> written (wm_of s) c = [] \<and> evt s \<noteq> EvtHolding c"

text \<open>One call of \<^verbatim>\<open>pollWindowEvents\<close>, with the broadcast in it.\<close>

definition poll_once :: "'b backend_ops \<Rightarrow> conn set \<Rightarrow> 'b wm \<Rightarrow> 'b wm \<times> (string, unit) outcome" where
  "poll_once ops failing m =
     (let (s, b, ev, r) = pollWindowEvents ops (srv m) (bk m); m1 = m\<lparr>srv := s, bk := b\<rparr>
      in (case ev of None \<Rightarrow> m1 | Some wid \<Rightarrow> broadcastEvent failing (close_event wid) m1, r))"

definition drop_reader :: "conn \<Rightarrow> 'b run_state \<Rightarrow> 'b run_state" where
  "drop_reader c s = s\<lparr>readers := (readers s)(c := None), live := live s - {c}\<rparr>"

inductive run_step :: "(nat \<Rightarrow> nat) \<Rightarrow> 'b backend_ops \<Rightarrow> 'b run_state \<Rightarrow> 'b run_state \<Rightarrow> bool" for upper ops where
  accept_command: "cmd_accepting s \<Longrightarrow> cmd_on s \<Longrightarrow> fresh c s \<Longrightarrow>
     run_step upper ops s (s\<lparr>readers := (readers s)(c \<mapsto> Reading), live := insert c (live s)\<rparr>)"
| accept_command_fails: "cmd_accepting s \<Longrightarrow> run_step upper ops s (s\<lparr>cmd_accepting := False\<rparr>)"
| read_done: "readers s c = Some Reading \<Longrightarrow> received \<noteq> Panic \<Longrightarrow>
     run_step upper ops s (s\<lparr>readers := (readers s)(c \<mapsto> Sending received)\<rparr>)"
| serve_request: "loop s = LoopRunning \<Longrightarrow> readers s c = Some (Sending received) \<Longrightarrow>
     m = request_step upper ops write_ok received (wm_of s) \<Longrightarrow> status m \<noteq> Crashed \<Longrightarrow>
     run_step upper ops s (drop_reader c (s\<lparr>wm_of := m\<rparr>))"
| give_up: "readers s c = Some (Sending received) \<Longrightarrow> ctx_done s \<or> stop_closed s \<Longrightarrow> run_step upper ops s (drop_reader c s)"
| accept_event: "evt s = EvtAccepting \<Longrightarrow> evt_on s \<Longrightarrow> fresh c s \<Longrightarrow>
     run_step upper ops s (s\<lparr>evt := EvtHolding c, live := insert c (live s)\<rparr>)"
| accept_event_fails: "evt s = EvtAccepting \<Longrightarrow> run_step upper ops s (s\<lparr>evt := EvtGone\<rparr>)"
| add_client: "evt s = EvtHolding c \<Longrightarrow>
     run_step upper ops s (s\<lparr>evt := EvtAccepting, wm_of := accept_event_client c write_ok (wm_of s),
       live := (if write_ok then live s else live s - {c})\<rparr>)"
| poll: "loop s = LoopRunning \<Longrightarrow> poll_once ops failing (wm_of s) = (m, Ok ()) \<Longrightarrow>
     run_step upper ops s (s\<lparr>wm_of := m, live := live s - (eventClients (wm_of s) - eventClients m)\<rparr>)"
| poll_fails: "loop s = LoopRunning \<Longrightarrow> poll_once ops failing (wm_of s) = (m, Err e) \<Longrightarrow>
     run_step upper ops s (s\<lparr>wm_of := m, live := live s - (eventClients (wm_of s) - eventClients m), loop := LoopLeft\<rparr>)"
| cancel_ctx: "\<not> ctx_done s \<Longrightarrow> run_step upper ops s (s\<lparr>ctx_done := True\<rparr>)"
| cancel_command: "ctx_done s \<Longrightarrow> cmd_on s \<Longrightarrow> run_step upper ops s (s\<lparr>cmd_on := False\<rparr>)"
| cancel_event: "ctx_done s \<Longrightarrow> \<not> cmd_on s \<Longrightarrow> evt_on s \<Longrightarrow> run_step upper ops s (s\<lparr>evt_on := False\<rparr>)"
| leave_loop: "loop s = LoopRunning \<Longrightarrow> ctx_done s \<or> stop_closed s \<Longrightarrow> run_step upper ops s (s\<lparr>loop := LoopLeft\<rparr>)"
| close_listeners: "loop s = LoopLeft \<Longrightarrow> run_step upper ops s (s\<lparr>loop := ListenersClosed, cmd_on := False, evt_on := False\<rparr>)"
| close_clients: "loop s = ListenersClosed \<Longrightarrow>
     run_step upper ops s (s\<lparr>loop := RunReturned, live := live s - eventClients (wm_of s), wm_of := (wm_of s)\<lparr>eventClients := {}\<rparr>\<rparr>)"

definition run_reach :: "(nat \<Rightarrow> nat) \<Rightarrow> 'b backend_ops \<Rightarrow> 'b \<Rightarrow> 'b run_state \<Rightarrow> bool" where
  "run_reach upper ops b s \<longleftrightarrow> (run_step upper ops)\<^sup>*\<^sup>* (init_run b) s"

section \<open>The event loop of Wm_Server\<close>

lemma tick_poll: "poll_once ops failing m = (m', Ok ()) \<Longrightarrow> tick_step ops failing m = m'"
  by (auto simp: poll_once_def tick_step_def Let_def split: prod.splits)

lemma poll_once_status: "poll_once ops failing m = (m', r) \<Longrightarrow> status m' = status m \<and> eventClients m' \<subseteq> eventClients m
     \<and> (\<forall>c. written m c = [] \<longrightarrow> c \<notin> eventClients m \<longrightarrow> written m' c = [])"
  by (auto simp: poll_once_def broadcastEvent_def Let_def split: prod.splits option.splits)

lemma request_status: "status (request_step upper ops w rec m) \<noteq> Crashed \<Longrightarrow> status (request_step upper ops w rec m) = status m"
  "eventClients (request_step upper ops w rec m) = eventClients m" "written (request_step upper ops w rec m) = written m"
  by (auto simp: request_step_def Let_def split: prod.splits if_splits)

definition evt_fresh :: "'b run_state \<Rightarrow> bool" where
  "evt_fresh s \<longleftrightarrow> (\<forall>c. evt s = EvtHolding c \<longrightarrow> c \<notin> eventClients (wm_of s) \<and> written (wm_of s) c = [])"

lemma follows_step:
  assumes "run_step upper ops s s'" "loop s' = LoopRunning" "evt_fresh s" "status (wm_of s) = Serving"
    and "\<And>c received. readers s c = Some (Sending received) \<Longrightarrow> received \<noteq> Panic"
  shows "loop s = LoopRunning \<and> (wm_of s' = wm_of s \<or> wm_step upper ops (wm_of s) (wm_of s'))"
  using assms(1)
proof cases
  case (serve_request c received m write_ok)
  then show ?thesis using wm_step.request[of "wm_of s" received upper ops write_ok] assms(4,5) by (auto simp: drop_reader_def)
next
  case (add_client c write_ok)
  then show ?thesis using wm_step.event_client[of "wm_of s" c upper ops write_ok] assms(2-4) by (auto simp: evt_fresh_def)
next
  case (poll failing m)
  then show ?thesis using wm_step.tick[of "wm_of s" upper ops failing] tick_poll[of ops failing "wm_of s" m] assms(4) by auto
qed (use assms(2) in \<open>auto simp: drop_reader_def\<close>)

lemma step_evt_fresh: "run_step upper ops s s' \<Longrightarrow> evt_fresh s \<Longrightarrow> evt_fresh s'"
  apply (induction rule: run_step.induct)
  by (auto simp: evt_fresh_def fresh_def drop_reader_def request_status accept_event_client_def dest!: poll_once_status split: if_splits)

definition no_panics :: "'b run_state \<Rightarrow> bool" where
  "no_panics s \<longleftrightarrow> (\<forall>c received. readers s c = Some (Sending received) \<longrightarrow> received \<noteq> Panic)"

lemma step_no_panics: "run_step upper ops s s' \<Longrightarrow> no_panics s \<Longrightarrow> no_panics s'"
  by (induction rule: run_step.induct) (auto simp: no_panics_def drop_reader_def)

lemma step_serving: "run_step upper ops s s' \<Longrightarrow> status (wm_of s) = Serving \<Longrightarrow> status (wm_of s') = Serving"
  by (induction rule: run_step.induct) (auto simp: drop_reader_def request_status accept_event_client_def dest!: poll_once_status)

definition run_good :: "(nat \<Rightarrow> nat) \<Rightarrow> 'b backend_ops \<Rightarrow> 'b \<Rightarrow> 'b run_state \<Rightarrow> bool" where
  "run_good upper ops b s \<longleftrightarrow> evt_fresh s \<and> no_panics s \<and> status (wm_of s) = Serving
     \<and> (loop s = LoopRunning \<longrightarrow> wm_reach upper ops b (wm_of s))"

lemma run_reach_good: "run_reach upper ops b s \<Longrightarrow> run_good upper ops b s"
  unfolding run_reach_def
proof (induction rule: rtranclp_induct)
  case base
  show ?case by (simp add: run_good_def init_run_def evt_fresh_def no_panics_def init_wm_def) (simp add: wm_reach.start flip: init_wm_def)
next
  case (step s s')
  then have g: "evt_fresh s" "no_panics s" "status (wm_of s) = Serving" by (simp_all add: run_good_def)
  have "wm_reach upper ops b (wm_of s')" if "loop s' = LoopRunning"
    using follows_step[OF step(2) that g(1,3)] g(2) step(3) wm_reach.further by (fastforce simp: run_good_def no_panics_def)
  then show ?case using step_evt_fresh[OF step(2) g(1)] step_no_panics[OF step(2) g(2)] step_serving[OF step(2) g(3)]
    by (simp add: run_good_def)
qed

section \<open>What is released\<close>

fun evt_held :: "evt_pc \<Rightarrow> conn set" where
  "evt_held (EvtHolding c) = {c}"
| "evt_held e = {}"

definition clients_of :: "'b run_state \<Rightarrow> conn set" where
  "clients_of s = eventClients (wm_of s) \<union> evt_held (evt s)"

text \<open>Every open connection has a reader, is a client, or is about to become one.\<close>

definition run_conns :: "'b run_state \<Rightarrow> bool" where
  "run_conns s \<longleftrightarrow> finite (dom (readers s)) \<and> live s \<subseteq> dom (readers s) \<union> clients_of s
     \<and> (loop s \<in> {ListenersClosed, RunReturned} \<longrightarrow> \<not> cmd_on s \<and> \<not> evt_on s)
     \<and> (loop s = RunReturned \<longrightarrow> (\<exists>c. clients_of s \<subseteq> {c}))"

lemma accept_client_clients: "eventClients (accept_event_client c w m) = (if w then insert c (eventClients m) else eventClients m)"
  "srv (accept_event_client c w m) = srv m"
  by (simp_all add: accept_event_client_def)

lemma step_run_conns: "run_step upper ops s s' \<Longrightarrow> run_conns s \<Longrightarrow> run_conns s'"
proof (induction rule: run_step.induct)
  case (poll s failing m)
  then show ?case using poll_once_status[of ops failing "wm_of s" m] by (auto simp: run_conns_def clients_of_def)
next
  case (poll_fails s failing m e)
  then show ?case using poll_once_status[of ops failing "wm_of s" m] by (auto simp: run_conns_def clients_of_def)
next
  case (close_clients s)
  then show ?case by (cases "evt s") (auto simp: run_conns_def clients_of_def)
next
  case (add_client s c write_ok)
  then show ?case by (auto simp: run_conns_def clients_of_def accept_client_clients)
qed (auto simp: run_conns_def clients_of_def drop_reader_def request_status)

lemma run_reach_conns: "run_reach upper ops b s \<Longrightarrow> run_conns s"
  unfolding run_reach_def
proof (induction rule: rtranclp_induct)
  case base
  show ?case by (simp add: run_conns_def init_run_def clients_of_def init_wm_def)
qed (rule step_run_conns)

text \<open>How many steps are left after \<^verbatim>\<open>Run\<close> has returned.\<close>

fun evt_weight :: "evt_pc \<Rightarrow> nat" where
  "evt_weight (EvtHolding c) = 2"
| "evt_weight EvtAccepting = 1"
| "evt_weight EvtGone = 0"

definition run_weight :: "'b run_state \<Rightarrow> nat" where
  "run_weight s = card (dom (readers s)) + card {c. readers s c = Some Reading} + evt_weight (evt s)
     + (if ctx_done s then 0 else 1) + (if cmd_accepting s then 1 else 0)"

definition returned :: "'b run_state \<Rightarrow> bool" where
  "returned s \<longleftrightarrow> loop s = RunReturned \<and> run_conns s \<and> no_panics s \<and> (ctx_done s \<or> stop_closed s)"

definition quiet :: "'b run_state \<Rightarrow> bool" where
  "quiet s \<longleftrightarrow> dom (readers s) = {} \<and> evt s = EvtGone \<and> ctx_done s \<and> \<not> cmd_accepting s"

lemma reading_finite: "run_conns s \<Longrightarrow> finite {c. readers s c = Some Reading}"
  by (rule finite_subset[of _ "dom (readers s)"]) (auto simp: run_conns_def)

lemma drop_reader_weight:
  assumes "run_conns s" "readers s c = Some (Sending r)"
  shows "run_weight (drop_reader c s) < run_weight s"
proof -
  have "{a. ((readers s)(c := None)) a = Some Reading} = {a. readers s a = Some Reading}" using assms(2) by auto
  moreover have "card (dom (readers s) - {c}) < card (dom (readers s))"
    using assms by (intro card_Diff1_less) (auto simp: run_conns_def)
  ultimately show ?thesis by (simp add: run_weight_def drop_reader_def)
qed

lemma read_done_weight:
  assumes "run_conns s" "readers s c = Some Reading"
  shows "run_weight (s\<lparr>readers := (readers s)(c \<mapsto> Sending r)\<rparr>) < run_weight s"
proof -
  have "{a. ((readers s)(c \<mapsto> Sending r)) a = Some Reading} = {a. readers s a = Some Reading} - {c}" by auto
  moreover have "card ({a. readers s a = Some Reading} - {c}) < card {a. readers s a = Some Reading}"
    using assms reading_finite by (intro card_Diff1_less) auto
  moreover have "insert c (dom (readers s)) = dom (readers s)" using assms(2) by auto
  ultimately show ?thesis by (simp add: run_weight_def)
qed

lemma returned_step:
  assumes "run_step upper ops s s'" "returned s"
  shows "returned s' \<and> run_weight s' < run_weight s \<and> clients_of s' \<subseteq> clients_of s"
proof -
  have r: "loop s = RunReturned" "run_conns s" "no_panics s" "ctx_done s \<or> stop_closed s" "\<not> cmd_on s" "\<not> evt_on s"
    using assms(2) by (auto simp: returned_def run_conns_def)
  have k: "run_conns s'" "no_panics s'" using step_run_conns[OF assms(1) r(2)] step_no_panics[OF assms(1) r(3)] .
  from assms(1) have "loop s' = RunReturned \<and> (ctx_done s' \<or> stop_closed s') \<and> run_weight s' < run_weight s \<and> clients_of s' \<subseteq> clients_of s"
  proof cases
    case (read_done c received)
    then show ?thesis using r read_done_weight[OF r(2)] by (auto simp: clients_of_def)
  next
    case (give_up c received)
    then show ?thesis using r drop_reader_weight[OF r(2)] by (auto simp: clients_of_def drop_reader_def)
  qed (use r in \<open>auto simp: run_weight_def clients_of_def accept_client_clients\<close>)
  then show ?thesis using k by (simp add: returned_def)
qed

lemma returned_not_stuck: "returned s \<Longrightarrow> \<not> quiet s \<Longrightarrow> \<exists>s'. run_step upper ops s s'"
proof -
  assume r: "returned s" and q: "\<not> quiet s"
  consider (reader) c x where "readers s c = Some x" | (evt) "evt s \<noteq> EvtGone" | (ctx) "\<not> ctx_done s" | (cmd) "cmd_accepting s"
    using q by (auto simp: quiet_def dom_def)
  then show ?thesis
  proof cases
    case reader
    then show ?thesis
    proof (cases x)
      case Reading
      then show ?thesis using reader run_step.read_done[of s c "Err []"] by blast
    next
      case (Sending received)
      then show ?thesis using reader r run_step.give_up[of s c received] by (auto simp: returned_def)
    qed
  next
    case evt
    then show ?thesis using run_step.accept_event_fails run_step.add_client by (cases "evt s") blast+
  next
    case ctx
    then show ?thesis using run_step.cancel_ctx by blast
  next
    case cmd
    then show ?thesis using run_step.accept_command_fails by blast
  qed
qed

interpretation wm_run: draining "run_step upper ops" returned run_weight quiet for upper ops
  by unfold_locales (use returned_step returned_not_stuck in blast)+

lemma returned_clients: "(run_step upper ops)\<^sup>*\<^sup>* s s' \<Longrightarrow> returned s \<Longrightarrow> returned s' \<and> clients_of s' \<subseteq> clients_of s"
proof (induction rule: rtranclp_induct)
  case (step u v)
  then show ?case using returned_step[OF step(2)] by blast
qed simp

lemma run_weight_bound: "run_conns s \<Longrightarrow> run_weight s \<le> 2 * card (dom (readers s)) + 4"
proof -
  assume "run_conns s"
  then have "card {c. readers s c = Some Reading} \<le> card (dom (readers s))" by (intro card_mono) (auto simp: run_conns_def)
  moreover have "evt_weight (evt s) \<le> 2" by (cases "evt s") simp_all
  ultimately show ?thesis by (auto simp: run_weight_def)
qed

section \<open>Backends whose polling does not fail\<close>

locale steady_backend =
  fixes ops :: "'b backend_ops"
  assumes poll_steady: "snd (op_poll ops b) \<noteq> Err e" and close_steady: "snd (op_close ops b) \<noteq> Err e"
begin

lemma poll_once_steady: "poll_once ops failing m \<noteq> (m', Err e)"
proof
  assume p: "poll_once ops failing m = (m', Err e)"
  obtain b1 r where b1: "op_poll ops (bk m) = (b1, r)" by (cases "op_poll ops (bk m)")
  obtain b2 c where b2: "op_close ops b1 = (b2, c)" by (cases "op_close ops b1")
  have "r \<noteq> Err x" "c \<noteq> Err x" for x using poll_steady[of "bk m" x] close_steady[of b1 x] b1 b2 by simp_all
  then show False using p b1 b2 by (auto simp: poll_once_def pollWindowEvents_def split: if_splits outcome.splits)
qed

lemma left_by_choice: "run_reach upper ops b s \<Longrightarrow> loop s \<noteq> LoopRunning \<Longrightarrow> ctx_done s \<or> stop_closed s"
  unfolding run_reach_def
proof (induction rule: rtranclp_induct)
  case base
  then show ?case by (simp add: init_run_def)
next
  case (step s s')
  from step(2) show ?case
  proof cases
    case (poll_fails failing m e)
    then show ?thesis using poll_once_steady by blast
  qed (use step in \<open>auto simp: drop_reader_def accept_client_clients\<close>)
qed

lemma reach_returned: "run_reach upper ops b s \<Longrightarrow> loop s = RunReturned \<Longrightarrow> returned s"
  using run_reach_conns[of upper ops b s] run_reach_good[of upper ops b s] left_by_choice[of upper b s] by (simp add: returned_def run_good_def)

lemma run_stops:
  assumes "run_reach upper ops b s" "loop s = RunReturned"
  shows "((run_step upper ops) ^^ n) s s' \<Longrightarrow> n \<le> 2 * card (dom (readers s)) + 4"
    and "(run_step upper ops)\<^sup>*\<^sup>* s s' \<Longrightarrow> \<nexists>u. run_step upper ops s' u \<Longrightarrow> dom (readers s') = {} \<and> live s' \<subseteq> clients_of s"
    and "\<exists>c. clients_of s \<subseteq> {c}"
    and "\<exists>s'. (run_step upper ops)\<^sup>*\<^sup>* s s' \<and> \<not> (\<exists>u. run_step upper ops s' u)"
proof -
  have r: "returned s" by (rule reach_returned[OF assms])
  then have c: "run_conns s" by (simp add: returned_def)
  show "n \<le> 2 * card (dom (readers s)) + 4" if "((run_step upper ops) ^^ n) s s'"
    using wm_run.run_bounded[OF that r] run_weight_bound[OF c] by simp
  show "dom (readers s') = {} \<and> live s' \<subseteq> clients_of s" if "(run_step upper ops)\<^sup>*\<^sup>* s s'" "\<nexists>u. run_step upper ops s' u"
  proof -
    have s': "returned s'" "clients_of s' \<subseteq> clients_of s" using returned_clients[OF that(1) r] by simp_all
    then have q: "quiet s'" using returned_not_stuck[of s' upper ops] that(2) by blast
    have "live s' \<subseteq> dom (readers s') \<union> clients_of s'" using s'(1) by (simp add: returned_def run_conns_def)
    then show ?thesis using q s'(2) by (auto simp: quiet_def)
  qed
  show "\<exists>c. clients_of s \<subseteq> {c}" using c assms(2) by (simp add: run_conns_def)
  obtain s' where s': "(run_step upper ops)\<^sup>*\<^sup>* s s'" "quiet s'" using wm_run.run_finishes[OF r] by blast
  then have "returned s'" using returned_clients[OF _ r] by blast
  have "run_weight s' = 0" using s'(2) by (simp add: quiet_def run_weight_def)
  then have "\<not> (\<exists>u. run_step upper ops s' u)" using returned_step[OF _ \<open>returned s'\<close>] by fastforce
  then show "\<exists>s'. (run_step upper ops)\<^sup>*\<^sup>* s s' \<and> \<not> (\<exists>u. run_step upper ops s' u)" using s'(1) by blast
qed

end

interpretation headless_steady: steady_backend "headless_ops files" for files
  by unfold_locales (auto simp: headless_ops_def on_window_def PollEvents_def Close_def split: option.splits)

interpretation sdl_steady: steady_backend "sdl_ops lib files" for lib files
  by unfold_locales (auto simp: sdl_ops_def sdl_PollEvents_def sdl_Close_def Let_def split: option.splits prod.splits)

section \<open>Properties\<close>




lemma reach_step: "run_reach upper ops b s \<Longrightarrow> run_step upper ops s s' \<Longrightarrow> run_reach upper ops b s'"
  by (simp add: run_reach_def)

lemma reach_shutdown:
  assumes "run_reach upper ops b s" "ctx_done s" "loop s = LoopRunning"
  shows "run_reach upper ops b (s\<lparr>cmd_on := False, evt_on := False, loop := RunReturned, live := live s - eventClients (wm_of s),
     wm_of := (wm_of s)\<lparr>eventClients := {}\<rparr>\<rparr>)"
proof -
  let ?l = "s\<lparr>loop := LoopLeft\<rparr>"
  let ?c = "?l\<lparr>loop := ListenersClosed, cmd_on := False, evt_on := False\<rparr>"
  have l: "run_step upper ops s ?l" using assms by (intro run_step.leave_loop) simp_all
  have c: "run_step upper ops ?l ?c" by (rule run_step.close_listeners) simp
  have "run_step upper ops ?c (?c\<lparr>loop := RunReturned, live := live ?c - eventClients (wm_of ?c), wm_of := (wm_of ?c)\<lparr>eventClients := {}\<rparr>\<rparr>)"
    by (rule run_step.close_clients) simp
  from reach_step[OF reach_step[OF reach_step[OF assms(1) l] c] this] show ?thesis by simp
qed


text \<open>C37: The clean-up of \<open>Run\<close> can miss an event client: the goroutine that accepts event clients may hold a new connection while \<open>Run\<close>
  returns, and enters it into the table after the table was emptied. In the end nothing runs any more, the client has read that it is
  subscribed, and its connection is still open.\<close>

theorem wm_event_client_leaks:
  "\<exists>s c. run_reach upper (headless_ops files) None s \<and> loop s = RunReturned \<and> \<not> (\<exists>u. run_step upper (headless_ops files) s u)
     \<and> c \<in> eventClients (wm_of s) \<and> c \<in> live s \<and> written (wm_of s) c = [reply True ''subscribed'']"
proof -
  let ?ops = "headless_ops files" and ?i = "init_run None :: Backend run_state"
  let ?a = "?i\<lparr>evt := EvtHolding 0, live := {0}\<rparr>"
  let ?b = "?a\<lparr>ctx_done := True\<rparr>"
  let ?c = "?b\<lparr>cmd_on := False, evt_on := False, loop := RunReturned, live := live ?b - eventClients (wm_of ?b), wm_of := (wm_of ?b)\<lparr>eventClients := {}\<rparr>\<rparr>"
  let ?d = "?c\<lparr>evt := EvtAccepting, wm_of := accept_event_client 0 True (wm_of ?c), live := live ?c\<rparr>"
  let ?e = "?d\<lparr>evt := EvtGone\<rparr>"
  let ?f = "?e\<lparr>cmd_accepting := False\<rparr>"
  have i: "run_reach upper ?ops None ?i" by (simp add: run_reach_def)
  have "run_step upper ?ops ?i (?i\<lparr>evt := EvtHolding 0, live := insert 0 (live ?i)\<rparr>)"
    by (rule run_step.accept_event) (simp_all add: init_run_def fresh_def init_wm_def)
  then have a: "run_step upper ?ops ?i ?a" by (simp add: init_run_def)
  have b: "run_step upper ?ops ?a ?b" by (rule run_step.cancel_ctx) (simp add: init_run_def)
  have c: "run_reach upper ?ops None ?c" by (rule reach_shutdown[OF reach_step[OF reach_step[OF i a] b]]) (simp_all add: init_run_def)
  have d: "run_step upper ?ops ?c ?d" using run_step.add_client[of ?c 0 upper ?ops True] by simp
  have e: "run_step upper ?ops ?d ?e" by (rule run_step.accept_event_fails) simp
  have f: "run_step upper ?ops ?e ?f" by (rule run_step.accept_command_fails) (simp add: init_run_def)
  note r = reach_step[OF reach_step[OF reach_step[OF c d] e] f]
  have s: "loop ?f = RunReturned" "readers ?f = (\<lambda>_. None)" "evt ?f = EvtGone" "ctx_done ?f" "\<not> cmd_accepting ?f" "\<not> cmd_on ?f" "\<not> evt_on ?f"
    by (simp_all add: init_run_def)
  have "\<not> run_step upper ?ops ?f u" for u by (rule notI, erule run_step.cases) (use s in auto)
  moreover have "0 \<in> eventClients (wm_of ?f)" "0 \<in> live ?f" "written (wm_of ?f) 0 = [reply True ''subscribed'']"
    by (simp_all add: accept_event_client_def init_run_def init_wm_def)
  ultimately show ?thesis using r s(1) by blast
qed

end
