(* ===== verification/Map_Relay.thy ===== *)
theory Map_Relay
  imports Map_Session Socket_Server "HOL-Library.Sublist"
begin

text \<open>
  \<^verbatim>\<open>RunWithBroker\<close> of \<^verbatim>\<open>app/map/broker.go\<close> with its concurrency: the goroutine that talks to the Broker, the two buffered channels between
  it and the session, the cancellation of the context with the callback that closes the connection, and the deferred functions on both
  sides. The session is \<open>runMap\<close> on the events that it has taken from its select so far.
\<close>

section \<open>State\<close>

text \<open>
  Where the goroutine is: \<open>Say\<close> is the select in \<^verbatim>\<open>notice\<close> with what follows it, \<open>Deliver\<close> the select that sends an update, \<open>Failed\<close> the
  return of \<^verbatim>\<open>receiveTargets\<close>, which always is an error, and the last four are its deferred closes.
\<close>

datatype relay_pc = DialBroker "string list" | WriteSub "string list" | WritePub string "string list" | Say string relay_pc | ReadFrame | Deliver Target
  | Failed string | CloseNotices | CloseUpdates | CloseDone | Ended

record relay =
  pc :: relay_pc
  ctx_cancelled :: bool
  conn_open :: bool
  broker_gone :: bool
  inbox :: string
  outbox :: string
  ch_updates :: "Target list"
  ch_notices :: "string list"
  taken :: "session_event list"
  run_cancelled :: bool
  run_returned :: bool

definition updates_cap :: nat where "updates_cap = 16"

definition notices_cap :: nat where "notices_cap = 8"

definition init_relay :: "string list \<Rightarrow> string \<Rightarrow> relay" where
  "init_relay ps bytes = \<lparr>pc = DialBroker ps, ctx_cancelled = False, conn_open = False, broker_gone = False, inbox = bytes, outbox = [],
     ch_updates = [], ch_notices = [], taken = [], run_cancelled = False, run_returned = False\<rparr>"

text \<open>The checks before the goroutine is started; \<open>bytes\<close> is all that the Broker will send.\<close>

definition RunWithBroker :: "string \<Rightarrow> Observation list \<Rightarrow> string \<Rightarrow> (msg_error, relay) outcome" where
  "RunWithBroker address obs bytes = obind (broker_payloads address obs) (\<lambda>ps. Ok (init_relay ps bytes))"

text \<open>A closed channel still delivers what is buffered in it; receiving from it afterwards reports that it is closed, once, because
  the session then forgets the channel.\<close>

definition notices_closed :: "relay_pc \<Rightarrow> bool" where
  "notices_closed p \<longleftrightarrow> p \<in> {CloseUpdates, CloseDone, Ended}"

definition updates_closed :: "relay_pc \<Rightarrow> bool" where
  "updates_closed p \<longleftrightarrow> p \<in> {CloseDone, Ended}"

fun after_writes :: "string list \<Rightarrow> relay_pc" where
  "after_writes [] = ReadFrame"
| "after_writes (p # ps) = WritePub p ps"

definition subscribe_line :: string where
  "subscribe_line = ''SUB targets.updated'' @ [newline]"

definition observation_line :: "string \<Rightarrow> string" where
  "observation_line p = pub_prefix @ p @ [newline]"

definition frame_pc :: "(msg_error \<Rightarrow> string) \<Rightarrow> received \<Rightarrow> relay_pc option" where
  "frame_pc describe r = (case r of
      Updated t \<Rightarrow> Some (Deliver t)
    | IgnoredMessage \<Rightarrow> Some (Say ''Ignored Broker message: expected MSG targets.updated'' ReadFrame)
    | IgnoredTarget e \<Rightarrow> Some (Say (''Ignored invalid Target: '' @ describe e) ReadFrame)
    | Crashed \<Rightarrow> None)"

definition unavailable :: "string \<Rightarrow> string" where
  "unavailable e = ''Broker unavailable: '' @ e @ ''; keeping last frame, no automatic reconnect or replay''"

text \<open>The session after the events it has taken: still in its loop, or returned.\<close>

definition in_loop :: "(session_event list \<Rightarrow> session_run) \<Rightarrow> relay \<Rightarrow> bool" where
  "in_loop sess r = (case sess (taken r) of Running _ \<Rightarrow> True | Finished _ _ \<Rightarrow> False)"

definition take_event :: "session_event \<Rightarrow> relay \<Rightarrow> relay" where
  "take_event ev r = r\<lparr>taken := taken r @ [ev]\<rparr>"

section \<open>Steps\<close>

text \<open>
  A read can deliver a frame that is already buffered after the connection is closed. A read without a frame ends when the connection is
  closed on this side or the Broker is gone, or the buffer is full. Dialling and writing have deadlines, so they can always fail.
\<close>

inductive relay_step :: "(msg_error \<Rightarrow> string) \<Rightarrow> (session_event list \<Rightarrow> session_run) \<Rightarrow> relay \<Rightarrow> relay \<Rightarrow> bool" for describe sess where
  dial: "pc r = DialBroker ps \<Longrightarrow> relay_step describe sess r (r\<lparr>pc := WriteSub ps, conn_open := True\<rparr>)"
| dial_fails: "pc r = DialBroker ps \<Longrightarrow> relay_step describe sess r (r\<lparr>pc := Failed e\<rparr>)"
| subscribe: "pc r = WriteSub ps \<Longrightarrow> conn_open r \<Longrightarrow>
     relay_step describe sess r (r\<lparr>pc := Say ''Broker connected; SUB targets.updated sent (protocol has no acknowledgement)'' (after_writes ps),
       outbox := outbox r @ subscribe_line\<rparr>)"
| subscribe_fails: "pc r = WriteSub ps \<Longrightarrow> relay_step describe sess r (r\<lparr>pc := Failed e, conn_open := False, outbox := outbox r @ take k subscribe_line\<rparr>)"
| publish: "pc r = WritePub p ps \<Longrightarrow> conn_open r \<Longrightarrow>
     relay_step describe sess r (r\<lparr>pc := Say ''Observation sent to Broker (delivery is not acknowledged)'' (after_writes ps),
       outbox := outbox r @ observation_line p\<rparr>)"
| publish_fails: "pc r = WritePub p ps \<Longrightarrow>
     relay_step describe sess r (r\<lparr>pc := Failed e, conn_open := False, outbox := outbox r @ take k (observation_line p)\<rparr>)"
| notice: "pc r = Say m k \<Longrightarrow> length (ch_notices r) < notices_cap \<Longrightarrow> relay_step describe sess r (r\<lparr>pc := k, ch_notices := ch_notices r @ [m]\<rparr>)"
| notice_dropped: "pc r = Say m k \<Longrightarrow> ctx_cancelled r \<Longrightarrow> relay_step describe sess r (r\<lparr>pc := k\<rparr>)"
| read_frame: "pc r = ReadFrame \<Longrightarrow> ReadSlice maxBrokerFrame (inbox r) = Line l rest \<Longrightarrow> frame_pc describe (receive_line l) = Some k \<Longrightarrow>
     relay_step describe sess r (r\<lparr>pc := k, inbox := rest\<rparr>)"
| read_fails: "pc r = ReadFrame \<Longrightarrow> \<not> conn_open r \<or> broker_gone r \<or> ReadSlice maxBrokerFrame (inbox r) = BufferFull \<Longrightarrow>
     relay_step describe sess r (r\<lparr>pc := Failed e, conn_open := False\<rparr>)"
| deliver: "pc r = Deliver t \<Longrightarrow> length (ch_updates r) < updates_cap \<Longrightarrow>
     relay_step describe sess r (r\<lparr>pc := ReadFrame, ch_updates := ch_updates r @ [t]\<rparr>)"
| deliver_cancelled: "pc r = Deliver t \<Longrightarrow> ctx_cancelled r \<Longrightarrow> relay_step describe sess r (r\<lparr>pc := Failed e, conn_open := False\<rparr>)"
| report: "pc r = Failed e \<Longrightarrow> relay_step describe sess r (r\<lparr>pc := (if ctx_cancelled r then CloseNotices else Say (unavailable e) CloseNotices)\<rparr>)"
| close_notices: "pc r = CloseNotices \<Longrightarrow> relay_step describe sess r (r\<lparr>pc := CloseUpdates\<rparr>)"
| close_updates: "pc r = CloseUpdates \<Longrightarrow> relay_step describe sess r (r\<lparr>pc := CloseDone\<rparr>)"
| close_done: "pc r = CloseDone \<Longrightarrow> relay_step describe sess r (r\<lparr>pc := Ended\<rparr>)"
| after_func: "ctx_cancelled r \<Longrightarrow> conn_open r \<Longrightarrow> relay_step describe sess r (r\<lparr>conn_open := False\<rparr>)"
| broker_leaves: "\<not> broker_gone r \<Longrightarrow> relay_step describe sess r (r\<lparr>broker_gone := True\<rparr>)"
| signal: "\<not> ctx_cancelled r \<Longrightarrow> relay_step describe sess r (r\<lparr>ctx_cancelled := True\<rparr>)"
| take_cancel: "in_loop sess r \<Longrightarrow> ctx_cancelled r \<Longrightarrow> relay_step describe sess r (take_event CtxDone r)"
| take_window: "in_loop sess r \<Longrightarrow> relay_step describe sess r (take_event (WindowEvent response cancelled) r)"
| take_update: "in_loop sess r \<Longrightarrow> ch_updates r = t # ts \<Longrightarrow> relay_step describe sess r (take_event (TargetUpdate t wait) (r\<lparr>ch_updates := ts\<rparr>))"
| take_notice: "in_loop sess r \<Longrightarrow> ch_notices r = m # ms \<Longrightarrow> relay_step describe sess r (take_event (NoticeMessage m) (r\<lparr>ch_notices := ms\<rparr>))"
| take_updates_closed: "in_loop sess r \<Longrightarrow> ch_updates r = [] \<Longrightarrow> updates_closed (pc r) \<Longrightarrow> UpdatesClosed \<notin> set (taken r) \<Longrightarrow>
     relay_step describe sess r (take_event UpdatesClosed r)"
| take_notices_closed: "in_loop sess r \<Longrightarrow> ch_notices r = [] \<Longrightarrow> notices_closed (pc r) \<Longrightarrow> NoticesClosed \<notin> set (taken r) \<Longrightarrow>
     relay_step describe sess r (take_event NoticesClosed r)"
| cancel: "\<not> in_loop sess r \<Longrightarrow> \<not> run_cancelled r \<Longrightarrow> relay_step describe sess r (r\<lparr>run_cancelled := True, ctx_cancelled := True\<rparr>)"
| wait_done: "run_cancelled r \<Longrightarrow> pc r = Ended \<Longrightarrow> \<not> run_returned r \<Longrightarrow> relay_step describe sess r (r\<lparr>run_returned := True\<rparr>)"

inductive_cases relay_stepE: "relay_step describe sess r r'"

definition relay_reach :: "(msg_error \<Rightarrow> string) \<Rightarrow> (session_event list \<Rightarrow> session_run) \<Rightarrow> relay \<Rightarrow> relay \<Rightarrow> bool" where
  "relay_reach describe sess = (relay_step describe sess)\<^sup>*\<^sup>*"

section \<open>What is relayed\<close>

fun updates_of :: "session_event list \<Rightarrow> Target list" where
  "updates_of [] = []"
| "updates_of (TargetUpdate t w # evs) = t # updates_of evs"
| "updates_of (_ # evs) = updates_of evs"

fun notices_of :: "session_event list \<Rightarrow> string list" where
  "notices_of [] = []"
| "notices_of (NoticeMessage m # evs) = m # notices_of evs"
| "notices_of (_ # evs) = notices_of evs"

lemma events_append:
  "updates_of (xs @ ys) = updates_of xs @ updates_of ys" "notices_of (xs @ ys) = notices_of xs @ notices_of ys"
  by (induction xs rule: updates_of.induct; simp) (induction xs rule: notices_of.induct; simp)

lemma updates_of_set: "TargetUpdate t w \<in> set evs \<Longrightarrow> t \<in> set (updates_of evs)"
  by (induction evs rule: updates_of.induct) auto

text \<open>What the goroutine still holds.\<close>

fun holding :: "relay_pc \<Rightarrow> Target list" where
  "holding (Deliver t) = [t]"
| "holding (Say m k) = holding k"
| "holding _ = []"

fun to_write :: "relay_pc \<Rightarrow> string" where
  "to_write (DialBroker ps) = published ps"
| "to_write (WriteSub ps) = published ps"
| "to_write (WritePub p ps) = concat (map observation_line (p # ps))"
| "to_write (Say m k) = to_write k"
| "to_write _ = []"

definition relayed :: "relay \<Rightarrow> Target list" where
  "relayed r = updates_of (taken r) @ ch_updates r @ holding (pc r) @ updates (receive_loop (inbox r))"

lemma published_lines: "published ps = subscribe_line @ concat (map observation_line ps)"
proof -
  have "observation_line = (\<lambda>p. pub_prefix @ p @ [newline])" by (simp add: fun_eq_iff observation_line_def)
  then show ?thesis by (simp add: published_def subscribe_line_def comp_def)
qed

lemma after_writes_simps [simp]: "to_write (after_writes ps) = concat (map observation_line ps)" "holding (after_writes ps) = []"
  by (cases ps; simp)+

lemma receive_loop_frame: "ReadSlice maxBrokerFrame s = Line l rest \<Longrightarrow> receive_loop s = receive_line l # receive_loop rest"
  by (subst receive_loop.simps) simp

lemma frame_pc_holding: "frame_pc describe x = Some k \<Longrightarrow> updates (x # rs) = holding k @ updates rs \<and> to_write k = []"
  by (auto simp: frame_pc_def split: received.splits)


text \<open>The connection to the Broker is given up.\<close>

fun given_up :: "relay_pc \<Rightarrow> bool" where
  "given_up (Say m k) = given_up k"
| "given_up p \<longleftrightarrow> p \<in> {CloseNotices, CloseUpdates, CloseDone, Ended} \<or> (\<exists>e. p = Failed e)"

fun offline :: "relay_pc \<Rightarrow> bool" where
  "offline (DialBroker ps) = True"
| "offline (Say m k) = offline k"
| "offline p = given_up p"

lemma after_writes_on [simp]: "\<not> given_up (after_writes ps)" "\<not> offline (after_writes ps)"
  by (cases ps; simp)+

lemma frame_pc_on: "frame_pc describe x = Some k \<Longrightarrow> \<not> given_up k \<and> \<not> offline k"
  by (auto simp: frame_pc_def split: received.splits)

definition relay_inv :: "string list \<Rightarrow> string \<Rightarrow> relay \<Rightarrow> bool" where
  "relay_inv ps bytes r \<longleftrightarrow> prefix (updates_of (taken r) @ ch_updates r) (updates (receive_loop bytes))
     \<and> (\<not> given_up (pc r) \<or> \<not> ctx_cancelled r \<longrightarrow> relayed r = updates (receive_loop bytes))
     \<and> prefix (outbox r) (published ps) \<and> (\<not> given_up (pc r) \<longrightarrow> outbox r @ to_write (pc r) = published ps)
     \<and> length (ch_updates r) \<le> updates_cap \<and> length (ch_notices r) \<le> notices_cap \<and> (offline (pc r) \<longrightarrow> \<not> conn_open r)"

lemma prefix_part: "xs @ ys @ zs = us \<Longrightarrow> prefix (xs @ take k ys) us"
  by (metis append_take_drop_id prefixI append.assoc)

lemma take_event_simps [simp]:
  "pc (take_event ev r) = pc r" "ctx_cancelled (take_event ev r) = ctx_cancelled r" "conn_open (take_event ev r) = conn_open r"
  "inbox (take_event ev r) = inbox r" "outbox (take_event ev r) = outbox r" "ch_updates (take_event ev r) = ch_updates r"
  "ch_notices (take_event ev r) = ch_notices r" "taken (take_event ev r) = taken r @ [ev]"
  by (simp_all add: take_event_def)

lemma relay_step_inv: "relay_step describe sess r r' \<Longrightarrow> relay_inv ps bytes r \<Longrightarrow> relay_inv ps bytes r'"
proof (induction rule: relay_step.induct)
  case (read_frame r l rest k)
  then show ?case using frame_pc_holding[OF read_frame(3)] frame_pc_on[OF read_frame(3)]
    by (auto simp: relay_inv_def relayed_def receive_loop_frame)
next
  case (subscribe_fails r)
  then show ?case using prefix_part[of "outbox r" subscribe_line] by (auto simp: relay_inv_def relayed_def published_lines)
next
  case (publish_fails r p ps')
  then show ?case using prefix_part[of "outbox r" "observation_line p"] by (auto simp: relay_inv_def relayed_def)
next
  case (deliver r t)
  then have "updates_of (taken r) @ ch_updates r @ [t] @ updates (receive_loop (inbox r)) = updates (receive_loop bytes)"
    by (simp add: relay_inv_def relayed_def)
  then have "prefix (updates_of (taken r) @ ch_updates r @ [t]) (updates (receive_loop bytes))" by (metis append.assoc prefixI)
  then show ?case using deliver by (auto simp: relay_inv_def relayed_def)
next
  case (subscribe r ps')
  then show ?case by (auto simp: relay_inv_def relayed_def published_lines prefix_def)
next
  case (publish r p ps')
  then show ?case by (auto simp: relay_inv_def relayed_def published_lines prefix_def)
qed (auto simp: relay_inv_def relayed_def events_append)

lemma relay_reach_inv: "relay_reach describe sess (init_relay ps bytes) r \<Longrightarrow> relay_inv ps bytes r"
  unfolding relay_reach_def
proof (induction rule: rtranclp_induct)
  case base
  show ?case by (simp add: relay_inv_def init_relay_def relayed_def)
qed (rule relay_step_inv)


text \<open>A session that was told that the channel is closed has emptied it.\<close>

definition drained :: "relay \<Rightarrow> bool" where
  "drained r \<longleftrightarrow> (UpdatesClosed \<in> set (taken r) \<longrightarrow> ch_updates r = [] \<and> updates_closed (pc r))"

lemma relay_step_drained: "relay_step describe sess r r' \<Longrightarrow> drained r \<Longrightarrow> drained r'"
  by (erule relay_stepE) (auto simp: drained_def updates_closed_def)

lemma relay_reach_drained: "relay_reach describe sess (init_relay ps bytes) r \<Longrightarrow> drained r"
  unfolding relay_reach_def
proof (induction rule: rtranclp_induct)
  case base
  show ?case by (simp add: drained_def init_relay_def)
qed (rule relay_step_drained)

lemma closed_updates_complete:
  assumes "relay_inv ps bytes r" "drained r" "\<not> ctx_cancelled r" "UpdatesClosed \<in> set (taken r)"
  shows "updates_of (taken r) @ updates (receive_loop (inbox r)) = updates (receive_loop bytes)"
  using assms by (auto simp: relay_inv_def relayed_def drained_def updates_closed_def)

section \<open>The targets of the session\<close>

lemma update_targets: "target_update env cfg t wait st = Continue st' \<Longrightarrow> s_targets st' = update_target (s_targets st) t"
  by (auto simp: target_update_def redraw_failed_def Let_def dest: send_frame_targets split: outcome.splits prod.splits option.splits if_splits wait.splits)

lemma step_targets: "session_step env cfg ev st = Continue st' \<Longrightarrow> s_targets st' = foldl update_target (s_targets st) (updates_of [ev])"
  by (auto simp: session_step_def dest: update_targets split: session_event.splits outcome.splits if_splits)

lemma loop_targets: "session_loop env cfg evs st = Running st' \<Longrightarrow> s_targets st' = foldl update_target (s_targets st) (updates_of evs)"
proof (induction evs arbitrary: st)
  case (Cons ev evs)
  then obtain st1 where st1: "session_step env cfg ev st = Continue st1" "session_loop env cfg evs st1 = Running st'"
    by (auto simp: return_def split: step_result.splits prod.splits)
  show ?case using Cons.IH[OF st1(2)] step_targets[OF st1(1)] events_append(1)[of "[ev]" evs] by simp
qed simp

lemma runMap_targets:
  assumes "runMap env subscription cfg ts evs = Running st"
  shows "s_targets st = foldl update_target ts (updates_of evs)"
proof -
  let ?new = "(new_session ts)\<lparr>s_sent := [create_command cfg], windowExists := True\<rparr>"
  obtain cmds ms st1 where s: "send_frame env cmds ?new = (st1, None)"
      "session_loop env cfg evs (log_it LogShown (log_it (LogMarkers ms (length (s_targets st1))) (st1\<lparr>s_sent := s_sent st1 @ [command ''SHOW'']\<rparr>)))
         = Running st"
    using assms by (auto simp: runMap_def show_map_def return_def send_def new_session_def split: outcome.splits option.splits prod.splits)
  show ?thesis using loop_targets[OF s(2)] send_frame_targets[OF s(1)] by (simp add: new_session_def)
qed

section \<open>Ending\<close>

fun pc_weight :: "relay_pc \<Rightarrow> nat" where
  "pc_weight (DialBroker ps) = 11 + 2 * length ps"
| "pc_weight (WriteSub ps) = 8 + 2 * length ps"
| "pc_weight (WritePub p ps) = 8 + 2 * length ps"
| "pc_weight (Say m k) = Suc (pc_weight k)"
| "pc_weight (Deliver t) = 7"
| "pc_weight ReadFrame = 6"
| "pc_weight (Failed e) = 5"
| "pc_weight CloseNotices = 3"
| "pc_weight CloseUpdates = 2"
| "pc_weight CloseDone = 1"
| "pc_weight Ended = 0"

definition relay_weight :: "relay \<Rightarrow> nat" where
  "relay_weight r = pc_weight (pc r) + 2 * length (inbox r) + of_bool (conn_open r) + of_bool (\<not> broker_gone r) + of_bool (\<not> ctx_cancelled r)
     + of_bool (\<not> run_cancelled r) + of_bool (\<not> run_returned r)"

definition session_over :: "(session_event list \<Rightarrow> session_run) \<Rightarrow> relay \<Rightarrow> bool" where
  "session_over sess r \<longleftrightarrow> \<not> in_loop sess r \<and> (run_cancelled r \<longrightarrow> ctx_cancelled r) \<and> (run_returned r \<longrightarrow> pc r = Ended)"

lemma after_writes_weight: "pc_weight (after_writes ps) \<le> 6 + 2 * length ps"
  by (cases ps) simp_all

lemma frame_pc_weight: "frame_pc describe x = Some k \<Longrightarrow> pc_weight k = 7"
  by (auto simp: frame_pc_def split: received.splits)

lemma in_loop_taken: "taken r' = taken r \<Longrightarrow> in_loop sess r' = in_loop sess r"
  by (simp add: in_loop_def)

lemma session_over_step:
  assumes "relay_step describe sess r r'" "session_over sess r"
  shows "session_over sess r' \<and> relay_weight r' < relay_weight r \<and> taken r' = taken r"
  using assms
proof (induction rule: relay_step.induct)
  case (read_frame r l rest k)
  then show ?case using frame_pc_weight[OF read_frame(3)] ReadSlice_shorter[OF read_frame(2)]
    by (simp add: session_over_def relay_weight_def in_loop_def)
next
  case (subscribe r ps)
  then show ?case using after_writes_weight[of ps] by (simp add: session_over_def relay_weight_def in_loop_def)
next
  case (publish r p ps)
  then show ?case using after_writes_weight[of ps] by (simp add: session_over_def relay_weight_def in_loop_def)
qed (auto simp: session_over_def relay_weight_def in_loop_def)

lemma session_over_not_stuck:
  assumes "session_over sess r" "\<not> run_returned r"
  shows "\<exists>r'. relay_step describe sess r r'"
proof (cases "run_cancelled r")
  case False
  then show ?thesis using relay_step.cancel assms by (fastforce simp: session_over_def)
next
  case True
  then have c: "ctx_cancelled r" using assms by (simp add: session_over_def)
  show ?thesis
  proof (cases "pc r")
    case ReadFrame
    then show ?thesis using relay_step.read_fails relay_step.after_func[OF c] by blast
  next
    case Ended
    then show ?thesis using relay_step.wait_done[OF True Ended assms(2)] by blast
  qed (use c in \<open>blast intro: relay_step.intros\<close>)+
qed

interpretation broker_relay: draining "relay_step describe sess" "session_over sess" relay_weight run_returned for describe sess
  by unfold_locales (use session_over_step session_over_not_stuck in blast)+

lemma session_over_run:
  "(relay_step describe sess)\<^sup>*\<^sup>* r r' \<Longrightarrow> session_over sess r \<Longrightarrow> session_over sess r' \<and> taken r' = taken r"
  by (induction rule: rtranclp_induct) (use session_over_step in auto)

definition relay_flags :: "string list \<Rightarrow> relay \<Rightarrow> bool" where
  "relay_flags ps r \<longleftrightarrow> (run_cancelled r \<longrightarrow> ctx_cancelled r) \<and> (run_returned r \<longrightarrow> pc r = Ended) \<and> pc_weight (pc r) \<le> 11 + 2 * length ps"

lemma relay_step_flags: "relay_step describe sess r r' \<Longrightarrow> relay_flags ps r \<Longrightarrow> relay_flags ps r'"
proof (induction rule: relay_step.induct)
  case (read_frame r l rest k)
  then show ?case using frame_pc_weight[OF read_frame(3)] by (simp add: relay_flags_def)
next
  case (subscribe r ps')
  then show ?case using after_writes_weight[of ps'] by (simp add: relay_flags_def)
next
  case (publish r p ps')
  then show ?case using after_writes_weight[of ps'] by (simp add: relay_flags_def)
qed (auto simp: relay_flags_def take_event_def)

lemma relay_reach_flags: "relay_reach describe sess (init_relay ps bytes) r \<Longrightarrow> relay_flags ps r"
  unfolding relay_reach_def
proof (induction rule: rtranclp_induct)
  case base
  show ?case by (simp add: relay_flags_def init_relay_def)
qed (rule relay_step_flags)

lemma relay_weight_bound: "relay_flags ps r \<Longrightarrow> relay_weight r \<le> 2 * length (inbox r) + 2 * length ps + 16"
  by (simp add: relay_flags_def relay_weight_def)

lemma payloads_length: "payloads obs = Ok ps \<Longrightarrow> length ps = length obs"
  by (induction obs arbitrary: ps) (auto simp: outcome_simps split: option.splits if_splits)

lemma RunWithBroker_Ok:
  assumes "RunWithBroker address obs bytes = Ok r"
  obtains ps where "broker_payloads address obs = Ok ps" "r = init_relay ps bytes" "length ps = length obs"
  using assms payloads_length by (auto simp: RunWithBroker_def broker_payloads_def outcome_simps split: if_splits)

section \<open>Properties\<close>

text \<open>C14: The goroutine of \<open>RunWithBroker\<close> relays the Broker to the session faithfully, in every interleaving and with every failure: the
  bytes it has written are a prefix of the subscription and the observations; the updates that the session has taken are the
  first valid targets of the bytes the Broker sent, in order; the targets a running session shows are those updates applied
  one after the other, and none of them makes a frame fail; and when the session, not cancelled, has seen the end of the updates, none that was
  read is missing.\<close>

theorem broker_session_sound:
  assumes "RunWithBroker address obs bytes = Ok r0" "relay_reach describe (runMap env subscription cfg []) r0 r"
  shows "\<exists>ps. broker_payloads address obs = Ok ps \<and> prefix (outbox r) (published ps)
     \<and> prefix (updates_of (taken r)) (updates (receive_loop bytes))
     \<and> (\<forall>st. runMap env subscription cfg [] (taken r) = Running st \<longrightarrow> s_targets st = foldl update_target [] (updates_of (taken r)))
     \<and> (\<forall>st result e. Validate cfg = Ok () \<and> runMap env subscription cfg [] (taken r) = Finished st result \<longrightarrow>
          result \<noteq> Some (FrameError e) \<and> (\<forall>ce. result \<noteq> Some (CloseError (Some (FrameError e)) ce)))
     \<and> (\<not> ctx_cancelled r \<and> UpdatesClosed \<in> set (taken r) \<longrightarrow>
          updates (receive_loop bytes) = updates_of (taken r) @ updates (receive_loop (inbox r)))"
proof -
  obtain ps where ps: "broker_payloads address obs = Ok ps" "r0 = init_relay ps bytes" using RunWithBroker_Ok[OF assms(1)] by blast
  note inv = relay_reach_inv[OF assms(2)[unfolded ps(2)]] and dr = relay_reach_drained[OF assms(2)[unfolded ps(2)]]
  have p: "prefix (outbox r) (published ps)" "prefix (updates_of (taken r)) (updates (receive_loop bytes))"
    using inv by (auto simp: relay_inv_def dest: append_prefixD)
  then have u: "\<forall>t w. TargetUpdate t w \<in> set (taken r) \<longrightarrow> t \<in> set (updates (receive_loop bytes))"
    using updates_of_set set_mono_prefix by blast
  have "result \<noteq> Some (FrameError e) \<and> (\<forall>ce. result \<noteq> Some (CloseError (Some (FrameError e)) ce))"
    if "Validate cfg = Ok ()" "runMap env subscription cfg [] (taken r) = Finished st result" for st result e
    using runMap_no_frame_error[OF that(1) u that(2)] by blast
  moreover note runMap_targets[of env subscription cfg "[]" "taken r"] closed_updates_complete[OF inv dr]
  ultimately show ?thesis using ps(1) p by (intro exI[of _ ps]) simp
qed

text \<open>A session of the sample map that shows its window.\<close>

abbreviation sample_session :: "session_event list \<Rightarrow> session_run" where
  "sample_session \<equiv> runMap (\<lambda>_. None) None sample_config []"

lemma sample_session_runs: "\<exists>st. sample_session [] = Running st" "\<exists>st. sample_session [CtxDone] = Finished st None"
proof -
  have c: "Validate sample_config = Ok ()" by (simp add: Validate_def sample_config_def Bounds_validate_def unit_bounds_def f64_le_def)
  obtain cmds ms where f: "BuildFrame sample_config [] = Ok (cmds, ms)"
    using drawable_targets_BuildFrame[OF c, of "[]"] by (auto simp: drawable_targets_def)
  show "\<exists>st. sample_session [] = Running st" "\<exists>st. sample_session [CtxDone] = Finished st None"
    by (simp_all add: runMap_def f send_def show_map_def send_frame_all session_step_def return_def cleanup_def)
qed

lemma sample_in_loop: "taken r = [] \<Longrightarrow> in_loop sample_session r"
  using sample_session_runs(1) by (auto simp: in_loop_def)

lemma RunWithBroker_plain: "RunWithBroker ''tac:9'' [] bytes = Ok (init_relay [] bytes)"
  by (simp add: RunWithBroker_def broker_payloads_def)

lemma relay_reach_step: "relay_reach describe sess r0 r \<Longrightarrow> relay_step describe sess r r' \<Longrightarrow> relay_reach describe sess r0 r'"
  by (simp add: relay_reach_def)

lemma relay_reach_refl: "relay_reach describe sess r r"
  by (simp add: relay_reach_def)

text \<open>Connecting without observations, skipping a frame and passing an update on.\<close>

lemma relay_connects:
  "relay_reach describe sess (init_relay [] bytes) ((init_relay [] bytes)\<lparr>pc := ReadFrame, conn_open := True, outbox := subscribe_line,
     ch_notices := [''Broker connected; SUB targets.updated sent (protocol has no acknowledgement)'']\<rparr>)"
  (is "relay_reach _ _ ?i ?r")
proof -
  let ?d = "?i\<lparr>pc := WriteSub [], conn_open := True\<rparr>"
  let ?s = "?d\<lparr>pc := Say ''Broker connected; SUB targets.updated sent (protocol has no acknowledgement)'' ReadFrame, outbox := subscribe_line\<rparr>"
  have d: "relay_step describe sess ?i ?d" by (rule relay_step.dial) (simp add: init_relay_def)
  have s: "relay_step describe sess ?d ?s" using relay_step.subscribe[of ?d "[]" describe sess] by (simp add: init_relay_def)
  have "relay_step describe sess ?s ?r" using relay_step.notice[of ?s _ ReadFrame describe sess] by (simp add: init_relay_def notices_cap_def)
  from relay_reach_step[OF relay_reach_step[OF relay_reach_step[OF relay_reach_refl d] s] this] show ?thesis .
qed

lemma relay_skips:
  assumes "pc r = ReadFrame" "ReadSlice maxBrokerFrame (inbox r) = Line l rest" "receive_line l = IgnoredMessage" "length (ch_notices r) < notices_cap"
  shows "relay_reach describe sess r (r\<lparr>inbox := rest, pc := ReadFrame, ch_notices := ch_notices r @ [''Ignored Broker message: expected MSG targets.updated'']\<rparr>)"
proof -
  let ?r = "r\<lparr>pc := Say ''Ignored Broker message: expected MSG targets.updated'' ReadFrame, inbox := rest\<rparr>"
  have s: "relay_step describe sess r ?r" using assms(3) by (intro relay_step.read_frame[OF assms(1,2)]) (simp add: frame_pc_def)
  have "relay_step describe sess ?r (?r\<lparr>pc := ReadFrame, ch_notices := ch_notices ?r @ [''Ignored Broker message: expected MSG targets.updated'']\<rparr>)"
    using assms(4) by (intro relay_step.notice) simp_all
  from relay_reach_step[OF relay_reach_step[OF relay_reach_refl s] this] show ?thesis by simp
qed

lemma relay_updates:
  assumes "pc r = ReadFrame" "ReadSlice maxBrokerFrame (inbox r) = Line l rest" "receive_line l = Updated t" "ch_updates r = []" "in_loop sess r"
  shows "relay_reach describe sess r (take_event (TargetUpdate t wait) (r\<lparr>inbox := rest, pc := ReadFrame, ch_updates := []\<rparr>))"
proof -
  let ?h = "r\<lparr>pc := Deliver t, inbox := rest\<rparr>"
  let ?d = "?h\<lparr>pc := ReadFrame, ch_updates := ch_updates ?h @ [t]\<rparr>"
  have h: "relay_step describe sess r ?h" using assms(3) by (intro relay_step.read_frame[OF assms(1,2)]) (simp add: frame_pc_def)
  have d: "relay_step describe sess ?h ?d" using assms(4) by (intro relay_step.deliver) (simp_all add: updates_cap_def)
  have "relay_step describe sess ?d (take_event (TargetUpdate t wait) (?d\<lparr>ch_updates := []\<rparr>))"
    using assms(4,5) by (intro relay_step.take_update) (simp_all add: in_loop_def)
  from relay_reach_step[OF relay_reach_step[OF relay_reach_step[OF relay_reach_refl h] d] this] show ?thesis by simp
qed

lemma sample_update_taken:
  obtains r t where "relay_reach describe sample_session (init_relay [] sample_frames) r" "updates_of (taken r) = [t]" "TargetID t = ''17''"
proof -
  let ?t = "\<lparr>TargetID = ''17'', Latitude = Fin 1, Longitude = Fin 1, Probability = Fin 1, LastSeenAt = 7\<rparr>"
  let ?l = "msg_prefix @ sample_payload" and ?o = "''MSG other x''"
  have c: "newline \<notin> set sample_payload" "length sample_payload < 900" by code_simp+
  have o: "ReadSlice maxBrokerFrame sample_frames = Line (?o @ [newline]) (?l @ [newline])" "receive_line (?o @ [newline]) = IgnoredMessage"
    unfolding sample_frames_def by (subst ReadSlice_append) (simp_all add: maxBrokerFrame_def receive_line_def msg_prefix_def HasPrefix_def)
  have l: "ReadSlice maxBrokerFrame (?l @ [newline]) = Line (?l @ [newline]) []" "receive_line (?l @ [newline]) = Updated ?t"
    using ReadSlice_append[of ?l maxBrokerFrame "[]"] c
    by (simp_all add: maxBrokerFrame_def receive_line_def HasPrefix_def sample_payload_parsed butlast_append) (simp add: msg_prefix_def)
  obtain r1 where r1: "relay_reach describe sample_session (init_relay [] sample_frames) r1" "pc r1 = ReadFrame" "inbox r1 = sample_frames"
      "length (ch_notices r1) = 1" "ch_updates r1 = []" "taken r1 = []"
    using relay_connects by (fastforce simp: init_relay_def)
  let ?r2 = "r1\<lparr>inbox := ?l @ [newline], pc := ReadFrame, ch_notices := ch_notices r1 @ [''Ignored Broker message: expected MSG targets.updated'']\<rparr>"
  have "relay_reach describe sample_session r1 ?r2" by (rule relay_skips) (use r1 o in \<open>simp_all add: notices_cap_def\<close>)
  moreover have "relay_reach describe sample_session ?r2 (take_event (TargetUpdate ?t WaitTimeout) (?r2\<lparr>inbox := [], pc := ReadFrame, ch_updates := []\<rparr>))"
    by (rule relay_updates[where l = "?l @ [newline]"]) (use r1 l in \<open>simp_all add: sample_in_loop\<close>)
  ultimately have "relay_reach describe sample_session (init_relay [] sample_frames) (take_event (TargetUpdate ?t WaitTimeout) (?r2\<lparr>inbox := [], pc := ReadFrame, ch_updates := []\<rparr>))"
    using r1(1) unfolding relay_reach_def by (meson rtranclp_trans)
  then show thesis by (rule that[of _ ?t]) (simp_all add: r1(6))
qed

lemma broker_session_sound_witness:
  "\<exists>r. relay_reach (\<lambda>_. []) sample_session (init_relay [] sample_frames) r \<and> prefix (outbox r) (published [])
     \<and> prefix (updates_of (taken r)) (updates (receive_loop sample_frames)) \<and> map TargetID (updates_of (taken r)) = [''17'']"
proof -
  obtain r t where r: "relay_reach (\<lambda>_. []) sample_session (init_relay [] sample_frames) r" "updates_of (taken r) = [t]" "TargetID t = ''17''"
    by (rule sample_update_taken)
  show ?thesis using broker_session_sound[OF RunWithBroker_plain r(1)] r by (auto simp: broker_payloads_def)
qed



end
