(* ===== verification/Socket_Files.thy ===== *)
theory Socket_Files
  imports Tac_Prelude
begin

text \<open>
  How the servers create and remove their socket files: \<^verbatim>\<open>Listen\<close> and \<^verbatim>\<open>Close\<close> of
  \<^verbatim>\<open>server/dbms/internal/server/server.go\<close>, which hold a lock file, and \<^verbatim>\<open>Listen\<close> and \<^verbatim>\<open>removeStale\<close> of
  \<^verbatim>\<open>prototypes/marker-detect/ipc/listen_unix.go\<close>, which do not. Any number of processes run this code on one path;
  each system call is one step, the steps of the processes interleave freely, and a process may be killed at any moment.
\<close>

section \<open>The path and the kernel\<close>

type_synonym process = nat

datatype file_kind = SocketFile | RegularFile | OtherFile

record inode =
  i_kind :: file_kind
  i_owner :: nat
  i_perm :: nat

text \<open>
  What the path names, the inodes with a bound for those in use, the process that listens on a socket, the lock file and
  the process that holds its lock. The kernel drops the lock and the listening socket of a process that ends.
\<close>

record world =
  entry :: "nat option"
  inodes :: "nat \<Rightarrow> inode"
  used :: nat
  listens :: "nat \<Rightarrow> process option"
  lockfile :: "inode option"
  flock :: "process option"

definition unlink_path :: "world \<Rightarrow> world" where
  "unlink_path w = w\<lparr>entry := None\<rparr>"

text \<open>\<^verbatim>\<open>bind\<close> makes a socket file at a free path; nobody listens on it yet.\<close>

definition bind_path :: "nat \<Rightarrow> nat \<Rightarrow> world \<Rightarrow> world" where
  "bind_path uid perm w = w\<lparr>entry := Some (used w), used := Suc (used w),
     inodes := (inodes w)(used w := \<lparr>i_kind = SocketFile, i_owner = uid, i_perm = perm\<rparr>), listens := (listens w)(used w := None)\<rparr>"

definition listen_on :: "nat \<Rightarrow> process \<Rightarrow> world \<Rightarrow> world" where
  "listen_on i p w = w\<lparr>listens := (listens w)(i \<mapsto> p)\<rparr>"

definition stop_listening :: "nat \<Rightarrow> world \<Rightarrow> world" where
  "stop_listening i w = w\<lparr>listens := (listens w)(i := None)\<rparr>"

definition chmod_path :: "nat \<Rightarrow> world \<Rightarrow> world" where
  "chmod_path perm w = (case entry w of None \<Rightarrow> w | Some i \<Rightarrow> w\<lparr>inodes := (inodes w)(i := (inodes w i)\<lparr>i_perm := perm\<rparr>)\<rparr>)"

definition drop_lock :: "process \<Rightarrow> world \<Rightarrow> world" where
  "drop_lock p w = (if flock w = Some p then w\<lparr>flock := None\<rparr> else w)"

definition die :: "process \<Rightarrow> world \<Rightarrow> world" where
  "die p w = (drop_lock p w)\<lparr>listens := (\<lambda>i. if listens w i = Some p then None else listens w i)\<rparr>"

lemmas world_defs = unlink_path_def bind_path_def listen_on_def stop_listening_def drop_lock_def die_def chmod_path_def

section \<open>The database server\<close>

text \<open>\<^verbatim>\<open>owned\<close>, and the checks of the lock file and of a file found at the path\<close>

definition owned :: "nat \<Rightarrow> inode \<Rightarrow> bool" where
  "owned euid f \<longleftrightarrow> i_owner f = euid"

definition lock_safe :: "nat \<Rightarrow> inode \<Rightarrow> bool" where
  "lock_safe euid f \<longleftrightarrow> i_kind f = RegularFile \<and> owned euid f \<and> i_perm f = 384"

definition replaceable :: "nat \<Rightarrow> inode \<Rightarrow> bool" where
  "replaceable euid f \<longleftrightarrow> i_kind f = SocketFile \<and> owned euid f"

text \<open>
  Where a process is: before the calls of \<^verbatim>\<open>Listen\<close>, between them, serving on the socket \<open>i\<close> with the inode \<open>j\<close>
  that \<^verbatim>\<open>Lstat\<close> returned, inside \<^verbatim>\<open>Close\<close>, or ended.
\<close>

datatype db_pc = Start | LockOpened | LockChecked | LockHeld | SeenSocket | SeenStale | PathFree
  | Bound nat | Listening nat | Stated nat nat | ChmodFailed nat | Serving nat nat
  | ListenerClosed nat | Removing | Unlocking | Gone

text \<open>
  The calls of \<^verbatim>\<open>Listen\<close> in order. Every call may fail; then the process ends and its lock file is closed. \<open>384\<close> is
  \<^verbatim>\<open>0600\<close>.
\<close>

inductive db_Listen :: "nat \<Rightarrow> process \<Rightarrow> world \<Rightarrow> db_pc \<Rightarrow> world \<Rightarrow> db_pc \<Rightarrow> bool" for euid p where
  open_lock: "db_Listen euid p w Start
     (w\<lparr>lockfile := Some (case lockfile w of None \<Rightarrow> \<lparr>i_kind = RegularFile, i_owner = euid, i_perm = 384\<rparr> | Some f \<Rightarrow> f)\<rparr>) LockOpened"
| lock_file_safe: "lockfile w = Some f \<Longrightarrow> lock_safe euid f \<Longrightarrow> db_Listen euid p w LockOpened w LockChecked"
| lock_taken: "flock w = None \<Longrightarrow> db_Listen euid p w LockChecked (w\<lparr>flock := Some p\<rparr>) LockHeld"
| path_missing: "entry w = None \<Longrightarrow> db_Listen euid p w LockHeld w PathFree"
| path_socket: "entry w = Some i \<Longrightarrow> replaceable euid (inodes w i) \<Longrightarrow> db_Listen euid p w LockHeld w SeenSocket"
| dial_refused: "entry w = Some i \<Longrightarrow> i_kind (inodes w i) = SocketFile \<Longrightarrow> listens w i = None \<Longrightarrow> db_Listen euid p w SeenSocket w SeenStale"
| removed: "entry w \<noteq> None \<Longrightarrow> db_Listen euid p w SeenStale (unlink_path w) PathFree"
| bound: "entry w = None \<Longrightarrow> db_Listen euid p w PathFree (bind_path euid perm w) (Bound (used w))"
| listening: "db_Listen euid p w (Bound i) (listen_on i p w) (Listening i)"
| stated: "entry w = Some j \<Longrightarrow> db_Listen euid p w (Listening i) w (Stated i j)"
| not_stated: "db_Listen euid p w (Listening i) (drop_lock p (stop_listening i w)) Gone"
| chmod_done: "entry w \<noteq> None \<Longrightarrow> db_Listen euid p w (Stated i j) (chmod_path 384 w) (Serving i j)"
| chmod_fails: "db_Listen euid p w (Stated i j) (stop_listening i w) (ChmodFailed i)"
| cleaned: "db_Listen euid p w (ChmodFailed i) (drop_lock p (unlink_path w)) Gone"
| fails: "pc \<in> {Start, LockOpened, LockChecked, LockHeld, SeenSocket, SeenStale, PathFree} \<union> range Bound \<Longrightarrow>
     db_Listen euid p w pc (drop_lock p w) Gone"

inductive db_Close :: "process \<Rightarrow> world \<Rightarrow> db_pc \<Rightarrow> world \<Rightarrow> db_pc \<Rightarrow> bool" for p where
  listener_closed: "db_Close p w (Serving i j) (stop_listening i w) (ListenerClosed j)"
| same_file: "entry w = Some j \<Longrightarrow> i_kind (inodes w j) = SocketFile \<Longrightarrow> db_Close p w (ListenerClosed j) w Removing"
| other_file: "\<not> (entry w = Some j \<and> i_kind (inodes w j) = SocketFile) \<Longrightarrow> db_Close p w (ListenerClosed j) w Unlocking"
| unreadable: "db_Close p w (ListenerClosed j) w Unlocking"
| socket_removed: "db_Close p w Removing (unlink_path w) Unlocking"
| remove_fails: "db_Close p w Removing w Unlocking"
| unlocked: "db_Close p w Unlocking (drop_lock p w) Gone"

text \<open>The processes together; \<open>kill\<close> ends one at any moment.\<close>

inductive db_sys :: "nat \<Rightarrow> world \<times> (process \<Rightarrow> db_pc) \<Rightarrow> world \<times> (process \<Rightarrow> db_pc) \<Rightarrow> bool" for euid where
  in_Listen: "db_Listen euid p w (pcs p) w' pc \<Longrightarrow> db_sys euid (w, pcs) (w', pcs(p := pc))"
| in_Close: "db_Close p w (pcs p) w' pc \<Longrightarrow> db_sys euid (w, pcs) (w', pcs(p := pc))"
| kill: "db_sys euid (w, pcs) (die p w, pcs(p := Gone))"

text \<open>
  At the start no process has the lock; the path and the lock file may hold anything, also a socket on which some other
  program listens.
\<close>

definition start_world :: "world \<Rightarrow> bool" where
  "start_world w \<longleftrightarrow> flock w = None \<and> (\<forall>i. entry w = Some i \<longrightarrow> i < used w) \<and> (\<forall>i \<ge> used w. listens w i = None)"

definition db_reach :: "nat \<Rightarrow> world \<Rightarrow> world \<times> (process \<Rightarrow> db_pc) \<Rightarrow> bool" where
  "db_reach euid w0 s \<longleftrightarrow> (db_sys euid)\<^sup>*\<^sup>* (w0, \<lambda>_. Start) s"

section \<open>The lock protects the path\<close>

fun holding :: "db_pc \<Rightarrow> bool" where
  "holding Start = False"
| "holding LockOpened = False"
| "holding LockChecked = False"
| "holding Gone = False"
| "holding pc = True"

text \<open>What the socket at the path is while a process is between two calls; \<open>l\<close> is who listens on it.\<close>

definition at_path :: "nat \<Rightarrow> world \<Rightarrow> nat \<Rightarrow> process option \<Rightarrow> bool" where
  "at_path euid w i l \<longleftrightarrow> entry w = Some i \<and> replaceable euid (inodes w i) \<and> listens w i = l"

fun pc_inv :: "nat \<Rightarrow> process \<Rightarrow> world \<Rightarrow> db_pc \<Rightarrow> bool" where
  "pc_inv euid p w SeenSocket = (\<exists>i. at_path euid w i (listens w i))"
| "pc_inv euid p w SeenStale = (\<exists>i. at_path euid w i None)"
| "pc_inv euid p w PathFree = (entry w = None)"
| "pc_inv euid p w (Bound i) = at_path euid w i None"
| "pc_inv euid p w (Listening i) = at_path euid w i (Some p)"
| "pc_inv euid p w (Stated i j) = (i = j \<and> at_path euid w i (Some p))"
| "pc_inv euid p w (ChmodFailed i) = at_path euid w i None"
| "pc_inv euid p w (Serving i j) = (i = j \<and> at_path euid w i (Some p) \<and> i_perm (inodes w i) = 384)"
| "pc_inv euid p w (ListenerClosed j) = at_path euid w j None"
| "pc_inv euid p w Removing = (\<exists>i. at_path euid w i None)"
| "pc_inv euid p w pc = True"

lemma pc_inv_idle: "\<not> holding pc \<Longrightarrow> pc_inv euid p w pc"
  by (cases pc) simp_all

lemma pc_inv_cong:
  "entry w' = entry w \<Longrightarrow> inodes w' = inodes w \<Longrightarrow> listens w' = listens w \<Longrightarrow> pc_inv euid p w' pc = pc_inv euid p w pc"
  by (cases pc) (simp_all add: at_path_def)

definition sys_inv :: "nat \<Rightarrow> world \<times> (process \<Rightarrow> db_pc) \<Rightarrow> bool" where
  "sys_inv euid s \<longleftrightarrow> (case s of (w, pcs) \<Rightarrow>
     (\<forall>p. holding (pcs p) \<longleftrightarrow> flock w = Some p) \<and> (\<forall>p. pc_inv euid p w (pcs p)))"

text \<open>A process that does not hold the lock touches neither the path nor a socket.\<close>

lemma idle_step:
  assumes "db_Listen euid p w pc w' pc'" "\<not> holding pc" "flock w \<noteq> Some p"
  shows "entry w' = entry w \<and> inodes w' = inodes w \<and> listens w' = listens w"
    and "flock w' = (if holding pc' then Some p else flock w)" and "holding pc' \<Longrightarrow> flock w = None" and "holding pc' \<Longrightarrow> pc' = LockHeld"
  using assms by (induction rule: db_Listen.induct) (auto simp: world_defs)

lemma busy_step:
  assumes "db_Listen euid p w pc w' pc' \<or> db_Close p w pc w' pc'" "holding pc" "flock w = Some p" "pc_inv euid p w pc"
  shows "pc_inv euid p w' pc' \<and> flock w' = (if holding pc' then Some p else None)"
  using assms(1)
proof
  assume "db_Listen euid p w pc w' pc'"
  then show ?thesis
    using assms(2-4) by (induction rule: db_Listen.induct) (auto simp: world_defs at_path_def replaceable_def owned_def)
next
  assume "db_Close p w pc w' pc'"
  then show ?thesis
    using assms(2-4) by (induction rule: db_Close.induct) (auto simp: world_defs at_path_def replaceable_def owned_def)
qed

lemma Close_holding: "db_Close p w pc w' pc' \<Longrightarrow> holding pc"
  by (induction rule: db_Close.induct) simp_all

lemma die_pc_inv: "q \<noteq> p \<Longrightarrow> pc_inv euid q w pc \<Longrightarrow> pc_inv euid q (die p w) pc"
  by (cases pc) (auto simp: at_path_def die_def drop_lock_def)

lemma proc_step_inv:
  assumes inv: "sys_inv euid (w, pcs)" and st: "db_Listen euid p w (pcs p) w' pc' \<or> db_Close p w (pcs p) w' pc'"
  shows "sys_inv euid (w', pcs(p := pc'))"
proof (cases "holding (pcs p)")
  case True
  then have f: "flock w = Some p" using inv by (simp add: sys_inv_def)
  have n: "\<not> holding (pcs q)" if "q \<noteq> p" for q using inv f that by (auto simp: sys_inv_def)
  have "pc_inv euid p w (pcs p)" using inv by (simp add: sys_inv_def)
  from busy_step[OF st True f this] show ?thesis using n pc_inv_idle by (auto simp: sys_inv_def)
next
  case False
  then have st: "db_Listen euid p w (pcs p) w' pc'" using st Close_holding by blast
  have f: "flock w \<noteq> Some p" using inv False by (auto simp: sys_inv_def)
  note i = idle_step[OF st False f]
  have "pc_inv euid p w' pc'" using i(4) pc_inv_idle by (cases "holding pc'") auto
  moreover have "pc_inv euid q w' (pcs q)" for q using inv i(1) pc_inv_cong[of w' w] by (auto simp: sys_inv_def)
  ultimately show ?thesis using inv i(2,3) f by (auto simp: sys_inv_def)
qed

lemma db_sys_inv: "db_sys euid s s' \<Longrightarrow> sys_inv euid s \<Longrightarrow> sys_inv euid s'"
proof (induction rule: db_sys.induct)
  case (kill w pcs p)
  have l: "flock (die p w) = (if flock w = Some p then None else flock w)" by (simp add: die_def drop_lock_def)
  show ?case using kill die_pc_inv by (auto simp: sys_inv_def l)
qed (use proc_step_inv in blast)+

lemma db_reach_inv: "db_reach euid w0 s \<Longrightarrow> start_world w0 \<Longrightarrow> sys_inv euid s"
  unfolding db_reach_def
proof (induction rule: rtranclp_induct)
  case base
  then show ?case by (simp add: sys_inv_def start_world_def)
qed (rule db_sys_inv)

text \<open>Which steps change what the path names.\<close>

lemma entry_change:
  assumes "db_Listen euid p w pc w' pc' \<or> db_Close p w pc w' pc'" "entry w = Some i" "entry w' \<noteq> Some i"
  shows "pc \<in> {SeenStale, Removing} \<union> range ChmodFailed"
  using assms(1)
proof (elim disjE)
  assume "db_Listen euid p w pc w' pc'"
  then show ?thesis using assms(2,3) by (induction rule: db_Listen.induct) (auto simp: world_defs split: option.splits if_splits)
next
  assume "db_Close p w pc w' pc'"
  then show ?thesis using assms(2,3) by (induction rule: db_Close.induct) (auto simp: world_defs split: if_splits)
qed

section \<open>The detector\<close>

text \<open>
  \<^verbatim>\<open>removeStale\<close> and \<^verbatim>\<open>Listen\<close> without a lock. The listener removes its path when it is closed, whatever file has that
  name then.
\<close>

datatype ipc_pc = IpcStart | IpcSeenSocket | IpcSeenStale | IpcPathFree | IpcBound nat | IpcListening nat | IpcServing nat | IpcGone

inductive ipc_Listen :: "nat \<Rightarrow> process \<Rightarrow> world \<Rightarrow> ipc_pc \<Rightarrow> world \<Rightarrow> ipc_pc \<Rightarrow> bool" for euid p where
  ipc_missing: "entry w = None \<Longrightarrow> ipc_Listen euid p w IpcStart w IpcPathFree"
| ipc_socket: "entry w = Some i \<Longrightarrow> i_kind (inodes w i) = SocketFile \<Longrightarrow> ipc_Listen euid p w IpcStart w IpcSeenSocket"
| ipc_refused: "entry w = Some i \<Longrightarrow> i_kind (inodes w i) = SocketFile \<Longrightarrow> listens w i = None \<Longrightarrow> ipc_Listen euid p w IpcSeenSocket w IpcSeenStale"
| ipc_removed: "entry w \<noteq> None \<Longrightarrow> ipc_Listen euid p w IpcSeenStale (unlink_path w) IpcPathFree"
| ipc_bound: "entry w = None \<Longrightarrow> ipc_Listen euid p w IpcPathFree (bind_path euid 384 w) (IpcBound (used w))"
| ipc_listening: "ipc_Listen euid p w (IpcBound i) (listen_on i p w) (IpcListening i)"
| ipc_chmod: "entry w \<noteq> None \<Longrightarrow> ipc_Listen euid p w (IpcListening i) (chmod_path 384 w) (IpcServing i)"
| ipc_chmod_fails: "ipc_Listen euid p w (IpcListening i) (unlink_path (stop_listening i w)) IpcGone"
| ipc_closed: "ipc_Listen euid p w (IpcServing i) (unlink_path (stop_listening i w)) IpcGone"
| ipc_fails: "pc \<in> {IpcStart, IpcSeenSocket, IpcSeenStale, IpcPathFree} \<union> range IpcBound \<Longrightarrow> ipc_Listen euid p w pc w IpcGone"

inductive ipc_sys :: "nat \<Rightarrow> world \<times> (process \<Rightarrow> ipc_pc) \<Rightarrow> world \<times> (process \<Rightarrow> ipc_pc) \<Rightarrow> bool" for euid where
  ipc_moves: "ipc_Listen euid p w (pcs p) w' pc \<Longrightarrow> ipc_sys euid (w, pcs) (w', pcs(p := pc))"

section \<open>Properties\<close>



text \<open>A path with the socket of a server that was killed.\<close>

definition stale_world :: world where
  "stale_world = \<lparr>entry = Some 0, inodes = (\<lambda>_. \<lparr>i_kind = SocketFile, i_owner = 7, i_perm = 384\<rparr>), used = 1, listens = (\<lambda>_. None),
     lockfile = None, flock = None\<rparr>"

definition locked_world :: world where
  "locked_world = stale_world\<lparr>lockfile := Some \<lparr>i_kind = RegularFile, i_owner = 7, i_perm = 384\<rparr>, flock := Some 0\<rparr>"

lemma listen_chain: "db_reach euid w0 (w, P(p := pc)) \<Longrightarrow> db_Listen euid p w pc w' pc' \<Longrightarrow> db_reach euid w0 (w', P(p := pc'))"
  unfolding db_reach_def using in_Listen[of euid p w "P(p := pc)" w' pc'] by (simp add: rtranclp.rtrancl_into_rtrancl)

lemma stale_start: "start_world stale_world"
  by (simp add: start_world_def stale_world_def)

lemma stale_seen: "db_reach 7 stale_world (locked_world, (\<lambda>_. Start)(0 := SeenStale))"
proof -
  let ?P = "\<lambda>_. Start"
  let ?f = "\<lparr>i_kind = RegularFile, i_owner = 7, i_perm = 384\<rparr>"
  have "db_reach 7 stale_world (stale_world, ?P(0 := Start))" by (simp add: db_reach_def fun_upd_idem)
  from listen_chain[OF this db_Listen.open_lock] have 1: "db_reach 7 stale_world (stale_world\<lparr>lockfile := Some ?f\<rparr>, ?P(0 := LockOpened))"
    by (simp add: stale_world_def)
  have "db_reach 7 stale_world (stale_world\<lparr>lockfile := Some ?f\<rparr>, ?P(0 := LockChecked))"
    by (rule listen_chain[OF 1 db_Listen.lock_file_safe[of _ ?f]]) (simp_all add: lock_safe_def owned_def)
  from listen_chain[OF this db_Listen.lock_taken] have 2: "db_reach 7 stale_world (locked_world, ?P(0 := LockHeld))"
    by (simp add: locked_world_def stale_world_def)
  have 3: "db_reach 7 stale_world (locked_world, ?P(0 := SeenSocket))"
    by (rule listen_chain[OF 2 db_Listen.path_socket[of _ 0]]) (simp_all add: locked_world_def stale_world_def replaceable_def owned_def)
  show ?thesis
    by (rule listen_chain[OF 3 db_Listen.dial_refused[of _ 0]]) (simp_all add: locked_world_def stale_world_def)
qed

definition served_world :: world where
  "served_world = chmod_path 384 (listen_on 1 0 (bind_path 7 493 (unlink_path locked_world)))"

lemma stale_served: "db_reach 7 stale_world (served_world, (\<lambda>_. Start)(0 := Serving 1 1))"
proof -
  let ?P = "\<lambda>_. Start"
  let ?w1 = "unlink_path locked_world"
  let ?w2 = "bind_path 7 493 ?w1"
  let ?w3 = "listen_on 1 0 ?w2"
  note d = locked_world_def stale_world_def world_defs
  have 1: "db_reach 7 stale_world (?w1, ?P(0 := PathFree))"
    by (rule listen_chain[OF stale_seen db_Listen.removed]) (simp add: d)
  have 2: "db_reach 7 stale_world (?w2, ?P(0 := Bound 1))"
    using listen_chain[OF 1 db_Listen.bound[of _ _ _ 493]] by (simp add: d)
  have 3: "db_reach 7 stale_world (?w3, ?P(0 := Listening 1))" by (rule listen_chain[OF 2 db_Listen.listening])
  have 4: "db_reach 7 stale_world (?w3, ?P(0 := Stated 1 1))"
    by (rule listen_chain[OF 3 db_Listen.stated]) (simp add: d)
  show ?thesis unfolding served_world_def
    by (rule listen_chain[OF 4 db_Listen.chmod_done]) (simp add: d)
qed



text \<open>\<open>Listen\<close> of the detector has no lock: two processes that start together on a stale socket can both find that nobody
  listens, and then the second one removes the socket on which the first one is already listening. In the end both serve, and
  the path leads to the second only.\<close>

theorem ipc_listen_race:
  "\<exists>w pcs. (ipc_sys 7)\<^sup>*\<^sup>* (stale_world, \<lambda>_. IpcStart) (w, pcs) \<and> pcs 0 = IpcServing 1 \<and> listens w 1 = Some 0
     \<and> pcs 1 = IpcServing 2 \<and> entry w = Some 2"
proof -
  let ?P = "\<lambda>a b. (\<lambda>_. IpcStart)(0 := a, 1 := b)"
  let ?r = "\<lambda>w a b. (ipc_sys 7)\<^sup>*\<^sup>* (stale_world, ?P IpcStart IpcStart) (w, ?P a b)"
  have m0: "?r w' a' b" if "?r w a b" "ipc_Listen 7 0 w a w' a'" for w w' a a' b
    using that ipc_moves[of 7 0 w "?P a b" w' a'] by (simp add: fun_upd_twist rtranclp.rtrancl_into_rtrancl)
  have m1: "?r w' a b'" if "?r w a b" "ipc_Listen 7 1 w b w' b'" for w w' a b b'
    using that ipc_moves[of 7 1 w "?P a b" w' b'] by (simp add: rtranclp.rtrancl_into_rtrancl)
  let ?u = "unlink_path stale_world"
  let ?v = "chmod_path 384 (listen_on 1 0 (bind_path 7 384 ?u))"
  let ?w = "chmod_path 384 (listen_on 2 1 (bind_path 7 384 (unlink_path ?v)))"
  note d = stale_world_def world_defs
  have s: "ipc_Listen 7 p stale_world IpcStart stale_world IpcSeenSocket" "ipc_Listen 7 p stale_world IpcSeenSocket stale_world IpcSeenStale" for p
    by (rule ipc_Listen.intros; simp add: stale_world_def)+
  have "?r stale_world IpcStart IpcStart" by simp
  from m1[OF m1[OF m0[OF m0[OF this s(1)] s(2)] s(1)] s(2)] have "?r stale_world IpcSeenStale IpcSeenStale" .
  from m0[OF this ipc_removed] have "?r ?u IpcPathFree IpcSeenStale" by (simp add: d)
  from m0[OF this ipc_bound] have "?r (bind_path 7 384 ?u) (IpcBound 1) IpcSeenStale" by (simp add: d)
  from m0[OF m0[OF this ipc_listening] ipc_chmod] have "?r ?v (IpcServing 1) IpcSeenStale" by (simp add: d)
  from m1[OF this ipc_removed] have "?r (unlink_path ?v) (IpcServing 1) IpcPathFree" by (simp add: d)
  from m1[OF this ipc_bound] have "?r (bind_path 7 384 (unlink_path ?v)) (IpcServing 1) (IpcBound 2)" by (simp add: d numeral_2_eq_2)
  from m1[OF m1[OF this ipc_listening] ipc_chmod] have "?r ?w (IpcServing 1) (IpcServing 2)" by (simp add: d)
  moreover have start: "?P IpcStart IpcStart = (\<lambda>_. IpcStart)" by auto
  ultimately have "(ipc_sys 7)\<^sup>*\<^sup>* (stale_world, \<lambda>_. IpcStart) (?w, ?P (IpcServing 1) (IpcServing 2))" by (simp only: start)
  moreover have "entry ?w = Some 2" "listens ?w 1 = Some 0" by (simp_all add: d numeral_2_eq_2)
  ultimately show ?thesis by (intro exI[of _ ?w] exI[of _ "?P (IpcServing 1) (IpcServing 2)"]) simp
qed

end
