(* ===== verification/Observation_Flow.thy ===== *)
theory Observation_Flow
  imports Map_Session Target_Service
begin

text \<open>
  The path of an observation through three services: published by the Map application, relayed by the Broker,
  stored by the Target Service.
\<close>

definition to_ts :: "Observation \<Rightarrow> ts_Observation" where
  "to_ts ob = \<lparr>ts_TargetID = obs_TargetID ob, ts_ObserverID = obs_ObserverID ob, ts_Latitude = obs_Latitude ob,
     ts_Longitude = obs_Longitude ob, ts_Confidence = obs_Confidence ob, ts_Timestamp = obs_Timestamp ob\<rparr>"

lemma ts_parse_published:
  assumes "observation_json ob = Some v" "wf_observation ob"
  shows "ts_parseObservation (json_print v) = obind (check_observation (to_ts ob)) (\<lambda>_. Ok (to_ts ob))"
proof -
  obtain lat lon conf where f: "json_float (obs_Latitude ob) = Some lat" "json_float (obs_Longitude ob) = Some lon" "json_float (obs_Confidence ob) = Some conf"
    and v: "v = JObj [(''targetId'', JStr (obs_TargetID ob)), (''observerId'', JStr (obs_ObserverID ob)), (''latitude'', JNum lat),
         (''longitude'', JNum lon), (''confidence'', JNum conf), (''timestamp'', JNum (Itoa (obs_Timestamp ob)))]"
    using assms(1) by (rule observation_json_members)
  have p: "ParseFloat lat = Some (obs_Latitude ob)" "ParseFloat lon = Some (obs_Longitude ob)" "ParseFloat conf = Some (obs_Confidence ob)"
    using assms(2) f json_float_reads_back(2) by (auto simp: wf_observation_def)
  have t: "map_option sint (ParseInt64 (Itoa (obs_Timestamp ob))) = Some (obs_Timestamp ob)"
    using assms(2) by (simp add: wf_observation_def ParseInt64_sint)
  have "decode_struct ts_fields v ts_zero = Some (to_ts ob)"
    using p t by (auto simp: v decode_struct_def ts_fields_def ts_zero_def field_for_def string_field_def float_field_def int_field_def to_ts_def)
  then have u: "Unmarshal_struct ts_fields (json_print v) ts_zero = Ok (to_ts ob)"
    using observation_json_wf[OF assms] by (simp add: Unmarshal_struct_def)
  have k: "Unmarshal_keys (json_print v) = Some ts_names"
    using observation_json_wf(2)[OF assms] by (simp add: Unmarshal_keys_def v ts_names_def)
  have "length ts_names = 6" "find (\<lambda>key. key \<notin> set ts_names) ts_names = None" by (simp_all add: ts_names_def)
  then show ?thesis using u k by (simp add: ts_parseObservation_def)
qed

lemma payloads_single:
  assumes "payloads [ob] = Ok ps"
  obtains v where "observation_json ob = Some v" "ps = [json_print v]" "Observation_validate ob = Ok ()"
    "length (json_print v) + length pub_prefix + 1 < maxBrokerFrame"
  using assms by (auto simp: outcome_simps not_le split: option.splits if_splits)

lemma validated_in_range:
  assumes "Observation_validate ob = Ok ()" "0 < obs_Timestamp ob" "TrimSpace (obs_ObserverID ob) \<noteq> []"
  shows "in_range (to_ts ob)"
proof -
  have v: "obs_TargetID ob \<noteq> []" "\<not> list_ex (\<lambda>(c, _). c < 48 \<or> 57 < c) (utf8_runes (obs_TargetID ob))"
      "validCoordinates (obs_Latitude ob) (obs_Longitude ob)" "f64_finite (obs_Confidence ob)"
      "\<not> f64_lt (obs_Confidence ob) (Fin 0)" "\<not> f64_lt (Fin 1) (obs_Confidence ob)"
    using assms(1) by (auto simp: Observation_validate_def split: if_splits)
  have "\<forall>x \<in> set (utf8_runes (obs_TargetID ob)). \<not> IsSpace (fst x)"
    using v(2) by (fastforce simp: list_ex_iff IsSpace_def)
  then have "TrimSpace (obs_TargetID ob) \<noteq> []" using v(1) by (simp add: TrimSpace_no_space)
  then show ?thesis using v(3-6) assms(2,3) by (simp add: in_range_def to_ts_def validCoordinates_iff f64_cmp not_less)
qed

lemma relayed_line:
  assumes "clean p" "p \<noteq> []"
  shows "handle_line (pub_prefix @ p) = Publish ''observations'' p"
proof -
  have "last (pub_prefix @ p) \<noteq> carriage_return" using clean_no_newline[OF assms(1)] assms(2) by (metis last_appendR last_in_set)
  then have "TrimSuffix (pub_prefix @ p) [carriage_return] = pub_prefix @ p" by (simp add: TrimSuffix_one)
  moreover have "TrimPrefix (pub_prefix @ p) ''PUB '' = ''observations '' @ p" "HasPrefix (pub_prefix @ p) ''PUB ''" "\<not> HasPrefix (pub_prefix @ p) ''SUB ''"
    by (simp_all add: pub_prefix_def TrimPrefix_def HasPrefix_def)
  moreover have "IndexByte (''observations '' @ p) CHR '' '' = Some 12" by (simp add: eval_nat_numeral)
  moreover have "validTopic ''observations''" by (simp add: validTopic_def ContainsAny_def)
  ultimately show ?thesis using assms(2) by (simp add: handle_line_def Let_def)
qed


definition sample_observation :: Observation where
  "sample_observation = \<lparr>obs_TargetID = ''17'', obs_ObserverID = ''o'', obs_Latitude = Fin 0, obs_Longitude = Fin 0,
     obs_Confidence = Fin 0, obs_Timestamp = 5\<rparr>"

definition sample_text :: json where
  "sample_text = JObj [(''targetId'', JStr ''17''), (''observerId'', JStr ''o''), (''latitude'', JNum ''0''), (''longitude'', JNum ''0''),
     (''confidence'', JNum ''0''), (''timestamp'', JNum ''5'')]"

lemma sample_observation_payload: "payloads [sample_observation] = Ok [json_print sample_text]"
proof -
  have "length (json_print sample_text) < 200" by code_simp
  moreover have "Itoa 5 = ''5''" by code_simp
  then have "observation_json sample_observation = Some sample_text"
    by (simp add: observation_json_def sample_observation_def json_float_def sample_text_def)
  moreover have "utf8_runes ''17'' = [(49, ''1''), (55, ''7'')]" by (simp add: utf8_runes_ascii)
  then have "Observation_validate sample_observation = Ok ()"
    by (simp add: Observation_validate_def sample_observation_def validCoordinates_def f64_le_def)
  ultimately show ?thesis by (simp add: maxBrokerFrame_def pub_prefix_def)
qed

lemma sample_observation_wf: "wf_observation sample_observation"
  by (simp add: wf_observation_def sample_observation_def utf8_valid_printable printable_def)


section \<open>Where the two services differ\<close>

text \<open>The map publishes observations with any timestamp; the Target Service refuses one that is not positive.\<close>

definition zero_time :: Observation where
  "zero_time = sample_observation\<lparr>obs_Timestamp := 0\<rparr>"

theorem timestamp_refused:
  "\<exists>p. payloads [zero_time] = Ok [p] \<and> ts_parseObservation p = Err BadTimestamp"
proof -
  define v where "v = JObj [(''targetId'', JStr ''17''), (''observerId'', JStr ''o''), (''latitude'', JNum ''0''), (''longitude'', JNum ''0''),
     (''confidence'', JNum ''0''), (''timestamp'', JNum ''0'')]"
  have l: "length (json_print v) < 200" unfolding v_def by code_simp
  have "Itoa 0 = ''0''" by code_simp
  then have j: "observation_json zero_time = Some v"
    by (simp add: observation_json_def zero_time_def sample_observation_def json_float_def v_def)
  have "utf8_runes ''17'' = [(49, ''1''), (55, ''7'')]" by (simp add: utf8_runes_ascii)
  then have "Observation_validate zero_time = Ok ()"
    by (simp add: Observation_validate_def zero_time_def sample_observation_def validCoordinates_def f64_le_def)
  then have p: "payloads [zero_time] = Ok [json_print v]" using j l by (simp add: maxBrokerFrame_def pub_prefix_def)
  have w: "wf_observation zero_time"
    by (simp add: wf_observation_def zero_time_def sample_observation_def utf8_valid_printable printable_def)
  have "TrimSpace ''o'' = ''o''" "TrimSpace ''17'' = ''17''" by (rule TrimSpace_ascii, simp add: IsSpace_def)+
  then have "check_observation (to_ts zero_time) = Err BadTimestamp"
    by (simp add: check_observation_def to_ts_def zero_time_def sample_observation_def)
  then show ?thesis using p ts_parse_published[OF j w] by simp
qed

definition null_latitude :: json where
  "null_latitude = JObj [(''targetId'', JStr ''17''), (''observerId'', JStr ''o''), (''latitude'', JNull), (''longitude'', JNum ''0''),
     (''confidence'', JNum ''0''), (''timestamp'', JNum ''5'')]"

text \<open>The two decoders of an observation differ on a coordinate that is null: the map refuses the message, the Target
  Service takes the coordinate as zero, the point on the equator, and accepts it.\<close>

theorem null_accepted:
  "ts_parseObservation (json_print null_latitude) = Ok (to_ts sample_observation)
   \<and> (\<forall>ob. parseObservation (json_print null_latitude) \<noteq> Ok ob)"
proof
  have i: "Itoa 5 = ''5''" "Itoa 0 = ''0''" by code_simp+
  have z: "json_number ''0''" "ParseFloat ''0'' = Some (Fin 0)" using json_float_reads_back[of "Fin 0" "''0''"] by (simp_all add: json_float_def)
  have f: "json_number ''5''" "map_option sint (ParseInt64 ''5'') = Some 5" using json_number_Itoa[of 5] ParseInt64_sint[of 5] i by simp_all
  have w: "wf_json max_depth null_latitude"
    by (simp add: null_latitude_def max_depth_def z f utf8_valid_printable printable_def)
  have j: "json_parse (json_print null_latitude) = Some null_latitude" using json_parse_print[OF w, of "[]"] by simp
  have "decode_struct ts_fields null_latitude ts_zero = Some (to_ts sample_observation)"
    using z f by (auto simp: null_latitude_def decode_struct_def ts_fields_def ts_zero_def field_for_def string_field_def float_field_def
      int_field_def to_ts_def sample_observation_def)
  then have u: "Unmarshal_struct ts_fields (json_print null_latitude) ts_zero = Ok (to_ts sample_observation)"
    using j by (simp add: Unmarshal_struct_def)
  have k: "Unmarshal_keys (json_print null_latitude) = Some ts_names" using j by (simp add: Unmarshal_keys_def null_latitude_def ts_names_def)
  have t: "TrimSpace ''o'' = ''o''" "TrimSpace ''17'' = ''17''" by (rule TrimSpace_ascii, simp add: IsSpace_def)+
  have "check_observation (to_ts sample_observation) = Ok ()"
    using t by (simp add: check_observation_def to_ts_def sample_observation_def)
  moreover have "length ts_names = 6" "find (\<lambda>key. key \<notin> set ts_names) ts_names = None" by (simp_all add: ts_names_def)
  ultimately show "ts_parseObservation (json_print null_latitude) = Ok (to_ts sample_observation)"
    using u k by (simp add: ts_parseObservation_def)
  show "\<forall>ob. parseObservation (json_print null_latitude) \<noteq> Ok ob"
    using j by (auto simp: parseObservation_def outcome_simps decodeRecord_Ok strict_object_def null_latitude_def)
qed

end
