(* ===== verification/Marker_Ipc.thy ===== *)
theory Marker_Ipc
  imports Marker_Detect Go_Json_Decode Go_Bufio
begin

text \<open>
  The socket protocol of the marker detector: \<^verbatim>\<open>parseRequest\<close> on the token stream and the response lines
  (\<^verbatim>\<open>ipc/protocol.go\<close>), and the connection loop (\<^verbatim>\<open>ipc/server.go\<close>). The Source interface is an argument: a
  function from its state to a result and the next state.
\<close>

section \<open>Requests\<close>

definition maxFrameBytes :: nat where "maxFrameBytes = 64 * 1024"

datatype request_error = InvalidRequest json_error | NotAnObject | UnknownField string | DuplicateCommand | CommandNotString
  | DataAfterObject | MissingCommand | UnknownCommand string

text \<open>The loop over the members; it ends because a second \<^verbatim>\<open>command\<close> is an error.\<close>

function request_loop :: "string option \<Rightarrow> decoder \<Rightarrow> (request_error, string option \<times> decoder) outcome" where
  "request_loop command dec =
     (if \<not> More dec then Ok (command, dec)
      else case Token dec of
             Err e \<Rightarrow> Err (InvalidRequest e)
           | Panic \<Rightarrow> Panic
           | Ok (tok, d1) \<Rightarrow>
               let key = (case tok of TString k \<Rightarrow> k | _ \<Rightarrow> [])
               in if key \<noteq> ''command'' then Err (UnknownField key)
                  else if command \<noteq> None then Err DuplicateCommand
                  else (case Token d1 of
                          Err e \<Rightarrow> Err (InvalidRequest e)
                        | Panic \<Rightarrow> Panic
                        | Ok (val, d2) \<Rightarrow> (case val of TString v \<Rightarrow> request_loop (Some v) d2 | _ \<Rightarrow> Err CommandNotString)))"
  by pat_completeness auto
termination
  by (relation "measure (\<lambda>(command, _). if command = None then 1 else 0)") auto

declare request_loop.simps [simp del]

text \<open>After the loop: the closing brace, the end of the line, and the command.\<close>

definition request_end :: "string option \<Rightarrow> decoder \<Rightarrow> (request_error, unit) outcome" where
  "request_end command d = (case Token d of
      Err e \<Rightarrow> Err (InvalidRequest e)
    | Panic \<Rightarrow> Panic
    | Ok td \<Rightarrow>
        if Token (snd td) \<noteq> Err JEOF then Err DataAfterObject
        else (case command of
                None \<Rightarrow> Err MissingCommand
              | Some c \<Rightarrow> if c \<noteq> ''DETECT'' then Err (UnknownCommand c) else Ok ()))"

definition parseRequest :: "string \<Rightarrow> (request_error, unit) outcome" where
  "parseRequest line = (case Token (NewDecoder line) of
      Err e \<Rightarrow> Err (InvalidRequest e)
    | Panic \<Rightarrow> Panic
    | Ok (tok, d) \<Rightarrow>
        if tok \<noteq> Delim CHR ''{'' then Err NotAnObject
        else obind (request_loop None d) (\<lambda>(command, d1). request_end command d1))"

section \<open>Responses\<close>

definition code_text :: "wire_code \<Rightarrow> string" where
  "code_text c = (case c of CAMERA_UNAVAILABLE \<Rightarrow> ''CAMERA_UNAVAILABLE'' | DETECTION_FAILED \<Rightarrow> ''DETECTION_FAILED'' | BAD_REQUEST \<Rightarrow> ''BAD_REQUEST'')"

definition detection_json :: "int \<times> float64 \<times> float64 \<Rightarrow> json option" where
  "detection_json d = (case d of (i, a, m) \<Rightarrow>
     Option.bind (json_float a) (\<lambda>angle. map_option (\<lambda>dist.
       JObj [(''id'', JNum (Itoa i)), (''relativeAngle'', JNum angle), (''distance'', JNum dist)]) (json_float m)))"

definition response_json :: "detect_response \<Rightarrow> json option" where
  "response_json r = (case r of
      Success ds \<Rightarrow> map_option (\<lambda>vs. JObj [(''ok'', JBool True), (''detections'', JArr vs)]) (all_some (map detection_json ds))
    | Failure c \<Rightarrow> Some (JObj [(''ok'', JBool False), (''error'', JStr (code_text c))]))"

text \<open>\<^const>\<open>None\<close> is the panic of \<^verbatim>\<open>encodeLine\<close> on a value that cannot be marshalled.\<close>

definition encodeLine :: "detect_response \<Rightarrow> string option" where
  "encodeLine r = map_option (\<lambda>v. json_print v @ [newline]) (response_json r)"

definition encodeFailure :: "wire_code \<Rightarrow> string" where
  "encodeFailure c = json_print (JObj [(''ok'', JBool False), (''error'', JStr (code_text c))]) @ [newline]"

section \<open>A connection\<close>

text \<open>
  The handler of one connection: the response lines it writes and the state of the source. \<open>stream\<close> is all
  the client sends, \<open>eof\<close> whether it ends with a close or with another read error, and \<open>can_write n\<close> whether
  the write of the n-th response succeeds. \<^const>\<open>None\<close> is a panic of the process.
\<close>

function handle :: "('s \<Rightarrow> (source_error, Detection list) outcome \<times> 's) \<Rightarrow> bool \<Rightarrow> (nat \<Rightarrow> bool) \<Rightarrow> nat \<Rightarrow> 's \<Rightarrow> string
    \<Rightarrow> (string list \<times> 's) option" where
  "handle source eof can_write n s stream = (case ReadSlice maxFrameBytes stream of
      BufferFull \<Rightarrow> Some (if can_write n then [encodeFailure BAD_REQUEST] else [], s)
    | AtEOF l \<Rightarrow> Some (if eof \<and> l \<noteq> [] \<and> can_write n then [encodeFailure BAD_REQUEST] else [], s)
    | Line l rest \<Rightarrow>
        let (reply, s') = (if parseRequest l \<noteq> Ok () then (Some (encodeFailure BAD_REQUEST), s)
                           else case source s of (result, s1) \<Rightarrow> (Option.bind (detect result) encodeLine, s1))
        in case reply of
             None \<Rightarrow> None
           | Some r \<Rightarrow> if \<not> can_write n then Some ([], s')
                       else map_option (\<lambda>(rs, s2). (r # rs, s2)) (handle source eof can_write (n + 1) s' rest))"
  by pat_completeness auto
termination
  by (relation "measure (\<lambda>(_, _, _, _, _, stream). length stream)") (auto dest: ReadSlice_shorter)

declare handle.simps [simp del]

section \<open>The accepted requests\<close>

lemma parse_value_string:
  "skip_ws s = CHR 0x22 # qs \<Longrightarrow> parse_value d s = map_option (\<lambda>(x, r). (JStr x, r)) (scan_string qs)"
  by (subst parse_value.simps) simp

lemma json_literal_not_string: "json_literal s \<noteq> Some (JStr x, r)"
  by (auto simp: json_literal_def)

lemma parse_value_string_inv: "parse_value d s = Some (JStr v, r) \<Longrightarrow> parse_value e s = Some (JStr v, r)"
  using json_literal_not_string
  by (subst (asm) parse_value.simps, subst parse_value.simps) (auto split: list.splits if_splits)

lemma Token_key_inv:
  assumes "Token (in_object b tokenObjectStart) = Ok (TString k, d)"
  shows "\<exists>qs r. skip_ws b = CHR 0x22 # qs \<and> scan_string qs = Some (k, r) \<and> d = in_object r tokenObjectColon"
proof -
  obtain c cs where c: "skip_ws b = c # cs" using assms by (subst (asm) Token.simps) (auto split: list.splits)
  have "c = CHR 0x22" using assms c
    by (subst (asm) Token.simps) (auto simp: open_bracket_def close_bracket_def tokenValueAllowed_def decode_here_def split: if_splits prod.splits)
  moreover from this obtain k' r where "scan_string cs = Some (k', r)"
    using assms c by (subst (asm) Token.simps)
      (auto simp: decode_here_def tokenValueAllowed_def outcome_simps parse_value_string split: option.splits)
  ultimately show ?thesis using assms c Token_key[of b cs k' r tokenObjectStart] by auto
qed

lemma parse_string_head: "parse_value d s = Some (JStr v, r) \<Longrightarrow> \<exists>qs. skip_ws s = CHR 0x22 # qs"
  using json_literal_not_string by (subst (asm) parse_value.simps) (auto split: list.splits if_splits)

lemma Token_colon:
  "skip_ws b = CHR '':'' # cs \<Longrightarrow> Token (in_object b tokenObjectColon) = Token (in_object cs tokenObjectValue)"
  using skip_ws_length[of b] by (subst Token.simps) simp

lemma Token_value:
  assumes "skip_ws b = CHR '':'' # cs" "parse_value max_depth cs = Some (JStr v, r)"
  shows "Token (in_object b tokenObjectColon) = Ok (TString v, in_object r tokenObjectComma)"
proof -
  obtain qs where "skip_ws cs = CHR 0x22 # qs" using parse_string_head[OF assms(2)] by blast
  then have "Token (in_object cs tokenObjectValue) = Ok (TString v, in_object r tokenObjectComma)"
    using assms(2) by (subst Token.simps)
      (simp add: decode_here_def tokenValueAllowed_def tokenValueEnd_def scalar_token_def value_token_def)
  then show ?thesis using Token_colon[OF assms(1)] by simp
qed

lemma scalar_token_string: "scalar_token w d = Ok (TString v, d') \<longleftrightarrow> w = JStr v \<and> d' = d"
  by (cases w) (auto simp: scalar_token_def value_token_def)

lemma Token_value_inv:
  assumes "Token (in_object b tokenObjectColon) = Ok (TString v, d)"
  shows "\<exists>cs r. skip_ws b = CHR '':'' # cs \<and> parse_value max_depth cs = Some (JStr v, r) \<and> d = in_object r tokenObjectComma"
proof -
  obtain c cs where c: "skip_ws b = c # cs" using assms by (subst (asm) Token.simps) (auto split: list.splits)
  have k: "c = CHR '':''" using assms c
    by (subst (asm) Token.simps) (auto simp: open_bracket_def tokenValueAllowed_def decode_here_def split: if_splits)
  then have t: "Token (in_object cs tokenObjectValue) = Ok (TString v, d)" using assms c Token_colon[of b cs] by simp
  have "\<exists>r. parse_value max_depth cs = Some (JStr v, r) \<and> d = in_object r tokenObjectComma" using t
    by (subst (asm) Token.simps)
       (auto simp: open_bracket_def tokenValueAllowed_def decode_here_def scalar_token_string tokenValueEnd_def outcome_simps
         split: list.splits if_splits option.splits)
  then show ?thesis using c k by simp
qed

lemma Token_close_inv:
  assumes "Token (in_object b tokenObjectComma) = Ok td" "\<not> More (in_object b tokenObjectComma)"
  shows "\<exists>t. skip_ws b = CHR ''}'' # t \<and> snd td = NewDecoder t"
proof (cases "skip_ws b")
  case Nil
  then show ?thesis using assms(1) by (simp add: Token.simps)
next
  case (Cons c cs)
  then have "c = CHR '']'' \<or> c = CHR ''}''" using assms(2) by (simp add: More_object)
  then show ?thesis
  proof
    assume "c = CHR '']''"
    then show ?thesis using Cons assms(1) by (simp add: Token.simps)
  next
    assume "c = CHR ''}''"
    then show ?thesis using Cons assms(1) Token_close[of b cs tokenObjectComma] by auto
  qed
qed

lemma request_loop_Some: "request_loop (Some v) d = Ok x \<longleftrightarrow> \<not> More d \<and> x = (Some v, d)"
  by (subst request_loop.simps) (auto simp: Let_def split: outcome.splits)

lemma request_loop_None:
  "request_loop None (in_object b tokenObjectStart) = Ok (Some v, d) \<longleftrightarrow>
     (\<exists>qs r0 cs r1. skip_ws b = CHR 0x22 # qs \<and> scan_string qs = Some (''command'', r0) \<and> skip_ws r0 = CHR '':'' # cs
        \<and> parse_value max_depth cs = Some (JStr v, r1) \<and> d = in_object r1 tokenObjectComma \<and> \<not> More d)" (is "?l \<longleftrightarrow> ?r")
proof
  assume l: ?l
  then have more: "More (in_object b tokenObjectStart)" by (subst (asm) request_loop.simps) (auto split: if_splits)
  from l more obtain tok d1 where t1: "Token (in_object b tokenObjectStart) = Ok (tok, d1)"
    by (subst (asm) request_loop.simps) (auto split: outcome.splits)
  with l more have tok: "tok = TString ''command''"
    by (subst (asm) request_loop.simps) (auto simp: Let_def split: if_splits json_token.splits)
  from l more t1 tok obtain val d2 where t2: "Token d1 = Ok (val, d2)"
    by (subst (asm) request_loop.simps) (auto split: outcome.splits)
  with l more t1 tok obtain w where w: "val = TString w" "request_loop (Some w) d2 = Ok (Some v, d)"
    by (subst (asm) request_loop.simps) (auto split: json_token.splits)
  then have e: "w = v" "d2 = d" "\<not> More d" by (auto simp: request_loop_Some)
  obtain qs r0 where k: "skip_ws b = CHR 0x22 # qs" "scan_string qs = Some (''command'', r0)" "d1 = in_object r0 tokenObjectColon"
    using Token_key_inv t1 tok by blast
  then show ?r using Token_value_inv[of r0 v d] t2 w e by auto
next
  assume ?r
  then obtain qs r0 cs r1 where r: "skip_ws b = CHR 0x22 # qs" "scan_string qs = Some (''command'', r0)" "skip_ws r0 = CHR '':'' # cs"
     "parse_value max_depth cs = Some (JStr v, r1)" "d = in_object r1 tokenObjectComma" "\<not> More d" by blast
  then show ?l using Token_key[of b qs "''command''" r0 tokenObjectStart] Token_value[of r0 cs v r1]
    by (subst request_loop.simps) (simp add: More_object request_loop_Some)
qed

lemma json_parse_command:
  "json_parse line = Some (JObj [(''command'', JStr v)]) \<longleftrightarrow>
     (\<exists>b qs r0 cs r1 t. skip_ws line = CHR ''{'' # b \<and> skip_ws b = CHR 0x22 # qs \<and> scan_string qs = Some (''command'', r0)
        \<and> skip_ws r0 = CHR '':'' # cs \<and> parse_value max_depth cs = Some (JStr v, r1) \<and> skip_ws r1 = CHR ''}'' # t \<and> skip_ws t = [])"
  (is "?l \<longleftrightarrow> ?r")
proof
  assume ?l
  then obtain b t where b: "skip_ws line = CHR ''{'' # b" "skip_ws t = []" "parse_members (max_depth - 1) b = Some ([(''command'', JStr v)], t)"
    by (auto simp: json_parse_object)
  from b(3) have "member_step (max_depth - 1) b [(''command'', JStr v)] t" by (simp add: parse_members_step)
  then obtain qs r0 cs r1 where "skip_ws b = CHR 0x22 # qs" "scan_string qs = Some (''command'', r0)" "skip_ws r0 = CHR '':'' # cs"
      "parse_value (max_depth - 1) cs = Some (JStr v, r1)" "skip_ws r1 = CHR ''}'' # t"
    unfolding member_step_def using members_start by fastforce
  then show ?r using b(1,2) parse_value_string_inv by blast
next
  assume ?r
  then obtain b qs r0 cs r1 t where r: "skip_ws line = CHR ''{'' # b" "skip_ws b = CHR 0x22 # qs" "scan_string qs = Some (''command'', r0)"
     "skip_ws r0 = CHR '':'' # cs" "parse_value max_depth cs = Some (JStr v, r1)" "skip_ws r1 = CHR ''}'' # t" "skip_ws t = []" by blast
  have "length cs < length b"
    using skip_ws_length[OF r(2)] skip_ws_length[OF r(4)] scan_string_shorter[OF r(3)] by simp
  then have "member_step (max_depth - 1) b [(''command'', JStr v)] t"
    unfolding member_step_def using r parse_value_string_inv[OF r(5), of "max_depth - 1"] by blast
  then show ?l using r by (auto simp: json_parse_object parse_members_step)
qed

lemma request_end_Ok:
  "request_end command d = Ok u \<longleftrightarrow> command = Some ''DETECT'' \<and> (\<exists>td. Token d = Ok td \<and> Token (snd td) = Err JEOF)"
  by (auto simp: request_end_def split: outcome.splits option.splits)

lemma parseRequest_Ok:
  "parseRequest line = Ok u \<longleftrightarrow> (\<exists>b d td. skip_ws line = CHR ''{'' # b \<and> request_loop None (in_object b tokenObjectStart) = Ok (Some ''DETECT'', d)
     \<and> Token d = Ok td \<and> Token (snd td) = Err JEOF)"
proof (cases "\<exists>b. skip_ws line = CHR ''{'' # b")
  case True
  then obtain b where b: "skip_ws line = CHR ''{'' # b" ..
  then have "parseRequest line = obind (request_loop None (in_object b tokenObjectStart)) (\<lambda>(command, d1). request_end command d1)"
    by (simp add: parseRequest_def Token_open)
  then show ?thesis using b by (auto simp: outcome_simps request_end_Ok)
next
  case False
  then have h: "skip_ws line = [] \<or> hd (skip_ws line) \<noteq> CHR ''{''" by (cases "skip_ws line") auto
  have "parseRequest line \<noteq> Ok u"
  proof
    assume "parseRequest line = Ok u"
    then obtain d where "Token (NewDecoder line) = Ok (Delim CHR ''{'', d)"
      by (cases "Token (NewDecoder line)") (auto simp: parseRequest_def split: if_splits)
    then show False using Token_other[OF h] by blast
  qed
  then show ?thesis using False by blast
qed

section \<open>Responses\<close>

text \<open>What \<^const>\<open>detect\<close> answers can be marshalled, and reads back as it was.\<close>

definition sendable :: "detect_response \<Rightarrow> bool" where
  "sendable r = (case r of
      Success ds \<Rightarrow> list_all (\<lambda>(i, a, m). f64_finite a \<and> is_float64 a \<and> f64_finite m \<and> is_float64 m) ds
    | Failure _ \<Rightarrow> True)"

lemma detection_json_wf:
  assumes "f64_finite a" "is_float64 a" "f64_finite m" "is_float64 m"
  shows "\<exists>v. detection_json (i, a, m) = Some v \<and> wf_json (Suc d) v"
proof -
  obtain x y where "json_float a = Some x" "json_float m = Some y" using assms json_float_finite by blast
  moreover from this have "json_number x" "json_number y" using assms json_float_reads_back by blast+
  moreover have "utf8_valid ''id''" "utf8_valid ''relativeAngle''" "utf8_valid ''distance''" by code_simp+
  ultimately show ?thesis by (simp add: detection_json_def json_number_Itoa)
qed

lemma response_json_wf:
  assumes "sendable r"
  shows "\<exists>v. response_json r = Some v \<and> wf_json max_depth v"
proof -
  have k: "utf8_valid ''ok''" "utf8_valid ''detections''" "utf8_valid ''error''" by code_simp+
  obtain e where e: "max_depth = Suc (Suc (Suc e))" using that[of 9997] by (simp add: max_depth_def)
  show ?thesis
  proof (cases r)
    case (Success ds)
    have "\<forall>x \<in> set ds. \<exists>v. detection_json x = Some v \<and> wf_json (Suc e) v"
      using assms Success detection_json_wf by (fastforce simp: sendable_def list_all_iff)
    from all_some_all[OF this] obtain vs where vs: "all_some (map detection_json ds) = Some vs" "list_all (wf_json (Suc e)) vs" by blast
    then show ?thesis using k by (simp add: response_json_def Success e list_all_iff)
  next
    case (Failure c)
    have "utf8_valid ''CAMERA_UNAVAILABLE''" "utf8_valid ''DETECTION_FAILED''" "utf8_valid ''BAD_REQUEST''" by code_simp+
    then have "utf8_valid (code_text c)" by (cases c) (simp_all add: code_text_def)
    then show ?thesis using k by (simp add: response_json_def Failure e)
  qed
qed

lemma response_round_trip:
  assumes "sendable r"
  shows "\<exists>v. response_json r = Some v \<and> encodeLine r = Some (json_print v @ [newline]) \<and> json_parse (json_print v @ [newline]) = Some v
     \<and> newline \<notin> set (json_print v)"
proof -
  obtain v where v: "response_json r = Some v" "wf_json max_depth v" using response_json_wf[OF assms] by blast
  have "json_parse (json_print v @ [newline]) = Some v" using json_parse_print[OF v(2), of "[newline]"] by (simp add: json_space_def)
  moreover have "newline \<notin> set (json_print v)" using clean_no_newline[OF json_print_clean[OF v(2)]] by simp
  ultimately show ?thesis using v(1) by (simp add: encodeLine_def)
qed

lemma encodeFailure_line: "encodeLine (Failure c) = Some (encodeFailure c)"
  by (simp add: encodeLine_def encodeFailure_def response_json_def)

text \<open>Floats of detections are binary64 values.\<close>

definition float_detections :: "Detection list \<Rightarrow> bool" where
  "float_detections ds \<longleftrightarrow> list_all (\<lambda>d. is_float64 (RelativeAngleDeg d) \<and> is_float64 (DistanceM d)) ds"

lemma detect_sendable:
  assumes "detect result = Some r" "\<And>ds. result = Ok ds \<Longrightarrow> float_detections ds"
  shows "sendable r"
  using assms
  by (auto simp: detect_def sendable_def success_of_def validate_Ok good_detection_def float_detections_def list_all_iff f64_finite_def
      split: outcome.splits source_error.splits)

text \<open>The answers to a sequence of request lines, as responses.\<close>

definition detect_request :: json where
  "detect_request = JObj [(''command'', JStr ''DETECT'')]"

fun answers :: "('s \<Rightarrow> (source_error, Detection list) outcome \<times> 's) \<Rightarrow> 's \<Rightarrow> string list \<Rightarrow> detect_response list \<times> 's" where
  "answers source s [] = ([], s)"
| "answers source s (l # ls) =
     (if json_parse (l @ [newline]) = Some detect_request
      then case source s of (result, s1) \<Rightarrow> (case answers source s1 ls of (rs, s2) \<Rightarrow> (the (detect result) # rs, s2))
      else case answers source s ls of (rs, s2) \<Rightarrow> (Failure BAD_REQUEST # rs, s2))"

definition good_source :: "('s \<Rightarrow> (source_error, Detection list) outcome \<times> 's) \<Rightarrow> bool" where
  "good_source source \<longleftrightarrow> (\<forall>s. case fst (source s) of Ok ds \<Rightarrow> float_detections ds | Err _ \<Rightarrow> True | Panic \<Rightarrow> False)"

lemma parseRequest_document: "parseRequest line = Ok u \<longleftrightarrow> json_parse line = Some detect_request"
proof
  assume "parseRequest line = Ok u"
  then obtain b d td where r: "skip_ws line = CHR ''{'' # b" "request_loop None (in_object b tokenObjectStart) = Ok (Some ''DETECT'', d)"
     "Token d = Ok td" "Token (snd td) = Err JEOF" unfolding parseRequest_Ok by blast
  then obtain qs r0 cs r1 where m: "skip_ws b = CHR 0x22 # qs" "scan_string qs = Some (''command'', r0)" "skip_ws r0 = CHR '':'' # cs"
      "parse_value max_depth cs = Some (JStr ''DETECT'', r1)" "d = in_object r1 tokenObjectComma" "\<not> More d"
    unfolding request_loop_None by blast
  then obtain t where "skip_ws r1 = CHR ''}'' # t" "skip_ws t = []"
    using Token_close_inv[of r1 td] r(3,4) Token_end by auto
  then show "json_parse line = Some detect_request" unfolding detect_request_def json_parse_command using r(1) m by blast
next
  assume "json_parse line = Some detect_request"
  then obtain b qs r0 cs r1 t where r: "skip_ws line = CHR ''{'' # b" "skip_ws b = CHR 0x22 # qs" "scan_string qs = Some (''command'', r0)"
     "skip_ws r0 = CHR '':'' # cs" "parse_value max_depth cs = Some (JStr ''DETECT'', r1)" "skip_ws r1 = CHR ''}'' # t" "skip_ws t = []"
    unfolding detect_request_def json_parse_command by blast
  have "request_loop None (in_object b tokenObjectStart) = Ok (Some ''DETECT'', in_object r1 tokenObjectComma)"
    unfolding request_loop_None using r More_object[OF r(6)] by blast
  moreover have "Token (in_object r1 tokenObjectComma) = Ok (Delim CHR ''}'', NewDecoder t)" using Token_close[OF r(6)] by simp
  moreover have "Token (NewDecoder t) = Err JEOF" using Token_end r(7) by blast
  ultimately show "parseRequest line = Ok u" unfolding parseRequest_Ok using r(1) by fastforce
qed

lemma source_answer:
  assumes "good_source source" "source s = (result, s1)"
  shows "\<exists>r. detect result = Some r \<and> sendable r"
proof -
  have g: "case result of Ok ds \<Rightarrow> float_detections ds | Err _ \<Rightarrow> True | Panic \<Rightarrow> False"
    using assms by (auto simp: good_source_def dest: spec[of _ s])
  have "detect result \<noteq> None" using g validate_no_panic by (auto simp: detect_def split: source_error.splits outcome.splits)
  then obtain r where r: "detect result = Some r" by blast
  moreover have "sendable r" using g by (intro detect_sendable[OF r]) auto
  ultimately show ?thesis by blast
qed

lemma answers_sendable: "good_source source \<Longrightarrow> list_all sendable (fst (answers source s ls)) \<and> length (fst (answers source s ls)) = length ls"
proof (induction ls arbitrary: s)
  case (Cons l ls)
  obtain result s1 where src: "source s = (result, s1)" by fastforce
  obtain r where "detect result = Some r" "sendable r" using source_answer[OF Cons.prems src] by blast
  moreover have "sendable (Failure BAD_REQUEST)" by (simp add: sendable_def)
  ultimately show ?case using Cons.IH[OF Cons.prems, of s] Cons.IH[OF Cons.prems, of s1] src by (auto split: prod.splits)
qed simp

lemma handle_lines:
  assumes "good_source source" "\<forall>l \<in> set ls. newline \<notin> set l \<and> length l < maxFrameBytes"
  shows "handle source eof (\<lambda>_. True) n s (concat (map (\<lambda>l. l @ [newline]) ls))
     = Some (map (the \<circ> encodeLine) (fst (answers source s ls)), snd (answers source s ls))"
  using assms(2)
proof (induction ls arbitrary: n s)
  case Nil
  then show ?case by (subst handle.simps) (simp add: ReadSlice_def maxFrameBytes_def)
next
  case (Cons l ls)
  have read: "ReadSlice maxFrameBytes (concat (map (\<lambda>l. l @ [newline]) (l # ls))) = Line (l @ [newline]) (concat (map (\<lambda>l. l @ [newline]) ls))"
    using ReadSlice_append[of l maxFrameBytes "concat (map (\<lambda>l. l @ [newline]) ls)"] Cons.prems by simp
  show ?case
  proof (cases "json_parse (l @ [newline]) = Some detect_request")
    case True
    obtain result s1 where src: "source s = (result, s1)" by fastforce
    obtain r where r: "detect result = Some r" "sendable r" using source_answer[OF assms(1) src] by blast
    obtain e where "encodeLine r = Some e" using response_round_trip[OF r(2)] by blast
    then show ?thesis using read True parseRequest_document[of "l @ [newline]"] src r(1) Cons.IH[of "n + 1" s1] Cons.prems
      by (subst handle.simps) (simp add: split_def)
  next
    case False
    then show ?thesis using read parseRequest_document[of "l @ [newline]"] Cons.IH[of "n + 1" s] Cons.prems encodeFailure_line[of BAD_REQUEST]
      by (subst handle.simps) (simp add: split_def)
  qed
qed

section \<open>Properties\<close>

text \<open>C11: A request line is accepted exactly when it is, as JSON, the object with the single member command and the
  value DETECT: no duplicate or additional member, no other spelling, nothing after the object.\<close>

theorem parseRequest_exact:
  "parseRequest line = Ok () \<longleftrightarrow> json_parse line = Some (JObj [(''command'', JStr ''DETECT'')])"
  using parseRequest_document unfolding detect_request_def .

text \<open>A connection answers every request line with exactly one line, in order: a wrong request with
  BAD_REQUEST without asking the source, a DETECT request with what the source then delivers. No answer makes
  the encoder panic, and each is one line that reads back as the response it was made from.\<close>

theorem connection_answers:
  assumes "good_source source" "\<forall>l \<in> set ls. newline \<notin> set l \<and> length l < maxFrameBytes"
  shows "\<exists>out. handle source eof (\<lambda>_. True) 0 s (concat (map (\<lambda>l. l @ [newline]) ls)) = Some (out, snd (answers source s ls))
     \<and> length out = length ls \<and> map json_parse out = map response_json (fst (answers source s ls))
     \<and> list_all (\<lambda>x. x \<noteq> [] \<and> last x = newline \<and> newline \<notin> set (butlast x)) out"
proof -
  let ?rs = "fst (answers source s ls)"
  have a: "list_all sendable ?rs" "length ?rs = length ls" using answers_sendable[OF assms(1)] by auto
  have e: "json_parse (the (encodeLine r)) = response_json r \<and> the (encodeLine r) \<noteq> [] \<and> last (the (encodeLine r)) = newline
      \<and> newline \<notin> set (butlast (the (encodeLine r)))" if "r \<in> set ?rs" for r
    using a(1) that response_round_trip[of r] by (auto simp: list_all_iff)
  show ?thesis using handle_lines[OF assms, of eof 0 s] a(2) e
    by (intro exI[of _ "map (the \<circ> encodeLine) ?rs"]) (auto simp: list_all_iff)
qed

definition sample_lines :: "string list" where
  "sample_lines = [json_print detect_request, ''DETECT'']"

lemma connection_answers_witness:
  "\<exists>out. handle (\<lambda>_. (Ok [], ())) True (\<lambda>_. True) 0 () (concat (map (\<lambda>l. l @ [newline]) sample_lines)) = Some (out, ())
     \<and> map json_parse out = [Some (JObj [(''ok'', JBool True), (''detections'', JArr [])]),
         Some (JObj [(''ok'', JBool False), (''error'', JStr ''BAD_REQUEST'')])]"
proof -
  let ?src = "\<lambda>_ :: unit. (Ok [] :: (source_error, Detection list) outcome, ())"
  have g: "good_source ?src" by (simp add: good_source_def float_detections_def)
  have "utf8_valid ''command''" "utf8_valid ''DETECT''" by code_simp+
  then have w: "wf_json max_depth detect_request" by (simp add: detect_request_def max_depth_def)
  have p: "json_parse (json_print detect_request @ [newline]) = Some detect_request"
    using json_parse_print[OF w, of "[newline]"] by (simp add: json_space_def)
  have q: "json_parse (''DETECT'' @ [newline]) = None" by code_simp
  have "newline \<notin> set (json_print detect_request)" "length (json_print detect_request) < 100" by code_simp+
  then have l: "\<forall>l \<in> set sample_lines. newline \<notin> set l \<and> length l < maxFrameBytes"
    by (auto simp: sample_lines_def maxFrameBytes_def)
  have "fst (answers ?src () sample_lines) = [Success [], Failure BAD_REQUEST]"
    using p q by (simp add: sample_lines_def detect_def validate_def success_of_def)
  then show ?thesis using connection_answers[OF g l, of True "()"] by (auto simp: response_json_def code_text_def)
qed

end
