(* ===== verification/Spec2Isabelle.thy ===== *)
theory Spec2Isabelle
  imports Smoke_Harness Map_Events Marker_Serve Wm_Commands Wm_Run Map_Relay Socket_Server Socket_Files Marker_Detector Dbms_Service Observation_Flow Marker_Ipc Map_Config
begin

text \<open>
  A verification development for the Go services of tac-os: the in-memory SQL database and its clients, the
  publish/subscribe Broker, the Target Service, the window manager with its two backends, the Map application
  and the marker detector.

  \<^bold>\<open>Parts of the program and how they interact.\<close> The database (\<^verbatim>\<open>server/dbms\<close>) is a library, a command
  line (\<^verbatim>\<open>internal/cli\<close>) and a Unix-socket server (\<^verbatim>\<open>internal/server\<close>) that \<^verbatim>\<open>target-service/dbclient\<close> talks to in
  length-prefixed frames with JSON responses. The Broker (\<^verbatim>\<open>broker\<close>) relays lines between TCP clients. The Map
  application (\<^verbatim>\<open>app/map\<close>) publishes observations to the Broker, receives targets from it, and draws them through
  the window manager (\<^verbatim>\<open>window-manager\<close>), one JSON line per command and connection; the window manager drives a
  backend and broadcasts window events. The Target Service (\<^verbatim>\<open>target-service\<close>) subscribes to the observations at
  the Broker and keeps the latest one per target. The marker detector (\<^verbatim>\<open>prototypes/marker-detect\<close>) answers DETECT
  requests on its own socket: it reads a camera frame, lets OpenCV find the markers and estimates their positions.

  \<^bold>\<open>Theories and sources.\<close>
  \<^item> \<open>Tac_Prelude\<close>: outcomes of a Go function (a value, an error, a panic), checked slice access, list facts.
  \<^item> \<open>Go_Float\<close>: float64 as a type with the finite values as rationals, infinities and NaN; rounding to the nearest
    representable value, comparisons and arithmetic; negative zero is a value of its own.
  \<^item> \<open>Go_Strings\<close>, \<open>Go_Format\<close>: byte strings, UTF-8 runes, TrimSpace and the other functions of \<^verbatim>\<open>strings\<close>; decimal
    integers, ParseInt, ParseFloat, shortest float printing; \<open>Go_Fixed\<close>: the fixed-point verbs of \<^verbatim>\<open>fmt\<close>; \<open>Go_Path\<close>: \<^verbatim>\<open>path/filepath\<close>, shown to
    mean walking through directories.
  \<^item> \<open>Go_Bufio\<close>: Scanner with its line limit and ReadSlice.
  \<^item> \<open>Go_Json\<close>, \<open>Go_Json_Print\<close>, \<open>Go_Json_Decode\<close>: the JSON parser and printer of \<^verbatim>\<open>encoding/json\<close>, the Decoder with its token
    stream, and decoding into struct fields (case-insensitive names, null, repeated members).
  \<^item> \<open>Dbms_Value\<close>, \<open>Dbms_Lexer\<close>, \<open>Dbms_Parser\<close>, \<open>Dbms_Database\<close>: \<^verbatim>\<open>value.go\<close>, \<^verbatim>\<open>lexer.go\<close>, \<^verbatim>\<open>parser.go\<close>, \<^verbatim>\<open>database.go\<close>, function by
    function. A pointer receiver is explicit state passing; a nil map is \<^const>\<open>None\<close>.
  \<^item> \<open>Dbms_Spec\<close>: an abstract semantics of the SQL subset and the refinement of \<open>Execute\<close>.
  \<^item> \<open>Dbms_Wire\<close>: frames, \<open>query\<close>, the statement splitter of the command line, literal quoting.
  \<^item> \<open>Dbms_Service\<close>: the JSON payloads, the connection loop of the server, \<open>Exec\<close> and the response checks of the client, and
    the command line.
  \<^item> \<open>Broker\<close>: \<^verbatim>\<open>broker/main.go\<close>; the interleaving of connection handlers and their deliveries is an inductive step relation.
  \<^item> \<open>Target_Service\<close>: \<^verbatim>\<open>target-service/main.go\<close>.
  \<^item> \<open>Wm_Image\<close>, \<open>Wm_Headless\<close>: \<^verbatim>\<open>backend/headless\<close> with the pixel arithmetic of \<^verbatim>\<open>image/color\<close>; \<open>Wm_Server\<close>: \<^verbatim>\<open>server/server.go\<close>, the event loop
    as an inductive step relation over any backend that meets the locale \<open>window_backend\<close>; \<open>Wm_Protocol\<close>:
    \<^verbatim>\<open>protocol/protocol.go\<close> and \<^verbatim>\<open>app/map/client.go\<close> over bytes; \<open>Wm_Run\<close>: the goroutines of \<open>Run\<close>, with its listeners, readers, cancellation and
    deferred clean-up, refined to the event loop; \<open>Wm_Commands\<close>: \<^verbatim>\<open>cmd/wm-client\<close> over the bytes of its connection, \<^verbatim>\<open>cmd/wm-server\<close> and the socket files of \<open>Run\<close>.
  \<^item> \<open>Wm_Sdl\<close>: both builds of \<^verbatim>\<open>backend/sdl\<close>. The SDL library is an argument that answers each call from the trace of the calls before
    it; the surface is a byte array with pitch and pixel format.
  \<^item> \<open>Socket_Server\<close>: the accept loop, \<open>Close\<close> and the connection table of \<^verbatim>\<open>server/dbms/internal/server/server.go\<close> and of \<^verbatim>\<open>ipc/server.go\<close> as step
    relations; \<open>Socket_Files\<close>: the lock file and the socket file of \<open>Listen\<close> and \<open>Close\<close> in both, with any number of processes that
    start, stop and are killed.
  \<^item> \<open>Map_Frame\<close>: \<^verbatim>\<open>model.go\<close>, \<^verbatim>\<open>config.go\<close>, \<^verbatim>\<open>projection.go\<close>, \<^verbatim>\<open>frame.go\<close>; \<open>Map_Messages\<close>: \<^verbatim>\<open>messages.go\<close>, \<^verbatim>\<open>broker.go\<close>; \<open>Map_Session\<close>: \<^verbatim>\<open>session.go\<close>; \<open>Map_Relay\<close>: \<open>RunWithBroker\<close>, the goroutine
    between the Broker and the session with its channels, cancellation and clean-up, as a step relation;
    \<open>Map_Preview\<close>: \<^verbatim>\<open>preview.go\<close> with the parts of \<^verbatim>\<open>image/draw\<close> it uses; \<open>Map_Config\<close>: \<open>LoadConfig\<close> on the bytes of the file, the demo targets, the text
    of \<open>PrintMarkers\<close> and \<^verbatim>\<open>cmd/map-demo/main.go\<close>; \<open>Map_Events\<close>: the event channel, \<open>subscribe\<close> of \<^verbatim>\<open>client.go\<close> with the operations on its connection and the
    goroutine of \<^verbatim>\<open>session.go\<close> that reads the events.
  \<^item> \<open>Marker_Detect\<close>, \<open>Marker_Ipc\<close>: \<^verbatim>\<open>marker\<close>, \<^verbatim>\<open>ipc\<close> and the camera source of \<^verbatim>\<open>cmd/marker-detect/serve.go\<close>.
  \<^item> \<open>Go_Math\<close>: \<^verbatim>\<open>math.Sqrt\<close>, correctly rounded, \<^verbatim>\<open>math.Abs\<close> and \<^verbatim>\<open>math.Hypot\<close>; \<open>Marker_Pose\<close>: \<^verbatim>\<open>pose/pose.go\<close> over any record of number operations, so that
    the same definitions run on float64 and on the reals; \<open>Marker_Detector\<close>: \<^verbatim>\<open>detector/detector.go\<close> and the modes of \<^verbatim>\<open>cmd/marker-detect/main.go\<close>; \<open>Marker_Command\<close>: these modes
    with the handles they open and close, the printed table and the drawn preview; \<open>Marker_Serve\<close>: the process of \<open>runServe\<close> in \<^verbatim>\<open>serve.go\<close> and the test helper
    \<^verbatim>\<open>internal/runtimehelper\<close>, as step relations over the server of \<open>Socket_Server\<close> and the camera source of \<open>Marker_Detect\<close>.
  \<^item> \<open>Service_Commands\<close>: \<^verbatim>\<open>main\<close> and the accept loop of the Broker, \<^verbatim>\<open>main\<close> and the connection of the Target Service, \<^verbatim>\<open>cmd/tacdb\<close>, \<^verbatim>\<open>cmd/tacdb-server\<close>, \<^verbatim>\<open>main\<close> of
    map-demo and \<open>SavePNG\<close>; \<open>Smoke_Harness\<close>: \<^verbatim>\<open>tests/system-smoke\<close>, its processes, scenarios and clean-up.
  \<^item> \<open>Observation_Flow\<close> and this theory: properties of several services together.

  \<^bold>\<open>What is shown.\<close> The lexer accepts exactly the spellings of token lists, the parser exactly the
  grammar of the subset, \<open>Execute\<close> refines the abstract semantics on every text, and a statement sent by the client over
  the socket returns the result of the query unchanged. Frames survive partial writes; a quoted string is one literal; a
  script runs statement by statement. In every reachable state of the Broker the subscriber table is consistent
  and what is delivered was published to a subscriber. Server and backend of the window manager agree on the
  live window in every reachable state, drawing touches exactly the pixels it should, every command of a map frame
  is accepted, and an exchange over the socket means what was sent. A map session closes its window exactly once; the
  goroutine beside it relays the targets of the Broker in order and without loss, no message of the Broker can break the session, and both end together. An observation published by the map arrives in the Target Service unchanged,
  which keeps the latest valid one per target. The preview of a map frame is pixel by pixel what the window shows, from the flags of the command to the
  picture it saves, and a map configuration loads exactly when it should. The goroutines of the window manager refine its event loop and end when it
  returns, except that one event client can be left open. The
  SDL backend calls its library in order and leaks nothing, presents exactly its image, and blends like the headless backend up to one
  level. Both socket servers stop after \<open>Close\<close> and leave no connection or handler behind; at most one database server serves on a path.
  Over the reals the pose estimate is exact, and on float64 it returns finite positions only. The detector accepts exactly the DETECT request, answers every
  request line with one line, and never leaks its camera: every mode of its command closes what it opens, and its server process ends with everything closed, except
  that a signal before \<open>Serve\<close> runs leaves the socket file. What the window manager writes to an event client is what the session reads, so that it learns of the
  window the user closed. The search of the smoke test for the repository ends in every directory, its log buffer holds the last 64 KiB, and its check of the window
  manager passes exactly if the map left no window behind.

  \<^bold>\<open>Input, output and concurrency.\<close> What a connection delivers is a byte string and how it ends; what a write
  does is an argument (\<open>writer\<close> for partial writes, a predicate where a write is all or nothing); the answers of the window
  manager to a session and the events of its select loop are arguments, in every order. Code outside
  the repository (OpenCV, picture files, the Unicode tables behind \<^verbatim>\<open>strings.ToUpper\<close>) is an argument too. Handlers that run
  concurrently are steps of a relation; a mutex-protected section is one step.

  \<^bold>\<open>Bounds.\<close> No definition uses fuel: loops over input end because the input gets shorter, and the termination proofs say so; the one
  loop without a bound of its own, the search for the repository, is a partial function that is shown to return.
  The nesting limit of \<^verbatim>\<open>encoding/json\<close> (10000) is part of the model. Machine integers wrap where the
  code computes with them (\<open>wrap64\<close> in the backend, 64-bit words in the database).

  \<^bold>\<open>Not modelled.\<close> The parsing of flags by \<^verbatim>\<open>flag\<close>, whose values are arguments; OpenCV, the SDL library, decoding and encoding PNG files, the operating
  system's sockets and signals, which are arguments or steps that may happen at any moment; real time, so that a deadline is an operation that may fail; quoting
  in log lines and the texts of errors that no one parses; what the ready functions of the smoke test read from logs and sockets; the compiler, virtual machine and
  runtime, which are not written in Go.
\<close>

section \<open>A map frame on the window manager\<close>

text \<open>The requests of one client one after the other, with their responses.\<close>

fun serve_all :: "(nat \<Rightarrow> nat) \<Rightarrow> 'b backend_ops \<Rightarrow> Request list \<Rightarrow> Server \<Rightarrow> 'b \<Rightarrow> Server \<times> 'b \<times> Response option list" where
  "serve_all upper ops [] s b = (s, b, [])"
| "serve_all upper ops (r # rs) s b =
     (let (s1, b1, resp) = handleRequest upper ops True (Ok r) s b; (s2, b2, resps) = serve_all upper ops rs s1 b1
      in (s2, b2, resp # resps))"

definition drawable :: "(string \<Rightarrow> (string, picture) outcome) \<Rightarrow> Command \<Rightarrow> bool" where
  "drawable files c \<longleftrightarrow>
     cmd_Command c = ''BEGIN_FRAME'' \<and> cmd_Color c \<noteq> None
   \<or> cmd_Command c = ''DRAW_IMAGE'' \<and> cmd_ImagePath c \<noteq> [] \<and> 0 < cmd_Width c \<and> 0 < cmd_Height c \<and> cmd_X c \<noteq> None \<and> cmd_Y c \<noteq> None
       \<and> (\<exists>pic. files (cmd_ImagePath c) = Ok pic)
   \<or> cmd_Command c = ''DRAW_CIRCLE'' \<and> cmd_X c \<noteq> None \<and> cmd_Y c \<noteq> None \<and> 0 < cmd_Radius c \<and> cmd_Color c \<noteq> None
   \<or> cmd_Command c = ''PRESENT''"

lemma drawable_command: "drawable files c \<Longrightarrow> command_of upper (to_request c) = cmd_Command c"
  by (auto simp: drawable_def command_of_def to_request_def command_word)

lemma draw_dispatch:
  assumes "drawable files c" "has_window s" "live_window b"
  shows "\<exists>b' r. handleRequest upper (headless_ops files) True (Ok (to_request c)) s b = (s, b', Some r) \<and> resp_OK r \<and> live_window b'"
proof -
  from assms(3) obtain w where w: "b = Some w" "\<not> window.closed w" by (auto simp: live_window_def split: option.splits)
  show ?thesis using assms(1,2) w unfolding handleRequest_def outcome.case drawable_command[OF assms(1)]
    by (auto simp: drawable_def dispatch_def handler_defs headless_ops_def on_window_def answer_def reply_def live_window_def
        to_request_def BeginFrame_def DrawImage_def DrawCircle_def Present_def Let_def)
qed

lemma serve_drawable:
  "list_all (drawable files) cs \<Longrightarrow> has_window s \<Longrightarrow> live_window b \<Longrightarrow>
   \<exists>b' rs. serve_all upper (headless_ops files) (map to_request cs) s b = (s, b', map Some rs) \<and> length rs = length cs
     \<and> list_all resp_OK rs \<and> live_window b'"
proof (induction cs arbitrary: b)
  case (Cons c cs)
  obtain b1 r where c: "handleRequest upper (headless_ops files) True (Ok (to_request c)) s b = (s, b1, Some r)"
      "resp_OK r" "live_window b1"
    using draw_dispatch[of files c s b upper] Cons.prems by auto
  obtain b' rs where cs: "serve_all upper (headless_ops files) (map to_request cs) s b1 = (s, b', map Some rs)"
      "length rs = length cs" "list_all resp_OK rs" "live_window b'"
    using Cons.IH[OF _ Cons.prems(2) c(3)] Cons.prems(1) by auto
  show ?case using c cs by (intro exI[of _ b'] exI[of _ "r # rs"]) simp
qed simp

lemma frame_drawable:
  assumes "BuildFrame cfg ts = Ok (cmds, ms)" "files (cfg_Image cfg) = Ok pic"
  shows "list_all (drawable files) cmds"
proof -
  have t: "frame_targets cfg seen us = Ok (cs, ns) \<Longrightarrow> list_all (drawable files) cs" for seen us cs ns
  proof (induction cfg seen us arbitrary: cs ns rule: frame_targets.induct)
    case (2 cfg seen u us)
    then show ?case
      by (auto simp: outcome_simps marker_circles_def circle_def drawable_def command_def split: if_splits outcome.splits prod.splits)
  qed simp
  obtain cs where "Validate cfg = Ok ()" "frame_targets cfg {} ts = Ok (cs, ms)" "cmds = frame_head cfg @ cs @ [command ''PRESENT'']"
    using assms(1) by (auto simp: BuildFrame_def outcome_simps)
  then show ?thesis using t assms(2)
    by (auto simp: frame_head_def drawable_def command_def Validate_def split: if_splits)
qed

lemma serve_all_append:
  "serve_all upper ops (xs @ ys) s b =
     (let (s1, b1, r1) = serve_all upper ops xs s b; (s2, b2, r2) = serve_all upper ops ys s1 b1 in (s2, b2, r1 @ r2))"
  by (induction xs arbitrary: s b) (auto simp: Let_def split: prod.splits)

lemma serve_all_wf:
  "valid_files files \<Longrightarrow> wf_backend b \<Longrightarrow> serve_all upper (headless_ops files) rs s b = (s', b', resps) \<Longrightarrow> wf_backend b'"
proof (induction rs arbitrary: s b resps)
  case (Cons r rs)
  obtain s1 b1 resp where h: "handleRequest upper (headless_ops files) True (Ok r) s b = (s1, b1, resp)" by (metis prod_cases3)
  have "wf_backend b1" using headless_inv.dispatch_good[of files b True "command_of upper r" r s] Cons.prems h
    by (simp add: handleRequest_def)
  then show ?case using Cons h by (auto simp: Let_def split: prod.splits)
qed simp

lemma present_shows:
  assumes "wf_backend b" "has_window s" "live_window b"
  shows "\<exists>w r. handleRequest upper (headless_ops files) True (Ok (to_request (command ''PRESENT''))) s b = (s, Some w, Some r)
     \<and> front_buf w = back_buf w"
proof -
  from assms(1,3) obtain w where w: "b = Some w" "\<not> window.closed w" "wf_window w"
    by (auto simp: live_window_def wf_backend_def split: option.splits)
  have c: "command_of upper (to_request (command ''PRESENT'')) = ''PRESENT''"
    by (rule drawable_command[of "\<lambda>_. Err []", THEN trans]) (simp_all add: drawable_def command_def)
  show ?thesis using assms(2) w Present_eq[OF w(3,2)] unfolding handleRequest_def outcome.case c
    by (simp add: dispatch_def handle_present_def headless_ops_def on_window_def answer_def)
qed

text \<open>A frame of the map is accepted by the window manager: when \<open>BuildFrame\<close> succeeds, the server holds a
  live headless window and the map picture decodes, every command of the frame, sent in order, is answered
  with success, no request closes the window or crashes the server, and at the end the window shows what
  was drawn.\<close>

theorem map_frame_accepted:
  assumes "BuildFrame cfg ts = Ok (cmds, ms)" "files (cfg_Image cfg) = Ok pic" "valid_files files"
    and "has_window s" "live_window b" "wf_backend b"
  shows "\<exists>w rs. serve_all upper (headless_ops files) (map to_request cmds) s b = (s, Some w, map Some rs)
     \<and> length rs = length cmds \<and> list_all resp_OK rs \<and> live_window (Some w) \<and> front_buf w = back_buf w"
proof -
  have d: "list_all (drawable files) cmds" by (rule frame_drawable[where files = files, OF assms(1,2)])
  obtain cs where cs: "cmds = cs @ [command ''PRESENT'']"
    using assms(1) by (auto simp: BuildFrame_def outcome_simps)
  obtain b1 rs1 where b1: "serve_all upper (headless_ops files) (map to_request cs) s b = (s, b1, map Some rs1)" "live_window b1"
    using serve_drawable[of files cs s b upper] d assms(4,5) unfolding cs by auto
  obtain w r where w: "handleRequest upper (headless_ops files) True (Ok (to_request (command ''PRESENT''))) s b1 = (s, Some w, Some r)"
      "front_buf w = back_buf w"
    using present_shows[OF serve_all_wf[OF assms(3,6) b1(1)] assms(4) b1(2)] by blast
  have "serve_all upper (headless_ops files) (map to_request cmds) s b = (s, Some w, map Some (rs1 @ [r]))"
    unfolding cs map_append serve_all_append b1(1) using w(1) by simp
  moreover obtain b' rs where "serve_all upper (headless_ops files) (map to_request cmds) s b = (s, b', map Some rs)"
      "length rs = length cmds" "list_all resp_OK rs" "live_window b'"
    using serve_drawable[OF d assms(4,5)] by blast
  ultimately have "b' = Some w" "serve_all upper (headless_ops files) (map to_request cmds) s b = (s, Some w, map Some rs)" by simp_all
  then show ?thesis using w(2) \<open>length rs = length cmds\<close> \<open>list_all resp_OK rs\<close> \<open>live_window b'\<close> by blast
qed

lemma map_frame_accepted_witness:
  "\<exists>w rs. serve_all (\<lambda>r. r) (headless_ops (\<lambda>_. Ok sample_picture))
       (map to_request (fst (the_ok (BuildFrame sample_config [])))) \<lparr>has_window = True, windowID = ''map'', stopped = False\<rparr>
       (Some sample_window) = (\<lparr>has_window = True, windowID = ''map'', stopped = False\<rparr>, Some w, map Some rs)
     \<and> length rs = 3 \<and> list_all resp_OK rs \<and> live_window (Some w) \<and> front_buf w = back_buf w"
proof -
  have b: "BuildFrame sample_config [] = Ok (frame_head sample_config @ [command ''PRESENT''], [])"
    by (simp add: BuildFrame_def sample_config_def Validate_def Bounds_validate_def unit_bounds_def f64_le_def)
  have v: "valid_files (\<lambda>_. Ok sample_picture)" by (simp add: valid_files_def valid_picture_def sample_picture_def)
  have h: "has_window \<lparr>has_window = True, windowID = ''map'', stopped = False\<rparr>" "live_window (Some sample_window)"
      "wf_backend (Some sample_window)"
    using sample_window_wf by (simp_all add: live_window_def wf_backend_def)
  have l: "length (frame_head sample_config @ [command ''PRESENT'']) = 3" by (simp add: frame_head_def)
  show ?thesis unfolding b outcome.sel fst_conv
    using map_frame_accepted[where files = "\<lambda>_. Ok sample_picture" and upper = "\<lambda>r. r", OF b refl v h] unfolding l .
qed

section \<open>The preview and the window\<close>

text \<open>A command that the preview accepts is accepted by the server, and the window follows the canvas.\<close>

lemma preview_step_window:
  assumes "preview_step files cfg c p = Ok p'" "previewed w p" "map_Width cfg = 960" "map_Height cfg = 640"
    and "valid_files files" "\<forall>pic. files [] \<noteq> Ok pic" "has_window s"
  shows "\<exists>w' r. handleRequest upper (headless_ops files) True (Ok (to_request c)) s (Some w) = (s, Some w', Some r) \<and> resp_OK r \<and> previewed w' p'"
proof -
  have w: "\<not> window.closed w" "wf_window w" using assms(2) by (simp_all add: previewed_def)
  have np: "\<not> presented p" using assms(1) by (auto simp: preview_step_def split: if_splits)
  have cmd: "command_of upper (to_request c) = cmd_Command c" if "cmd_Command c \<in> {''BEGIN_FRAME'', ''DRAW_IMAGE'', ''DRAW_CIRCLE'', ''PRESENT''}"
    using that by (auto simp: command_of_def to_request_def command_word)
  consider (first) "cmd_Command c = ''BEGIN_FRAME''" "preview_begin c p = Ok p'"
    | (image) "cmd_Command c = ''DRAW_IMAGE''" "started p" "preview_image files cfg c p = Ok p'"
    | (circle) "cmd_Command c = ''DRAW_CIRCLE''" "started p" "preview_draw_circle cfg c p = Ok p'"
    | (present) "cmd_Command c = ''PRESENT''" "started p" "p' = p\<lparr>presented := True\<rparr>"
    using assms(1) by (auto simp: preview_step_def split: if_splits)
  then show ?thesis
  proof cases
    case first
    obtain col where col: "cmd_Color c = Some col" "previewed (fst (BeginFrame col w)) p'" "snd (BeginFrame col w) = Ok ()"
      using begin_shows[OF assms(2) np first(2)] by blast
    show ?thesis using cmd first(1) col assms(7)
      by (cases "BeginFrame col w") (simp add: handleRequest_def dispatch_def handle_begin_frame_def headless_ops_def on_window_def answer_def reply_def to_request_def)
  next
    case image
    have "cmd_ImagePath c \<noteq> []" using image(3) assms(6) by (auto simp: preview_image_def split: outcome.splits if_splits)
    from image_shows[OF assms(2) image(2) np image(3) assms(3-5) this] this show ?thesis using cmd image(1) assms(7)
      by (cases "DrawImage files (cmd_ImagePath c) 0 0 960 640 w")
         (simp add: handleRequest_def dispatch_def handle_draw_image_def headless_ops_def on_window_def answer_def reply_def to_request_def)
  next
    case circle
    obtain x y col where x: "cmd_X c = Some x" "cmd_Y c = Some y" "cmd_Color c = Some col" "0 < cmd_Radius c"
        "previewed (fst (DrawCircle x y (cmd_Radius c) col w)) p'" "snd (DrawCircle x y (cmd_Radius c) col w) = Ok ()"
      using circle_shows[OF assms(2) circle(2) np circle(3) assms(3,4)] by blast
    show ?thesis using cmd circle(1) x assms(7)
      by (cases "DrawCircle x y (cmd_Radius c) col w")
         (simp add: handleRequest_def dispatch_def handle_draw_circle_def headless_ops_def on_window_def answer_def reply_def to_request_def)
  next
    case present
    have "previewed (w\<lparr>front_buf := back_buf w\<rparr>) p'" using assms(2) present(2,3) by (simp add: previewed_def wf_window_def)
    then show ?thesis using cmd present(1) Present_eq[OF w(2,1)] assms(7)
      by (simp add: handleRequest_def dispatch_def handle_present_def headless_ops_def on_window_def answer_def reply_def to_request_def)
  qed
qed

lemma preview_loop_window:
  assumes "preview_loop files cfg cs p = Ok p'" "previewed w p" "map_Width cfg = 960" "map_Height cfg = 640"
    and "valid_files files" "\<forall>pic. files [] \<noteq> Ok pic" "has_window s"
  shows "\<exists>w' rs. serve_all upper (headless_ops files) (map to_request cs) s (Some w) = (s, Some w', map Some rs)
     \<and> length rs = length cs \<and> list_all resp_OK rs \<and> previewed w' p'"
  using assms(1,2)
proof (induction cs arbitrary: p w)
  case (Cons c cs)
  obtain p1 where p1: "preview_step files cfg c p = Ok p1" "preview_loop files cfg cs p1 = Ok p'"
    using Cons.prems(1) by (auto simp: outcome_simps)
  obtain w1 r where w1: "handleRequest upper (headless_ops files) True (Ok (to_request c)) s (Some w) = (s, Some w1, Some r)"
      "resp_OK r" "previewed w1 p1"
    using preview_step_window[OF p1(1) Cons.prems(2) assms(3-7)] by blast
  obtain w' rs where "serve_all upper (headless_ops files) (map to_request cs) s (Some w1) = (s, Some w', map Some rs)"
      "length rs = length cs" "list_all resp_OK rs" "previewed w' p'"
    using Cons.IH[OF p1(2) w1(3)] by blast
  then show ?case using w1 by (intro exI[of _ w'] exI[of _ "r # rs"]) simp
qed simp

text \<open>The preview accepts what \<open>BuildFrame\<close> emits.\<close>

lemma frame_targets_preview:
  assumes "frame_targets cfg seen us = Ok (cs, ns)" "Validate cfg = Ok ()" "float_bounds (map_Bounds cfg)" "started p" "\<not> presented p"
  shows "\<exists>p'. preview_loop files cfg (cs @ [command ''PRESENT'']) p = Ok p' \<and> presented p'"
  using assms
proof (induction cfg seen us arbitrary: cs ns p rule: frame_targets.induct)
  case (1 cfg seen)
  then show ?case by (simp add: preview_step_def command_def)
next
  case (2 cfg seen u us)
  obtain pt shown cs' ns' where d: "Project (map_Bounds cfg) (map_Width cfg) (map_Height cfg) (Latitude u) (Longitude u) = Ok (pt, shown)"
      "frame_targets cfg (insert (TargetID u) seen) us = Ok (cs', ns')"
      "\<not> (TargetID u = [] \<or> TargetID u \<in> seen)"
      "\<not> (\<not> f64_finite (Probability u) \<or> f64_lt (Probability u) (Fin 0) \<or> f64_lt (Fin 1) (Probability u))"
      "cs = (if shown then marker_circles pt (Probability u) @ cs' else cs')"
    using "2.prems"(1) by (auto simp: outcome_simps split: if_splits outcome.splits prod.splits)
  have dims: "map_Width cfg = 960" "map_Height cfg = 640" using "2.prems"(2) by (simp_all add: Validate_def split: if_splits)
  note IH = "2.IH"[OF d(3,4) d(1) _ d(2)]
  show ?case
  proof (cases shown)
    case False
    then show ?thesis using IH "2.prems" d by auto
  next
    case True
    then have b: "0 \<le> fst pt \<and> fst pt < 960 \<and> 0 \<le> snd pt \<and> snd pt < 640"
      using Project_range[of "map_Bounds cfg" "map_Width cfg" "map_Height cfg" "Latitude u" "Longitude u"] d(1) dims "2.prems"(3) by (cases pt) auto
    have step: "preview_step files cfg (circle pt r col) q = Ok (q\<lparr>canvas := preview_circle (fst pt) (snd pt) r col (canvas q)\<rparr>)"
      if "0 < r" "r \<le> 128" "started q" "\<not> presented q" for r col q
      using b dims that by (simp add: preview_step_def preview_draw_circle_def circle_def command_def)
    show ?thesis using d(5) True IH "2.prems"(2-5) by (simp add: marker_circles_def step)
  qed
qed

lemma frame_preview:
  assumes "BuildFrame cfg ts = Ok (cmds, ms)" "float_bounds (map_Bounds cfg)" "files (cfg_Image cfg) = Ok pic"
    and "pic_dx pic = 960" "pic_dy pic = 640"
  shows "\<exists>p. preview_loop files cfg cmds \<lparr>canvas = img, started = False, presented = False\<rparr> = Ok p \<and> presented p"
proof -
  obtain cs where c: "Validate cfg = Ok ()" "frame_targets cfg {} ts = Ok (cs, ms)" "cmds = frame_head cfg @ cs @ [command ''PRESENT'']"
    using assms(1) by (auto simp: BuildFrame_def outcome_simps)
  have dims: "map_Width cfg = 960" "map_Height cfg = 640" using c(1) by (simp_all add: Validate_def split: if_splits)
  let ?p = "\<lparr>canvas = img, started = False, presented = False\<rparr>"
  obtain p1 where "preview_loop files cfg (frame_head cfg) ?p = Ok p1" "started p1" "\<not> presented p1"
    using assms(3-5) dims by (simp add: frame_head_def preview_step_def preview_begin_def preview_image_def command_def)
  moreover have "preview_loop files cfg (xs @ ys) p = obind (preview_loop files cfg xs p) (preview_loop files cfg ys)" for xs ys p
    by (induction xs arbitrary: p) (simp_all add: obind_assoc cong: obind_cong)
  ultimately show ?thesis using frame_targets_preview[OF c(2,1) assms(2), of p1 files] by (simp add: c(3))
qed

lemma preview_window:
  assumes "BuildFrame cfg ts = Ok (cmds, ms)" "float_bounds (map_Bounds cfg)" "files (cfg_Image cfg) = Ok pic"
    and "pic_dx pic = 960" "pic_dy pic = 640" "valid_files files" "\<forall>pic. files [] \<noteq> Ok pic"
    and "has_window s" "wf_window w" "\<not> window.closed w" "Dx (back_buf w) = 960" "Dy (back_buf w) = 640"
  shows "\<exists>img w' rs. RenderPreview files cfg cmds = Ok img
     \<and> serve_all upper (headless_ops files) (map to_request cmds) s (Some w) = (s, Some w', map Some rs)
     \<and> length rs = length cmds \<and> list_all resp_OK rs \<and> front_buf w' = img"
proof -
  have v: "Validate cfg = Ok ()" using assms(1) by (auto simp: BuildFrame_def outcome_simps)
  then have dims: "map_Width cfg = 960" "map_Height cfg = 640" by (simp_all add: Validate_def split: if_splits)
  obtain img where img: "NewRGBA 960 640 = (Ok img :: (preview_error, image) outcome)" by (simp add: NewRGBA_def)
  let ?p = "\<lparr>canvas = img, started = False, presented = False\<rparr>"
  obtain p where p: "preview_loop files cfg cmds ?p = Ok p" "presented p"
    using frame_preview[where files = files, OF assms(1-5)] by blast
  have "previewed w ?p" using NewRGBA_wf[OF img] assms(9-12) by (simp add: previewed_def)
  then obtain w' rs where "serve_all upper (headless_ops files) (map to_request cmds) s (Some w) = (s, Some w', map Some rs)"
      "length rs = length cmds" "list_all resp_OK rs" "previewed w' p"
    using preview_loop_window[OF p(1) _ dims assms(6-8)] by blast
  moreover have "RenderPreview files cfg cmds = Ok (canvas p)" using v img p dims by (simp add: RenderPreview_def)
  ultimately show ?thesis using p(2) by (auto simp: previewed_def)
qed

text \<open>C8: The preview and the window agree: for every frame the map builds, the preview renders an image, the window
  manager accepts every command, and the headless window of the map's size shows exactly that image, pixel
  by pixel, although the two draw with different code (rows of half width \<open>int(math.Sqrt(..))\<close> and \<^verbatim>\<open>image/draw\<close> in one, a
  test for each pixel and the blending of the backend in the other). Opening the empty path fails.\<close>

theorem preview_shows_window:
  assumes "BuildFrame cfg ts = Ok (cmds, ms)" "float_bounds (map_Bounds cfg)" "files (cfg_Image cfg) = Ok pic"
    and "pic_dx pic = 960" "pic_dy pic = 640" "valid_files files" "\<forall>pic. files [] \<noteq> Ok pic"
    and "has_window s" "wf_window w" "\<not> window.closed w" "Dx (back_buf w) = 960" "Dy (back_buf w) = 640"
  shows "\<exists>img w' rs. RenderPreview files cfg cmds = Ok img
     \<and> serve_all upper (headless_ops files) (map to_request cmds) s (Some w) = (s, Some w', map Some rs)
     \<and> length rs = length cmds \<and> list_all resp_OK rs \<and> front_buf w' = img"
  using preview_window[OF assms] .

definition whole_picture :: picture where
  "whole_picture = \<lparr>pic_minX = 0, pic_minY = 0, pic_dx = 960, pic_dy = 640, pic_at = (\<lambda>x y. (65535, 0, 0, 65535))\<rparr>"

definition whole_files :: "string \<Rightarrow> (string, picture) outcome" where
  "whole_files path = (if path = [] then Err ''no such file'' else Ok whole_picture)"

lemma map_window:
  obtains w where "Create \<lparr>cfg_ID = ''map'', cfg_Title = [], cfg_Width = 960, cfg_Height = 640\<rparr> None = (Some w, Ok ())"
    "wf_window w" "\<not> window.closed w" "Dx (back_buf w) = 960" "Dy (back_buf w) = 640"
proof -
  obtain img where img: "NewRGBA 960 640 = (Ok img :: (string, image) outcome)" by (simp add: NewRGBA_def)
  define w where "w = \<lparr>visible = False, closed = False, back_buf = img, front_buf = img\<rparr>"
  have c: "Create \<lparr>cfg_ID = ''map'', cfg_Title = [], cfg_Width = 960, cfg_Height = 640\<rparr> None = (Some w, Ok ())"
    using img by (simp add: Create_def w_def)
  show ?thesis by (rule that[OF c]) (use Create_wf[OF c] NewRGBA_wf[OF img] in \<open>simp_all add: w_def\<close>)
qed

lemma preview_shows_window_witness:
  "\<exists>img w' rs. RenderPreview whole_files sample_config (fst (the_ok (BuildFrame sample_config []))) = Ok img
     \<and> serve_all (\<lambda>r. r) (headless_ops whole_files) (map to_request (fst (the_ok (BuildFrame sample_config []))))
         \<lparr>has_window = True, windowID = ''map'', stopped = False\<rparr>
         (fst (Create \<lparr>cfg_ID = ''map'', cfg_Title = [], cfg_Width = 960, cfg_Height = 640\<rparr> None))
       = (\<lparr>has_window = True, windowID = ''map'', stopped = False\<rparr>, Some w', map Some rs)
     \<and> list_all resp_OK rs \<and> front_buf w' = img"
proof -
  have b: "BuildFrame sample_config [] = Ok (frame_head sample_config @ [command ''PRESENT''], [])"
    by (simp add: BuildFrame_def sample_config_def Validate_def Bounds_validate_def unit_bounds_def f64_le_def)
  have f: "float_bounds (map_Bounds sample_config)" "whole_files (cfg_Image sample_config) = Ok whole_picture"
    using float_unit_bounds by (simp_all add: sample_config_def whole_files_def)
  have p: "pic_dx whole_picture = 960" "pic_dy whole_picture = 640" "valid_files whole_files" "\<forall>pic. whole_files [] \<noteq> Ok pic"
    by (auto simp: whole_picture_def valid_files_def valid_picture_def whole_files_def)
  have h: "has_window \<lparr>has_window = True, windowID = ''map'', stopped = False\<rparr>" by simp
  obtain w where c: "Create \<lparr>cfg_ID = ''map'', cfg_Title = [], cfg_Width = 960, cfg_Height = 640\<rparr> None = (Some w, Ok ())"
    and w: "wf_window w" "\<not> window.closed w" "Dx (back_buf w) = 960" "Dy (back_buf w) = 640" by (rule map_window)
  show ?thesis using preview_shows_window[OF b f p h w, of "\<lambda>r. r"] unfolding b outcome.sel fst_conv c by blast
qed

section \<open>The demo\<close>

text \<open>C15: The demo from its flags to the picture it saves: whenever the configuration loads and the map picture decodes with the size that
  its header states, \<open>map-demo -preview\<close> builds its frame and renders it. It then refuses to overwrite the map picture or the
  configuration, reports that saving failed, or has saved, under the absolute path of the flag, exactly what a window
  of the window manager shows after the commands of the frame, with the list of the targets that lie inside the
  bounds and the number of the others.\<close>

theorem map_demo_preview:
  assumes "fl_args fl = 0" "fl_preview fl \<noteq> []" "fl_broker fl = []" "fl_observations fl = []"
    and "getwd fs = Ok cwd" "IsAbs cwd" "LoadConfig fs (fl_config fl) = Ok cfg"
    and "pictures (cfg_Image cfg) = Ok pic" "pic_dx pic = 960" "pic_dy pic = 640" "valid_files pictures" "\<forall>pic. pictures [] \<noteq> Ok pic"
    and "has_window s" "wf_window w" "\<not> window.closed w" "Dx (back_buf w) = 960" "Dy (back_buf w) = 640"
  shows "\<exists>cmds ms img w' rs. BuildFrame cfg DemoTargets = Ok (cmds, ms)
     \<and> map marker_Target ms = filter (\<lambda>t. inside (map_Bounds cfg) (Latitude t) (Longitude t)) DemoTargets
     \<and> serve_all upper (headless_ops pictures) (map to_request cmds) s (Some w) = (s, Some w', map Some rs)
     \<and> list_all resp_OK rs \<and> front_buf w' = img
     \<and> demo_main fs pictures save_png read_file fl =
         (let output = path_to (walk (walk [] cwd) (fl_preview fl)); metadata = path_to (walk (walk [] cwd) (fl_config fl))
          in if output = cfg_Image cfg \<or> output = metadata then Err OverwritesSource
             else case save_png output img of
                    Some e \<Rightarrow> Err (SaveFailed e)
                  | None \<Rightarrow> Ok (SavedPreview output img (PrintMarkers ms 4 @ saved_line output)))"
proof -
  note v = LoadConfig_valid[OF assms(7)]
  obtain cmds ms where b: "BuildFrame cfg DemoTargets = Ok (cmds, ms)"
      "map marker_Target ms = filter (\<lambda>t. inside (map_Bounds cfg) (Latitude t) (Longitude t)) DemoTargets"
    using build_frame_defined[OF v(2,1) demo_targets_valid] by blast
  obtain img w' rs where "RenderPreview pictures cfg cmds = Ok img" "list_all resp_OK rs" "front_buf w' = img"
      "serve_all upper (headless_ops pictures) (map to_request cmds) s (Some w) = (s, Some w', map Some rs)"
    using preview_window[OF b(1) v(2) assms(8-17)] by blast
  moreover have "Abs (getwd fs) p = Ok (path_to (walk (walk [] cwd) p))" for p using Abs_walk[of p "getwd fs"] assms(5,6) by simp
  moreover have "length DemoTargets = 4" by (simp add: DemoTargets_def)
  ultimately show ?thesis using b assms(1-4,7) by (auto simp: demo_main_def demo_preview_def Let_def split: option.splits)
qed

definition test_flags :: demo_flags where
  "test_flags = \<lparr>fl_config = ''assets/test-map.json'', fl_preview = ''out.png'', fl_broker = [], fl_observations = [], fl_args = 0\<rparr>"

lemma map_demo_preview_witness:
  "\<exists>img ms. demo_main test_files whole_files (\<lambda>_ _. None) (\<lambda>_. Err []) test_flags
      = Ok (SavedPreview ''/srv/map/out.png'' img (PrintMarkers ms 4 @ saved_line ''/srv/map/out.png''))
    \<and> map (TargetID \<circ> marker_Target) ms = [''t1'', ''t2'', ''t3'']"
proof -
  let ?cfg = "test_config\<lparr>cfg_Image := ''/srv/map/assets/test-map.png''\<rparr>"
  have l: "LoadConfig test_files (fl_config test_flags) = Ok ?cfg" using test_map_loaded by (simp add: test_flags_def)
  have f: "fl_args test_flags = 0" "fl_preview test_flags \<noteq> []" "fl_broker test_flags = []" "fl_observations test_flags = []"
      "getwd test_files = Ok ''/srv/map''" "IsAbs ''/srv/map''"
    by (simp_all add: test_flags_def test_files_def)
  have p: "whole_files (cfg_Image ?cfg) = Ok whole_picture" "pic_dx whole_picture = 960" "pic_dy whole_picture = 640" "valid_files whole_files"
      "\<forall>pic. whole_files [] \<noteq> Ok pic" "has_window \<lparr>has_window = True, windowID = ''map'', stopped = False\<rparr>"
    by (auto simp: whole_picture_def valid_files_def valid_picture_def whole_files_def)
  obtain w where w: "wf_window w" "\<not> window.closed w" "Dx (back_buf w) = 960" "Dy (back_buf w) = 640" by (rule map_window)
  have o: "path_to (walk (walk [] ''/srv/map'') (fl_preview test_flags)) = ''/srv/map/out.png''"
    "path_to (walk (walk [] ''/srv/map'') (fl_config test_flags)) = ''/srv/map/assets/test-map.json''"
    by (simp_all add: test_flags_def path_to_def walk_def clean_step_def)
  obtain ms img where m: "map marker_Target ms = filter (\<lambda>t. inside (map_Bounds ?cfg) (Latitude t) (Longitude t)) DemoTargets"
      "demo_main test_files whole_files (\<lambda>_ _. None) (\<lambda>_. Err []) test_flags
        = Ok (SavedPreview ''/srv/map/out.png'' img (PrintMarkers ms 4 @ saved_line ''/srv/map/out.png''))"
    using map_demo_preview[OF f l p(1-5) p(6) w, of "\<lambda>r. r" "\<lambda>_ _. None" "\<lambda>_. Err []"] by (auto simp: o Let_def)
  have "map TargetID (map marker_Target ms) = [''t1'', ''t2'', ''t3'']" unfolding m(1) using demo_visible by simp
  then show ?thesis using m(2) by auto
qed

end
